(* ===== verification/Prelude.thy ===== *)
theory Prelude
  imports Main "HOL-Library.Word"
begin

text \<open>
  Shared vocabulary of the development: the lemma collections the component proofs draw on,
  the machine types of the C++ sources under their own names, and the generic facts about
  lists, association lists and machine words that several components need.
\<close>

unbundle bit_operations_syntax

named_theorems wp_rules "weakest-precondition rules of the memory verbs and of the procedures"
named_theorems cell_defs "definitions that describe where an object lives in memory"

type_synonym uint64 = "64 word"
type_synonym cint = "32 word"

section \<open>Association lists read as memory contents\<close>

text \<open>
  Memory owned by a data structure is described by a list of address/content pairs with
  pairwise different addresses.  \<open>holds m cs\<close> says that memory \<open>m\<close> has that content.
\<close>

definition holds :: "('a \<Rightarrow> 'c option) \<Rightarrow> ('a \<times> 'c) list \<Rightarrow> bool" where
  "holds m cs \<longleftrightarrow> distinct (map fst cs) \<and> (\<forall>(a, c) \<in> set cs. m a = Some c)"

lemma holds_Nil [simp]: "holds m []"
  by (simp add: holds_def)

lemma holdsD: "holds m cs \<Longrightarrow> (a, c) \<in> set cs \<Longrightarrow> m a = Some c"
  by (auto simp: holds_def)

lemma holds_dom: "holds m cs \<Longrightarrow> a \<in> fst ` set cs \<Longrightarrow> m a \<noteq> None"
  by (auto simp: holds_def)

lemma holds_append:
  "holds m (xs @ ys) \<longleftrightarrow> holds m xs \<and> holds m ys \<and> fst ` set xs \<inter> fst ` set ys = {}"
  by (auto simp: holds_def)

lemma holds_Cons:
  "holds m ((a, c) # xs) \<longleftrightarrow> m a = Some c \<and> holds m xs \<and> a \<notin> fst ` set xs"
  by (auto simp: holds_def)

lemma holds_cong:
  "holds m cs \<Longrightarrow> (\<And>a. a \<in> fst ` set cs \<Longrightarrow> m' a = m a) \<Longrightarrow> holds m' cs"
  by (force simp: holds_def)

lemma holds_update_other:
  "holds m cs \<Longrightarrow> a \<notin> fst ` set cs \<Longrightarrow> holds (m(a := c)) cs"
  by (erule holds_cong) auto

lemma holds_restrict:
  "holds m cs \<Longrightarrow> fst ` set cs \<inter> A = {} \<Longrightarrow> holds (m |` (- A)) cs"
  by (erule holds_cong) (auto simp: restrict_map_def)

lemma holds_fresh_disjoint:
  "holds m cs \<Longrightarrow> (\<And>a. a \<in> A \<Longrightarrow> m a = None) \<Longrightarrow> fst ` set cs \<inter> A = {}"
  by (auto simp: holds_def)

lemma holds_upds_other:
  "holds m cs \<Longrightarrow> fst ` set cs \<inter> set as = {} \<Longrightarrow> holds (m(as [\<mapsto>] bs)) cs"
  by (erule holds_cong, rule map_upds_apply_nontin) blast

lemma map_upds_nth:
  "distinct as \<Longrightarrow> length as = length cs \<Longrightarrow> j < length as \<Longrightarrow> (m(as [\<mapsto>] cs)) (as ! j) = Some (cs ! j)"
proof (induction as arbitrary: m cs j)
  case (Cons a as)
  then obtain c cs' where cs: "cs = c # cs'" by (cases cs) auto
  show ?case
  proof (cases j)
    case 0
    then show ?thesis using Cons.prems cs by (simp add: map_upds_apply_nontin)
  next
    case (Suc j')
    then show ?thesis using Cons cs by auto
  qed
qed simp

lemma holds_change:
  assumes "holds m (xs @ (a, c) # ys)"
  shows "holds (m(a \<mapsto> c')) (xs @ (a, c') # ys)"
proof -
  have "holds m xs" "holds m ys" "a \<notin> fst ` set xs" "a \<notin> fst ` set ys" "fst ` set xs \<inter> fst ` set ys = {}"
    using assms by (auto simp: holds_append holds_Cons)
  then show ?thesis by (auto simp: holds_append holds_Cons holds_update_other)
qed

lemma holds_extend:
  assumes "holds m xs" "m a = None"
  shows "holds (m(a \<mapsto> c)) (xs @ [(a, c)])"
proof -
  have "a \<notin> fst ` set xs" using assms holds_dom by metis
  then show ?thesis using assms(1) by (auto simp: holds_append holds_Cons holds_update_other)
qed

text \<open>
  The frame rule the tree proofs use: a part of the contents is replaced by a part that does
  not meet the rest.
\<close>

lemma holds_replace:
  assumes old: "holds m (pre @ xs @ post)"
    and new: "holds m' ys"
    and frame: "\<And>a. a \<in> fst ` set (pre @ post) \<Longrightarrow> m' a = m a"
    and apart: "fst ` set ys \<inter> fst ` set (pre @ post) = {}"
  shows "holds m' (pre @ ys @ post)"
proof -
  have po: "holds m pre" "holds m post" "fst ` set pre \<inter> fst ` set post = {}"
    using old by (auto simp: holds_append)
  have "holds m' pre" by (rule holds_cong [OF po(1)], rule frame) auto
  moreover have "holds m' post" by (rule holds_cong [OF po(2)], rule frame) auto
  ultimately show ?thesis
    using new po(3) apart by (auto simp: holds_append)
qed

lemma map_of_snoc_new: "k \<notin> fst ` set ps \<Longrightarrow> map_of (ps @ [(k, v)]) = (map_of ps)(k \<mapsto> v)"
proof
  fix j assume "k \<notin> fst ` set ps"
  then have "map_of ps k = None" by (rule map_of_eq_None_iff [THEN iffD2])
  then show "map_of (ps @ [(k, v)]) j = ((map_of ps)(k \<mapsto> v)) j"
    by (cases "map_of ps j") (auto simp: map_add_def)
qed

section \<open>Removal by swapping with the last element\<close>

lemma set_butlast_swap:
  assumes "distinct (map fst ps)" "i < length ps"
  shows "set (butlast (ps[i := last ps])) = set ps - {ps ! i}"
    and "distinct (map fst (butlast (ps[i := last ps])))"
proof -
  obtain qs q where ps: "ps = qs @ [q]" using assms(2) by (cases ps rule: rev_cases) auto
  have "set (butlast (ps[i := last ps])) = set ps - {ps ! i} \<and> distinct (map fst (butlast (ps[i := last ps])))"
  proof (cases "i = length qs")
    case True
    then show ?thesis using assms by (auto simp: ps)
  next
    case False
    then have i: "i < length qs" using assms(2) by (simp add: ps)
    define xs y zs where "xs = take i qs" and "y = qs ! i" and "zs = drop (Suc i) qs"
    have qs: "qs = xs @ y # zs" "length xs = i" using i by (simp_all add: xs_def y_def zs_def id_take_nth_drop)
    have e: "butlast (ps[i := last ps]) = xs @ q # zs"
      using qs(2) by (simp add: ps qs(1) list_update_append butlast_append)
    have "ps ! i = y" using i by (simp add: ps nth_append y_def)
    then show ?thesis using assms(1) unfolding e by (auto simp: ps qs)
  qed
  then show "set (butlast (ps[i := last ps])) = set ps - {ps ! i}"
    and "distinct (map fst (butlast (ps[i := last ps])))" by auto
qed

lemma map_of_remove:
  assumes "distinct (map fst xs)" "distinct (map fst ys)" "set ys = set xs - {(k, v)}" "(k, v) \<in> set xs"
  shows "map_of ys = (map_of xs)(k := None)"
proof
  fix k'
  have "map_of ys k' = Some w \<longleftrightarrow> ((map_of xs)(k := None)) k' = Some w" for w
  proof (cases "k' = k")
    case True
    have "w = v" if "(k, w) \<in> set xs" using eq_key_imp_eq_value [OF assms(1) that assms(4)] .
    then show ?thesis using True assms(2,3) by (auto simp: map_of_eq_Some_iff)
  next
    case False
    then show ?thesis using assms(1-3) by (auto simp: map_of_eq_Some_iff)
  qed
  then show "map_of ys k' = ((map_of xs)(k := None)) k'" by (metis not_Some_eq)
qed

section \<open>Machine words\<close>

lemma unat_mod_pred_less:
  fixes w :: uint64
  assumes "2 \<le> n" "n < 2 ^ 64"
  shows "unat (w mod (of_nat n - 1)) < n - 1"
proof -
  have e: "(of_nat n - 1 :: uint64) = of_nat (n - 1)" using assms by simp
  have "unat (of_nat (n - 1) :: uint64) = (n - 1) mod 2 ^ 64"
    by (simp add: unat_of_nat)
  then have u: "unat (of_nat (n - 1) :: uint64) = n - 1"
    using assms by simp
  have "unat (w mod (of_nat n - 1)) = unat w mod (n - 1)"
    by (simp only: e unat_mod u)
  then show ?thesis using assms by simp
qed

lemma unat_ucast_up: "unat (ucast x :: uint64) = unat x" for x :: cint
proof -
  have "unat x < 2 ^ 32" using unsigned_less [of x] by simp
  then show ?thesis by (simp add: unsigned_ucast_eq take_bit_nat_eq_self_iff)
qed

lemma scast_nonneg:
  fixes k :: cint
  assumes "unat k < 2 ^ 31"
  shows "(scast k :: uint64) = ucast k"
proof -
  have up: "uint k < 2 ^ 31" using assms by (metis of_nat_less_iff of_nat_numeral of_nat_power uint_nat)
  have "- (2 ^ 31) \<le> uint k" by (rule order_trans [of _ 0]) simp_all
  from signed_take_bit_int_eq_self [OF this up] have "signed_take_bit 31 (uint k) = uint k" .
  then have "sint k = uint k" by (simp add: sint_uint)
  then show ?thesis by (simp only: scast_eq ucast_eq)
qed

lemma nat_xor_less: "a < 2 ^ n \<Longrightarrow> b < 2 ^ n \<Longrightarrow> a XOR b < 2 ^ n" for a b :: nat
  by (metis take_bit_nat_eq_self_iff take_bit_xor)

end
