(* ===== verification/Posix.thy ===== *)
theory Posix
  imports Prelude
begin

text \<open>
  The interface to the operating system that the TCP side of the program calls.

  A thread is a program over system calls and accesses to the memory of its process: a tree
  whose nodes are actions and whose branches are what follows an answer.  The same tree has a
  sequential meaning (\<open>io_run\<close>) and an interleaved one (\<open>io_step\<close>, \<open>io_schedule\<close>).
  The operating system is a parameter, a function from a process and a call to an answer;
  \<open>None\<close> is a call that does not return yet.  What the sources rely on is the locale
  \<open>stream_os\<close>; \<open>loop_os\<close> is an executable network of processes that satisfies it.
\<close>

type_synonym byte = "8 word"
type_synonym in_addr = "32 word"
type_synonym fd = int

section \<open>Programs over system calls\<close>

datatype sockopt = SO_REUSEADDR | SO_REUSEPORT

datatype syscall =
    Socket
  | Setsockopt fd sockopt
  | Bind fd nat
  | Listen fd nat
  | Accept fd
  | Gethostbyname string
  | Inet_pton in_addr
  | Connect fd in_addr nat
  | Write_fd fd "byte list"
  | Read_fd fd nat
  | Close fd

text \<open>
  The answers: an integer status; a status with the bytes read; the host entry, which may be
  null and whose address list may be null; a status with an address.
\<close>

datatype sysret = R_int int | R_data int "byte list" | R_host "in_addr list option option" | R_addr int in_addr

text \<open>
  \<open>Get\<close> reads the memory of the process; \<open>Wait c f k\<close> waits until the memory satisfies \<open>c\<close> and
  then, in the same step, changes it by \<open>f\<close>.  \<open>Exit\<close> ends the process, \<open>Crash\<close> is undefined
  behaviour, \<open>Starved\<close> is a loop that ran out of fuel.
\<close>

datatype (dead 'm, 'r) io =
    Ret 'r
  | Exit string
  | Crash
  | Starved
  | Sys syscall "sysret \<Rightarrow> ('m, 'r) io"
  | Get "'m \<Rightarrow> ('m, 'r) io"
  | Wait "'m \<Rightarrow> bool" "'m \<Rightarrow> 'm" "('m, 'r) io"

definition upd :: "('m \<Rightarrow> 'm) \<Rightarrow> ('m, 'r) io \<Rightarrow> ('m, 'r) io" where
  "upd f k = Wait (\<lambda>_. True) f k"

definition sys_int :: "syscall \<Rightarrow> (int \<Rightarrow> ('m, 'r) io) \<Rightarrow> ('m, 'r) io" where
  "sys_int c k = Sys c (\<lambda>y. case y of R_int i \<Rightarrow> k i | _ \<Rightarrow> Crash)"

definition sys_data :: "syscall \<Rightarrow> (int \<Rightarrow> byte list \<Rightarrow> ('m, 'r) io) \<Rightarrow> ('m, 'r) io" where
  "sys_data c k = Sys c (\<lambda>y. case y of R_data i bs \<Rightarrow> k i bs | _ \<Rightarrow> Crash)"

definition sys_host :: "syscall \<Rightarrow> (in_addr list option option \<Rightarrow> ('m, 'r) io) \<Rightarrow> ('m, 'r) io" where
  "sys_host c k = Sys c (\<lambda>y. case y of R_host x \<Rightarrow> k x | _ \<Rightarrow> Crash)"

definition sys_addr :: "syscall \<Rightarrow> (int \<Rightarrow> in_addr \<Rightarrow> ('m, 'r) io) \<Rightarrow> ('m, 'r) io" where
  "sys_addr c k = Sys c (\<lambda>y. case y of R_addr i a \<Rightarrow> k i a | _ \<Rightarrow> Crash)"

text \<open>All processes, each with its memory, and the rest of the world.\<close>

record ('m, 'w) sys =
  mems :: "nat \<Rightarrow> 'm"
  world :: 'w

abbreviation set_mem :: "nat \<Rightarrow> 'm \<Rightarrow> ('m, 'w) sys \<Rightarrow> ('m, 'w) sys" where
  "set_mem p m s \<equiv> s\<lparr>mems := (mems s)(p := m)\<rparr>"

type_synonym 'w os = "nat \<Rightarrow> syscall \<Rightarrow> 'w \<Rightarrow> (sysret \<times> 'w) option"

text \<open>One action of a thread of process \<open>p\<close>; \<open>None\<close> when the thread cannot move.\<close>

fun io_step :: "'w os \<Rightarrow> nat \<Rightarrow> ('m, 'r) io \<Rightarrow> ('m, 'w) sys \<Rightarrow> (('m, 'r) io \<times> ('m, 'w) sys) option" where
  "io_step os p (Sys c k) s =
     (case os p c (world s) of None \<Rightarrow> None | Some (y, w) \<Rightarrow> Some (k y, s\<lparr>world := w\<rparr>))"
| "io_step os p (Get k) s = Some (k (mems s p), s)"
| "io_step os p (Wait c f k) s =
     (if c (mems s p) then Some (k, set_mem p (f (mems s p)) s) else None)"
| "io_step os p _ s = None"

datatype ('r, 's) io_outcome = Returned 'r 's | Exited string 's | Crashed | Starving | Blocked 's

primrec io_run :: "'w os \<Rightarrow> nat \<Rightarrow> ('m, 'r) io \<Rightarrow> ('m, 'w) sys \<Rightarrow> ('r, ('m, 'w) sys) io_outcome" where
  "io_run os p (Ret r) = (\<lambda>s. Returned r s)"
| "io_run os p (Exit msg) = (\<lambda>s. Exited msg s)"
| "io_run os p Crash = (\<lambda>s. Crashed)"
| "io_run os p Starved = (\<lambda>s. Starving)"
| "io_run os p (Sys c k) =
     (\<lambda>s. case os p c (world s) of None \<Rightarrow> Blocked s | Some (y, w) \<Rightarrow> io_run os p (k y) (s\<lparr>world := w\<rparr>))"
| "io_run os p (Get k) = (\<lambda>s. io_run os p (k (mems s p)) s)"
| "io_run os p (Wait c f k) =
     (\<lambda>s. if c (mems s p) then io_run os p k (set_mem p (f (mems s p)) s) else Blocked s)"

fun io_schedule :: "'w os \<Rightarrow> nat list \<Rightarrow> (nat \<times> ('m, 'r) io) list \<Rightarrow> ('m, 'w) sys
    \<Rightarrow> ((nat \<times> ('m, 'r) io) list \<times> ('m, 'w) sys) option" where
  "io_schedule os [] ts s = Some (ts, s)"
| "io_schedule os (i # is) ts s =
     (if i < length ts then
        (case ts ! i of (p, t) \<Rightarrow>
          (case io_step os p t s of
             None \<Rightarrow> None
           | Some (t', s') \<Rightarrow> io_schedule os is (ts[i := (p, t')]) s'))
      else None)"

lemma io_run_step: "io_step os p t s = Some (t', s') \<Longrightarrow> io_run os p t s = io_run os p t' s'"
  by (cases t) (auto split: option.splits prod.splits if_splits)

lemma io_run_sys [simp]:
  "io_run os p (sys_int c k) s = (case os p c (world s) of None \<Rightarrow> Blocked s
     | Some (R_int i, w) \<Rightarrow> io_run os p (k i) (s\<lparr>world := w\<rparr>) | Some _ \<Rightarrow> Crashed)"
  "io_run os p (sys_data c k') s = (case os p c (world s) of None \<Rightarrow> Blocked s
     | Some (R_data i bs, w) \<Rightarrow> io_run os p (k' i bs) (s\<lparr>world := w\<rparr>) | Some _ \<Rightarrow> Crashed)"
  "io_run os p (sys_host c k'') s = (case os p c (world s) of None \<Rightarrow> Blocked s
     | Some (R_host x, w) \<Rightarrow> io_run os p (k'' x) (s\<lparr>world := w\<rparr>) | Some _ \<Rightarrow> Crashed)"
  "io_run os p (sys_addr c k3) s = (case os p c (world s) of None \<Rightarrow> Blocked s
     | Some (R_addr i a, w) \<Rightarrow> io_run os p (k3 i a) (s\<lparr>world := w\<rparr>) | Some _ \<Rightarrow> Crashed)"
  by (auto simp: sys_int_def sys_data_def sys_host_def sys_addr_def split: option.splits prod.splits sysret.splits)

lemma io_run_upd [simp]: "io_run os p (upd f k) s = io_run os p k (set_mem p (f (mems s p)) s)"
  by (simp add: upd_def)

section \<open>What the sources rely on\<close>

text \<open>
  Connected stream sockets.  An end of a connection is a process and a descriptor; \<open>peer\<close> is
  the end at the other side, \<open>inbox\<close> the bytes that arrived at an end and were not read.  A
  write hands over all its bytes, in order; a read returns what has arrived, up to the size it
  asks for, and waits while nothing has.
\<close>

locale stream_os =
  fixes os :: "'w os"
    and good :: "'w \<Rightarrow> bool"
    and peer :: "'w \<Rightarrow> nat \<times> fd \<Rightarrow> (nat \<times> fd) option"
    and inbox :: "'w \<Rightarrow> nat \<times> fd \<Rightarrow> byte list"
  assumes peer_sym: "good w \<Longrightarrow> peer w a = Some b \<Longrightarrow> peer w b = Some a"
    and write_ok: "good w \<Longrightarrow> peer w (p, f) = Some e \<Longrightarrow>
      \<exists>w'. os p (Write_fd f bs) w = Some (R_int (int (length bs)), w') \<and> good w' \<and> peer w' = peer w \<and>
        inbox w' = (inbox w)(e := inbox w e @ bs)"
    and read_ok: "good w \<Longrightarrow> peer w (p, f) \<noteq> None \<Longrightarrow> inbox w (p, f) \<noteq> [] \<Longrightarrow> 0 < n \<Longrightarrow>
      \<exists>w'. os p (Read_fd f n) w = Some (R_data (int (length (take n (inbox w (p, f))))) (take n (inbox w (p, f))), w') \<and>
        good w' \<and> peer w' = peer w \<and> inbox w' = (inbox w)((p, f) := drop n (inbox w (p, f)))"
    and read_blocks: "good w \<Longrightarrow> peer w (p, f) \<noteq> None \<Longrightarrow> inbox w (p, f) = [] \<Longrightarrow> 0 < n \<Longrightarrow>
      os p (Read_fd f n) w = None"
begin

lemma peer_inj: "good w \<Longrightarrow> peer w a = Some e \<Longrightarrow> peer w b = Some e \<Longrightarrow> a = b"
  using peer_sym [of w a e] peer_sym [of w b e] by simp

end

section \<open>An executable network\<close>

text \<open>
  Descriptors are numbered through the whole network; a connection is complete, with a
  descriptor on the listening side, when \<open>Connect\<close> returns, and \<open>Accept\<close> hands out the
  descriptors in that order.
\<close>

record net =
  net_peer :: "nat \<times> fd \<Rightarrow> (nat \<times> fd) option"
  net_inbox :: "nat \<times> fd \<Rightarrow> byte list"
  next_fd :: fd
  listener :: nat
  backlog :: "fd list"

definition net_empty :: net where
  "net_empty = \<lparr>net_peer = (\<lambda>_. None), net_inbox = (\<lambda>_. []), next_fd = 3, listener = 0, backlog = []\<rparr>"

definition net_good :: "net \<Rightarrow> bool" where
  "net_good w \<longleftrightarrow> (\<forall>a b. net_peer w a = Some b \<longrightarrow> net_peer w b = Some a)"

fun loop_os :: "net os" where
  "loop_os p Socket w = Some (R_int (next_fd w), w\<lparr>next_fd := next_fd w + 1\<rparr>)"
| "loop_os p (Setsockopt f x) w = Some (R_int 0, w)"
| "loop_os p (Bind f port) w = Some (R_int 0, w)"
| "loop_os p (Listen f n) w = Some (R_int 0, w\<lparr>listener := p\<rparr>)"
| "loop_os p (Accept f) w =
     (case backlog w of [] \<Rightarrow> None | g # gs \<Rightarrow> Some (R_int g, w\<lparr>backlog := gs\<rparr>))"
| "loop_os p (Gethostbyname host) w = Some (R_host (Some (Some [0x7F000001])), w)"
| "loop_os p (Inet_pton a) w = Some (R_addr 1 a, w)"
| "loop_os p (Connect f a port) w =
     (let g = next_fd w in
      Some (R_int 0, w\<lparr>net_peer := (net_peer w)((p, f) \<mapsto> (listener w, g), (listener w, g) \<mapsto> (p, f)),
                       next_fd := g + 1, backlog := backlog w @ [g]\<rparr>))"
| "loop_os p (Write_fd f bs) w =
     (case net_peer w (p, f) of
        None \<Rightarrow> Some (R_int (-1), w)
      | Some e \<Rightarrow> Some (R_int (int (length bs)), w\<lparr>net_inbox := (net_inbox w)(e := net_inbox w e @ bs)\<rparr>))"
| "loop_os p (Read_fd f n) w =
     (case net_peer w (p, f) of
        None \<Rightarrow> Some (R_data (-1) [], w)
      | Some e \<Rightarrow>
          (if net_inbox w (p, f) = [] \<and> 0 < n then None
           else Some (R_data (int (length (take n (net_inbox w (p, f))))) (take n (net_inbox w (p, f))),
                      w\<lparr>net_inbox := (net_inbox w)((p, f) := drop n (net_inbox w (p, f)))\<rparr>)))"
| "loop_os p (Close f) w = Some (R_int 0, w)"

lemma net_good_inbox [simp]: "net_good (w\<lparr>net_inbox := f\<rparr>) = net_good w"
  by (simp add: net_good_def)

interpretation loop: stream_os loop_os net_good net_peer net_inbox
proof
  show "net_good w \<Longrightarrow> net_peer w a = Some b \<Longrightarrow> net_peer w b = Some a" for w a b
    unfolding net_good_def by blast
qed auto

end
