(* ===== verification/Tcp.thy ===== *)
theory Tcp
  imports Posix
begin

text \<open>
  \<^verbatim>\<open>tcp.h\<close>: the messages exchanged at start-up and shutdown, the server side
  (\<^verbatim>\<open>SocketManager\<close>) and the client side (\<^verbatim>\<open>EndpointManager\<close>) of the connections.

  The methods are programs over the system calls of \<open>Posix\<close>, in the order of the source, with
  every check of a return value the source makes.  \<^verbatim>\<open>error(msg)\<close>, which prints and calls
  \<^verbatim>\<open>exit(1)\<close>, is \<open>Exit msg\<close>.  Objects live in the memory of the process and are named by
  pointers; a pointer to a deleted object is dangling.
\<close>

definition PORT :: nat where "PORT = 8001"
definition MESSAGE_SIZE :: nat where "MESSAGE_SIZE = 32"

section \<open>Messages\<close>

text \<open>An unsigned integer as bytes in memory order, least significant first.\<close>

fun le_bytes :: "nat \<Rightarrow> nat \<Rightarrow> byte list" where
  "le_bytes 0 x = []"
| "le_bytes (Suc n) x = of_nat x # le_bytes n (x div 256)"

fun le_value :: "byte list \<Rightarrow> nat" where
  "le_value [] = 0"
| "le_value (b # bs) = unat b + 256 * le_value bs"

text \<open>
  The union \<^verbatim>\<open>content\<close> is its 32 bytes, which the member \<^verbatim>\<open>data\<close> names; the members of
  \<^verbatim>\<open>ints\<close> are groups of eight of them.  \<^verbatim>\<open>padding\<close> is the byte behind the union.
\<close>

record message =
  content_data :: "byte list"
  padding :: byte

definition message_ok :: "message \<Rightarrow> bool" where
  "message_ok m \<longleftrightarrow> length (content_data m) = MESSAGE_SIZE"

definition mk_message :: "uint64 \<Rightarrow> uint64 \<Rightarrow> uint64 \<Rightarrow> uint64 \<Rightarrow> message" where
  "mk_message first second third fourth =
     \<lparr>content_data = le_bytes 8 (unat first) @ le_bytes 8 (unat second) @ le_bytes 8 (unat third) @
        le_bytes 8 (unat fourth), padding = 0\<rparr>"

definition int_at :: "nat \<Rightarrow> message \<Rightarrow> uint64" where
  "int_at i m = of_nat (le_value (take 8 (drop (8 * i) (content_data m))))"

definition get_first :: "message \<Rightarrow> uint64" where "get_first m = int_at 0 m"
definition get_second :: "message \<Rightarrow> uint64" where "get_second m = int_at 1 m"
definition get_third :: "message \<Rightarrow> uint64" where "get_third m = int_at 2 m"
definition get_fourth :: "message \<Rightarrow> uint64" where "get_fourth m = int_at 3 m"

text \<open>
  \<^verbatim>\<open>write(fd, content.data, MESSAGE_SIZE + 1)\<close> sends the union and the byte behind it, and
  \<^verbatim>\<open>read(fd, content.data, MESSAGE_SIZE + 1)\<close> overwrites as many of them as it receives.
\<close>

definition message_bytes :: "message \<Rightarrow> byte list" where
  "message_bytes m = content_data m @ [padding m]"

definition message_fill :: "message \<Rightarrow> byte list \<Rightarrow> message" where
  "message_fill m bs =
     (let all = bs @ drop (length bs) (message_bytes m) in
      \<lparr>content_data = take MESSAGE_SIZE all, padding = all ! MESSAGE_SIZE\<rparr>)"

section \<open>The memory of a process\<close>

record SocketManager =
  sm_sockfd :: fd
  client_sockets :: "fd list"

record EndpointManager =
  em_sockfd :: fd

datatype mutex = SM_syncer | EM_syncer

text \<open>
  The static members of both classes, and the objects made by \<^verbatim>\<open>new\<close>; \<open>None\<close> in a list of
  objects is one that was deleted.  \<^verbatim>\<open>std::unordered_map\<close> promises no order: the list
  \<open>em_self\<close> has the order of insertion.
\<close>

record mem =
  sm_self :: "nat option"
  sm_objs :: "SocketManager option list"
  em_self :: "(16 word \<times> nat) list"
  em_objs :: "EndpointManager option list"
  held :: "mutex \<Rightarrow> bool"

type_synonym ('a, 'r) tcp_io = "('a mem_scheme, 'r) io"

definition mutex_lock :: "mutex \<Rightarrow> ('a, 'r) tcp_io \<Rightarrow> ('a, 'r) tcp_io" where
  "mutex_lock x k = Wait (\<lambda>m. \<not> held m x) (\<lambda>m. m\<lparr>held := (held m)(x := True)\<rparr>) k"

definition mutex_unlock :: "mutex \<Rightarrow> ('a, 'r) tcp_io \<Rightarrow> ('a, 'r) tcp_io" where
  "mutex_unlock x k = upd (\<lambda>m. m\<lparr>held := (held m)(x := False)\<rparr>) k"

definition obj_at :: "'o option list \<Rightarrow> nat \<Rightarrow> 'o option" where
  "obj_at os i = (if i < length os then os ! i else None)"

definition get_sm :: "nat \<Rightarrow> (SocketManager \<Rightarrow> ('a, 'r) tcp_io) \<Rightarrow> ('a, 'r) tcp_io" where
  "get_sm this k = Get (\<lambda>m. case obj_at (sm_objs m) this of Some s \<Rightarrow> k s | None \<Rightarrow> Crash)"

definition get_em :: "nat \<Rightarrow> (EndpointManager \<Rightarrow> ('a, 'r) tcp_io) \<Rightarrow> ('a, 'r) tcp_io" where
  "get_em this k = Get (\<lambda>m. case obj_at (em_objs m) this of Some s \<Rightarrow> k s | None \<Rightarrow> Crash)"

section \<open>The server side\<close>

text \<open>
  The constructor of \<^verbatim>\<open>SocketManager\<close>.  It runs under \<open>SM_syncer\<close>, so no other thread makes
  an object between the last two actions.
\<close>

definition SocketManager_new :: "(nat \<Rightarrow> ('a, 'r) tcp_io) \<Rightarrow> ('a, 'r) tcp_io" where
  "SocketManager_new k =
     sys_int Socket (\<lambda>sockfd.
     if sockfd = -1 then Exit ''Cannot open socket'' else
     sys_int (Setsockopt sockfd SO_REUSEADDR) (\<lambda>r1.
     if r1 < 0 then Exit ''setsockopt failed'' else
     sys_int (Setsockopt sockfd SO_REUSEPORT) (\<lambda>r2.
     if r2 < 0 then Exit ''setsockopt failed'' else
     sys_int (Bind sockfd PORT) (\<lambda>r3.
     if r3 = -1 then sys_int (Close sockfd) (\<lambda>_. Exit ''Cannot bind to socket'') else
     sys_int (Listen sockfd 10) (\<lambda>r4.
     if r4 = -1 then sys_int (Close sockfd) (\<lambda>_. Exit ''Cannot listen on socket'') else
     Get (\<lambda>m. upd (\<lambda>m. m\<lparr>sm_objs := sm_objs m @ [Some \<lparr>sm_sockfd = sockfd, client_sockets = []\<rparr>]\<rparr>)
       (k (length (sm_objs m)))))))))"

definition accept_conn :: "nat \<Rightarrow> (bool \<Rightarrow> ('a, 'r) tcp_io) \<Rightarrow> ('a, 'r) tcp_io" where
  "accept_conn this k =
     get_sm this (\<lambda>s.
     sys_int (Accept (sm_sockfd s)) (\<lambda>client_sockfd.
     if client_sockfd = -1 then k False else
     get_sm this (\<lambda>s'.
     upd (\<lambda>m. m\<lparr>sm_objs := (sm_objs m)[this :=
        Some (s'\<lparr>client_sockets := client_sockets s' @ [client_sockfd]\<rparr>)]\<rparr>) (k True))))"

text \<open>The loops of \<open>send_to_all\<close> and \<open>recv_from_all\<close> from index \<open>i\<close>.\<close>

fun send_loop :: "nat \<Rightarrow> nat \<Rightarrow> message \<Rightarrow> nat \<Rightarrow> ('a, 'r) tcp_io \<Rightarrow> ('a, 'r) tcp_io" where
  "send_loop 0 this send_buffer i k = Starved"
| "send_loop (Suc n) this send_buffer i k =
     get_sm this (\<lambda>s.
     if i < length (client_sockets s) then
       sys_int (Write_fd (client_sockets s ! i) (message_bytes send_buffer)) (\<lambda>_.
       send_loop n this send_buffer (Suc i) k)
     else k)"

definition send_to_all :: "nat \<Rightarrow> nat \<Rightarrow> message \<Rightarrow> ('a, 'r) tcp_io \<Rightarrow> ('a, 'r) tcp_io" where
  "send_to_all fuel this send_buffer k = send_loop fuel this send_buffer 0 k"

definition num_clients :: "nat \<Rightarrow> (nat \<Rightarrow> ('a, 'r) tcp_io) \<Rightarrow> ('a, 'r) tcp_io" where
  "num_clients this k = get_sm this (\<lambda>s. k (length (client_sockets s)))"

fun recv_loop :: "nat \<Rightarrow> nat \<Rightarrow> message list \<Rightarrow> nat \<Rightarrow> (message list \<Rightarrow> ('a, 'r) tcp_io) \<Rightarrow> ('a, 'r) tcp_io" where
  "recv_loop 0 this recv_buffer i k = Starved"
| "recv_loop (Suc n) this recv_buffer i k =
     get_sm this (\<lambda>s.
     if i < length (client_sockets s) then
       (if i < length recv_buffer then
          sys_data (Read_fd (client_sockets s ! i) (MESSAGE_SIZE + 1)) (\<lambda>r bs.
          recv_loop n this (recv_buffer[i := message_fill (recv_buffer ! i) bs]) (Suc i) k)
        else Crash)
     else k recv_buffer)"

definition recv_from_all :: "nat \<Rightarrow> nat \<Rightarrow> message list \<Rightarrow> (message list \<Rightarrow> ('a, 'r) tcp_io) \<Rightarrow> ('a, 'r) tcp_io" where
  "recv_from_all fuel this recv_buffer k = recv_loop fuel this recv_buffer 0 k"

text \<open>
  \<^verbatim>\<open>SocketManager::getInstance\<close>: the test of \<^verbatim>\<open>self\<close> comes before the lock, and \<^verbatim>\<open>self\<close> is
  not tested again under it.
\<close>

definition sm_getInstance :: "bool \<Rightarrow> (nat option \<Rightarrow> ('a, 'r) tcp_io) \<Rightarrow> ('a, 'r) tcp_io" where
  "sm_getInstance no_create k =
     Get (\<lambda>m.
     if sm_self m = None \<and> \<not> no_create then
       mutex_lock SM_syncer (
       SocketManager_new (\<lambda>p.
       upd (\<lambda>m. m\<lparr>sm_self := Some p\<rparr>) (
       mutex_unlock SM_syncer (
       Get (\<lambda>m. k (sm_self m))))))
     else Get (\<lambda>m. k (sm_self m)))"

fun close_all :: "fd list \<Rightarrow> ('a, 'r) tcp_io \<Rightarrow> ('a, 'r) tcp_io" where
  "close_all [] k = k"
| "close_all (f # fs) k = sys_int (Close f) (\<lambda>_. close_all fs k)"

text \<open>
  \<^verbatim>\<open>SocketManager::releaseResources\<close> goes through \<^verbatim>\<open>self\<close>, which it dereferences before it
  compares it with null; deleting the object leaves \<^verbatim>\<open>self\<close> as it is.
\<close>

definition sm_releaseResources :: "('a, 'r) tcp_io \<Rightarrow> ('a, 'r) tcp_io" where
  "sm_releaseResources k =
     Get (\<lambda>m. case sm_self m of
       None \<Rightarrow> Crash
     | Some this \<Rightarrow>
         get_sm this (\<lambda>s.
         close_all (client_sockets s) (
         (if sm_sockfd s \<noteq> -1 then (\<lambda>k'. sys_int (Close (sm_sockfd s)) (\<lambda>_. k')) else (\<lambda>k'. k')) (
         upd (\<lambda>m. m\<lparr>sm_objs := (sm_objs m)[this := None]\<rparr>) k))))"

section \<open>The client side\<close>

record EndpointContext =
  ep_id :: "16 word"

definition EndpointContext_default :: EndpointContext where
  "EndpointContext_default = \<lparr>ep_id = 0xFFFF\<rparr>"

definition EndpointContext_new :: "16 word \<Rightarrow> EndpointContext" where
  "EndpointContext_new i = \<lparr>ep_id = i\<rparr>"

text \<open>
  The constructor of \<^verbatim>\<open>EndpointManager\<close>, which runs under \<open>EM_syncer\<close>.  An address list whose
  first entry is null has no meaning in the source.
\<close>

definition EndpointManager_new :: "string \<Rightarrow> (nat \<Rightarrow> ('a, 'r) tcp_io) \<Rightarrow> ('a, 'r) tcp_io" where
  "EndpointManager_new ip k =
     sys_int Socket (\<lambda>sockfd.
     if sockfd = -1 then Exit ''Cannot open socket'' else
     sys_host (Gethostbyname ip) (\<lambda>server.
     case server of
       Some (Some addrs) \<Rightarrow>
         (case addrs of [] \<Rightarrow> Crash
          | host_ip # _ \<Rightarrow>
              sys_addr (Inet_pton host_ip) (\<lambda>r1 a.
              if r1 \<le> 0 then sys_int (Close sockfd) (\<lambda>_. Exit ''Cannot inet pton'') else
              sys_int (Connect sockfd a PORT) (\<lambda>r2.
              if r2 = -1 then sys_int (Close sockfd) (\<lambda>_. Exit ''Cannot connect to foreign socket'') else
              Get (\<lambda>m. upd (\<lambda>m. m\<lparr>em_objs := em_objs m @ [Some \<lparr>em_sockfd = sockfd\<rparr>]\<rparr>)
                (k (length (em_objs m)))))))
     | _ \<Rightarrow> sys_int (Close sockfd) (\<lambda>_. Exit ''Could not resolve hostname'')))"

definition send_server :: "nat \<Rightarrow> message \<Rightarrow> ('a, 'r) tcp_io \<Rightarrow> ('a, 'r) tcp_io" where
  "send_server this send_buffer k =
     get_em this (\<lambda>e.
     sys_int (Write_fd (em_sockfd e) (message_bytes send_buffer)) (\<lambda>status.
     if status = -1 then Exit ''Cannot send data over socket'' else k))"

definition recv_server :: "nat \<Rightarrow> message \<Rightarrow> (message \<Rightarrow> ('a, 'r) tcp_io) \<Rightarrow> ('a, 'r) tcp_io" where
  "recv_server this recv_buffer k =
     get_em this (\<lambda>e.
     sys_data (Read_fd (em_sockfd e) (MESSAGE_SIZE + 1)) (\<lambda>status bs.
     if status = -1 then Exit ''Cannot read data over socket'' else k (message_fill recv_buffer bs)))"

definition is_init :: "EndpointContext \<Rightarrow> (bool \<Rightarrow> ('a, 'r) tcp_io) \<Rightarrow> ('a, 'r) tcp_io" where
  "is_init ctx k = Get (\<lambda>m. k (map_of (em_self m) (ep_id ctx) \<noteq> None))"

text \<open>\<^verbatim>\<open>EndpointManager::getInstance\<close>, all of it under the lock; a null \<^verbatim>\<open>ip\<close> is \<open>None\<close>.\<close>

definition em_getInstance :: "EndpointContext \<Rightarrow> string option \<Rightarrow> (nat option \<Rightarrow> ('a, 'r) tcp_io) \<Rightarrow> ('a, 'r) tcp_io" where
  "em_getInstance ctx ip k =
     mutex_lock EM_syncer (
     if ep_id ctx = 0xFFFF then mutex_unlock EM_syncer (k None) else
     Get (\<lambda>m.
     case map_of (em_self m) (ep_id ctx) of
       Some p \<Rightarrow> mutex_unlock EM_syncer (k (Some p))
     | None \<Rightarrow>
         (case ip of
            None \<Rightarrow> mutex_unlock EM_syncer (k None)
          | Some host \<Rightarrow>
              EndpointManager_new host (\<lambda>p.
              upd (\<lambda>m. m\<lparr>em_self := em_self m @ [(ep_id ctx, p)]\<rparr>) (
              mutex_unlock EM_syncer (k (Some p)))))))"

fun release_endpoints :: "(16 word \<times> nat) list \<Rightarrow> ('a, 'r) tcp_io \<Rightarrow> ('a, 'r) tcp_io" where
  "release_endpoints [] k = k"
| "release_endpoints ((i, p) # es) k =
     get_em p (\<lambda>e.
     (if em_sockfd e \<noteq> -1 then (\<lambda>k'. sys_int (Close (em_sockfd e)) (\<lambda>_. k')) else (\<lambda>k'. k')) (
     upd (\<lambda>m. m\<lparr>em_objs := (em_objs m)[p := None]\<rparr>) (
     release_endpoints es k)))"

definition em_releaseResources :: "('a, 'r) tcp_io \<Rightarrow> ('a, 'r) tcp_io" where
  "em_releaseResources k =
     mutex_lock EM_syncer (
     Get (\<lambda>m.
     release_endpoints (em_self m) (
     mutex_unlock EM_syncer k)))"

definition mem_start :: mem where
  "mem_start = \<lparr>sm_self = None, sm_objs = [], em_self = [], em_objs = [], held = (\<lambda>_. False)\<rparr>"

end
