(* ===== verification/Tcp_Correct.thy ===== *)
theory Tcp_Correct
  imports Tcp
begin

text \<open>
  What \<^verbatim>\<open>tcp.h\<close> guarantees: messages survive the byte stream; the server's broadcast reaches
  every client once and its collection returns one message per client, in order, or waits;
  which instances the two \<^verbatim>\<open>getInstance\<close> methods hand out.
\<close>

section \<open>Messages\<close>

lemma length_le_bytes [simp]: "length (le_bytes n x) = n"
  by (induction n arbitrary: x) auto

lemma le_value_bytes: "le_value (le_bytes n x) = x mod 256 ^ n"
proof (induction n arbitrary: x)
  case (Suc n)
  have "unat (of_nat x :: byte) = x mod 256" by (simp add: unsigned_of_nat take_bit_eq_mod)
  then show ?case using Suc [of "x div 256"] by (simp add: mod_mult2_eq)
qed simp

lemma le_bytes_value: "le_bytes (length bs) (le_value bs) = bs"
proof (induction bs)
  case (Cons b bs)
  have "unat b < 256" using unsigned_less [of b] by simp
  moreover have "(of_nat (256 * le_value bs) :: byte) = 0" by (simp only: word_of_nat_eq_0_iff) simp
  then have "of_nat (unat b + 256 * le_value bs) = b" by (simp only: of_nat_add) simp
  ultimately show ?case using Cons by simp
qed simp

lemma le_value_less: "le_value bs < 256 ^ length bs"
proof (induction bs)
  case (Cons b bs)
  have "unat b < 256" using unsigned_less [of b] by simp
  then have "unat b + 256 * le_value bs < 256 * (le_value bs + 1)" by simp
  also have "\<dots> \<le> 256 * 256 ^ length bs" using Cons by (intro mult_le_mono2) simp
  finally show ?case by simp
qed simp

lemma u64_bytes: "(of_nat (le_value (le_bytes 8 (unat a))) :: uint64) = a"
proof -
  have "unat a < 2 ^ 64" using unsigned_less [of a] by simp
  then show ?thesis by (simp add: le_value_bytes)
qed

lemma message_ok_mk [simp]: "message_ok (mk_message a b c d)"
  by (simp add: message_ok_def mk_message_def MESSAGE_SIZE_def)

lemma message_ints [simp]:
  "get_first (mk_message a b c d) = a" "get_second (mk_message a b c d) = b"
  "get_third (mk_message a b c d) = c" "get_fourth (mk_message a b c d) = d"
  by (simp_all add: get_first_def get_second_def get_third_def get_fourth_def int_at_def mk_message_def u64_bytes)

lemma length_message_bytes: "message_ok m \<Longrightarrow> length (message_bytes m) = MESSAGE_SIZE + 1"
  by (simp add: message_ok_def message_bytes_def)

lemma message_fill_full:
  assumes "message_ok m" "message_ok buf"
  shows "message_fill buf (message_bytes m) = m"
  using assms by (simp add: message_fill_def Let_def message_bytes_def message_ok_def nth_append)

lemma int_at_bytes:
  assumes "message_ok m" "i < 4"
  shows "le_bytes 8 (unat (int_at i m)) = take 8 (drop (8 * i) (content_data m))"
proof -
  let ?g = "take 8 (drop (8 * i) (content_data m))"
  have l: "length ?g = 8" using assms by (simp add: message_ok_def MESSAGE_SIZE_def)
  have "unat (int_at i m) = le_value ?g"
    using le_value_less [of ?g] unfolding l by (simp add: int_at_def unsigned_of_nat take_bit_nat_eq_self)
  then show ?thesis using le_bytes_value [of ?g] unfolding l by simp
qed

lemma message_chunks:
  assumes "message_ok m"
  shows "content_data m = take 8 (content_data m) @ take 8 (drop 8 (content_data m)) @
    take 8 (drop 16 (content_data m)) @ take 8 (drop 24 (content_data m))"
proof -
  have "take 32 (content_data m) = content_data m" using assms by (simp add: message_ok_def MESSAGE_SIZE_def)
  then show ?thesis
    using take_add [of 8 24 "content_data m"] take_add [of 8 16 "drop 8 (content_data m)"]
      take_add [of 8 8 "drop 16 (content_data m)"] by simp
qed

text \<open>C23: any four integers survive the trip: what \<open>read\<close> of a whole message leaves in the receiver's
  buffer, whatever was there, unpacks to the integers the sender packed; and every message is
  the packing of its integers, up to the padding byte.\<close>

theorem message_roundtrip:
  assumes "message_ok buf"
  shows "message_fill buf (message_bytes (mk_message a b c d)) = mk_message a b c d \<and>
    (let m = mk_message a b c d in
      get_first m = a \<and> get_second m = b \<and> get_third m = c \<and> get_fourth m = d) \<and>
    mk_message (get_first buf) (get_second buf) (get_third buf) (get_fourth buf) = buf\<lparr>padding := 0\<rparr>"
proof -
  have "mk_message (get_first buf) (get_second buf) (get_third buf) (get_fourth buf) = buf\<lparr>padding := 0\<rparr>"
    using message_chunks [OF assms] int_at_bytes [OF assms]
    by (simp add: mk_message_def get_first_def get_second_def get_third_def get_fourth_def)
  then show ?thesis using assms by (simp add: message_fill_full)
qed

theorem message_roundtrip_witness:
  "message_fill (mk_message 9 9 9 9) (message_bytes (mk_message 1 2 3 4)) = mk_message 1 2 3 4 \<and>
    get_fourth (mk_message 1 2 3 4) = 4"
  using message_roundtrip [of "mk_message 9 9 9 9" 1 2 3 4] by simp

text \<open>A read that returns fewer bytes than a message has overwrites those bytes and leaves the rest
  of the receiver's buffer as it was; the buffer stays a message.\<close>

theorem message_fill_short:
  assumes "message_ok m" "length bs \<le> MESSAGE_SIZE + 1"
  shows "message_ok (message_fill m bs) \<and>
    message_bytes (message_fill m bs) = bs @ drop (length bs) (message_bytes m)"
proof -
  let ?all = "bs @ drop (length bs) (message_bytes m)"
  have l: "length ?all = Suc MESSAGE_SIZE" using assms by (simp add: length_message_bytes)
  then have "take MESSAGE_SIZE ?all @ [?all ! MESSAGE_SIZE] = ?all"
    by (metis lessI order_refl take_Suc_conv_app_nth take_all)
  then show ?thesis using l by (simp add: message_fill_def Let_def message_ok_def message_bytes_def)
qed

theorem message_fill_short_witness:
  "message_ok (message_fill (mk_message 0 0 0 7) [1, 2]) \<and>
    message_bytes (message_fill (mk_message 0 0 0 7) [1, 2]) = [1, 2] @ drop 2 (message_bytes (mk_message 0 0 0 7))"
  using message_fill_short [of "mk_message 0 0 0 7" "[1, 2]"] by (simp add: MESSAGE_SIZE_def numeral_2_eq_2)

section \<open>The server side\<close>

lemma io_run_get_obj [simp]:
  "io_run os p (get_sm this k) s =
    (case obj_at (sm_objs (mems s p)) this of Some x \<Rightarrow> io_run os p (k x) s | None \<Rightarrow> Crashed)"
  "io_run os p (get_em this k') s =
    (case obj_at (em_objs (mems s p)) this of Some x \<Rightarrow> io_run os p (k' x) s | None \<Rightarrow> Crashed)"
  by (simp_all add: get_sm_def get_em_def split: option.splits)

lemma io_run_mutex [simp]:
  "io_run os p (mutex_lock x k) s =
    (if held (mems s p) x then Blocked s
     else io_run os p k (set_mem p ((mems s p)\<lparr>held := (held (mems s p))(x := True)\<rparr>) s))"
  "io_run os p (mutex_unlock x k) s =
    io_run os p k (set_mem p ((mems s p)\<lparr>held := (held (mems s p))(x := False)\<rparr>) s)"
  by (simp_all add: mutex_lock_def mutex_unlock_def)

text \<open>All descriptors of \<open>fs\<close> are different and are ends of connections of process \<open>p\<close>.\<close>

definition sockets_ok :: "(nat \<times> fd \<Rightarrow> (nat \<times> fd) option) \<Rightarrow> nat \<Rightarrow> fd list \<Rightarrow> bool" where
  "sockets_ok pr p fs \<longleftrightarrow> distinct fs \<and> (\<forall>f \<in> set fs. pr (p, f) \<noteq> None)"

text \<open>The inboxes after \<open>bs\<close> was written once to each of \<open>fs\<close>.\<close>

definition delivered :: "(nat \<times> fd \<Rightarrow> (nat \<times> fd) option) \<Rightarrow> nat \<Rightarrow> fd list \<Rightarrow> byte list
    \<Rightarrow> (nat \<times> fd \<Rightarrow> byte list) \<Rightarrow> nat \<times> fd \<Rightarrow> byte list" where
  "delivered pr p fs bs ib e = (if \<exists>f \<in> set fs. pr (p, f) = Some e then ib e @ bs else ib e)"

text \<open>The inboxes after one message was read from each of \<open>fs\<close>.\<close>

definition received :: "nat \<Rightarrow> fd list \<Rightarrow> (nat \<times> fd \<Rightarrow> byte list) \<Rightarrow> nat \<times> fd \<Rightarrow> byte list" where
  "received p fs ib e = (if fst e = p \<and> snd e \<in> set fs then drop (MESSAGE_SIZE + 1) (ib e) else ib e)"

context stream_os
begin

lemma send_loop_ok:
  assumes "obj_at (sm_objs (mems s p)) this = Some x" "good (world s)"
    "sockets_ok (peer (world s)) p (drop i (client_sockets x))" "length (client_sockets x) - i < fuel"
  shows "\<exists>w. io_run os p (send_loop fuel this m i k) s = io_run os p k (s\<lparr>world := w\<rparr>) \<and>
    good w \<and> peer w = peer (world s) \<and>
    inbox w = delivered (peer (world s)) p (drop i (client_sockets x)) (message_bytes m) (inbox (world s))"
  using assms
proof (induction fuel arbitrary: i s)
  case (Suc fuel)
  show ?case
  proof (cases "i < length (client_sockets x)")
    case True
    let ?f = "client_sockets x ! i" let ?r = "drop (Suc i) (client_sockets x)"
    have d: "drop i (client_sockets x) = ?f # ?r" using True by (simp add: Cons_nth_drop_Suc)
    have g: "good (world s)" "distinct ?r" "?f \<notin> set ?r" "\<forall>f \<in> set ?r. peer (world s) (p, f) \<noteq> None"
      using Suc.prems(2,3) unfolding sockets_ok_def d by auto
    obtain e where e: "peer (world s) (p, ?f) = Some e" using Suc.prems(3) unfolding sockets_ok_def d by auto
    obtain w1 where w1: "os p (Write_fd ?f (message_bytes m)) (world s) = Some (R_int (int (length (message_bytes m))), w1)"
      "good w1" "peer w1 = peer (world s)" "inbox w1 = (inbox (world s))(e := inbox (world s) e @ message_bytes m)"
      using write_ok [OF g(1) e] by blast
    have c1: "good (world (s\<lparr>world := w1\<rparr>))" "sockets_ok (peer (world (s\<lparr>world := w1\<rparr>))) p ?r"
      "length (client_sockets x) - Suc i < fuel"
      using g w1 Suc.prems(4) True by (auto simp: sockets_ok_def)
    obtain w where w: "io_run os p (send_loop fuel this m (Suc i) k) (s\<lparr>world := w1\<rparr>) = io_run os p k (s\<lparr>world := w\<rparr>)"
      "good w" "peer w = peer (world s)"
      "inbox w = delivered (peer (world s)) p ?r (message_bytes m) (inbox w1)"
      using Suc.IH [OF _ c1] Suc.prems(1) w1(3) by auto
    have "peer (world s) (p, f) \<noteq> Some e" if "f \<in> set ?r" for f
      using peer_inj [OF g(1) e, of "(p, f)"] that g(3) by auto
    then have "inbox w = delivered (peer (world s)) p (drop i (client_sockets x)) (message_bytes m) (inbox (world s))"
      unfolding w(4) d w1(4) using e by (auto simp: fun_eq_iff delivered_def)
    then show ?thesis using w(1-3) w1(1) True Suc.prems(1) by auto
  next
    case False
    then show ?thesis using Suc.prems(1-3) by (intro exI [of _ "world s"]) (simp add: delivered_def fun_eq_iff)
  qed
qed simp

lemma recv_loop_ok:
  assumes "obj_at (sm_objs (mems s p)) this = Some x" "good (world s)"
    "sockets_ok (peer (world s)) p (client_sockets x)" "length (client_sockets x) - i < fuel"
    "length buf = length (client_sockets x)" "length ms = length (client_sockets x)" "take i buf = take i ms"
    "\<And>j. i \<le> j \<Longrightarrow> j < length ms \<Longrightarrow> message_ok (ms ! j) \<and> message_ok (buf ! j) \<and>
      (\<exists>rest. inbox (world s) (p, client_sockets x ! j) = message_bytes (ms ! j) @ rest)"
  shows "\<exists>w. io_run os p (recv_loop fuel this buf i k) s = io_run os p (k ms) (s\<lparr>world := w\<rparr>) \<and>
    good w \<and> peer w = peer (world s) \<and>
    inbox w = received p (drop i (client_sockets x)) (inbox (world s))"
  using assms
proof (induction fuel arbitrary: i s buf)
  case (Suc fuel)
  show ?case
  proof (cases "i < length (client_sockets x)")
    case True
    let ?f = "client_sockets x ! i" let ?r = "drop (Suc i) (client_sockets x)" let ?N = "MESSAGE_SIZE + 1"
    let ?buf = "buf[i := message_fill (buf ! i) (take ?N (inbox (world s) (p, ?f)))]"
    have d: "drop i (client_sockets x) = ?f # ?r" using True by (simp add: Cons_nth_drop_Suc)
    have "sockets_ok (peer (world s)) p (take i (client_sockets x) @ ?f # ?r)"
      using Suc.prems(3) unfolding d [symmetric] by simp
    then have f: "peer (world s) (p, ?f) \<noteq> None" "?f \<notin> set ?r" by (simp_all add: sockets_ok_def)
    obtain rest where r: "message_ok (ms ! i)" "message_ok (buf ! i)" "inbox (world s) (p, ?f) = message_bytes (ms ! i) @ rest"
      using Suc.prems(8) [of i] Suc.prems(6) True by auto
    note len = length_message_bytes [OF r(1)]
    have fill: "?buf = buf[i := ms ! i]" using len by (simp add: r message_fill_full)
    have "inbox (world s) (p, ?f) \<noteq> []" using len by (auto simp: r(3))
    from read_ok [OF Suc.prems(2) f(1) this, of ?N]
    obtain w1 where w1: "os p (Read_fd ?f ?N) (world s) =
        Some (R_data (int (length (take ?N (inbox (world s) (p, ?f))))) (take ?N (inbox (world s) (p, ?f))), w1)"
      "good w1" "peer w1 = peer (world s)" "inbox w1 = (inbox (world s))((p, ?f) := drop ?N (inbox (world s) (p, ?f)))"
      by auto
    have i: "length (client_sockets x) - Suc i < fuel" "take (Suc i) ?buf = take (Suc i) ms"
      using Suc.prems(4-7) True unfolding fill by (auto simp: take_Suc_conv_app_nth)
    have j: "message_ok (ms ! j) \<and> message_ok (?buf ! j) \<and>
        (\<exists>rest. inbox w1 (p, client_sockets x ! j) = message_bytes (ms ! j) @ rest)"
      if "Suc i \<le> j" "j < length ms" for j
    proof -
      have "client_sockets x ! j \<noteq> ?f"
        using Suc.prems(3,6) that by (simp add: sockets_ok_def nth_eq_iff_index_eq)
      then show ?thesis using Suc.prems(8) [of j] that unfolding fill w1(4) by simp
    qed
    obtain w where w: "io_run os p (recv_loop fuel this ?buf (Suc i) k) (s\<lparr>world := w1\<rparr>) = io_run os p (k ms) (s\<lparr>world := w\<rparr>)"
      "good w" "peer w = peer (world s)" "inbox w = received p ?r (inbox w1)"
      using Suc.IH [of "s\<lparr>world := w1\<rparr>" "Suc i" ?buf] Suc.prems(1,3,5,6) i j w1(2,3) by auto
    have "inbox w = received p (drop i (client_sockets x)) (inbox (world s))"
      unfolding w(4) d w1(4) using f(2) by (auto simp: fun_eq_iff received_def)
    then show ?thesis using w(1-3) w1(1) True Suc.prems(1,5) by auto
  next
    case False
    then have "buf = ms" using Suc.prems(5-7) by simp
    then show ?thesis using False Suc.prems(1,2) by (intro exI [of _ "world s"]) (simp add: received_def fun_eq_iff)
  qed
qed simp

lemma recv_loop_blocks:
  assumes "obj_at (sm_objs (mems s p)) this = Some x" "good (world s)"
    "sockets_ok (peer (world s)) p (client_sockets x)" "length (client_sockets x) - i < fuel"
    "length (client_sockets x) \<le> length buf" "i \<le> j" "j < length (client_sockets x)"
    "inbox (world s) (p, client_sockets x ! j) = []"
  shows "\<exists>s'. io_run os p (recv_loop fuel this buf i k) s = Blocked s'"
  using assms
proof (induction fuel arbitrary: i s buf)
  case (Suc fuel)
  let ?f = "client_sockets x ! i" let ?N = "MESSAGE_SIZE + 1"
  have i: "i < length (client_sockets x)" "i < length buf" using Suc.prems(5-7) by simp_all
  have f: "peer (world s) (p, ?f) \<noteq> None" using Suc.prems(3) i unfolding sockets_ok_def by simp
  show ?case
  proof (cases "inbox (world s) (p, ?f) = []")
    case True
    then show ?thesis using read_blocks [OF Suc.prems(2) f True, of ?N] i Suc.prems(1) by simp
  next
    case False
    from read_ok [OF Suc.prems(2) f False, of ?N]
    obtain w1 where w1: "os p (Read_fd ?f ?N) (world s) =
        Some (R_data (int (length (take ?N (inbox (world s) (p, ?f))))) (take ?N (inbox (world s) (p, ?f))), w1)"
      "good w1" "peer w1 = peer (world s)" "inbox w1 = (inbox (world s))((p, ?f) := drop ?N (inbox (world s) (p, ?f)))"
      by auto
    have ij: "Suc i \<le> j" using False Suc.prems(6,8) by (metis le_neq_implies_less Suc_leI)
    then have "client_sockets x ! j \<noteq> ?f"
      using Suc.prems(3,7) by (simp add: sockets_ok_def nth_eq_iff_index_eq)
    then show ?thesis
      using Suc.IH [of "s\<lparr>world := w1\<rparr>" "Suc i" "buf[i := message_fill (buf ! i) (take ?N (inbox (world s) (p, ?f)))]"]
        Suc.prems ij w1 i by (auto simp: less_Suc_eq_le)
  qed
qed simp

end

text \<open>C24: \<open>send_to_all\<close> with enough fuel returns after it has put the message, once, at the end of the
  stream of every client, and has written to nobody else.\<close>

theorem send_to_all_delivers:
  assumes "stream_os os good peer inbox" "good (world s)" "obj_at (sm_objs (mems s p)) this = Some x"
    "sockets_ok (peer (world s)) p (client_sockets x)" "length (client_sockets x) < fuel"
  shows "\<exists>w. io_run os p (send_to_all fuel this m (Ret ())) s = Returned () (s\<lparr>world := w\<rparr>) \<and>
    good w \<and> peer w = peer (world s) \<and>
    (\<forall>f \<in> set (client_sockets x). \<forall>e. peer (world s) (p, f) = Some e \<longrightarrow>
      inbox w e = inbox (world s) e @ message_bytes m) \<and>
    (\<forall>e. (\<forall>f \<in> set (client_sockets x). peer (world s) (p, f) \<noteq> Some e) \<longrightarrow> inbox w e = inbox (world s) e)"
proof -
  obtain w where "io_run os p (send_loop fuel this m 0 (Ret ())) s = Returned () (s\<lparr>world := w\<rparr>)" "good w"
    "peer w = peer (world s)"
    "inbox w = delivered (peer (world s)) p (drop 0 (client_sockets x)) (message_bytes m) (inbox (world s))"
    using stream_os.send_loop_ok [OF assms(1,3,2), of 0 fuel m "Ret ()"] assms(4,5) by auto
  then show ?thesis by (intro exI [of _ w]) (auto simp: send_to_all_def delivered_def)
qed

text \<open>C25: \<open>recv_from_all\<close> returns one message per client, in the order in which they were accepted, when
  every client has sent one, and takes exactly these messages off the streams.\<close>

theorem recv_from_all_collects:
  assumes "stream_os os good peer inbox" "good (world s)" "obj_at (sm_objs (mems s p)) this = Some x"
    "sockets_ok (peer (world s)) p (client_sockets x)" "length (client_sockets x) < fuel"
    "length buf = length (client_sockets x)" "length ms = length (client_sockets x)" "list_all message_ok buf"
    "\<And>j. j < length ms \<Longrightarrow> message_ok (ms ! j) \<and>
      (\<exists>rest. inbox (world s) (p, client_sockets x ! j) = message_bytes (ms ! j) @ rest)"
  shows "\<exists>w. io_run os p (recv_from_all fuel this buf Ret) s = Returned ms (s\<lparr>world := w\<rparr>) \<and>
    good w \<and> peer w = peer (world s) \<and> inbox w = received p (client_sockets x) (inbox (world s))"
  using stream_os.recv_loop_ok [OF assms(1,3,2,4), of 0 fuel buf ms Ret] assms(5-9)
  by (simp add: recv_from_all_def list_all_length)

text \<open>As long as one client has sent nothing, \<open>recv_from_all\<close> does not return.\<close>

theorem recv_from_all_waits:
  assumes "stream_os os good peer inbox" "good (world s)" "obj_at (sm_objs (mems s p)) this = Some x"
    "sockets_ok (peer (world s)) p (client_sockets x)" "length (client_sockets x) < fuel"
    "length (client_sockets x) \<le> length buf" "f \<in> set (client_sockets x)" "inbox (world s) (p, f) = []"
  shows "\<exists>s'. io_run os p (recv_from_all fuel this buf Ret) s = Blocked s'"
proof -
  obtain j where "j < length (client_sockets x)" "f = client_sockets x ! j"
    using assms(7) by (auto simp: in_set_conv_nth)
  then show ?thesis
    using stream_os.recv_loop_blocks [OF assms(1,3,2,4), of 0 fuel buf j Ret] assms(5,6,8)
    by (simp add: recv_from_all_def)
qed

text \<open>A server with two clients, the second of which has sent a message.\<close>

definition two_clients :: "(mem, net) sys" where
  "two_clients = \<lparr>mems = (\<lambda>_. mem_start\<lparr>sm_self := Some 0, sm_objs := [Some \<lparr>sm_sockfd = 3, client_sockets = [5, 7]\<rparr>],
       em_self := [(0, 0)], em_objs := [Some \<lparr>em_sockfd = 4\<rparr>]\<rparr>),
     world = net_empty\<lparr>net_peer := [(0, 5) \<mapsto> (0, 4), (0, 4) \<mapsto> (0, 5), (0, 7) \<mapsto> (1, 6), (1, 6) \<mapsto> (0, 7)],
       net_inbox := (\<lambda>_. [])((0, 7) := message_bytes (mk_message 1 2 3 4))\<rparr>\<rparr>"

lemma two_clients_facts:
  "net_good (world two_clients)"
  "obj_at (sm_objs (mems two_clients 0)) 0 = Some \<lparr>sm_sockfd = 3, client_sockets = [5, 7]\<rparr>"
  "sockets_ok (net_peer (world two_clients)) 0 [5, 7]"
  "net_peer (world two_clients) (0, 7) = Some (1, 6)" "net_inbox (world two_clients) (1, 6) = []"
  "net_inbox (world two_clients) (0, 5) = []"
  by (auto simp: two_clients_def net_good_def obj_at_def sockets_ok_def)

theorem send_to_all_delivers_witness:
  "\<exists>w. io_run loop_os 0 (send_to_all 3 0 (mk_message 8 0 0 0) (Ret ())) two_clients = Returned () (two_clients\<lparr>world := w\<rparr>) \<and>
    net_inbox w (1, 6) = message_bytes (mk_message 8 0 0 0)"
  using send_to_all_delivers [OF loop.stream_os_axioms two_clients_facts(1,2), of 3 "mk_message 8 0 0 0"]
    two_clients_facts(3-5) by auto

theorem recv_from_all_waits_witness:
  "\<exists>s'. io_run loop_os 0 (recv_from_all 3 0 [mk_message 0 0 0 0, mk_message 0 0 0 0] Ret) two_clients = Blocked s'"
  using recv_from_all_waits [OF loop.stream_os_axioms two_clients_facts(1,2), of 3
      "[mk_message 0 0 0 0, mk_message 0 0 0 0]" 5] two_clients_facts(3,6) by simp

definition two_acks :: "(mem, net) sys" where
  "two_acks = two_clients\<lparr>world := (world two_clients)\<lparr>net_inbox :=
     (\<lambda>_. [])((0, 5) := message_bytes (mk_message 9 0 0 0), (0, 7) := message_bytes (mk_message 1 2 3 4))\<rparr>\<rparr>"

theorem recv_from_all_collects_witness:
  "\<exists>w. io_run loop_os 0 (recv_from_all 3 0 [mk_message 0 0 0 0, mk_message 0 0 0 0] Ret) two_acks =
    Returned [mk_message 9 0 0 0, mk_message 1 2 3 4] (two_acks\<lparr>world := w\<rparr>)"
proof -
  have "net_good (world two_acks)" "obj_at (sm_objs (mems two_acks 0)) 0 = Some \<lparr>sm_sockfd = 3, client_sockets = [5, 7]\<rparr>"
    "sockets_ok (net_peer (world two_acks)) 0 [5, 7]"
    using two_clients_facts(1-3) by (simp_all add: two_acks_def)
  moreover have "message_ok ([mk_message 9 0 0 0, mk_message 1 2 3 4] ! j) \<and>
      (\<exists>rest. net_inbox (world two_acks) (0, [5, 7] ! j) =
        message_bytes ([mk_message 9 0 0 0, mk_message 1 2 3 4] ! j) @ rest)"
    if "j < length [mk_message 9 0 0 0, mk_message 1 2 3 4]" for j
    using that by (auto simp: two_acks_def less_Suc_eq)
  ultimately show ?thesis
    using recv_from_all_collects [OF loop.stream_os_axioms, of two_acks 0 0 "\<lparr>sm_sockfd = 3, client_sockets = [5, 7]\<rparr>"
      3 "[mk_message 0 0 0 0, mk_message 0 0 0 0]" "[mk_message 9 0 0 0, mk_message 1 2 3 4]"]
    by auto
qed

section \<open>Instances\<close>

text \<open>What a constructor does when it returns: a new object, and nothing else in memory.\<close>

lemma SocketManager_new_returns:
  assumes "io_run os p (SocketManager_new k) s = Returned r s'"
  obtains f w where "io_run os p (k (length (sm_objs (mems s p)))) (set_mem p ((mems s p)\<lparr>sm_objs :=
      sm_objs (mems s p) @ [Some \<lparr>sm_sockfd = f, client_sockets = []\<rparr>]\<rparr>) (s\<lparr>world := w\<rparr>)) = Returned r s'"
  using assms by (auto simp: SocketManager_new_def split: option.splits prod.splits sysret.splits if_splits)

lemma EndpointManager_new_returns:
  assumes "io_run os p (EndpointManager_new ip k) s = Returned r s'"
  obtains f w where "io_run os p (k (length (em_objs (mems s p)))) (set_mem p ((mems s p)\<lparr>em_objs :=
      em_objs (mems s p) @ [Some \<lparr>em_sockfd = f\<rparr>]\<rparr>) (s\<lparr>world := w\<rparr>)) = Returned r s'"
  using assms
  by (auto simp: EndpointManager_new_def split: option.splits prod.splits sysret.splits if_splits list.splits)

text \<open>C28: \<open>SocketManager::getInstance\<close> can make two instances: a thread that has seen no instance and waits for
  the lock makes a second one after another thread has made and returned the first, and the two
  threads go on with different managers.\<close>

theorem sm_getInstance_race:
  assumes "sm_self (mems s p) = None"
    and "io_step os p (sm_getInstance False Ret) s = Some (waiting, s0)"
    and "io_run os p (sm_getInstance False Ret) s0 = Returned q1 s1"
    and "io_run os p waiting s1 = Returned q2 s2"
  shows "\<exists>a b x y. q1 = Some a \<and> q2 = Some b \<and> a \<noteq> b \<and> sm_self (mems s2 p) = Some b \<and>
    obj_at (sm_objs (mems s2 p)) a = Some x \<and> obj_at (sm_objs (mems s2 p)) b = Some y"
proof -
  have s0: "s0 = s" and waiting: "waiting = mutex_lock SM_syncer (SocketManager_new (\<lambda>p.
       upd (\<lambda>m. m\<lparr>sm_self := Some p\<rparr>) (mutex_unlock SM_syncer (Get (\<lambda>m. Ret (sm_self m))))))"
    using assms(1,2) by (auto simp: sm_getInstance_def)
  have made: "q = Some (length (sm_objs (mems t p))) \<and> sm_self (mems t' p) = q \<and>
      (\<exists>x. sm_objs (mems t' p) = sm_objs (mems t p) @ [Some x])"
    if "io_run os p waiting t = Returned q t'" for q t t'
    using that unfolding waiting by (auto split: if_splits elim!: SocketManager_new_returns)
  have "io_run os p (sm_getInstance False Ret) s0 = io_run os p waiting s0"
    using assms(1) by (simp add: sm_getInstance_def waiting s0)
  then have "io_run os p waiting s0 = Returned q1 s1" using assms(3) by simp
  note m1 = made [OF this] and m2 = made [OF assms(4)]
  obtain x y where "sm_objs (mems s1 p) = sm_objs (mems s0 p) @ [Some x]" "sm_objs (mems s2 p) = sm_objs (mems s1 p) @ [Some y]"
    using m1 m2 by blast
  then show ?thesis using m1 m2
    by (intro exI [of _ "length (sm_objs (mems s0 p))"] exI [of _ "length (sm_objs (mems s1 p))"] exI [of _ x] exI [of _ y])
      (simp add: obj_at_def nth_append)
qed

theorem sm_getInstance_race_witness:
  "\<exists>waiting s0 s1 s2. let s = \<lparr>mems = \<lambda>_. mem_start, world = net_empty\<rparr> in
    io_step loop_os 0 (sm_getInstance False Ret) s = Some (waiting, s0) \<and>
    io_run loop_os 0 (sm_getInstance False Ret) s0 = Returned (Some 0) s1 \<and>
    io_run loop_os 0 waiting s1 = Returned (Some 1) s2 \<and> sm_self (mems s2 0) = Some 1"
proof -
  let ?s = "\<lparr>mems = \<lambda>_. mem_start, world = net_empty\<rparr>"
  obtain waiting s0 where w: "io_step loop_os 0 (sm_getInstance False Ret) ?s = Some (waiting, s0)"
    by (simp add: sm_getInstance_def)
  have s0: "s0 = ?s" using w by (simp add: sm_getInstance_def)
  obtain s1 where s1: "io_run loop_os 0 (sm_getInstance False Ret) s0 = Returned (Some 0) s1"
    unfolding s0 by (simp add: sm_getInstance_def SocketManager_new_def mem_start_def net_empty_def)
  obtain s2 where s2: "io_run loop_os 0 waiting s1 = Returned (Some 1) s2"
    using w s1 by (auto simp: s0 sm_getInstance_def SocketManager_new_def mem_start_def net_empty_def)
  show ?thesis
    using sm_getInstance_race [OF _ w s1 s2] w s1 s2 by (auto simp: mem_start_def)
qed

text \<open>The state of the endpoint table: an identifier is bound once, to a live object of its own.\<close>

definition endpoints_ok :: "'a mem_scheme \<Rightarrow> bool" where
  "endpoints_ok m \<longleftrightarrow> distinct (map fst (em_self m)) \<and> distinct (map snd (em_self m)) \<and>
     (\<forall>(i, p) \<in> set (em_self m). obj_at (em_objs m) p \<noteq> None)"

text \<open>C26: \<open>EndpointManager::getInstance\<close> keeps the endpoint table well formed and every endpoint it has handed out:
  it answers with the endpoint bound to the identifier, binding a new one exactly when there is
  none and an address is given; the reserved identifier and a missing address give null.  It
  releases its lock.\<close>

theorem em_getInstance_ok:
  assumes "endpoints_ok (mems s p)" "io_run os p (em_getInstance ctx ip Ret) s = Returned r s'"
  shows "endpoints_ok (mems s' p) \<and> held (mems s' p) = held (mems s p) \<and>
    (\<forall>i q. map_of (em_self (mems s p)) i = Some q \<longrightarrow> map_of (em_self (mems s' p)) i = Some q) \<and>
    r = (if ep_id ctx = 0xFFFF then None else map_of (em_self (mems s' p)) (ep_id ctx)) \<and>
    (r = None \<longleftrightarrow> ep_id ctx = 0xFFFF \<or> map_of (em_self (mems s p)) (ep_id ctx) = None \<and> ip = None)"
proof -
  let ?m = "mems s p"
  have free: "\<not> held ?m EM_syncer" using assms(2) by (simp add: em_getInstance_def split: if_splits)
  have idem: "(held ?m)(EM_syncer := False) = held ?m" using free by (simp add: fun_upd_idem)
  consider (reserved) "ep_id ctx = 0xFFFF" | (bound) q where "ep_id ctx \<noteq> 0xFFFF" "map_of (em_self ?m) (ep_id ctx) = Some q"
    | (absent) "ep_id ctx \<noteq> 0xFFFF" "map_of (em_self ?m) (ep_id ctx) = None" "ip = None"
    | (new) host where "ep_id ctx \<noteq> 0xFFFF" "map_of (em_self ?m) (ep_id ctx) = None" "ip = Some host"
    by (cases "map_of (em_self ?m) (ep_id ctx)"; cases ip; auto)
  then show ?thesis
  proof cases
    case new
    from assms(2) new free
    have run: "io_run os p (EndpointManager_new host (\<lambda>q. upd (\<lambda>m. m\<lparr>em_self := em_self m @ [(ep_id ctx, q)]\<rparr>)
        (mutex_unlock EM_syncer (Ret (Some q))))) (set_mem p (?m\<lparr>held := (held ?m)(EM_syncer := True)\<rparr>) s) = Returned r s'"
      by (simp add: em_getInstance_def)
    let ?q = "length (em_objs ?m)"
    obtain f where m: "mems s' p = ?m\<lparr>em_objs := em_objs ?m @ [Some \<lparr>em_sockfd = f\<rparr>], em_self := em_self ?m @ [(ep_id ctx, ?q)]\<rparr>"
      "r = Some ?q"
      by (rule EndpointManager_new_returns [OF run]) (auto simp: idem)
    have bound: "q < ?q" if "(i, q) \<in> set (em_self ?m)" for i q
      using assms(1) that by (fastforce simp: endpoints_ok_def obj_at_def split: if_splits)
    have "endpoints_ok (mems s' p)"
      using assms(1) new(2) bound unfolding endpoints_ok_def m(1)
      by (fastforce simp: obj_at_def nth_append map_of_eq_None_iff split: if_splits)
    then show ?thesis using new m by (auto simp: map_add_def)
  qed (use assms free idem in \<open>auto simp: em_getInstance_def\<close>)
qed

theorem em_getInstance_ok_witness:
  "\<exists>s'. io_run loop_os 0 (em_getInstance (EndpointContext_new 5) (Some ''node0'') Ret) two_clients = Returned (Some 1) s' \<and>
    endpoints_ok (mems s' 0) \<and> map_of (em_self (mems s' 0)) 0 = Some 0"
proof -
  have "endpoints_ok (mems two_clients 0)" by (simp add: endpoints_ok_def two_clients_def obj_at_def)
  moreover have "\<exists>s'. io_run loop_os 0 (em_getInstance (EndpointContext_new 5) (Some ''node0'') Ret) two_clients = Returned (Some 1) s'"
    by (simp add: em_getInstance_def EndpointContext_new_def EndpointManager_new_def two_clients_def mem_start_def net_empty_def Let_def)
  ultimately show ?thesis
    using em_getInstance_ok [of two_clients 0 loop_os "EndpointContext_new 5" "Some ''node0''"]
    by (auto simp: two_clients_def)
qed

lemma close_all_append: "close_all (xs @ ys) k = close_all xs (close_all ys k)"
  by (induction xs) auto

lemma close_all_run:
  assumes "\<And>f w. \<exists>i w'. os p (Close f) w = Some (R_int i, w')"
  shows "\<exists>w. io_run os p (close_all fs k) s = io_run os p k (s\<lparr>world := w\<rparr>)"
proof (induction fs arbitrary: s)
  case Nil
  then show ?case by (intro exI [of _ "world s"]) simp
next
  case (Cons f fs)
  obtain i w' where w': "os p (Close f) (world s) = Some (R_int i, w')" using assms by blast
  then show ?case using Cons.IH [of "s\<lparr>world := w'\<rparr>"] by simp
qed

text \<open>\<open>SocketManager::releaseResources\<close> faults when there is no instance, since it looks at the members before the
  test for null; with an instance it closes what it owns and deletes it, but keeps the pointer, so
  that a second call uses a deleted object.\<close>

theorem sm_releaseResources_cases:
  assumes "\<And>f w. \<exists>i w'. os p (Close f) w = Some (R_int i, w')"
  shows "(sm_self (mems s p) = None \<longrightarrow> io_run os p (sm_releaseResources (Ret ())) s = Crashed) \<and>
    (\<forall>this x. sm_self (mems s p) = Some this \<longrightarrow> obj_at (sm_objs (mems s p)) this = Some x \<longrightarrow>
      (\<exists>s'. io_run os p (sm_releaseResources (Ret ())) s = Returned () s' \<and>
        mems s' p = (mems s p)\<lparr>sm_objs := (sm_objs (mems s p))[this := None]\<rparr> \<and>
        io_run os p (sm_releaseResources (Ret ())) s' = Crashed))"
proof (intro conjI allI impI)
  show "sm_self (mems s p) = None \<Longrightarrow> io_run os p (sm_releaseResources (Ret ())) s = Crashed"
    by (simp add: sm_releaseResources_def)
next
  fix this x
  assume o: "sm_self (mems s p) = Some this" "obj_at (sm_objs (mems s p)) this = Some x"
  let ?k = "upd (\<lambda>m. m\<lparr>sm_objs := (sm_objs m)[this := None]\<rparr>) (Ret ())"
  have cl: "io_run os p (sm_releaseResources (Ret ())) s = io_run os p (close_all
      (client_sockets x @ (if sm_sockfd x \<noteq> -1 then [sm_sockfd x] else [])) ?k) s"
    using o by (simp add: sm_releaseResources_def close_all_append)
  obtain w where "io_run os p (sm_releaseResources (Ret ())) s = io_run os p ?k (s\<lparr>world := w\<rparr>)"
    unfolding cl using close_all_run [where os = os and p = p] assms by blast
  then show "\<exists>s'. io_run os p (sm_releaseResources (Ret ())) s = Returned () s' \<and>
        mems s' p = (mems s p)\<lparr>sm_objs := (sm_objs (mems s p))[this := None]\<rparr> \<and>
        io_run os p (sm_releaseResources (Ret ())) s' = Crashed"
    using o by (auto simp: sm_releaseResources_def obj_at_def split: if_splits)
qed

theorem sm_releaseResources_cases_witness:
  "\<exists>s'. io_run loop_os 0 (sm_releaseResources (Ret ())) two_clients = Returned () s' \<and>
    io_run loop_os 0 (sm_releaseResources (Ret ())) s' = Crashed"
  using sm_releaseResources_cases [of loop_os 0 two_clients] two_clients_facts(2)
  by (auto simp: two_clients_def)

end
