(* ===== verification/Rome.thy ===== *)
theory Rome
  imports Prelude
begin

text \<open>
  The interface to the Rome RDMA library, which the sources call and do not contain.

  Every operation of the data structures is a program over memory verbs: the methods of
  \<^verbatim>\<open>rome::rdma::MemoryPool\<close> (\<open>Allocate\<close>, \<open>Deallocate\<close>, \<open>Read\<close>/\<open>ExtendedRead\<close>,
  \<open>Write\<close>, \<open>CompareAndSwap\<close>) and the plain C++ accesses through a local pointer
  (\<open>Load\<close>, \<open>Store\<close>).  A program is a tree whose nodes are verbs and whose branches are
  the continuations after the verb's answer, so that one definition of an operation has a
  sequential meaning (\<open>run\<close>) and an interleaved one (\<open>step\<close>, \<open>schedule\<close>).

  The library itself is a parameter: a record \<open>rome\<close> of functions on the memory.  What the
  sources rely on is the locale \<open>memory_pool\<close>; \<open>bump_rome\<close> is an executable library that
  satisfies it.
\<close>

section \<open>Pointers and memory\<close>

text \<open>\<^verbatim>\<open>remote_ptr<T>(id, address)\<close>: a node and an address on it.\<close>

datatype remote_ptr = Remote (ptr_id: nat) (address: nat)

definition ptr_add :: "remote_ptr \<Rightarrow> nat \<Rightarrow> remote_ptr" where
  "ptr_add p d = Remote (ptr_id p) (address p + d)"

lemma ptr_add_sel [simp]: "ptr_id (ptr_add p d) = ptr_id p" "address (ptr_add p d) = address p + d"
  by (simp_all add: ptr_add_def)

lemma ptr_add_0 [simp]: "ptr_add p 0 = p"
  by (cases p) (simp add: ptr_add_def)

lemma ptr_add_inject [simp]: "ptr_add p d = ptr_add p d' \<longleftrightarrow> d = d'"
  by (simp add: ptr_add_def)

lemma ptr_add_add [simp]: "ptr_add (ptr_add p d) d' = ptr_add p (d + d')"
  by (simp add: ptr_add_def add.assoc)

text \<open>
  A C++ object type as the pool sees it: one object occupies \<open>ct_cells\<close> memory cells,
  \<open>ct_stride\<close> bytes apart.  \<open>ct_fresh\<close> describes what a cell of a newly allocated object may
  contain, \<open>ct_default\<close> is one such content.
\<close>

record 'c ctype =
  ct_stride :: nat
  ct_cells :: nat
  ct_fresh :: "'c \<Rightarrow> bool"
  ct_default :: 'c

definition ctype_ok :: "'c ctype \<Rightarrow> bool" where
  "ctype_ok T \<longleftrightarrow> 0 < ct_stride T \<and> ct_fresh T (ct_default T)"

text \<open>The cells of \<open>n\<close> consecutive objects of type \<open>T\<close> that start at \<open>p\<close>.\<close>

definition block :: "'c ctype \<Rightarrow> nat \<Rightarrow> remote_ptr \<Rightarrow> remote_ptr list" where
  "block T n p = map (\<lambda>j. ptr_add p (ct_stride T * j)) [0..<n * ct_cells T]"

lemma length_block [simp]: "length (block T n p) = n * ct_cells T"
  by (simp add: block_def)

lemma nth_block [simp]:
  "j < n * ct_cells T \<Longrightarrow> block T n p ! j = ptr_add p (ct_stride T * j)"
  by (simp add: block_def)

lemma distinct_block: "0 < ct_stride T \<Longrightarrow> distinct (block T n p)"
  by (auto simp: block_def distinct_map inj_on_def)

lemma in_set_block:
  "a \<in> set (block T n p) \<longleftrightarrow> (\<exists>j < n * ct_cells T. a = ptr_add p (ct_stride T * j))"
  by (auto simp: block_def)

text \<open>
  The memory of all nodes: cell contents, the live allocations (the first address of each
  mapped to the addresses it covers), and whatever else the library keeps.
\<close>

record ('p, 'c) heap =
  cells :: "remote_ptr \<Rightarrow> 'c option"
  allocs :: "remote_ptr \<Rightarrow> remote_ptr list option"
  pool_state :: 'p

section \<open>The library as a parameter\<close>

record ('p, 'c) rome =
  remote_nullptr :: remote_ptr
  rome_allocate :: "nat \<Rightarrow> 'c ctype \<Rightarrow> nat \<Rightarrow> ('p, 'c) heap \<Rightarrow> remote_ptr \<times> ('p, 'c) heap"
  rome_deallocate :: "nat \<Rightarrow> 'c ctype \<Rightarrow> nat \<Rightarrow> remote_ptr \<Rightarrow> ('p, 'c) heap \<Rightarrow> ('p, 'c) heap"
  rome_read :: "nat \<Rightarrow> 'c ctype \<Rightarrow> nat \<Rightarrow> remote_ptr \<Rightarrow> ('p, 'c) heap \<Rightarrow> remote_ptr \<times> ('p, 'c) heap"
  rome_write :: "nat \<Rightarrow> remote_ptr \<Rightarrow> 'c \<Rightarrow> remote_ptr option \<Rightarrow> ('p, 'c) heap \<Rightarrow> ('p, 'c) heap"
  rome_cas :: "nat \<Rightarrow> remote_ptr \<Rightarrow> 'c \<Rightarrow> 'c \<Rightarrow> ('p, 'c) heap \<Rightarrow> 'c \<times> ('p, 'c) heap"

section \<open>Programs over memory verbs\<close>

datatype (dead 'c, 'r) prog =
    Return 'r
  | Undefined
  | Out_of_fuel
  | Allocate "'c ctype" nat "remote_ptr \<Rightarrow> ('c, 'r) prog"
  | Deallocate "'c ctype" nat remote_ptr "('c, 'r) prog"
  | Read "'c ctype" nat remote_ptr "remote_ptr \<Rightarrow> ('c, 'r) prog"
  | Write remote_ptr 'c "remote_ptr option" "('c, 'r) prog"
  | CompareAndSwap remote_ptr 'c 'c "'c \<Rightarrow> ('c, 'r) prog"
  | Load remote_ptr "'c \<Rightarrow> ('c, 'r) prog"
  | Store remote_ptr 'c "('c, 'r) prog"

text \<open>
  One verb of a program executed by node \<open>self\<close>.  A local access through a pointer to another
  node, or to memory that is not allocated, has no defined behaviour: there is no step.
\<close>

fun step :: "('p, 'c) rome \<Rightarrow> nat \<Rightarrow> ('c, 'r) prog \<Rightarrow> ('p, 'c) heap
    \<Rightarrow> (('c, 'r) prog \<times> ('p, 'c) heap) option" where
  "step R self (Allocate T n k) h = (case rome_allocate R self T n h of (p, h') \<Rightarrow> Some (k p, h'))"
| "step R self (Deallocate T n p k) h = Some (k, rome_deallocate R self T n p h)"
| "step R self (Read T n p k) h = (case rome_read R self T n p h of (q, h') \<Rightarrow> Some (k q, h'))"
| "step R self (Write p c tmp k) h = Some (k, rome_write R self p c tmp h)"
| "step R self (CompareAndSwap p c c' k) h =
     (case rome_cas R self p c c' h of (v, h') \<Rightarrow> Some (k v, h'))"
| "step R self (Load p k) h =
     (if ptr_id p = self then (case cells h p of Some c \<Rightarrow> Some (k c, h) | None \<Rightarrow> None) else None)"
| "step R self (Store p c k) h =
     (if ptr_id p = self \<and> cells h p \<noteq> None then Some (k, h\<lparr>cells := (cells h)(p \<mapsto> c)\<rparr>) else None)"
| "step R self _ h = None"

datatype ('r, 'h) outcome = Finished 'r 'h | Fault | Exhausted

text \<open>The sequential meaning: all verbs of one program, one after the other.\<close>

primrec run :: "('p, 'c) rome \<Rightarrow> nat \<Rightarrow> ('c, 'r) prog \<Rightarrow> ('p, 'c) heap
    \<Rightarrow> ('r, ('p, 'c) heap) outcome" where
  "run R self (Return r) = (\<lambda>h. Finished r h)"
| "run R self Undefined = (\<lambda>h. Fault)"
| "run R self Out_of_fuel = (\<lambda>h. Exhausted)"
| "run R self (Allocate T n k) =
     (\<lambda>h. case rome_allocate R self T n h of (p, h') \<Rightarrow> run R self (k p) h')"
| "run R self (Deallocate T n p k) = (\<lambda>h. run R self k (rome_deallocate R self T n p h))"
| "run R self (Read T n p k) =
     (\<lambda>h. case rome_read R self T n p h of (q, h') \<Rightarrow> run R self (k q) h')"
| "run R self (Write p c tmp k) = (\<lambda>h. run R self k (rome_write R self p c tmp h))"
| "run R self (CompareAndSwap p c c' k) =
     (\<lambda>h. case rome_cas R self p c c' h of (v, h') \<Rightarrow> run R self (k v) h')"
| "run R self (Load p k) =
     (\<lambda>h. if ptr_id p = self then (case cells h p of Some c \<Rightarrow> run R self (k c) h | None \<Rightarrow> Fault)
          else Fault)"
| "run R self (Store p c k) =
     (\<lambda>h. if ptr_id p = self \<and> cells h p \<noteq> None
          then run R self k (h\<lparr>cells := (cells h)(p \<mapsto> c)\<rparr>) else Fault)"

text \<open>The result of a program mapped through a function: how a program can add a line to a log.\<close>

lemma run_map_prog:
  "run R self (map_prog f p) h = (case run R self p h of Finished r h' \<Rightarrow> Finished (f r) h' | Fault \<Rightarrow> Fault | Exhausted \<Rightarrow> Exhausted)"
  by (induction p arbitrary: h) (auto split: outcome.splits prod.splits option.splits)

text \<open>
  The interleaved meaning: a list of threads, each a node id and the rest of its program, and
  a schedule that names the thread that moves next.
\<close>

type_synonym ('c, 'r) thread = "nat \<times> ('c, 'r) prog"

fun schedule :: "('p, 'c) rome \<Rightarrow> nat list \<Rightarrow> ('c, 'r) thread list \<Rightarrow> ('p, 'c) heap
    \<Rightarrow> (('c, 'r) thread list \<times> ('p, 'c) heap) option" where
  "schedule R [] ts h = Some (ts, h)"
| "schedule R (i # is) ts h =
     (if i < length ts then
        (case ts ! i of (self, p) \<Rightarrow>
          (case step R self p h of
             None \<Rightarrow> None
           | Some (p', h') \<Rightarrow> schedule R is (ts[i := (self, p')]) h'))
      else None)"

text \<open>A step and the rest of the run agree with the run.\<close>

lemma run_step: "step R self p h = Some (p', h') \<Longrightarrow> run R self p h = run R self p' h'"
  by (cases p) (auto split: prod.splits option.splits if_splits)

section \<open>Total correctness\<close>

text \<open>
  \<open>wp R self p h Q\<close>: run by node \<open>self\<close> from memory \<open>h\<close>, program \<open>p\<close> finishes (it neither
  faults nor runs out of fuel) with a result and a memory that satisfy \<open>Q\<close>.
\<close>

definition wp :: "('p, 'c) rome \<Rightarrow> nat \<Rightarrow> ('c, 'r) prog \<Rightarrow> ('p, 'c) heap
    \<Rightarrow> ('r \<Rightarrow> ('p, 'c) heap \<Rightarrow> bool) \<Rightarrow> bool" where
  "wp R self p h Q \<longleftrightarrow> (\<exists>r h'. run R self p h = Finished r h' \<and> Q r h')"

lemma wp_Return [wp_rules]: "Q r h \<Longrightarrow> wp R self (Return r) h Q"
  by (simp add: wp_def)

lemma wp_Load [wp_rules]:
  "ptr_id p = self \<Longrightarrow> cells h p = Some c \<Longrightarrow> wp R self (k c) h Q \<Longrightarrow> wp R self (Load p k) h Q"
  by (simp add: wp_def)

lemma wp_Store [wp_rules]:
  "ptr_id p = self \<Longrightarrow> cells h p \<noteq> None \<Longrightarrow>
   wp R self k (h\<lparr>cells := (cells h)(p \<mapsto> c)\<rparr>) Q \<Longrightarrow> wp R self (Store p c k) h Q"
  by (auto simp: wp_def)

lemma wp_conseq: "wp R self p h Q \<Longrightarrow> (\<And>r h'. Q r h' \<Longrightarrow> Q' r h') \<Longrightarrow> wp R self p h Q'"
  by (auto simp: wp_def)

lemma wp_run: "wp R self p h Q \<Longrightarrow> run R self p h = Finished r h' \<Longrightarrow> Q r h'"
  by (simp add: wp_def)

section \<open>What the sources rely on\<close>

text \<open>
  \<open>allocated h h' p as cs\<close>: \<open>h'\<close> is \<open>h\<close> with one more live allocation, at \<open>p\<close>, on addresses
  \<open>as\<close> that were free, with contents \<open>cs\<close>.
\<close>

definition allocated :: "('p, 'c) heap \<Rightarrow> ('p, 'c) heap \<Rightarrow> remote_ptr \<Rightarrow> remote_ptr list
    \<Rightarrow> 'c list \<Rightarrow> bool" where
  "allocated h h' p as cs \<longleftrightarrow>
     (\<forall>a \<in> set as. cells h a = None) \<and> cells h' = (cells h)(as [\<mapsto>] cs) \<and>
     allocs h p = None \<and> allocs h' = (allocs h)(p \<mapsto> as)"

lemma allocated_single:
  "allocated h h' p [p] cs \<longleftrightarrow> cells h p = None \<and> allocs h p = None \<and>
     cells h' = (case cs of [] \<Rightarrow> cells h | y # _ \<Rightarrow> (cells h)(p \<mapsto> y)) \<and> allocs h' = (allocs h)(p \<mapsto> [p])"
  by (auto simp: allocated_def split: list.splits)

text \<open>
  The library's contract.  \<open>ok\<close> singles out the memories the library can be in: every verb
  keeps it, and so does an assignment through a pointer to live memory.  On such a memory
  allocation succeeds, with memory that nobody uses, on the caller's node; a remote read is a
  local copy; a remote write and an atomic compare-and-swap act on the addressed cell only
  (a write may use a staging buffer, if it is given one); deallocation ends the allocation
  that starts at the pointer.
\<close>

locale memory_pool =
  fixes R :: "('p, 'c) rome" and ok :: "('p, 'c) heap \<Rightarrow> bool"
  assumes allocate_local: "ok h \<Longrightarrow> ctype_ok T \<Longrightarrow> rome_allocate R self T n h = (p, h') \<Longrightarrow>
      ok h' \<and> p \<noteq> remote_nullptr R \<and> ptr_id p = self"
    and allocate_fresh: "ok h \<Longrightarrow> ctype_ok T \<Longrightarrow> rome_allocate R self T n h = (p, h') \<Longrightarrow>
      \<exists>cs. length cs = n * ct_cells T \<and> list_all (ct_fresh T) cs \<and> allocated h h' p (block T n p) cs"
    and deallocate_frees: "ok h \<Longrightarrow> allocs h p = Some as \<Longrightarrow>
      rome_deallocate R self T n p h = h' \<Longrightarrow>
      ok h' \<and> cells h' = cells h |` (- set as) \<and> allocs h' = (allocs h)(p := None)"
    and read_local: "ok h \<Longrightarrow> ctype_ok T \<Longrightarrow> rome_read R self T n q h = (p, h') \<Longrightarrow>
      ok h' \<and> p \<noteq> remote_nullptr R \<and> ptr_id p = self"
    and read_copies: "ok h \<Longrightarrow> ctype_ok T \<Longrightarrow> rome_read R self T n q h = (p, h') \<Longrightarrow>
      map (cells h) (block T n q) = map Some cs \<Longrightarrow> allocated h h' p (block T n p) cs"
    and write_target: "ok h \<Longrightarrow> cells h p \<noteq> None \<Longrightarrow> tmp \<noteq> Some p \<Longrightarrow>
      rome_write R self p c tmp h = h' \<Longrightarrow> ok h' \<and> allocs h' = allocs h \<and> cells h' p = Some c"
    and write_frame: "ok h \<Longrightarrow> cells h p \<noteq> None \<Longrightarrow> tmp \<noteq> Some p \<Longrightarrow> a \<noteq> p \<Longrightarrow> tmp \<noteq> Some a \<Longrightarrow>
      rome_write R self p c tmp h = h' \<Longrightarrow> cells h' a = cells h a"
    and cas_swaps: "ok h \<Longrightarrow> cells h p = Some v \<Longrightarrow> rome_cas R self p c c' h = (v', h') \<Longrightarrow>
      ok h' \<and> v' = v \<and> allocs h' = allocs h \<and>
      cells h' = (if v = c then (cells h)(p \<mapsto> c') else cells h)"
    and store_ok: "ok h \<Longrightarrow> cells h p \<noteq> None \<Longrightarrow> ok (h\<lparr>cells := (cells h)(p \<mapsto> c)\<rparr>)"
begin

lemma wp_Allocate [wp_rules]:
  assumes "ok h" "ctype_ok T"
    and "\<And>p h' cs. ok h' \<Longrightarrow> p \<noteq> remote_nullptr R \<Longrightarrow> ptr_id p = self \<Longrightarrow>
      length cs = n * ct_cells T \<Longrightarrow> list_all (ct_fresh T) cs \<Longrightarrow>
      allocated h h' p (block T n p) cs \<Longrightarrow> wp R self (k p) h' Q"
  shows "wp R self (Allocate T n k) h Q"
proof -
  obtain p h' where a: "rome_allocate R self T n h = (p, h')" by fastforce
  obtain cs where cs: "length cs = n * ct_cells T" "list_all (ct_fresh T) cs"
    "allocated h h' p (block T n p) cs"
    using allocate_fresh [OF assms(1,2) a] by blast
  have "ok h'" "p \<noteq> remote_nullptr R" "ptr_id p = self"
    using allocate_local [OF assms(1,2) a] by auto
  then have "wp R self (k p) h' Q" using assms(3) cs by blast
  then show ?thesis by (simp add: wp_def a)
qed

lemma wp_Read [wp_rules]:
  assumes "ok h" "ctype_ok T" and cs: "map (cells h) (block T n q) = map Some cs"
    and "\<And>p h'. ok h' \<Longrightarrow> p \<noteq> remote_nullptr R \<Longrightarrow> ptr_id p = self \<Longrightarrow>
      allocated h h' p (block T n p) cs \<Longrightarrow> wp R self (k p) h' Q"
  shows "wp R self (Read T n q k) h Q"
proof -
  obtain p h' where a: "rome_read R self T n q h = (p, h')" by fastforce
  have "ok h'" "p \<noteq> remote_nullptr R" "ptr_id p = self"
    using read_local [OF assms(1,2) a] by auto
  then have "wp R self (k p) h' Q" using assms(4) read_copies [OF assms(1,2) a cs] by blast
  then show ?thesis by (simp add: wp_def a)
qed

lemma wp_Deallocate [wp_rules]:
  assumes "ok h" "allocs h p = Some as"
    and "\<And>h'. ok h' \<Longrightarrow> cells h' = cells h |` (- set as) \<Longrightarrow> allocs h' = (allocs h)(p := None) \<Longrightarrow>
      wp R self k h' Q"
  shows "wp R self (Deallocate T n p k) h Q"
  using assms(3) [of "rome_deallocate R self T n p h"] deallocate_frees [OF assms(1,2) refl]
  by (simp add: wp_def)

lemma wp_Write [wp_rules]:
  assumes "ok h" "cells h p \<noteq> None" "tmp \<noteq> Some p"
    and "\<And>h'. ok h' \<Longrightarrow> cells h' p = Some c \<Longrightarrow>
      (\<And>a. a \<noteq> p \<Longrightarrow> tmp \<noteq> Some a \<Longrightarrow> cells h' a = cells h a) \<Longrightarrow>
      allocs h' = allocs h \<Longrightarrow> wp R self k h' Q"
  shows "wp R self (Write p c tmp k) h Q"
  using assms(4) [of "rome_write R self p c tmp h"] write_target [OF assms(1,2,3) refl]
    write_frame [OF assms(1,2,3) _ _ refl]
  by (simp add: wp_def)

lemma wp_CompareAndSwap [wp_rules]:
  assumes "ok h" "cells h p = Some v"
    and "\<And>h'. ok h' \<Longrightarrow> cells h' = (if v = c then (cells h)(p \<mapsto> c') else cells h) \<Longrightarrow>
      allocs h' = allocs h \<Longrightarrow> wp R self (k v) h' Q"
  shows "wp R self (CompareAndSwap p c c' k) h Q"
proof -
  obtain v' h' where a: "rome_cas R self p c c' h = (v', h')" by fastforce
  show ?thesis using assms(3) [of h'] cas_swaps [OF assms(1,2) a] by (simp add: wp_def a)
qed

lemma wp_Store_ok [wp_rules]:
  assumes "ok h" "ptr_id p = self" "cells h p \<noteq> None"
    and "\<And>h'. ok h' \<Longrightarrow> cells h' = (cells h)(p \<mapsto> c) \<Longrightarrow> allocs h' = allocs h \<Longrightarrow> wp R self k h' Q"
  shows "wp R self (Store p c k) h Q"
  using assms(2,3) store_ok [OF assms(1,3)] by (intro wp_Store assms(4)) auto

text \<open>
  A remote write through a staging buffer that is allocated for it and freed after it: the
  shape of \<open>unlock\<close> and of the remote branch of \<open>change_bucket_pointer\<close>.
\<close>

lemma wp_staged_write:
  assumes "ok h" "ctype_ok T" "cells h a \<noteq> None"
    and T: "\<And>p. block T (Suc 0) p = [p]" "ct_cells T = 1"
    and k: "\<And>h'. ok h' \<Longrightarrow> cells h' = (cells h)(a \<mapsto> y) \<Longrightarrow> allocs h' = allocs h \<Longrightarrow> wp R self k h' Q"
  shows "wp R self (Allocate T 1 (\<lambda>temp. Write a y (Some temp) (Deallocate T m temp k))) h Q"
proof (rule wp_Allocate [OF assms(1,2)])
  fix p h1 cs
  assume h1: "ok h1" "length cs = 1 * ct_cells T" "allocated h h1 p (block T 1 p) cs"
  obtain z where z: "cs = [z]" using h1(2) T(2) by (cases cs) auto
  have f: "cells h p = None" "allocs h p = None" "cells h1 = (cells h)(p \<mapsto> z)"
    "allocs h1 = (allocs h)(p \<mapsto> [p])"
    using h1(3) by (simp_all add: T z allocated_single)
  have pa: "p \<noteq> a" using f(1) assms(3) by auto
  show "wp R self (Write a y (Some p) (Deallocate T m p k)) h1 Q"
  proof (rule wp_Write [OF h1(1)])
    show "cells h1 a \<noteq> None" using assms(3) f(3) pa by simp
    show "Some p \<noteq> Some a" using pa by simp
    fix h2
    assume h2: "ok h2" "cells h2 a = Some y" "\<And>b. b \<noteq> a \<Longrightarrow> Some p \<noteq> Some b \<Longrightarrow> cells h2 b = cells h1 b"
      "allocs h2 = allocs h1"
    show "wp R self (Deallocate T m p k) h2 Q"
    proof (rule wp_Deallocate [OF h2(1)])
      show "allocs h2 p = Some [p]" using f(4) h2(4) by simp
      fix h3
      assume h3: "ok h3" "cells h3 = cells h2 |` (- set [p])" "allocs h3 = (allocs h2)(p := None)"
      have "cells h3 = (cells h)(a \<mapsto> y)"
        using h2(2,3) f(1,3) pa by (auto simp: h3(2) restrict_map_def fun_eq_iff)
      moreover have "allocs h3 = allocs h" using h2(4) f(2,4) by (auto simp: h3(3))
      ultimately show "wp R self k h3 Q" using k h3(1) by blast
    qed
  qed
qed

end

section \<open>An executable library\<close>

text \<open>
  A library that hands out every address once: the private state is a counter above every
  address in use, and an allocation on any node starts there.
\<close>

definition bump_place :: "nat \<Rightarrow> 'c ctype \<Rightarrow> nat \<Rightarrow> 'c list \<Rightarrow> (nat, 'c) heap
    \<Rightarrow> remote_ptr \<times> (nat, 'c) heap" where
  "bump_place self T n cs h =
     (let p = Remote self (pool_state h); as = block T n p in
      (p, h\<lparr>cells := (cells h)(as [\<mapsto>] cs), allocs := (allocs h)(p \<mapsto> as),
            pool_state := pool_state h + Suc (ct_stride T * (n * ct_cells T))\<rparr>))"

definition bump_rome :: "(nat, 'c) rome" where
  "bump_rome = \<lparr>
     remote_nullptr = Remote 0 0,
     rome_allocate = (\<lambda>self T n h. bump_place self T n (replicate (n * ct_cells T) (ct_default T)) h),
     rome_deallocate = (\<lambda>self T n p h. (case allocs h p of
         None \<Rightarrow> h
       | Some as \<Rightarrow> h\<lparr>cells := (\<lambda>a. if a \<in> set as then None else cells h a),
                       allocs := (allocs h)(p := None)\<rparr>)),
     rome_read = (\<lambda>self T n q h. bump_place self T n
         (map (\<lambda>a. case cells h a of Some c \<Rightarrow> c | None \<Rightarrow> ct_default T) (block T n q)) h),
     rome_write = (\<lambda>self p c tmp h. h\<lparr>cells := (cells h)(p \<mapsto> c)\<rparr>),
     rome_cas = (\<lambda>self p c c' h. (case cells h p of
         None \<Rightarrow> (c, h)
       | Some v \<Rightarrow> (v, if v = c then h\<lparr>cells := (cells h)(p \<mapsto> c')\<rparr> else h)))\<rparr>"

definition bump_ok :: "(nat, 'c) heap \<Rightarrow> bool" where
  "bump_ok h \<longleftrightarrow> 0 < pool_state h \<and>
     (\<forall>a. cells h a \<noteq> None \<or> allocs h a \<noteq> None \<longrightarrow> address a < pool_state h)"

definition bump_empty :: "(nat, 'c) heap" where
  "bump_empty = \<lparr>cells = (\<lambda>_. None), allocs = (\<lambda>_. None), pool_state = 1\<rparr>"

lemma bump_ok_empty [simp]: "bump_ok bump_empty"
  by (simp add: bump_ok_def bump_empty_def)

lemma bump_place_allocated:
  assumes "bump_ok h" "0 < ct_stride T" "bump_place self T n cs h = (p, h')"
    "length cs = n * ct_cells T"
  shows "allocated h h' p (block T n p) cs"
  using assms
  by (fastforce simp: bump_place_def Let_def allocated_def bump_ok_def in_set_block)

lemma bump_place_ok:
  assumes "bump_ok h" "bump_place self T n cs h = (p, h')"
  shows "bump_ok h' \<and> p \<noteq> Remote 0 0 \<and> ptr_id p = self"
proof -
  have p: "p = Remote self (pool_state h)" and h': "h' = h\<lparr>cells := (cells h)(block T n p [\<mapsto>] cs),
      allocs := (allocs h)(p \<mapsto> block T n p),
      pool_state := pool_state h + Suc (ct_stride T * (n * ct_cells T))\<rparr>"
    using assms(2) by (auto simp: bump_place_def Let_def)
  have b: "address a \<le> pool_state h + ct_stride T * (n * ct_cells T)" if "a \<in> set (block T n p)" for a
    using that by (auto simp: in_set_block p intro!: mult_le_mono2)
  have "address a < pool_state h'" if "cells h' a \<noteq> None \<or> allocs h' a \<noteq> None" for a
  proof (cases "a \<in> set (block T n p)")
    case True
    then show ?thesis using b [OF True] by (simp add: h')
  next
    case False
    then have "cells h a \<noteq> None \<or> allocs h a \<noteq> None \<or> a = p"
      using that by (auto simp: h' map_upds_apply_nontin split: if_splits)
    then show ?thesis using assms(1) by (auto simp: bump_ok_def h' p)
  qed
  then show ?thesis using assms(1) by (auto simp: bump_ok_def p h')
qed

lemma map_Some_eq: "map f xs = map Some cs \<Longrightarrow> map (\<lambda>a. case f a of Some c \<Rightarrow> c | None \<Rightarrow> d) xs = cs"
proof (induction xs arbitrary: cs)
  case (Cons x xs)
  then show ?case by (cases cs) auto
qed simp

interpretation bump: memory_pool bump_rome bump_ok
proof
  fix h :: "(nat, 'c) heap" and T :: "'c ctype" and self n p h' q cs
  assume ok: "bump_ok h" and T: "ctype_ok T"
  note T' = T [unfolded ctype_ok_def]
  { assume a: "rome_allocate bump_rome self T n h = (p, h')"
    note pl = a [unfolded bump_rome_def, simplified]
    show "bump_ok h' \<and> p \<noteq> remote_nullptr bump_rome \<and> ptr_id p = self"
      using bump_place_ok [OF ok pl] by (simp add: bump_rome_def)
    show "\<exists>cs. length cs = n * ct_cells T \<and> list_all (ct_fresh T) cs \<and> allocated h h' p (block T n p) cs"
      using bump_place_allocated [OF ok _ pl] T'
      by (intro exI [of _ "replicate (n * ct_cells T) (ct_default T)"]) (auto simp: list_all_iff) }
  { assume a: "rome_read bump_rome self T n q h = (p, h')"
    note pl = a [unfolded bump_rome_def, simplified]
    show "bump_ok h' \<and> p \<noteq> remote_nullptr bump_rome \<and> ptr_id p = self"
      using bump_place_ok [OF ok pl] by (simp add: bump_rome_def)
    assume cs: "map (cells h) (block T n q) = map Some cs"
    have "length cs = n * ct_cells T" using arg_cong [OF cs, of length] by simp
    then show "allocated h h' p (block T n p) cs"
      using bump_place_allocated [OF ok _ pl] T' map_Some_eq [OF cs] by simp }
next
  fix h h' :: "(nat, 'c) heap" and self p as n and T :: "'c ctype"
  assume "bump_ok h" "allocs h p = Some as" "rome_deallocate bump_rome self T n p h = h'"
  then show "bump_ok h' \<and> cells h' = cells h |` (- set as) \<and> allocs h' = (allocs h)(p := None)"
    by (auto simp: bump_rome_def bump_ok_def restrict_map_def fun_eq_iff split: if_splits)
qed (auto simp: bump_rome_def bump_ok_def split: option.splits if_splits)

end
