(* ===== verification/Exchange_Ptr.thy ===== *)
theory Exchange_Ptr
  imports Tcp_Correct Rome
begin

text \<open>
  \<^verbatim>\<open>exchange_ptr.h\<close>: how the threads of all nodes learn where the table is.  The host sends
  the address of the root to every accepted connection; every other thread reads it from its
  own endpoint and adds the host's identifier.

  The pause of 10 ms before a thread asks for its endpoint has no effect on what it computes
  and is left out.
\<close>

section \<open>The exchange\<close>

text \<open>\<^verbatim>\<open>MemoryPool::Peer\<close>: an identifier, a host name and a port.\<close>

record Peer =
  peer_id :: nat
  peer_address :: string
  peer_port :: nat

definition ExchangePointer :: "nat \<Rightarrow> EndpointContext \<Rightarrow> Peer \<Rightarrow> Peer \<Rightarrow> remote_ptr
    \<Rightarrow> (remote_ptr \<Rightarrow> ('a, 'r) tcp_io) \<Rightarrow> ('a, 'r) tcp_io" where
  "ExchangePointer fuel ctx self host root_ptr k =
     (if peer_id self = peer_id host then
        (let ptr_message = mk_message (of_nat (address root_ptr)) 0 0 0 in
         sm_getInstance False (\<lambda>socket_handle. case socket_handle of
           None \<Rightarrow> Crash
         | Some this \<Rightarrow> send_to_all fuel this ptr_message (k root_ptr)))
      else
        em_getInstance ctx (Some (peer_address host)) (\<lambda>endpoint. case endpoint of
          None \<Rightarrow> Crash
        | Some this \<Rightarrow>
            recv_server this (mk_message 0 0 0 0) (\<lambda>ptr_message.
            k (Remote (peer_id host) (unat (get_first ptr_message))))))"

section \<open>Who learns the pointer\<close>

text \<open>The endpoint of a context is connected through descriptor \<open>f\<close> and not locked.\<close>

definition endpoint_fd :: "'a mem_scheme \<Rightarrow> EndpointContext \<Rightarrow> fd \<Rightarrow> bool" where
  "endpoint_fd m ctx f \<longleftrightarrow> \<not> held m EM_syncer \<and> ep_id ctx \<noteq> 0xFFFF \<and>
     (\<exists>q. map_of (em_self m) (ep_id ctx) = Some q \<and> obj_at (em_objs m) q = Some \<lparr>em_sockfd = f\<rparr>)"

lemma em_getInstance_bound:
  assumes "\<not> held (mems s p) EM_syncer" "ep_id ctx \<noteq> 0xFFFF" "map_of (em_self (mems s p)) (ep_id ctx) = Some q"
  shows "io_run os p (em_getInstance ctx ip k) s = io_run os p (k (Some q)) s"
proof -
  have "(held (mems s p))(EM_syncer := False) = held (mems s p)" using assms(1) by (simp add: fun_upd_idem)
  then show ?thesis using assms by (simp add: em_getInstance_def)
qed

lemma sm_getInstance_bound:
  "sm_self (mems s p) = Some this \<Longrightarrow> io_run os p (sm_getInstance b k) s = io_run os p (k (Some this)) s"
  by (simp add: sm_getInstance_def)

context stream_os
begin

lemma recv_server_ok:
  assumes "good (world s)" "peer (world s) (p, f) \<noteq> None" "inbox (world s) (p, f) = message_bytes m @ rest"
    "obj_at (em_objs (mems s p)) q = Some \<lparr>em_sockfd = f\<rparr>" "message_ok m" "message_ok buf"
  shows "\<exists>w. io_run os p (recv_server q buf k) s = io_run os p (k m) (s\<lparr>world := w\<rparr>) \<and>
    good w \<and> peer w = peer (world s) \<and> inbox w = (inbox (world s))((p, f) := rest)"
proof -
  let ?N = "MESSAGE_SIZE + 1"
  note len = length_message_bytes [OF assms(5)]
  have "inbox (world s) (p, f) \<noteq> []" using len by (auto simp: assms(3))
  from read_ok [OF assms(1,2) this, of ?N] len
  obtain w where "os p (Read_fd f ?N) (world s) = Some (R_data (int ?N) (message_bytes m), w)"
    "good w" "peer w = peer (world s)" "inbox w = (inbox (world s))((p, f) := rest)"
    by (auto simp: assms(3))
  then show ?thesis using assms(4-6) by (auto simp: recv_server_def message_fill_full)
qed

lemma recv_server_blocks:
  assumes "good (world s)" "peer (world s) (p, f) \<noteq> None" "inbox (world s) (p, f) = []"
    "obj_at (em_objs (mems s p)) q = Some \<lparr>em_sockfd = f\<rparr>"
  shows "io_run os p (recv_server q buf k) s = Blocked s"
  using read_blocks [OF assms(1-3), of "MESSAGE_SIZE + 1"] assms(4) by (simp add: recv_server_def)

lemma send_server_ok:
  assumes "good (world s)" "peer (world s) (p, f) = Some e" "obj_at (em_objs (mems s p)) q = Some \<lparr>em_sockfd = f\<rparr>"
  shows "\<exists>w. io_run os p (send_server q m k) s = io_run os p k (s\<lparr>world := w\<rparr>) \<and>
    good w \<and> peer w = peer (world s) \<and> inbox w = (inbox (world s))(e := inbox (world s) e @ message_bytes m)"
proof -
  obtain w where "os p (Write_fd f (message_bytes m)) (world s) = Some (R_int (int (length (message_bytes m))), w)"
    "good w" "peer w = peer (world s)" "inbox w = (inbox (world s))(e := inbox (world s) e @ message_bytes m)"
    using write_ok [OF assms(1,2)] by blast
  moreover have "int (length (message_bytes m)) \<noteq> -1" by simp
  ultimately show ?thesis using assms(3) by (auto simp: send_server_def)
qed

text \<open>The host's part: the pointer is at the end of the stream of every accepted connection.\<close>

lemma exchange_host:
  assumes "good (world s)" "sm_self (mems s h) = Some this" "obj_at (sm_objs (mems s h)) this = Some x"
    "sockets_ok (peer (world s)) h (client_sockets x)" "length (client_sockets x) < fuel" "peer_id self = peer_id host"
  shows "\<exists>w. io_run os h (ExchangePointer fuel ctx self host root k) s = io_run os h (k root) (s\<lparr>world := w\<rparr>) \<and>
    good w \<and> peer w = peer (world s) \<and> inbox w = delivered (peer (world s)) h (client_sockets x)
      (message_bytes (mk_message (of_nat (address root)) 0 0 0)) (inbox (world s))"
  using send_loop_ok [OF assms(3,1), of 0 fuel "mk_message (of_nat (address root)) 0 0 0" "k root"] assms(2,4-6)
  by (simp add: ExchangePointer_def sm_getInstance_bound send_to_all_def)

text \<open>The part of the other threads.\<close>

lemma exchange_client:
  assumes "good (world s)" "endpoint_fd (mems s p) ctx f" "peer (world s) (p, f) \<noteq> None"
    "inbox (world s) (p, f) = message_bytes (mk_message a 0 0 0) @ rest" "peer_id self \<noteq> peer_id host"
  shows "\<exists>w. io_run os p (ExchangePointer fuel ctx self host root k) s =
      io_run os p (k (Remote (peer_id host) (unat a))) (s\<lparr>world := w\<rparr>) \<and>
    good w \<and> peer w = peer (world s) \<and> inbox w = (inbox (world s))((p, f) := rest)"
proof -
  obtain q where q: "map_of (em_self (mems s p)) (ep_id ctx) = Some q" "obj_at (em_objs (mems s p)) q = Some \<lparr>em_sockfd = f\<rparr>"
    using assms(2) by (auto simp: endpoint_fd_def)
  show ?thesis
    using recv_server_ok [OF assms(1,3,4) q(2), of "mk_message 0 0 0 0" "\<lambda>m. k (Remote (peer_id host) (unat (get_first m)))"]
      assms(2,5) q(1) by (auto simp: ExchangePointer_def em_getInstance_bound endpoint_fd_def)
qed

end

text \<open>After the host's part of the exchange, every thread whose connection was accepted obtains exactly the host's
  pointer, provided the address fits into 64 bits, and its stream is empty again.\<close>

theorem exchange_agrees:
  assumes "stream_os os good peer inbox" "good (world s)" "sm_self (mems s h) = Some this"
    "obj_at (sm_objs (mems s h)) this = Some x" "sockets_ok (peer (world s)) h (client_sockets x)"
    "length (client_sockets x) < fuel" "peer_id self = peer_id host" "a < 2 ^ 64"
  shows "\<exists>w. io_run os h (ExchangePointer fuel ctx self host (Remote (peer_id host) a) Ret) s =
      Returned (Remote (peer_id host) a) (s\<lparr>world := w\<rparr>) \<and>
    (\<forall>c \<in> set (client_sockets x). \<forall>p f ctx' self'. peer (world s) (h, c) = Some (p, f) \<and>
      inbox (world s) (p, f) = [] \<and> endpoint_fd (mems s p) ctx' f \<and> peer_id self' \<noteq> peer_id host \<longrightarrow>
      (\<exists>s'. io_run os p (ExchangePointer fuel ctx' self' host null Ret) (s\<lparr>world := w\<rparr>) =
          Returned (Remote (peer_id host) a) s' \<and> inbox (world s') (p, f) = []))"
proof -
  let ?m = "mk_message (of_nat a) 0 0 0"
  obtain w where w: "io_run os h (ExchangePointer fuel ctx self host (Remote (peer_id host) a) Ret) s =
      Returned (Remote (peer_id host) a) (s\<lparr>world := w\<rparr>)" "good w" "peer w = peer (world s)"
    "inbox w = delivered (peer (world s)) h (client_sockets x) (message_bytes ?m) (inbox (world s))"
    using stream_os.exchange_host [OF assms(1-7), of ctx "Remote (peer_id host) a" Ret] by auto
  have a: "unat (of_nat a :: uint64) = a" using assms(8) by (simp add: unsigned_of_nat take_bit_nat_eq_self)
  have "\<exists>s'. io_run os p (ExchangePointer fuel ctx' self' host null Ret) (s\<lparr>world := w\<rparr>) =
      Returned (Remote (peer_id host) a) s' \<and> inbox (world s') (p, f) = []"
    if c: "c \<in> set (client_sockets x)" "peer (world s) (h, c) = Some (p, f)" "inbox (world s) (p, f) = []"
      "endpoint_fd (mems s p) ctx' f" "peer_id self' \<noteq> peer_id host" for c p f ctx' self'
  proof -
    have "peer w (p, f) \<noteq> None" using stream_os.peer_sym [OF assms(1,2) c(2)] w(3) by simp
    moreover have "inbox w (p, f) = message_bytes ?m @ []" using c(1-3) by (auto simp: w(4) delivered_def)
    ultimately show ?thesis
      using stream_os.exchange_client [OF assms(1), of "s\<lparr>world := w\<rparr>" p ctx' f "of_nat a" "[]" self' host fuel null Ret]
        w(2,3) c(4,5) by (auto simp: a)
  qed
  then show ?thesis using w(1) by (intro exI [of _ w]) auto
qed

text \<open>C27: a thread whose connection was not accepted when the host sent the pointer waits for it forever: nothing
  is in its stream after the host's part, and its own part blocks.\<close>

theorem exchange_misses_late:
  assumes "stream_os os good peer inbox" "good (world s)" "sm_self (mems s h) = Some this"
    "obj_at (sm_objs (mems s h)) this = Some x" "sockets_ok (peer (world s)) h (client_sockets x)"
    "length (client_sockets x) < fuel" "peer_id self = peer_id host"
    "\<forall>c \<in> set (client_sockets x). peer (world s) (h, c) \<noteq> Some (p, f)" "peer (world s) (p, f) \<noteq> None"
    "inbox (world s) (p, f) = []" "endpoint_fd (mems s p) ctx' f" "peer_id self' \<noteq> peer_id host"
  shows "\<exists>w s'. io_run os h (ExchangePointer fuel ctx self host root Ret) s = Returned root (s\<lparr>world := w\<rparr>) \<and>
    io_run os p (ExchangePointer fuel ctx' self' host null Ret) (s\<lparr>world := w\<rparr>) = Blocked s'"
proof -
  obtain w where w: "io_run os h (ExchangePointer fuel ctx self host root Ret) s = Returned root (s\<lparr>world := w\<rparr>)"
    "good w" "peer w = peer (world s)" "inbox w (p, f) = []"
    using stream_os.exchange_host [OF assms(1-7), of ctx root Ret] assms(8,10) by (auto simp: delivered_def)
  obtain q where "map_of (em_self (mems s p)) (ep_id ctx') = Some q" "obj_at (em_objs (mems s p)) q = Some \<lparr>em_sockfd = f\<rparr>"
    using assms(11) by (auto simp: endpoint_fd_def)
  then have "io_run os p (ExchangePointer fuel ctx' self' host null Ret) (s\<lparr>world := w\<rparr>) = Blocked (s\<lparr>world := w\<rparr>)"
    using assms(9,11,12) w(2-4) stream_os.recv_server_blocks [OF assms(1), of "s\<lparr>world := w\<rparr>" p f q]
    by (simp add: ExchangePointer_def em_getInstance_bound endpoint_fd_def)
  then show ?thesis using w(1) by blast
qed

text \<open>Two nodes: the host's server, the host's own endpoint, and one endpoint of a second node.\<close>

definition two_nodes :: "fd list \<Rightarrow> (mem, net) sys" where
  "two_nodes accepted = \<lparr>mems = (\<lambda>p. mem_start\<lparr>
       sm_self := (if p = 0 then Some 0 else None),
       sm_objs := (if p = 0 then [Some \<lparr>sm_sockfd = 3, client_sockets = accepted\<rparr>] else []),
       em_self := [(0, 0)], em_objs := [Some \<lparr>em_sockfd = (if p = 0 then 4 else 6)\<rparr>]\<rparr>),
     world = net_empty\<lparr>net_peer := [(0, 5) \<mapsto> (0, 4), (0, 4) \<mapsto> (0, 5), (0, 7) \<mapsto> (1, 6), (1, 6) \<mapsto> (0, 7)]\<rparr>\<rparr>"

definition node_peer :: "nat \<Rightarrow> Peer" where
  "node_peer n = \<lparr>peer_id = n, peer_address = ''node0'', peer_port = 18000 + n\<rparr>"

lemma peer_id_node_peer [simp]: "peer_id (node_peer n) = n"
  by (simp add: node_peer_def)

lemma two_nodes_facts:
  "net_good (world (two_nodes fs))" "sm_self (mems (two_nodes fs) 0) = Some 0"
  "obj_at (sm_objs (mems (two_nodes fs) 0)) 0 = Some \<lparr>sm_sockfd = 3, client_sockets = fs\<rparr>"
  "set fs \<subseteq> {5, 7} \<Longrightarrow> distinct fs \<Longrightarrow> sockets_ok (net_peer (world (two_nodes fs))) 0 fs"
  "net_peer (world (two_nodes fs)) (0, 7) = Some (1, 6)" "net_peer (world (two_nodes fs)) (0, 5) = Some (0, 4)"
  "net_peer (world (two_nodes fs)) (1, 6) = Some (0, 7)" "net_peer (world (two_nodes fs)) (0, 4) = Some (0, 5)"
  "net_inbox (world (two_nodes fs)) e = []" "endpoint_fd (mems (two_nodes fs) 1) (EndpointContext_new 0) 6"
  "endpoint_fd (mems (two_nodes fs) 0) (EndpointContext_new 0) 4"
  by (auto simp: two_nodes_def net_good_def obj_at_def sockets_ok_def endpoint_fd_def EndpointContext_new_def
      mem_start_def net_empty_def)

theorem exchange_agrees_witness:
  "\<exists>w s'. io_run loop_os 0 (ExchangePointer 3 (EndpointContext_new 0) (node_peer 0) (node_peer 0) (Remote 0 4096) Ret)
      (two_nodes [5, 7]) = Returned (Remote 0 4096) (two_nodes [5, 7]\<lparr>world := w\<rparr>) \<and>
    io_run loop_os 1 (ExchangePointer 3 (EndpointContext_new 0) (node_peer 1) (node_peer 0) (Remote 0 0) Ret)
      (two_nodes [5, 7]\<lparr>world := w\<rparr>) = Returned (Remote 0 4096) s'"
proof -
  let ?s = "two_nodes [5, 7]"
  obtain w where w: "io_run loop_os 0 (ExchangePointer 3 (EndpointContext_new 0) (node_peer 0) (node_peer 0)
      (Remote (peer_id (node_peer 0)) 4096) Ret) ?s = Returned (Remote (peer_id (node_peer 0)) 4096) (?s\<lparr>world := w\<rparr>)"
    and c: "\<forall>c \<in> set [5, 7]. \<forall>p f ctx' self'. net_peer (world ?s) (0, c) = Some (p, f) \<and>
      net_inbox (world ?s) (p, f) = [] \<and> endpoint_fd (mems ?s p) ctx' f \<and> peer_id self' \<noteq> peer_id (node_peer 0) \<longrightarrow>
      (\<exists>s'. io_run loop_os p (ExchangePointer 3 ctx' self' (node_peer 0) (Remote 0 0) Ret) (?s\<lparr>world := w\<rparr>) =
          Returned (Remote (peer_id (node_peer 0)) 4096) s' \<and> net_inbox (world s') (p, f) = [])"
    using exchange_agrees [OF loop.stream_os_axioms two_nodes_facts(1-3), of "[5, 7]" 3 "node_peer 0" "node_peer 0" 4096
        "EndpointContext_new 0" "Remote 0 0"] two_nodes_facts(4) [of "[5, 7]"] by auto
  have "\<exists>s'. io_run loop_os 1 (ExchangePointer 3 (EndpointContext_new 0) (node_peer 1) (node_peer 0)
      (Remote 0 0) Ret) (?s\<lparr>world := w\<rparr>) = Returned (Remote (peer_id (node_peer 0)) 4096) s'"
    using c [rule_format, of 7 1 6 "EndpointContext_new 0" "node_peer 1"] two_nodes_facts(5,9,10) [of "[5, 7]"] by auto
  then show ?thesis using w by auto
qed

theorem exchange_misses_late_witness:
  "\<exists>w s'. io_run loop_os 0 (ExchangePointer 3 (EndpointContext_new 0) (node_peer 0) (node_peer 0) (Remote 0 4096) Ret)
      (two_nodes [5]) = Returned (Remote 0 4096) (two_nodes [5]\<lparr>world := w\<rparr>) \<and>
    io_run loop_os 1 (ExchangePointer 3 (EndpointContext_new 0) (node_peer 1) (node_peer 0) (Remote 0 0) Ret)
      (two_nodes [5]\<lparr>world := w\<rparr>) = Blocked s'"
  using exchange_misses_late [OF loop.stream_os_axioms two_nodes_facts(1-3), of "[5]" 3 "node_peer 0" "node_peer 0" 1 6
      "EndpointContext_new 0" "node_peer 1" "EndpointContext_new 0" "Remote 0 4096" "Remote 0 0"] two_nodes_facts(4-)
  by simp

end
