(* ===== verification/Common.thy ===== *)
theory Common
  imports Prelude
begin

text \<open>
  \<^verbatim>\<open>common.h\<close>: the operation codes, the compile-time sizes, the status values, and the two
  small structures \<^verbatim>\<open>IHT_Op\<close> and \<^verbatim>\<open>HT_Res\<close> every other component passes around.
  The sources instantiate the templates at \<^verbatim>\<open>K = V = int\<close> only (\<^verbatim>\<open>types.cpp\<close>,
  \<^verbatim>\<open>role_client.h\<close>), so keys and values are 32-bit words.
\<close>

type_synonym key = cint
type_synonym val = cint

definition CONTAINS :: cint where "CONTAINS = 0"
definition INSERT :: cint where "INSERT = 1"
definition REMOVE :: cint where "REMOVE = 2"

definition CNF_ELIST_SIZE :: nat where "CNF_ELIST_SIZE = 7"
definition CNF_PLIST_SIZE :: nat where "CNF_PLIST_SIZE = 128"

record IHT_Op =
  op_type :: cint
  op_key :: key
  op_value :: val

definition mk_op :: "cint \<Rightarrow> key \<Rightarrow> val \<Rightarrow> IHT_Op" where
  "mk_op t k v = \<lparr>op_type = t, op_key = k, op_value = v\<rparr>"

type_synonym state_value = uint64

definition FALSE_STATE :: state_value where "FALSE_STATE = 1"
definition TRUE_STATE :: state_value where "TRUE_STATE = 2"
definition REHASH_DELETED :: state_value where "REHASH_DELETED = 3"

record HT_Res =
  status :: state_value
  result :: val

definition ht_res :: "state_value \<Rightarrow> val \<Rightarrow> HT_Res" where
  "ht_res s r = \<lparr>status = s, result = r\<rparr>"

lemma state_values_distinct [simp]:
  "FALSE_STATE \<noteq> TRUE_STATE" "TRUE_STATE \<noteq> FALSE_STATE"
  "REHASH_DELETED \<noteq> TRUE_STATE" "REHASH_DELETED \<noteq> FALSE_STATE"
  "TRUE_STATE \<noteq> REHASH_DELETED" "FALSE_STATE \<noteq> REHASH_DELETED"
  by (simp_all add: FALSE_STATE_def TRUE_STATE_def REHASH_DELETED_def)

lemma ht_res_sel [simp]: "status (ht_res s r) = s" "result (ht_res s r) = r"
  by (simp_all add: ht_res_def)

lemma ht_res_inject [simp]: "ht_res s r = ht_res s' r' \<longleftrightarrow> s = s' \<and> r = r'"
  by (simp add: ht_res_def)

text \<open>
  What a key/value map promises to its clients, in the vocabulary of \<open>HT_Res\<close>: the
  contract of \<^verbatim>\<open>contains\<close>, \<^verbatim>\<open>insert\<close> and \<^verbatim>\<open>remove\<close> as their doc comments state it.
\<close>

definition spec_contains :: "(key \<Rightarrow> val option) \<Rightarrow> key \<Rightarrow> HT_Res" where
  "spec_contains m k = (case m k of Some v \<Rightarrow> ht_res TRUE_STATE v | None \<Rightarrow> ht_res FALSE_STATE 0)"

definition spec_insert :: "(key \<Rightarrow> val option) \<Rightarrow> key \<Rightarrow> val \<Rightarrow> HT_Res \<times> (key \<Rightarrow> val option)" where
  "spec_insert m k v = (case m k of
      Some v' \<Rightarrow> (ht_res FALSE_STATE v', m)
    | None \<Rightarrow> (ht_res TRUE_STATE 0, m(k \<mapsto> v)))"

definition spec_remove :: "(key \<Rightarrow> val option) \<Rightarrow> key \<Rightarrow> HT_Res \<times> (key \<Rightarrow> val option)" where
  "spec_remove m k = (case m k of
      Some v' \<Rightarrow> (ht_res TRUE_STATE v', m(k := None))
    | None \<Rightarrow> (ht_res FALSE_STATE 0, m))"

text \<open>
  Both mutating operations change the map at their key only, and answer from its value there.
\<close>

definition at_key :: "key \<Rightarrow> (val option \<Rightarrow> HT_Res) \<Rightarrow> (val option \<Rightarrow> val option)
    \<Rightarrow> (key \<Rightarrow> val option) \<Rightarrow> HT_Res \<times> (key \<Rightarrow> val option)" where
  "at_key k f g m = (f (m k), m(k := g (m k)))"

lemma spec_remove_at_key:
  "(\<lambda>m. spec_remove m k) = at_key k
     (\<lambda>w. case w of Some v \<Rightarrow> ht_res TRUE_STATE v | None \<Rightarrow> ht_res FALSE_STATE 0) (\<lambda>w. None)"
proof
  fix m :: "key \<Rightarrow> val option"
  show "spec_remove m k = at_key k
     (\<lambda>w. case w of Some v \<Rightarrow> ht_res TRUE_STATE v | None \<Rightarrow> ht_res FALSE_STATE 0) (\<lambda>w. None) m"
    by (cases "m k") (auto simp: spec_remove_def at_key_def fun_eq_iff)
qed

lemma spec_insert_at_key:
  "(\<lambda>m. spec_insert m k v) = at_key k
     (\<lambda>w. case w of Some v' \<Rightarrow> ht_res FALSE_STATE v' | None \<Rightarrow> ht_res TRUE_STATE 0)
     (\<lambda>w. case w of Some v' \<Rightarrow> Some v' | None \<Rightarrow> Some v)"
proof
  fix m :: "key \<Rightarrow> val option"
  show "spec_insert m k v = at_key k
     (\<lambda>w. case w of Some v' \<Rightarrow> ht_res FALSE_STATE v' | None \<Rightarrow> ht_res TRUE_STATE 0)
     (\<lambda>w. case w of Some v' \<Rightarrow> Some v' | None \<Rightarrow> Some v) m"
    by (cases "m k") (auto simp: spec_insert_def at_key_def fun_eq_iff)
qed

end
