(* ===== verification/Map_Contract.thy ===== *)
theory Map_Contract
  imports Common
begin

text \<open>
  The interface between the clients and the shared map: what \<^verbatim>\<open>contains\<close>, \<^verbatim>\<open>insert\<close> and
  \<^verbatim>\<open>remove\<close> promise to a caller, whichever node makes the call.  The clients' facts are
  proved once, here, from the promises.
\<close>

datatype call = Contains key | Insert key val | Remove key

fun call_key :: "call \<Rightarrow> key" where
  "call_key (Contains k) = k"
| "call_key (Insert k v) = k"
| "call_key (Remove k) = k"

fun spec_call :: "call \<Rightarrow> (key \<Rightarrow> val option) \<Rightarrow> HT_Res \<times> (key \<Rightarrow> val option)" where
  "spec_call (Contains k) m = (spec_contains m k, m)"
| "spec_call (Insert k v) m = spec_insert m k v"
| "spec_call (Remove k) m = spec_remove m k"

fun spec_calls :: "call list \<Rightarrow> (key \<Rightarrow> val option) \<Rightarrow> HT_Res list \<times> (key \<Rightarrow> val option)" where
  "spec_calls [] m = ([], m)"
| "spec_calls (x # xs) m =
     (case spec_call x m of (r, m') \<Rightarrow> case spec_calls xs m' of (rs, m'') \<Rightarrow> (r # rs, m''))"

lemma spec_calls_length: "length (fst (spec_calls xs m)) = length xs"
  by (induction xs m rule: spec_calls.induct) (auto split: prod.splits)

lemma spec_calls_append:
  "spec_calls (xs @ ys) m =
     (case spec_calls xs m of (rs, m') \<Rightarrow> case spec_calls ys m' of (rs', m'') \<Rightarrow> (rs @ rs', m''))"
  by (induction xs m rule: spec_calls.induct) (auto split: prod.splits)

text \<open>Calls one after the other, each made by a node; a call that does not return gives \<open>None\<close>.\<close>

fun exec_calls :: "('n \<Rightarrow> call \<Rightarrow> 's \<Rightarrow> (HT_Res \<times> 's) option) \<Rightarrow> ('n \<times> call) list \<Rightarrow> 's
    \<Rightarrow> (HT_Res list \<times> 's) option" where
  "exec_calls f [] s = Some ([], s)"
| "exec_calls f ((n, x) # xs) s =
     (case f n x s of None \<Rightarrow> None
      | Some (r, s') \<Rightarrow> (case exec_calls f xs s' of None \<Rightarrow> None | Some (rs, s'') \<Rightarrow> Some (r # rs, s'')))"

locale ht_map =
  fixes exec :: "'n \<Rightarrow> call \<Rightarrow> 's \<Rightarrow> (HT_Res \<times> 's) option"
    and rep :: "'s \<Rightarrow> (key \<Rightarrow> val option) \<Rightarrow> bool"
    and keys :: "key set"
  assumes exec_ok: "rep s m \<Longrightarrow> call_key x \<in> keys \<Longrightarrow>
      \<exists>s'. exec n x s = Some (fst (spec_call x m), s') \<and> rep s' (snd (spec_call x m))"
begin

lemma exec_calls_ok:
  assumes "rep s m" "call_key ` snd ` set xs \<subseteq> keys"
  shows "\<exists>s'. exec_calls exec xs s = Some (fst (spec_calls (map snd xs) m), s') \<and>
    rep s' (snd (spec_calls (map snd xs) m))"
  using assms
proof (induction xs arbitrary: s m)
  case (Cons y xs)
  obtain n x where y: "y = (n, x)" by fastforce
  obtain s1 where s1: "exec n x s = Some (fst (spec_call x m), s1)" "rep s1 (snd (spec_call x m))"
    using exec_ok [of s m x n] Cons.prems by (auto simp: y)
  obtain s2 where "exec_calls exec xs s1 = Some (fst (spec_calls (map snd xs) (snd (spec_call x m))), s2)"
    "rep s2 (snd (spec_calls (map snd xs) (snd (spec_call x m))))"
    using Cons.IH [OF s1(2)] Cons.prems by auto
  then show ?case using s1(1) by (auto simp: y split: prod.splits)
qed simp

text \<open>What one node inserts, every node finds, until it is removed.\<close>

lemma insert_visible:
  assumes "rep s m" "k \<in> keys" "m k = None"
  shows "\<exists>s''. exec_calls exec [(a, Insert k v), (b, Contains k)] s =
    Some ([ht_res TRUE_STATE 0, ht_res TRUE_STATE v], s'') \<and> rep s'' (m(k \<mapsto> v))"
  using exec_calls_ok [of s m "[(a, Insert k v), (b, Contains k)]"] assms
  by (auto simp: spec_insert_def spec_contains_def)

lemma remove_visible:
  assumes "rep s m" "k \<in> keys" "m k = Some v"
  shows "\<exists>s''. exec_calls exec [(a, Remove k), (b, Contains k)] s =
    Some ([ht_res TRUE_STATE v, ht_res FALSE_STATE 0], s'') \<and> rep s'' (m(k := None))"
  using exec_calls_ok [of s m "[(a, Remove k), (b, Contains k)]"] assms
  by (auto simp: spec_remove_def spec_contains_def)

end

end
