(* ===== verification/Workload.thy ===== *)
theory Workload
  imports Map_Contract Complex_Main
begin

text \<open>
  Random keys and the method \<^verbatim>\<open>populate\<close>, which \<^verbatim>\<open>iht_ds.h\<close> and \<^verbatim>\<open>hashtable.h\<close> both have: it
  fills a table with keys drawn from a range.  The random engine is a parameter, the list of
  the numbers it will draw; the pause of 10 ns after an insertion is left out.
\<close>

section \<open>Floating point\<close>

text \<open>
  A \<^verbatim>\<open>double\<close> is a real number, and an operation on doubles is the exact operation followed by
  a rounding \<open>rnd\<close>.  The sources rely on what IEEE 754 says of it: it is monotone, exact on the
  integers up to \<open>2 ^ 53\<close>, and off by at most half a unit in the last place.  Exact arithmetic is
  one such rounding.
\<close>

locale doubles =
  fixes rnd :: "real \<Rightarrow> real"
  assumes rnd_mono: "x \<le> y \<Longrightarrow> rnd x \<le> rnd y"
    and rnd_int: "\<bar>n\<bar> \<le> 2 ^ 53 \<Longrightarrow> rnd (of_int n) = of_int n"
    and rnd_near: "0 \<le> x \<Longrightarrow> x \<le> 2 ^ 53 \<Longrightarrow> 1 / 1024 \<le> x \<or> x = 0 \<Longrightarrow> \<bar>rnd x - x\<bar> \<le> x / 2 ^ 53"

text \<open>Conversion of a \<^verbatim>\<open>double\<close> to \<^verbatim>\<open>int\<close> cuts towards zero.\<close>

definition trunc :: "real \<Rightarrow> int" where
  "trunc x = (if 0 \<le> x then \<lfloor>x\<rfloor> else \<lceil>x\<rceil>)"

text \<open>\<^verbatim>\<open>int k = dist(gen) * key_range + key_lb\<close> for a draw \<open>u\<close> of \<^verbatim>\<open>dist\<close>.\<close>

definition draw_key :: "(real \<Rightarrow> real) \<Rightarrow> int \<Rightarrow> int \<Rightarrow> real \<Rightarrow> int" where
  "draw_key rnd key_range lb u = trunc (rnd (rnd (u * of_int key_range) + of_int lb))"

section \<open>Populate\<close>

text \<open>
  The loop of \<^verbatim>\<open>populate\<close>, one draw for each of its turns; \<^verbatim>\<open>key_range\<close> is a difference of two
  \<^verbatim>\<open>int\<close>s.  The answer of \<^verbatim>\<open>insert\<close> is not looked at.
\<close>

fun populate_loop :: "('n \<Rightarrow> call \<Rightarrow> 's \<Rightarrow> (HT_Res \<times> 's) option) \<Rightarrow> 'n \<Rightarrow> (real \<Rightarrow> real) \<Rightarrow> int \<Rightarrow> int
    \<Rightarrow> (key \<Rightarrow> val) \<Rightarrow> real list \<Rightarrow> 's \<Rightarrow> 's option" where
  "populate_loop exec self rnd key_range lb value [] s = Some s"
| "populate_loop exec self rnd key_range lb value (u # us) s =
     (let k = word_of_int (draw_key rnd key_range lb u) in
      case exec self (Insert k (value k)) s of
        None \<Rightarrow> None
      | Some (res, s') \<Rightarrow> populate_loop exec self rnd key_range lb value us s')"

definition populate :: "('n \<Rightarrow> call \<Rightarrow> 's \<Rightarrow> (HT_Res \<times> 's) option) \<Rightarrow> 'n \<Rightarrow> (real \<Rightarrow> real) \<Rightarrow> int \<Rightarrow> int \<Rightarrow> int
    \<Rightarrow> (key \<Rightarrow> val) \<Rightarrow> real list \<Rightarrow> 's \<Rightarrow> 's option" where
  "populate exec self rnd cnt lb ub value us s =
     (if ub - lb < - (2 ^ 31) \<or> 2 ^ 31 \<le> ub - lb \<or> length us < nat cnt then None
      else populate_loop exec self rnd (ub - lb) lb value (take (nat cnt) us) s)"

section \<open>Drawn keys are in range\<close>

lemma trunc_between: "of_int a \<le> x \<Longrightarrow> x \<le> of_int b \<Longrightarrow> a \<le> trunc x \<and> trunc x \<le> b"
  by (auto simp: trunc_def le_floor_iff ceiling_le_iff floor_le_iff le_ceiling_iff)

context doubles
begin

lemma draw_key_between:
  assumes "0 \<le> u" "u < 1" "0 \<le> kr" "\<bar>lb\<bar> \<le> 2 ^ 31" "kr \<le> 2 ^ 31"
  shows "lb \<le> draw_key rnd kr lb u \<and> draw_key rnd kr lb u \<le> lb + kr"
proof -
  let ?y = "rnd (u * of_int kr)"
  have i: "rnd 0 = 0" "rnd (of_int kr) = of_int kr" "rnd (of_int lb) = of_int lb"
    "rnd (of_int (lb + kr)) = of_int (lb + kr)"
    using rnd_int [of 0] rnd_int [of kr] rnd_int [of lb] rnd_int [of "lb + kr"] assms by (auto simp: abs_le_iff)
  have "0 \<le> u * of_int kr" "u * of_int kr \<le> of_int kr"
    using assms by (auto intro: mult_left_le_one_le)
  then have "0 \<le> ?y" "?y \<le> of_int kr" using rnd_mono i(1,2) by metis+
  then have "of_int lb \<le> rnd (?y + of_int lb)" "rnd (?y + of_int lb) \<le> of_int (lb + kr)"
    using rnd_mono [of "of_int lb" "?y + of_int lb"] rnd_mono [of "?y + of_int lb" "of_int (lb + kr)"] i(3,4) by auto
  then show ?thesis unfolding draw_key_def by (rule trunc_between)
qed

end

interpretation exact: doubles "\<lambda>x. x"
  by unfold_locales auto

end
