(* ===== verification/Client.thy ===== *)
theory Client
  imports Exchange_Ptr Workload
begin

text \<open>
  \<^verbatim>\<open>role_client.h\<close>: the client of an experiment.  It fills the table, draws a workload, applies
  one operation after the other and checks the answers, and takes part in the shutdown.

  The table is a parameter, an execution function in the sense of \<open>Map_Contract\<close>.  How many operations the workload driver
  of the library hands over before the runtime is over is a parameter too.  Pauses, the log and the statistics of the
  driver do not influence what is computed and are left out; what \<^verbatim>\<open>test_output\<close> logs is its result and is modelled.
\<close>

section \<open>Parameters of an experiment\<close>

text \<open>The fields of \<^verbatim>\<open>ExperimentParams\<close> (\<^verbatim>\<open>protos/experiment.proto\<close>) the program reads.\<close>

record ExperimentParams =
  unlimited_stream :: bool
  op_count :: int
  p_contains :: int
  p_insert :: int
  key_lb :: int
  key_ub :: int
  thread_count :: int
  node_count :: int
  qp_max :: int
  node_id :: int
  runtime :: int

section \<open>Tests\<close>

fun digits :: "nat \<Rightarrow> nat \<Rightarrow> string" where
  "digits 0 x = ''''"
| "digits (Suc n) x = (if x < 10 then '''' else digits n (x div 10)) @ [char_of (48 + x mod 10)]"

definition to_string :: "int \<Rightarrow> string" where
  "to_string i = (if i < 0 then ''-'' else '''') @ digits 20 (nat \<bar>i\<bar>)"

definition fromStateValue :: "state_value \<Rightarrow> string" where
  "fromStateValue value =
     (if FALSE_STATE = value then ''FALSE''
      else if TRUE_STATE = value then ''TRUE''
      else if REHASH_DELETED = value then ''REHASH DELETED''
      else ''UNKNOWN - '' @ to_string (uint value))"

text \<open>The lines that \<^verbatim>\<open>test_output\<close> logs.\<close>

definition test_output :: "bool \<Rightarrow> HT_Res \<Rightarrow> HT_Res \<Rightarrow> string \<Rightarrow> string list" where
  "test_output show_passing actual expected message =
     (if status actual \<noteq> status expected \<and> result actual \<noteq> result expected then
        [''[-] '' @ message @ '' func():('' @ fromStateValue (status actual) @ '','' @ to_string (sint (result actual)) @
         '') != expected:('' @ fromStateValue (status expected) @ '','' @ to_string (sint (result expected)) @ '')'']
      else if show_passing then [''[+] Test Case '' @ message @ '' Passed!'']
      else [])"

section \<open>The client\<close>

record Client =
  host_peer :: Peer
  endpoint_ctx :: EndpointContext
  params :: ExperimentParams
  has_barrier :: bool
  master_client :: bool
  count :: int
  progression :: int

definition Client_new :: "(real \<Rightarrow> real) \<Rightarrow> Peer \<Rightarrow> EndpointContext \<Rightarrow> ExperimentParams \<Rightarrow> bool \<Rightarrow> bool \<Rightarrow> Client" where
  "Client_new rnd host ctx ps barrier master =
     \<lparr>host_peer = host, endpoint_ctx = ctx, params = ps, has_barrier = barrier, master_client = master, count = 0,
      progression = (if unlimited_stream ps then 10000 else trunc (rnd (of_int (op_count ps) * rnd 0.001)))\<rparr>"

text \<open>
  What \<^verbatim>\<open>Apply\<close> can fail with: \<^verbatim>\<open>count\<close> leaves the range of \<^verbatim>\<open>int\<close>, \<^verbatim>\<open>count % progression\<close> with
  \<^verbatim>\<open>progression\<close> zero, a \<^verbatim>\<open>ROME_ASSERT\<close> that does not hold, an operation of the table that does
  not return.
\<close>

datatype client_error = Int_overflow | Division_by_zero | Assertion_failed | Table_failed

definition log_progress :: "Client \<Rightarrow> client_error + 'a \<Rightarrow> client_error + 'a" where
  "log_progress c k = (if progression c = 0 then Inl Division_by_zero else k)"

definition assert_key :: "HT_Res \<Rightarrow> key \<Rightarrow> client_error + 'a \<Rightarrow> client_error + 'a" where
  "assert_key res key k = (if status res = TRUE_STATE \<and> result res \<noteq> key then Inl Assertion_failed else k)"

definition Apply :: "('n \<Rightarrow> call \<Rightarrow> 's \<Rightarrow> (HT_Res \<times> 's) option) \<Rightarrow> 'n \<Rightarrow> IHT_Op \<Rightarrow> Client \<Rightarrow> 's
    \<Rightarrow> client_error + Client \<times> 's" where
  "Apply exec self op c0 s =
     (if 2 ^ 31 \<le> count c0 + 1 then Inl Int_overflow else
      let c = c0\<lparr>count := count c0 + 1\<rparr> in
      if op_type op = CONTAINS then
        log_progress c (case exec self (Contains (op_key op)) s of
          None \<Rightarrow> Inl Table_failed
        | Some (res, s') \<Rightarrow> assert_key res (op_key op) (Inr (c, s')))
      else if op_type op = INSERT then
        log_progress c (case exec self (Insert (op_key op) (op_value op)) s of
          None \<Rightarrow> Inl Table_failed
        | Some (res, s') \<Rightarrow> Inr (c, s'))
      else if op_type op = REMOVE then
        log_progress c (case exec self (Remove (op_key op)) s of
          None \<Rightarrow> Inl Table_failed
        | Some (res, s') \<Rightarrow> assert_key res (op_key op) (Inr (c, s')))
      else Inr (c, s))"

text \<open>The workload driver hands the operations of the stream to \<^verbatim>\<open>Apply\<close> one after the other.\<close>

fun apply_all :: "('n \<Rightarrow> call \<Rightarrow> 's \<Rightarrow> (HT_Res \<times> 's) option) \<Rightarrow> 'n \<Rightarrow> IHT_Op list \<Rightarrow> Client \<Rightarrow> 's
    \<Rightarrow> client_error + Client \<times> 's" where
  "apply_all exec self [] c s = Inr (c, s)"
| "apply_all exec self (op # ops) c s =
     (case Apply exec self op c s of Inl e \<Rightarrow> Inl e | Inr (c', s') \<Rightarrow> apply_all exec self ops c' s')"

text \<open>The lambda \<^verbatim>\<open>generator\<close> of \<^verbatim>\<open>Run\<close>, for its two draws.\<close>

definition generator :: "(real \<Rightarrow> real) \<Rightarrow> ExperimentParams \<Rightarrow> real \<times> real \<Rightarrow> IHT_Op" where
  "generator rnd ps u =
     (let rng = rnd (fst u * 100);
          k = word_of_int (draw_key rnd (key_ub ps - key_lb ps) (key_lb ps) (snd u)) in
      if rng < of_int (p_contains ps) then mk_op CONTAINS k 0
      else if rng < of_int (p_contains ps + p_insert ps) then mk_op INSERT k k
      else mk_op REMOVE k 0)"

text \<open>
  The stream of operations, for the draws \<open>vs\<close>: an endless one calls the generator for each operation it is asked for,
  a bounded one holds \<^verbatim>\<open>op_count\<close> operations generated before.
\<close>

definition stream_draws :: "ExperimentParams \<Rightarrow> (real \<times> real) list \<Rightarrow> (real \<times> real) list" where
  "stream_draws ps vs = (if unlimited_stream ps then vs else take (nat (op_count ps)) vs)"

definition workload :: "(real \<Rightarrow> real) \<Rightarrow> ExperimentParams \<Rightarrow> (real \<times> real) list \<Rightarrow> IHT_Op list" where
  "workload rnd ps vs = map (generator rnd ps) (stream_draws ps vs)"

text \<open>
  The part of \<^verbatim>\<open>Run\<close> that works on the table: fill it, make the stream, apply its operations. The driver hands
  over one operation after the other until the stream ends or \<^verbatim>\<open>Run\<close>, after it has slept for the runtime, stops it;
  \<open>handed\<close> is how many it can hand over before that.
\<close>

definition populate_count :: "(real \<Rightarrow> real) \<Rightarrow> ExperimentParams \<Rightarrow> real \<Rightarrow> int" where
  "populate_count rnd ps portion = trunc (rnd (of_int (key_ub ps - key_lb ps) * portion))"

definition Run_table :: "('n \<Rightarrow> call \<Rightarrow> 's \<Rightarrow> (HT_Res \<times> 's) option) \<Rightarrow> 'n \<Rightarrow> (real \<Rightarrow> real) \<Rightarrow> real
    \<Rightarrow> real list \<Rightarrow> (real \<times> real) list \<Rightarrow> nat \<Rightarrow> Client \<Rightarrow> 's \<Rightarrow> client_error + Client \<times> 's" where
  "Run_table exec self rnd portion us vs handed c s =
     (case populate exec self rnd (populate_count rnd (params c) portion) (key_lb (params c)) (key_ub (params c))
             (\<lambda>key. key) us s of
        None \<Rightarrow> Inl Table_failed
      | Some s' \<Rightarrow> apply_all exec self (take handed (workload rnd (params c) vs)) c s')"

section \<open>The built-in test\<close>

datatype test_item = Info string | Test call HT_Res string

fun run_tests :: "('n \<Rightarrow> call \<Rightarrow> 's \<Rightarrow> (HT_Res \<times> 's) option) \<Rightarrow> 'n \<Rightarrow> bool \<Rightarrow> test_item list \<Rightarrow> 's
    \<Rightarrow> (string list \<times> 's) option" where
  "run_tests exec self show_passing [] s = Some ([], s)"
| "run_tests exec self show_passing (Info msg # ts) s =
     map_option (\<lambda>(out, s'). (msg # out, s')) (run_tests exec self show_passing ts s)"
| "run_tests exec self show_passing (Test x expected msg # ts) s =
     (case exec self x s of
        None \<Rightarrow> None
      | Some (r, s') \<Rightarrow>
          map_option (\<lambda>(out, s''). (test_output show_passing r expected msg @ out, s''))
            (run_tests exec self show_passing ts s'))"

definition scale_size :: nat where
  "scale_size = CNF_PLIST_SIZE * CNF_ELIST_SIZE * 8"

abbreviation key_of :: "nat \<Rightarrow> key" where "key_of i \<equiv> of_nat i"

definition scale_insert :: "nat \<Rightarrow> test_item list" where
  "scale_insert i =
    [Test (Contains (key_of i)) (ht_res FALSE_STATE 0) (''Contains '' @ to_string (int i) @ '' false''),
     Test (Insert (key_of i) (key_of i)) (ht_res TRUE_STATE 0) (''Insert '' @ to_string (int i)),
     Test (Contains (key_of i)) (ht_res TRUE_STATE (key_of i)) (''Contains '' @ to_string (int i) @ '' true'')]"

definition scale_still :: "nat \<Rightarrow> test_item list" where
  "scale_still i =
    [Test (Contains (key_of i)) (ht_res TRUE_STATE (key_of i)) (''Contains '' @ to_string (int i) @ '' maintains true'')]"

definition scale_remove :: "nat \<Rightarrow> test_item list" where
  "scale_remove i =
    [Test (Remove (key_of i)) (ht_res TRUE_STATE (key_of i)) (''Removes '' @ to_string (int i)),
     Test (Contains (key_of i)) (ht_res FALSE_STATE 0) (''Contains '' @ to_string (int i) @ '' false'')]"

definition scale_gone :: "nat \<Rightarrow> test_item list" where
  "scale_gone i =
    [Test (Contains (key_of i)) (ht_res FALSE_STATE 0) (''Contains '' @ to_string (int i) @ '' maintains false'')]"

definition scale_tests :: "nat \<Rightarrow> test_item list" where
  "scale_tests n =
     concat (map scale_insert [0..<n]) @ [Info '' = 25% Finished = ''] @
     concat (map scale_still [0..<n]) @ [Info '' = 50% Finished = ''] @
     concat (map scale_remove [0..<n]) @ [Info '' = 75% Finished = ''] @
     concat (map scale_gone [0..<n]) @ [Info ''All test cases finished'']"

definition small_tests :: "test_item list" where
  "small_tests =
    [Info ''Starting test cases.'',
     Test (Contains 5) (ht_res FALSE_STATE 0) ''Contains 5'',
     Test (Contains 4) (ht_res FALSE_STATE 0) ''Contains 4'',
     Test (Insert 5 10) (ht_res FALSE_STATE 0) ''Insert 5'',
     Test (Insert 5 11) (ht_res FALSE_STATE 10) ''Insert 5 again should fail'',
     Test (Contains 5) (ht_res TRUE_STATE 10) ''Contains 5'',
     Test (Contains 4) (ht_res FALSE_STATE 0) ''Contains 4'',
     Test (Remove 5) (ht_res TRUE_STATE 10) ''Remove 5'',
     Test (Remove 4) (ht_res FALSE_STATE 0) ''Remove 4'',
     Test (Contains 5) (ht_res FALSE_STATE 0) ''Contains 5'',
     Test (Contains 4) (ht_res FALSE_STATE 0) ''Contains 4'',
     Info ''All cases finished'']"

text \<open>\<^verbatim>\<open>Operations\<close> up to its call of \<^verbatim>\<open>Stop\<close>.\<close>

definition Operations :: "('n \<Rightarrow> call \<Rightarrow> 's \<Rightarrow> (HT_Res \<times> 's) option) \<Rightarrow> 'n \<Rightarrow> bool \<Rightarrow> 's
    \<Rightarrow> (string list \<times> 's) option" where
  "Operations exec self at_scale s =
     (if at_scale then run_tests exec self False (scale_tests scale_size) s
      else run_tests exec self True small_tests s)"

section \<open>Synchronisation\<close>

text \<open>
  The memory the threads of a node share beyond the connections: the flag \<^verbatim>\<open>done\<close> and the
  barrier \<^verbatim>\<open>client_sync\<close>.  The barrier counts arrivals; a phase is complete when all
  \<open>barrier_size\<close> threads have arrived in it, and a thread waits for the phase it arrived in.
\<close>

record pmem = mem +
  done_flag :: bool
  barrier_size :: nat
  arrivals :: nat
  tokens :: "nat \<Rightarrow> nat"

type_synonym 'r client_io = "(pmem, 'r) io"

definition phase :: "pmem \<Rightarrow> nat" where
  "phase m = arrivals m div barrier_size m"

definition arrive_and_wait :: "nat \<Rightarrow> 'r client_io \<Rightarrow> 'r client_io" where
  "arrive_and_wait tid k =
     upd (\<lambda>m. m\<lparr>tokens := (tokens m)(tid := phase m), arrivals := arrivals m + 1\<rparr>) (
     Wait (\<lambda>m. tokens m tid < phase m) (\<lambda>m. m) k)"

definition Start :: "nat \<Rightarrow> Client \<Rightarrow> 'r client_io \<Rightarrow> 'r client_io" where
  "Start tid c k = (if has_barrier c then arrive_and_wait tid k else k)"

definition Stop :: "nat \<Rightarrow> Client \<Rightarrow> 'r client_io \<Rightarrow> 'r client_io" where
  "Stop tid c k =
     (if \<not> master_client c \<and> has_barrier c then arrive_and_wait tid else (\<lambda>k'. k')) (
     em_getInstance (endpoint_ctx c) (Some (peer_address (host_peer c))) (\<lambda>endpoint. case endpoint of
       None \<Rightarrow> Crash
     | Some this \<Rightarrow>
         send_server this (mk_message 0 0 0 0) (
         recv_server this (mk_message 0 0 0 0) (\<lambda>recv_buffer. k))))"

text \<open>
  The part of \<^verbatim>\<open>Run\<close> that synchronises the threads.  The workload driver calls \<^verbatim>\<open>Start\<close> of the
  client before it is itself started, and \<^verbatim>\<open>Stop\<close> of the client when it is stopped.
\<close>

definition Run_sync :: "nat \<Rightarrow> Client \<Rightarrow> 'r client_io \<Rightarrow> 'r client_io" where
  "Run_sync tid c k =
     (if \<not> has_barrier c then Crash else
      arrive_and_wait tid (
      Start tid c (
      (if master_client c then (\<lambda>k'. arrive_and_wait tid (upd (\<lambda>m. m\<lparr>done_flag := True\<rparr>) k')) else (\<lambda>k'. k')) (
      Stop tid c k))))"

end
