(* ===== verification/Iht.thy ===== *)
theory Iht
  imports Common Rome
begin

text \<open>
  \<^verbatim>\<open>structures/iht_ds.h\<close>, class \<^verbatim>\<open>RdmaIHT\<close>: the interlocked hash table.

  The table is a tree.  A pointer list (PList) is an array of buckets; a bucket is a base
  pointer and a pointer to its lock.  A bucket's base is null, or an element list (EList) of
  at most \<^verbatim>\<open>ELIST_SIZE\<close> pairs, or, when its lock is permanently in state \<open>P_UNLOCKED\<close>,
  another PList of twice the size.

  Each method is a program over the memory verbs of \<open>Rome\<close>, written in the order of the
  source, with every load, store, allocation and deallocation it makes.  A \<^verbatim>\<open>while (true)\<close>
  loop takes fuel.  What C++ leaves undefined is \<open>Undefined\<close>.
\<close>

section \<open>The class\<close>

text \<open>
  The template arguments, \<^verbatim>\<open>std::hash<K>\<close> and Rome's null pointer, then the two fields
  \<^verbatim>\<open>self_\<close> and \<^verbatim>\<open>root\<close>.
\<close>

record RdmaIHT =
  ELIST_SIZE :: nat
  PLIST_SIZE :: nat
  pre_hash :: "key \<Rightarrow> uint64"
  nullptr :: remote_ptr
  self_id :: nat
  root :: remote_ptr

definition E_LOCKED :: uint64 where "E_LOCKED = 1"
definition E_UNLOCKED :: uint64 where "E_UNLOCKED = 2"
definition P_UNLOCKED :: uint64 where "P_UNLOCKED = 3"

lemma lock_states_distinct [simp]:
  "E_LOCKED \<noteq> E_UNLOCKED" "E_LOCKED \<noteq> P_UNLOCKED" "E_UNLOCKED \<noteq> P_UNLOCKED"
  "E_UNLOCKED \<noteq> E_LOCKED" "P_UNLOCKED \<noteq> E_LOCKED" "P_UNLOCKED \<noteq> E_UNLOCKED"
  by (simp_all add: E_LOCKED_def E_UNLOCKED_def P_UNLOCKED_def)

subsection \<open>Element lists\<close>

record EList =
  elist_count :: nat
  elist_pairs :: "(key \<times> val) list"

text \<open>Both overloads: the pair goes to position \<open>count\<close>, which must be inside the array.\<close>

definition elist_insert :: "EList \<Rightarrow> key \<Rightarrow> val \<Rightarrow> EList option" where
  "elist_insert x k v =
     (if elist_count x < length (elist_pairs x)
      then Some \<lparr>elist_count = elist_count x + 1, elist_pairs = (elist_pairs x)[elist_count x := (k, v)]\<rparr>
      else None)"

text \<open>The pairs the loops \<^verbatim>\<open>for (i = 0; i < e->count; i++)\<close> visit, and the first with a key.\<close>

definition elist_live :: "EList \<Rightarrow> (key \<times> val) list" where
  "elist_live x = take (elist_count x) (elist_pairs x)"

fun linear_search :: "key \<Rightarrow> (key \<times> val) list \<Rightarrow> nat option" where
  "linear_search k [] = None"
| "linear_search k (p # ps) = (if fst p = k then Some 0 else map_option Suc (linear_search k ps))"

text \<open>The body of \<open>remove\<close> on an element list: the last pair takes the place of the removed one.\<close>

definition elist_remove_at :: "EList \<Rightarrow> nat \<Rightarrow> EList" where
  "elist_remove_at x i =
     \<lparr>elist_count = elist_count x - 1,
      elist_pairs = (if elist_count x > 1
                     then (elist_pairs x)[i := elist_pairs x ! (elist_count x - 1)]
                     else elist_pairs x)\<rparr>"

subsection \<open>Memory layout\<close>

datatype iht_cell = LockC uint64 | PtrC remote_ptr | EListC EList

type_synonym 'r iht_prog = "(iht_cell, 'r) prog"

definition lock_t :: "iht_cell ctype" where
  "lock_t = \<lparr>ct_stride = 8, ct_cells = 1,
     ct_fresh = (\<lambda>c. case c of LockC _ \<Rightarrow> True | _ \<Rightarrow> False), ct_default = LockC 0\<rparr>"

definition baseptr_t :: "iht_cell ctype" where
  "baseptr_t = \<lparr>ct_stride = 8, ct_cells = 1,
     ct_fresh = (\<lambda>c. case c of PtrC _ \<Rightarrow> True | _ \<Rightarrow> False), ct_default = PtrC (Remote 0 0)\<rparr>"

text \<open>A new element list has \<^verbatim>\<open>count = 0\<close>, its default member initialiser.\<close>

definition EList_t :: "RdmaIHT \<Rightarrow> iht_cell ctype" where
  "EList_t c = \<lparr>ct_stride = 64, ct_cells = 1,
     ct_fresh = (\<lambda>y. case y of
        EListC x \<Rightarrow> elist_count x = 0 \<and> length (elist_pairs x) = ELIST_SIZE c | _ \<Rightarrow> False),
     ct_default = EListC \<lparr>elist_count = 0, elist_pairs = replicate (ELIST_SIZE c) (0, 0)\<rparr>\<rparr>"

text \<open>
  A PList is \<^verbatim>\<open>PLIST_SIZE\<close> buckets of 16 bytes, each a base pointer (8 bytes) and a lock
  pointer (8 bytes).
\<close>

definition PList_t :: "RdmaIHT \<Rightarrow> iht_cell ctype" where
  "PList_t c = \<lparr>ct_stride = 8, ct_cells = 2 * PLIST_SIZE c,
     ct_fresh = (\<lambda>c. case c of PtrC _ \<Rightarrow> True | _ \<Rightarrow> False), ct_default = PtrC (Remote 0 0)\<rparr>"

definition base_field :: "remote_ptr \<Rightarrow> nat \<Rightarrow> remote_ptr" where
  "base_field p i = ptr_add p (16 * i)"

definition lock_field :: "remote_ptr \<Rightarrow> nat \<Rightarrow> remote_ptr" where
  "lock_field p i = ptr_add p (16 * i + 8)"

text \<open>Typed dereferences.\<close>

definition load_ptr :: "remote_ptr \<Rightarrow> (remote_ptr \<Rightarrow> 'r iht_prog) \<Rightarrow> 'r iht_prog" where
  "load_ptr a k = Load a (\<lambda>y. case y of PtrC q \<Rightarrow> k q | _ \<Rightarrow> Undefined)"

definition load_elist :: "remote_ptr \<Rightarrow> (EList \<Rightarrow> 'r iht_prog) \<Rightarrow> 'r iht_prog" where
  "load_elist a k = Load a (\<lambda>y. case y of EListC x \<Rightarrow> k x | _ \<Rightarrow> Undefined)"

text \<open>\<^verbatim>\<open>1 << n\<close> at type \<^verbatim>\<open>int\<close>: a shift into or past the sign bit is not a value of the model.\<close>

definition shl1 :: "nat \<Rightarrow> (nat \<Rightarrow> 'r iht_prog) \<Rightarrow> 'r iht_prog" where
  "shl1 n k = (if n < 31 then k (2 ^ n) else Undefined)"

section \<open>Private methods\<close>

definition is_local :: "RdmaIHT \<Rightarrow> remote_ptr \<Rightarrow> bool" where
  "is_local c p \<longleftrightarrow> ptr_id p = self_id c"

definition is_null :: "RdmaIHT \<Rightarrow> remote_ptr \<Rightarrow> bool" where
  "is_null c p \<longleftrightarrow> p = nullptr c"

text \<open>
  \<^verbatim>\<open>InitPList\<close>: the loop over the buckets from index \<open>i\<close>, \<open>n\<close> of them left.  Its bound
  \<^verbatim>\<open>PLIST_SIZE * mult_modder\<close> is a product of two \<^verbatim>\<open>int\<close>s, undefined when it overflows.
\<close>

fun init_buckets :: "RdmaIHT \<Rightarrow> remote_ptr \<Rightarrow> nat \<Rightarrow> nat \<Rightarrow> 'r iht_prog \<Rightarrow> 'r iht_prog" where
  "init_buckets c p i 0 k = k"
| "init_buckets c p i (Suc n) k =
     Allocate lock_t 1 (\<lambda>l.
     Store (lock_field p i) (PtrC l) (
     load_ptr (lock_field p i) (\<lambda>l'.
     Store l' (LockC E_UNLOCKED) (
     Store (base_field p i) (PtrC (nullptr c)) (
     init_buckets c p (Suc i) n k)))))"

definition InitPList :: "RdmaIHT \<Rightarrow> remote_ptr \<Rightarrow> nat \<Rightarrow> 'r iht_prog \<Rightarrow> 'r iht_prog" where
  "InitPList c p mult_modder k =
     (if PLIST_SIZE c * mult_modder < 2 ^ 31 then init_buckets c p 0 (PLIST_SIZE c * mult_modder) k
      else Undefined)"

text \<open>\<^verbatim>\<open>acquire\<close>: spin on the compare-and-swap until it answers something other than \<open>E_LOCKED\<close>.\<close>

fun acquire :: "nat \<Rightarrow> remote_ptr \<Rightarrow> (bool \<Rightarrow> 'r iht_prog) \<Rightarrow> 'r iht_prog" where
  "acquire 0 l k = Out_of_fuel"
| "acquire (Suc n) l k =
     CompareAndSwap l (LockC E_UNLOCKED) (LockC E_LOCKED) (\<lambda>y. case y of
       LockC v \<Rightarrow> (if v = P_UNLOCKED then k False
                   else if v = E_UNLOCKED then k True
                   else acquire n l k)
     | _ \<Rightarrow> Undefined)"

definition unlock :: "remote_ptr \<Rightarrow> uint64 \<Rightarrow> 'r iht_prog \<Rightarrow> 'r iht_prog" where
  "unlock l unlock_status k =
     Allocate lock_t 1 (\<lambda>temp.
     Write l (LockC unlock_status) (Some temp) (
     Deallocate lock_t 8 temp k))"

definition change_bucket_pointer ::
    "RdmaIHT \<Rightarrow> remote_ptr \<Rightarrow> nat \<Rightarrow> remote_ptr \<Rightarrow> 'r iht_prog \<Rightarrow> 'r iht_prog" where
  "change_bucket_pointer c before_localized_curr bucket baseptr k =
     (let magic_baseptr = Remote (ptr_id before_localized_curr)
                                 (address before_localized_curr + 16 * bucket) in
      if \<not> is_local c magic_baseptr then
        Allocate baseptr_t 1 (\<lambda>temp.
        Write magic_baseptr (PtrC baseptr) (Some temp) (
        Deallocate baseptr_t 8 temp k))
      else Store magic_baseptr (PtrC baseptr) k)"

definition level_hash :: "RdmaIHT \<Rightarrow> key \<Rightarrow> nat \<Rightarrow> nat \<Rightarrow> nat" where
  "level_hash c k level count = unat ((of_nat level XOR pre_hash c k) mod (of_nat count - 1))"

text \<open>\<^verbatim>\<open>rehash\<close>: the loop over the pairs of the full element list.\<close>

fun rehash_pairs :: "RdmaIHT \<Rightarrow> remote_ptr \<Rightarrow> nat \<Rightarrow> nat \<Rightarrow> (key \<times> val) list \<Rightarrow> 'r iht_prog
    \<Rightarrow> 'r iht_prog" where
  "rehash_pairs c new_p pcount pdepth [] k = k"
| "rehash_pairs c new_p pcount pdepth (p # ps) k =
     (let b = level_hash c (fst p) (pdepth + 1) pcount;
          insert_into = load_ptr (base_field new_p b) (\<lambda>dest.
            load_elist dest (\<lambda>x. case elist_insert x (fst p) (snd p) of
              Some x' \<Rightarrow> Store dest (EListC x') (rehash_pairs c new_p pcount pdepth ps k)
            | None \<Rightarrow> Undefined)) in
      load_ptr (base_field new_p b) (\<lambda>base.
        if is_null c base
        then Allocate (EList_t c) 1 (\<lambda>e. Store (base_field new_p b) (PtrC e) insert_into)
        else insert_into))"

text \<open>\<open>localize\<close>: \<^verbatim>\<open>is_local(p) || is_null(p) ? p : pool_->Read<EList>(p)\<close>.\<close>

definition localize_elist :: "RdmaIHT \<Rightarrow> remote_ptr \<Rightarrow> (remote_ptr \<Rightarrow> 'r iht_prog) \<Rightarrow> 'r iht_prog" where
  "localize_elist c p k = (if is_local c p \<or> is_null c p then k p else Read (EList_t c) 1 p k)"

text \<open>\<^verbatim>\<open>plist_size_factor\<close> is an \<^verbatim>\<open>int\<close>: a quotient outside its range is not a value of the model.\<close>

definition rehash :: "RdmaIHT \<Rightarrow> remote_ptr \<Rightarrow> nat \<Rightarrow> nat \<Rightarrow> nat
    \<Rightarrow> (remote_ptr \<Rightarrow> 'r iht_prog) \<Rightarrow> 'r iht_prog" where
  "rehash c parent pcount0 pdepth pidx k =
     (let pcount = (pcount0 * 2) mod 2 ^ 64; plist_size_factor = pcount div PLIST_SIZE c in
      if 2 ^ 31 \<le> plist_size_factor then Undefined else
      Allocate (PList_t c) plist_size_factor (\<lambda>new_p.
      InitPList c new_p plist_size_factor (
      load_ptr (base_field parent pidx) (\<lambda>parent_bucket.
      (if is_local c parent_bucket then (\<lambda>k'. k' parent_bucket)
       else Read (EList_t c) 1 parent_bucket) (\<lambda>source.
      load_elist source (\<lambda>x.
      if length (elist_pairs x) < elist_count x then Undefined else
      rehash_pairs c new_p pcount pdepth (elist_live x) (
      Deallocate (EList_t c) 1 source (
      k new_p))))))))"

section \<open>Construction\<close>

definition InitAsFirst :: "RdmaIHT \<Rightarrow> RdmaIHT iht_prog" where
  "InitAsFirst c =
     Allocate (PList_t c) 1 (\<lambda>iht_root.
     InitPList c iht_root 1 (
     Return (c\<lparr>root := iht_root\<rparr>)))"

definition InitFromPointer :: "RdmaIHT \<Rightarrow> remote_ptr \<Rightarrow> RdmaIHT" where
  "InitFromPointer c root_ptr = c\<lparr>root := root_ptr\<rparr>"

section \<open>Public methods\<close>

text \<open>\<^verbatim>\<open>if (oldBucketBase) pool_->Deallocate<PList>(curr, 1 << (depth - 1))\<close>\<close>

definition free_curr :: "RdmaIHT \<Rightarrow> bool \<Rightarrow> remote_ptr \<Rightarrow> nat \<Rightarrow> 'r iht_prog \<Rightarrow> 'r iht_prog" where
  "free_curr c oldBucketBase cur depth k =
     (if oldBucketBase then shl1 (depth - 1) (\<lambda>s. Deallocate (PList_t c) s cur k) else k)"

text \<open>
  The branch all three methods share: the lock is permanently unlocked, so the bucket holds a
  sub-PList.  The PList is read again, the sub-PList localised, the copies freed.
\<close>

definition descend :: "RdmaIHT \<Rightarrow> remote_ptr \<Rightarrow> remote_ptr \<Rightarrow> nat \<Rightarrow> nat \<Rightarrow> bool
    \<Rightarrow> (remote_ptr \<Rightarrow> remote_ptr \<Rightarrow> bool \<Rightarrow> 'r iht_prog) \<Rightarrow> 'r iht_prog" where
  "descend c cur before_localized_curr depth bucket oldBucketBase k =
     shl1 (depth - 1) (\<lambda>s.
     Read (PList_t c) s before_localized_curr (\<lambda>curr_temp.
     load_ptr (base_field curr_temp bucket) (\<lambda>bucket_base.
     (if is_local c bucket_base \<or> is_null c bucket_base then (\<lambda>k'. k' bucket_base)
      else (\<lambda>k'. shl1 depth (\<lambda>s'. Read (PList_t c) s' bucket_base k'))) (\<lambda>base_ptr.
     Deallocate (PList_t c) s curr_temp (
     free_curr c oldBucketBase cur depth (
     k base_ptr bucket_base (\<not> is_local c bucket_base)))))))"

text \<open>
  The linear search of all three methods: \<open>found i\<close> is the loop body's \<^verbatim>\<open>if\<close> at the first index
  with the key, \<open>missing\<close> is what follows the loop.
\<close>

definition search_elist :: "EList \<Rightarrow> key \<Rightarrow> (nat \<Rightarrow> 'r iht_prog) \<Rightarrow> 'r iht_prog \<Rightarrow> 'r iht_prog" where
  "search_elist x k found missing =
     (if length (elist_pairs x) < elist_count x then Undefined
      else case linear_search k (elist_live x) of Some i \<Rightarrow> found i | None \<Rightarrow> missing)"

definition unlock_bucket :: "remote_ptr \<Rightarrow> nat \<Rightarrow> uint64 \<Rightarrow> 'r iht_prog \<Rightarrow> 'r iht_prog" where
  "unlock_bucket cur bucket unlock_status k =
     load_ptr (lock_field cur bucket) (\<lambda>l. unlock l unlock_status k)"

text \<open>\<^verbatim>\<open>if (!is_local(bucket_base)) pool_->Deallocate<EList>(e)\<close>\<close>

definition free_elist :: "RdmaIHT \<Rightarrow> remote_ptr \<Rightarrow> remote_ptr \<Rightarrow> 'r iht_prog \<Rightarrow> 'r iht_prog" where
  "free_elist c bucket_base e k =
     (if \<not> is_local c bucket_base then Deallocate (EList_t c) 1 e k else k)"

text \<open>\<^verbatim>\<open>if (!is_local(bucket_base)) pool_->Write<EList>(bucket_base, *e)\<close>\<close>

definition write_back :: "RdmaIHT \<Rightarrow> remote_ptr \<Rightarrow> remote_ptr \<Rightarrow> 'r iht_prog \<Rightarrow> 'r iht_prog" where
  "write_back c bucket_base e k =
     (if \<not> is_local c bucket_base then Load e (\<lambda>y. Write bucket_base y None k) else k)"

text \<open>
  Each method is a loop; one turn of it locks the bucket, and descends or, when the lock was
  free, runs the part of the loop body that works on the locked element list.
\<close>

definition contains_body :: "RdmaIHT \<Rightarrow> key \<Rightarrow> remote_ptr \<Rightarrow> nat \<Rightarrow> nat \<Rightarrow> bool \<Rightarrow> HT_Res iht_prog" where
  "contains_body c key cur depth bucket oldBucketBase =
     load_ptr (base_field cur bucket) (\<lambda>bucket_base.
     localize_elist c bucket_base (\<lambda>e.
     if is_null c e then
       unlock_bucket cur bucket E_UNLOCKED (
       free_curr c oldBucketBase cur depth (
       Return (ht_res FALSE_STATE 0)))
     else
       load_elist e (\<lambda>x.
       search_elist x key
         (\<lambda>i. unlock_bucket cur bucket E_UNLOCKED (
              free_elist c bucket_base e (
              free_curr c oldBucketBase cur depth (
              Return (ht_res TRUE_STATE (snd (elist_pairs x ! i)))))))
         (unlock_bucket cur bucket E_UNLOCKED (
          free_elist c bucket_base e (
          free_curr c oldBucketBase cur depth (
          Return (ht_res FALSE_STATE 0))))))))"

fun contains_loop :: "RdmaIHT \<Rightarrow> key \<Rightarrow> nat \<Rightarrow> remote_ptr \<Rightarrow> remote_ptr \<Rightarrow> nat \<Rightarrow> nat \<Rightarrow> bool
    \<Rightarrow> HT_Res iht_prog" where
  "contains_loop c key 0 cur before_localized_curr depth count oldBucketBase = Out_of_fuel"
| "contains_loop c key (Suc n) cur before_localized_curr depth count oldBucketBase =
     (let bucket = level_hash c key depth count in
      load_ptr (lock_field cur bucket) (\<lambda>l.
      acquire (Suc n) l (\<lambda>locked.
      if \<not> locked then
        descend c cur before_localized_curr depth bucket oldBucketBase
          (\<lambda>cur' next_base old'.
             contains_loop c key n cur' next_base (depth + 1) ((count * 2) mod 2 ^ 64) old')
      else contains_body c key cur depth bucket oldBucketBase)))"

definition iht_contains :: "RdmaIHT \<Rightarrow> nat \<Rightarrow> key \<Rightarrow> HT_Res iht_prog" where
  "iht_contains c fuel key =
     Read (PList_t c) 1 (root c) (\<lambda>cur.
     contains_loop c key fuel cur (root c) 1 (PLIST_SIZE c) True)"

text \<open>
  In \<open>insert\<close> the body may make room by a rehash; then the loop goes round again (\<open>again\<close>) on
  the same PList, with \<^verbatim>\<open>oldBucketBase = false\<close>.
\<close>

definition insert_body :: "RdmaIHT \<Rightarrow> key \<Rightarrow> val \<Rightarrow> remote_ptr \<Rightarrow> remote_ptr \<Rightarrow> nat \<Rightarrow> nat \<Rightarrow> nat \<Rightarrow> bool
    \<Rightarrow> HT_Res iht_prog \<Rightarrow> HT_Res iht_prog" where
  "insert_body c key value cur before_localized_curr depth count bucket oldBucketBase again =
     load_ptr (base_field cur bucket) (\<lambda>bucket_base.
     localize_elist c bucket_base (\<lambda>e.
     if is_null c e then
       Allocate (EList_t c) 1 (\<lambda>e_new.
       load_elist e_new (\<lambda>x. case elist_insert x key value of
         None \<Rightarrow> Undefined
       | Some x' \<Rightarrow>
           Store e_new (EListC x') (
           change_bucket_pointer c before_localized_curr bucket e_new (
           unlock_bucket cur bucket E_UNLOCKED (
           free_curr c oldBucketBase cur depth (
           Return (ht_res TRUE_STATE 0)))))))
     else
       load_elist e (\<lambda>x.
       search_elist x key
         (\<lambda>i. unlock_bucket cur bucket E_UNLOCKED (
              free_elist c bucket_base e (
              free_curr c oldBucketBase cur depth (
              Return (ht_res FALSE_STATE (snd (elist_pairs x ! i)))))))
         (if elist_count x < ELIST_SIZE c then
            (case elist_insert x key value of
               None \<Rightarrow> Undefined
             | Some x' \<Rightarrow>
                 Store e (EListC x') (
                 write_back c bucket_base e (
                 unlock_bucket cur bucket E_UNLOCKED (
                 free_elist c bucket_base e (
                 free_curr c oldBucketBase cur depth (
                 Return (ht_res TRUE_STATE 0)))))))
          else
            rehash c cur count depth bucket (\<lambda>p.
            change_bucket_pointer c before_localized_curr bucket p (
            Store (base_field cur bucket) (PtrC p) (
            unlock_bucket cur bucket P_UNLOCKED (
            free_elist c bucket_base e again))))))))"

fun insert_loop :: "RdmaIHT \<Rightarrow> key \<Rightarrow> val \<Rightarrow> nat \<Rightarrow> remote_ptr \<Rightarrow> remote_ptr \<Rightarrow> nat \<Rightarrow> nat \<Rightarrow> bool
    \<Rightarrow> HT_Res iht_prog" where
  "insert_loop c key value 0 cur before_localized_curr depth count oldBucketBase = Out_of_fuel"
| "insert_loop c key value (Suc n) cur before_localized_curr depth count oldBucketBase =
     (let bucket = level_hash c key depth count in
      load_ptr (lock_field cur bucket) (\<lambda>l.
      acquire (Suc n) l (\<lambda>locked.
      if \<not> locked then
        descend c cur before_localized_curr depth bucket oldBucketBase
          (\<lambda>cur' next_base old'.
             insert_loop c key value n cur' next_base (depth + 1) ((count * 2) mod 2 ^ 64) old')
      else insert_body c key value cur before_localized_curr depth count bucket oldBucketBase
             (insert_loop c key value n cur before_localized_curr depth count False))))"

definition iht_insert :: "RdmaIHT \<Rightarrow> nat \<Rightarrow> key \<Rightarrow> val \<Rightarrow> HT_Res iht_prog" where
  "iht_insert c fuel key value =
     Read (PList_t c) 1 (root c) (\<lambda>cur.
     insert_loop c key value fuel cur (root c) 1 (PLIST_SIZE c) True)"

definition remove_body :: "RdmaIHT \<Rightarrow> key \<Rightarrow> remote_ptr \<Rightarrow> nat \<Rightarrow> nat \<Rightarrow> bool \<Rightarrow> HT_Res iht_prog" where
  "remove_body c key cur depth bucket oldBucketBase =
     load_ptr (base_field cur bucket) (\<lambda>bucket_base.
     localize_elist c bucket_base (\<lambda>e.
     if is_null c e then
       unlock_bucket cur bucket E_UNLOCKED (
       free_curr c oldBucketBase cur depth (
       Return (ht_res FALSE_STATE 0)))
     else
       load_elist e (\<lambda>x.
       search_elist x key
         (\<lambda>i. Store e (EListC (elist_remove_at x i)) (
              write_back c bucket_base e (
              unlock_bucket cur bucket E_UNLOCKED (
              free_elist c bucket_base e (
              free_curr c oldBucketBase cur depth (
              Return (ht_res TRUE_STATE (snd (elist_pairs x ! i)))))))))
         (unlock_bucket cur bucket E_UNLOCKED (
          free_elist c bucket_base e (
          free_curr c oldBucketBase cur depth (
          Return (ht_res FALSE_STATE 0))))))))"

fun remove_loop :: "RdmaIHT \<Rightarrow> key \<Rightarrow> nat \<Rightarrow> remote_ptr \<Rightarrow> remote_ptr \<Rightarrow> nat \<Rightarrow> nat \<Rightarrow> bool
    \<Rightarrow> HT_Res iht_prog" where
  "remove_loop c key 0 cur before_localized_curr depth count oldBucketBase = Out_of_fuel"
| "remove_loop c key (Suc n) cur before_localized_curr depth count oldBucketBase =
     (let bucket = level_hash c key depth count in
      load_ptr (lock_field cur bucket) (\<lambda>l.
      acquire (Suc n) l (\<lambda>locked.
      if \<not> locked then
        descend c cur before_localized_curr depth bucket oldBucketBase
          (\<lambda>cur' next_base old'.
             remove_loop c key n cur' next_base (depth + 1) ((count * 2) mod 2 ^ 64) old')
      else remove_body c key cur depth bucket oldBucketBase)))"

definition iht_remove :: "RdmaIHT \<Rightarrow> nat \<Rightarrow> key \<Rightarrow> HT_Res iht_prog" where
  "iht_remove c fuel key =
     Read (PList_t c) 1 (root c) (\<lambda>cur.
     remove_loop c key fuel cur (root c) 1 (PLIST_SIZE c) True)"

lemma ctype_ok_iht [simp]:
  "ctype_ok lock_t" "ctype_ok baseptr_t" "ctype_ok (EList_t c)" "ctype_ok (PList_t c)"
  by (simp_all add: ctype_ok_def lock_t_def baseptr_t_def EList_t_def PList_t_def)

end
