(* ===== verification/Iht_Tree.thy ===== *)
theory Iht_Tree
  imports Iht
begin

text \<open>
  What the memory of an interlocked hash table means.

  \<open>itree\<close> is the shape of a bucket with the addresses its parts live at; \<open>pcells\<close> lists the
  memory cells of a PList and of everything below it; \<open>plist_ok\<close> is the well-formedness of
  the shape, and \<open>pfind\<close> the key/value map it stands for.
\<close>

section \<open>Shapes\<close>

datatype itree =
    EmptyB remote_ptr
  | LeafB remote_ptr remote_ptr EList
  | SubB remote_ptr remote_ptr "itree list"

fun bucket_lock :: "itree \<Rightarrow> remote_ptr" where
  "bucket_lock (EmptyB l) = l"
| "bucket_lock (LeafB l e x) = l"
| "bucket_lock (SubB l p ts) = l"

fun bucket_base :: "RdmaIHT \<Rightarrow> itree \<Rightarrow> remote_ptr" where
  "bucket_base c (EmptyB l) = nullptr c"
| "bucket_base c (LeafB l e x) = e"
| "bucket_base c (SubB l p ts) = p"

fun bucket_state :: "itree \<Rightarrow> uint64" where
  "bucket_state (EmptyB l) = E_UNLOCKED"
| "bucket_state (LeafB l e x) = E_UNLOCKED"
| "bucket_state (SubB l p ts) = P_UNLOCKED"

definition bucket_head :: "RdmaIHT \<Rightarrow> remote_ptr \<Rightarrow> itree \<Rightarrow> (remote_ptr \<times> iht_cell) list" where
  "bucket_head c a t =
     [(a, PtrC (bucket_base c t)), (ptr_add a 8, PtrC (bucket_lock t)),
      (bucket_lock t, LockC (bucket_state t))]"

fun bcells :: "RdmaIHT \<Rightarrow> remote_ptr \<Rightarrow> itree \<Rightarrow> (remote_ptr \<times> iht_cell) list"
  and pcells :: "RdmaIHT \<Rightarrow> remote_ptr \<Rightarrow> itree list \<Rightarrow> (remote_ptr \<times> iht_cell) list" where
  "bcells c a (EmptyB l) = bucket_head c a (EmptyB l)"
| "bcells c a (LeafB l e x) = bucket_head c a (LeafB l e x) @ [(e, EListC x)]"
| "bcells c a (SubB l p ts) = bucket_head c a (SubB l p ts) @ pcells c p ts"
| "pcells c p [] = []"
| "pcells c p (t # ts) = bcells c p t @ pcells c (ptr_add p 16) ts"

lemma pcells_append:
  "pcells c p (xs @ ys) = pcells c p xs @ pcells c (ptr_add p (16 * length xs)) ys"
  by (induction xs arbitrary: p) (auto simp: algebra_simps)

definition pcells_before :: "RdmaIHT \<Rightarrow> remote_ptr \<Rightarrow> itree list \<Rightarrow> nat \<Rightarrow> (remote_ptr \<times> iht_cell) list" where
  "pcells_before c p ts b = pcells c p (take b ts)"

definition pcells_after :: "RdmaIHT \<Rightarrow> remote_ptr \<Rightarrow> itree list \<Rightarrow> nat \<Rightarrow> (remote_ptr \<times> iht_cell) list" where
  "pcells_after c p ts b = pcells c (ptr_add p (16 * Suc b)) (drop (Suc b) ts)"

lemma pcells_update:
  assumes "b < length ts"
  shows "pcells c p (ts[b := t]) =
    pcells_before c p ts b @ bcells c (base_field p b) t @ pcells_after c p ts b"
proof -
  have "ts[b := t] = take b ts @ t # drop (Suc b) ts"
    using assms by (rule upd_conv_take_nth_drop)
  then show ?thesis
    using assms
    by (simp add: pcells_append pcells_before_def pcells_after_def base_field_def add.commute)
qed

lemma pcells_split:
  "b < length ts \<Longrightarrow> pcells c p ts =
    pcells_before c p ts b @ bcells c (base_field p b) (ts ! b) @ pcells_after c p ts b"
  using pcells_update [of b ts c p "ts ! b"] by simp

lemma bucket_head_in_bcells: "set (bucket_head c a t) \<subseteq> set (bcells c a t)"
  by (cases t) auto

lemma bcells_in_pcells: "b < length ts \<Longrightarrow> set (bcells c (base_field p b) (ts ! b)) \<subseteq> set (pcells c p ts)"
  by (subst pcells_split [of b ts]) auto

lemma lock_field_base: "lock_field p b = ptr_add (base_field p b) 8"
  by (simp add: lock_field_def base_field_def)

lemma pcells_head:
  assumes "b < length ts"
  shows "(base_field p b, PtrC (bucket_base c (ts ! b))) \<in> set (pcells c p ts)"
    and "(lock_field p b, PtrC (bucket_lock (ts ! b))) \<in> set (pcells c p ts)"
    and "(bucket_lock (ts ! b), LockC (bucket_state (ts ! b))) \<in> set (pcells c p ts)"
  using bucket_head_in_bcells [of c "base_field p b" "ts ! b"] bcells_in_pcells [OF assms, of c p]
  by (auto simp: bucket_head_def lock_field_base)

section \<open>The pointers of a PList\<close>

text \<open>What \<^verbatim>\<open>Read<PList>\<close> copies: the base and lock pointers of all buckets, in order.\<close>

definition plist_words :: "RdmaIHT \<Rightarrow> itree list \<Rightarrow> iht_cell list" where
  "plist_words c ts = map (\<lambda>j. PtrC (if even j then bucket_base c (ts ! (j div 2))
                                     else bucket_lock (ts ! (j div 2)))) [0..<2 * length ts]"

text \<open>A pointer list at \<open>q\<close>, a copy or the list itself, shows the buckets \<open>ts\<close>.\<close>

definition shows_plist :: "RdmaIHT \<Rightarrow> ('p, iht_cell) heap \<Rightarrow> remote_ptr \<Rightarrow> itree list \<Rightarrow> bool" where
  "shows_plist c h q ts \<longleftrightarrow> (\<forall>b < length ts.
     cells h (base_field q b) = Some (PtrC (bucket_base c (ts ! b))) \<and>
     cells h (lock_field q b) = Some (PtrC (bucket_lock (ts ! b))))"

lemma holds_shows_plist:
  "holds (cells h) W \<Longrightarrow> set (pcells c p ts) \<subseteq> set W \<Longrightarrow> shows_plist c h p ts"
  unfolding shows_plist_def
  using pcells_head [where ts = ts and p = p and c = c] by (auto intro: holdsD)

lemma block_PList:
  "block (PList_t c) s q = map (\<lambda>j. ptr_add q (8 * j)) [0..<2 * (s * PLIST_SIZE c)]"
  by (simp add: block_def PList_t_def algebra_simps)

lemma word_address:
  "ptr_add q (8 * j) = (if even j then base_field q (j div 2) else lock_field q (j div 2))"
  by (auto simp: base_field_def lock_field_def elim!: evenE oddE)

lemma shows_plist_words:
  assumes "shows_plist c h p ts" "s * PLIST_SIZE c = length ts"
  shows "map (cells h) (block (PList_t c) s p) = map Some (plist_words c ts)"
proof -
  have "cells h (ptr_add p (8 * j)) = Some (PtrC (if even j then bucket_base c (ts ! (j div 2))
      else bucket_lock (ts ! (j div 2))))" if "j < 2 * length ts" for j
    using assms(1) that by (auto simp: shows_plist_def word_address)
  then show ?thesis by (simp add: block_PList assms(2) plist_words_def)
qed

lemma allocated_shows_plist:
  assumes "allocated h h' q (block (PList_t c) s q) (plist_words c ts)" "s * PLIST_SIZE c = length ts"
  shows "shows_plist c h' q ts"
proof -
  let ?as = "block (PList_t c) s q"
  have d: "distinct ?as" by (rule distinct_block) (simp add: PList_t_def)
  have l: "length ?as = 2 * length ts" by (simp add: block_PList assms(2))
  have at: "cells h' (ptr_add q (8 * j)) = Some (plist_words c ts ! j)" if "j < 2 * length ts" for j
    using map_upds_nth [OF d, of "plist_words c ts" j "cells h"] that assms(1)
    by (simp add: allocated_def block_PList assms(2) plist_words_def)
  show ?thesis unfolding shows_plist_def
  proof (intro allI impI conjI)
    fix b assume b: "b < length ts"
    then show "cells h' (base_field q b) = Some (PtrC (bucket_base c (ts ! b)))"
      using at [of "2 * b"] by (simp add: base_field_def plist_words_def del: upt_Suc)
    show "cells h' (lock_field q b) = Some (PtrC (bucket_lock (ts ! b)))"
      using b at [of "2 * b + 1"] by (simp add: lock_field_def plist_words_def add.commute del: upt_Suc)
  qed
qed

lemma field_in_block:
  assumes "b < s * PLIST_SIZE c"
  shows "base_field q b \<in> set (block (PList_t c) s q)" "lock_field q b \<in> set (block (PList_t c) s q)"
proof -
  have "base_field q b = ptr_add q (8 * (2 * b))" "2 * b < 2 * (s * PLIST_SIZE c)"
    using assms by (simp_all add: base_field_def)
  then show "base_field q b \<in> set (block (PList_t c) s q)" unfolding block_PList by force
  have "lock_field q b = ptr_add q (8 * (2 * b + 1))" "2 * b + 1 < 2 * (s * PLIST_SIZE c)"
    using assms by (simp_all add: lock_field_def)
  then show "lock_field q b \<in> set (block (PList_t c) s q)" unfolding block_PList by force
qed

section \<open>Ownership\<close>

text \<open>
  \<open>owns h W\<close>: memory \<open>h\<close> has exactly the contents \<open>W\<close> at the (pairwise different) addresses of
  \<open>W\<close>, and each element list among them is an allocation of its own.
\<close>

definition owns :: "('p, iht_cell) heap \<Rightarrow> (remote_ptr \<times> iht_cell) list \<Rightarrow> bool" where
  "owns h W \<longleftrightarrow> holds (cells h) W \<and> (\<forall>a x. (a, EListC x) \<in> set W \<longrightarrow> allocs h a = Some [a])"

abbreviation addrs :: "(remote_ptr \<times> iht_cell) list \<Rightarrow> remote_ptr set" where
  "addrs W \<equiv> fst ` set W"

lemma ownsD: "owns h W \<Longrightarrow> (a, y) \<in> set W \<Longrightarrow> cells h a = Some y"
  by (auto simp: owns_def dest: holdsD)

lemma owns_cong:
  assumes "owns h W" "\<And>a. a \<in> addrs W \<Longrightarrow> cells h' a = cells h a"
    "\<And>a. a \<in> addrs W \<Longrightarrow> allocs h a \<noteq> None \<Longrightarrow> allocs h' a = allocs h a"
  shows "owns h' W"
  using assms unfolding owns_def by (force intro: holds_cong)

lemma owns_allocated:
  assumes "owns h W" "allocated h h' p as cs"
  shows "owns h' W"
proof (rule owns_cong [OF assms(1)])
  have f: "addrs W \<inter> set as = {}"
    by (rule holds_fresh_disjoint [of "cells h"]) (use assms in \<open>auto simp: owns_def allocated_def\<close>)
  show "cells h' a = cells h a" if "a \<in> addrs W" for a
    using that f assms(2) by (auto simp: allocated_def map_upds_apply_nontin disjoint_iff)
  show "allocs h' a = allocs h a" if "allocs h a \<noteq> None" for a
    using that assms(2) by (auto simp: allocated_def)
qed

lemma owns_free:
  assumes "owns h W" "addrs W \<inter> set as = {}" "q \<notin> addrs W"
    "cells h' = cells h |` (- set as)" "allocs h' = (allocs h)(q := None)"
  shows "owns h' W"
  using assms by (intro owns_cong [OF assms(1)]) (auto simp: restrict_map_def)

lemma owns_replace:
  assumes "owns h (pre @ xs @ post)" "owns h' ys"
    and "\<And>a. a \<in> addrs (pre @ post) \<Longrightarrow> cells h' a = cells h a"
    and "\<And>a. a \<in> addrs (pre @ post) \<Longrightarrow> allocs h a \<noteq> None \<Longrightarrow> allocs h' a = allocs h a"
    and "addrs ys \<inter> addrs (pre @ post) = {}"
  shows "owns h' (pre @ ys @ post)"
proof -
  have "holds (cells h') (pre @ ys @ post)"
    by (rule holds_replace [of "cells h" pre xs post]) (use assms in \<open>auto simp: owns_def\<close>)
  moreover have "allocs h' a = Some [a]" if "(a, EListC x) \<in> set (pre @ ys @ post)" for a x
  proof (cases "(a, EListC x) \<in> set ys")
    case True
    then show ?thesis using assms(2) by (auto simp: owns_def)
  next
    case False
    then have m: "(a, EListC x) \<in> set (pre @ post)" using that by auto
    then have "allocs h a = Some [a]" using assms(1) by (auto simp: owns_def)
    then show ?thesis using assms(4) [of a] m by force
  qed
  ultimately show ?thesis by (simp add: owns_def)
qed

section \<open>Well-formed trees\<close>

definition count_at :: "RdmaIHT \<Rightarrow> nat \<Rightarrow> nat" where
  "count_at c d = PLIST_SIZE c * 2 ^ (d - 1)"

definition elist_ok :: "RdmaIHT \<Rightarrow> EList \<Rightarrow> bool" where
  "elist_ok c x \<longleftrightarrow> length (elist_pairs x) = ELIST_SIZE c \<and> elist_count x \<le> ELIST_SIZE c \<and>
     distinct (map fst (elist_live x))"

text \<open>
  Bucket \<open>i\<close> of a PList at depth \<open>d\<close>: its keys come from \<open>U\<close> and hash to \<open>i\<close> at this depth; a
  sub-PList has twice the buckets, and the tree is at most \<open>D\<close> levels deep.
\<close>

fun bucket_ok :: "RdmaIHT \<Rightarrow> nat \<Rightarrow> key set \<Rightarrow> nat \<Rightarrow> nat \<Rightarrow> itree \<Rightarrow> bool"
  and plist_ok :: "RdmaIHT \<Rightarrow> nat \<Rightarrow> key set \<Rightarrow> nat \<Rightarrow> nat \<Rightarrow> itree list \<Rightarrow> bool" where
  "bucket_ok c D U d i (EmptyB l) = True"
| "bucket_ok c D U d i (LeafB l e x) =
     (e \<noteq> nullptr c \<and> elist_ok c x \<and>
      (\<forall>p \<in> set (elist_live x). fst p \<in> U \<and> level_hash c (fst p) d (count_at c d) = i))"
| "bucket_ok c D U d i (SubB l p ts) =
     (p \<noteq> nullptr c \<and> d < D \<and> length ts = count_at c (d + 1) \<and> plist_ok c D U (d + 1) 0 ts)"
| "plist_ok c D U d i [] = True"
| "plist_ok c D U d i (t # ts) = (bucket_ok c D U d i t \<and> plist_ok c D U d (Suc i) ts)"

lemma plist_ok_iff:
  "plist_ok c D U d i ts \<longleftrightarrow> (\<forall>b < length ts. bucket_ok c D U d (i + b) (ts ! b))"
  by (induction ts arbitrary: i) (auto simp: less_Suc_eq_0_disj)

text \<open>The map a tree stands for: follow the hash of the key, then look it up in the element list.\<close>

fun bfind :: "RdmaIHT \<Rightarrow> nat \<Rightarrow> itree \<Rightarrow> key \<Rightarrow> val option"
  and nfind :: "RdmaIHT \<Rightarrow> nat \<Rightarrow> itree list \<Rightarrow> nat \<Rightarrow> key \<Rightarrow> val option" where
  "bfind c d (EmptyB l) k = None"
| "bfind c d (LeafB l e x) k = map_of (elist_live x) k"
| "bfind c d (SubB l p ts) k = nfind c (d + 1) ts (level_hash c k (d + 1) (count_at c (d + 1))) k"
| "nfind c d [] i k = None"
| "nfind c d (t # ts) 0 k = bfind c d t k"
| "nfind c d (t # ts) (Suc i) k = nfind c d ts i k"

lemma nfind_nth: "nfind c d ts i k = (if i < length ts then bfind c d (ts ! i) k else None)"
  by (induction ts arbitrary: i) (auto simp: less_Suc_eq_0_disj nth_Cons split: nat.splits)

definition pfind :: "RdmaIHT \<Rightarrow> nat \<Rightarrow> itree list \<Rightarrow> key \<Rightarrow> val option" where
  "pfind c d ts k = nfind c d ts (level_hash c k d (count_at c d)) k"

text \<open>What the sizes must satisfy, for keys from \<open>U\<close> and trees of depth at most \<open>D\<close>.\<close>

definition iht_sizes :: "RdmaIHT \<Rightarrow> nat \<Rightarrow> bool" where
  "iht_sizes c D \<longleftrightarrow> 1 \<le> ELIST_SIZE c \<and> 2 \<le> PLIST_SIZE c \<and> 1 \<le> D \<and> D \<le> 30 \<and>
     PLIST_SIZE c * 2 ^ (D - 1) < 2 ^ 31"

text \<open>At depth \<open>D\<close> no two keys of \<open>U\<close> share a bucket.\<close>

definition hash_separates :: "RdmaIHT \<Rightarrow> nat \<Rightarrow> key set \<Rightarrow> bool" where
  "hash_separates c D U \<longleftrightarrow> inj_on (\<lambda>k. level_hash c k D (count_at c D)) U"

lemma count_at_bounds:
  assumes "iht_sizes c D" "1 \<le> d" "d \<le> D"
  shows "2 \<le> count_at c d" "count_at c d < 2 ^ 64" "count_at c d < 2 ^ 31"
proof -
  have "(1::nat) \<le> 2 ^ (d - 1)" by simp
  then show "2 \<le> count_at c d" using assms(1)
    unfolding count_at_def iht_sizes_def by (metis mult_le_mono nat_mult_1_right)
  have "(2::nat) ^ (d - 1) \<le> 2 ^ (D - 1)" using assms by (intro power_increasing) auto
  then have "count_at c d \<le> PLIST_SIZE c * 2 ^ (D - 1)" by (simp add: count_at_def)
  then show b: "count_at c d < 2 ^ 31" using assms(1) by (simp add: iht_sizes_def)
  show "count_at c d < 2 ^ 64" by (rule less_trans [OF b]) simp
qed

lemma count_at_double:
  assumes "iht_sizes c D" "1 \<le> d" "d < D"
  shows "(count_at c d * 2) mod 2 ^ 64 = count_at c (d + 1)"
proof -
  have e: "count_at c d * 2 = count_at c (d + 1)"
    using assms(2) by (cases d) (auto simp: count_at_def)
  show ?thesis unfolding e using count_at_bounds(2) [OF assms(1), of "d + 1"] assms(3) by simp
qed

lemma level_hash_less:
  assumes "iht_sizes c D" "1 \<le> d" "d \<le> D"
  shows "level_hash c k d (count_at c d) < count_at c d"
  unfolding level_hash_def
  using unat_mod_pred_less [OF count_at_bounds(1,2) [OF assms]] by (rule order_less_le_trans) simp

lemma pfind_update:
  assumes "b < length ts"
  shows "pfind c d (ts[b := t]) k =
    (if level_hash c k d (count_at c d) = b then bfind c d t k else pfind c d ts k)"
  using assms by (simp add: pfind_def nfind_nth)

lemma pfind_nth:
  assumes "iht_sizes c D" "1 \<le> d" "d \<le> D" "length ts = count_at c d"
  shows "pfind c d ts k = bfind c d (ts ! level_hash c k d (count_at c d)) k"
  using level_hash_less [OF assms(1-3)] assms(4) by (simp add: pfind_def nfind_nth)

lemma bfind_SubB: "bfind c d (SubB l p ts) k = pfind c (d + 1) ts k"
  by (simp add: pfind_def)

section \<open>Element lists\<close>

lemma linear_search_Some:
  "linear_search k ps = Some i \<Longrightarrow> i < length ps \<and> fst (ps ! i) = k \<and> map_of ps k = Some (snd (ps ! i))"
  by (induction ps arbitrary: i) (auto split: if_splits)

lemma linear_search_None: "linear_search k ps = None \<longleftrightarrow> k \<notin> fst ` set ps"
  by (induction ps) (auto split: if_splits)

lemma linear_search_map_of:
  "linear_search k ps = None \<Longrightarrow> map_of ps k = None"
  by (simp add: linear_search_None map_of_eq_None_iff)

lemma elist_insert_live:
  assumes "elist_insert x k v = Some x'"
  shows "elist_live x' = elist_live x @ [(k, v)]" "elist_count x' = elist_count x + 1"
    "length (elist_pairs x') = length (elist_pairs x)"
  using assms by (auto simp: elist_insert_def elist_live_def take_Suc_conv_app_nth split: if_splits)

lemma elist_insert_Some:
  "elist_count x < length (elist_pairs x) \<Longrightarrow> \<exists>x'. elist_insert x k v = Some x'"
  by (simp add: elist_insert_def)

lemma elist_insert_ok:
  assumes "elist_ok c x" "elist_insert x k v = Some x'" "k \<notin> fst ` set (elist_live x)"
  shows "elist_ok c x'"
proof -
  have "elist_count x < length (elist_pairs x)"
    using assms(2) by (auto simp: elist_insert_def split: if_splits)
  then show ?thesis
    using assms elist_insert_live [OF assms(2)] by (auto simp: elist_ok_def)
qed

text \<open>Removal keeps all other pairs, in another order.\<close>

lemma elist_remove_live:
  assumes "elist_count x \<le> length (elist_pairs x)" "i < elist_count x"
  shows "elist_live (elist_remove_at x i) =
    butlast ((elist_live x)[i := last (elist_live x)])"
proof (cases "elist_count x > 1")
  case True
  have l: "last (elist_live x) = elist_pairs x ! (elist_count x - 1)"
    using assms True by (subst last_conv_nth) (auto simp: elist_live_def)
  show ?thesis
    using assms True unfolding l
    by (simp add: elist_live_def elist_remove_at_def butlast_conv_take take_update_swap min_def)
next
  case False
  then have "elist_count x = 1" using assms by simp
  then show ?thesis
    using assms by (cases "elist_pairs x") (auto simp: elist_live_def elist_remove_at_def)
qed

lemma elist_remove_ok:
  assumes "elist_ok c x" "linear_search k (elist_live x) = Some i"
  shows "elist_ok c (elist_remove_at x i)"
    and "set (elist_live (elist_remove_at x i)) = set (elist_live x) - {elist_live x ! i}"
    and "map_of (elist_live (elist_remove_at x i)) = (map_of (elist_live x))(k := None)"
proof -
  let ?ps = "elist_live x"
  have i: "i < length ?ps" "fst (?ps ! i) = k" using linear_search_Some [OF assms(2)] by auto
  have ln: "length ?ps = elist_count x" using assms(1) by (simp add: elist_ok_def elist_live_def)
  have d: "distinct (map fst ?ps)" using assms(1) by (simp add: elist_ok_def)
  have e: "elist_live (elist_remove_at x i) = butlast (?ps[i := last ?ps])"
    using assms(1) i ln by (intro elist_remove_live) (auto simp: elist_ok_def)
  note s = set_butlast_swap [OF d i(1)]
  show "set (elist_live (elist_remove_at x i)) = set ?ps - {?ps ! i}" by (simp add: e s)
  show "elist_ok c (elist_remove_at x i)"
    using assms(1) s(2) unfolding elist_ok_def e by (auto simp: elist_remove_at_def)
  have m: "(k, snd (?ps ! i)) = ?ps ! i" using i(2) by (simp add: prod_eq_iff)
  show "map_of (elist_live (elist_remove_at x i)) = (map_of ?ps)(k := None)"
    unfolding e
    by (rule map_of_remove [OF d s(2), where v = "snd (?ps ! i)"]) (use s(1) m nth_mem [OF i(1)] in simp_all)
qed

end
