(* ===== verification/Iht_Proc.thy ===== *)
theory Iht_Proc
  imports Iht_Tree
begin

text \<open>
  Total-correctness rules for the private methods of \<^verbatim>\<open>RdmaIHT\<close>: what \<open>acquire\<close>, \<open>unlock\<close>,
  \<open>change_bucket_pointer\<close>, \<open>InitPList\<close>, \<open>descend\<close> and \<open>rehash\<close> do to the memory, for every
  library that meets the contract \<open>memory_pool\<close>.
\<close>

lemma wp_load_ptr [wp_rules]:
  "ptr_id a = self \<Longrightarrow> cells h a = Some (PtrC q) \<Longrightarrow> wp R self (k q) h Q \<Longrightarrow>
   wp R self (load_ptr a k) h Q"
  unfolding load_ptr_def by (rule wp_Load) auto

lemma wp_load_elist [wp_rules]:
  "ptr_id a = self \<Longrightarrow> cells h a = Some (EListC x) \<Longrightarrow> wp R self (k x) h Q \<Longrightarrow>
   wp R self (load_elist a k) h Q"
  unfolding load_elist_def by (rule wp_Load) auto

lemma wp_shl1 [wp_rules]: "n < 31 \<Longrightarrow> wp R self (k (2 ^ n)) h Q \<Longrightarrow> wp R self (shl1 n k) h Q"
  by (simp add: shl1_def)

lemma field_ids [simp]: "ptr_id (base_field p i) = ptr_id p" "ptr_id (lock_field p i) = ptr_id p"
  by (simp_all add: base_field_def lock_field_def)

lemma fields_distinct [simp]:
  "base_field p i \<noteq> lock_field p j" "lock_field p j \<noteq> base_field p i"
  "base_field p i = base_field p j \<longleftrightarrow> i = j" "lock_field p i = lock_field p j \<longleftrightarrow> i = j"
proof -
  have "16 * i \<noteq> 16 * j + (8::nat)" by presburger
  then show "base_field p i \<noteq> lock_field p j" "lock_field p j \<noteq> base_field p i"
    by (simp_all add: base_field_def lock_field_def)
qed (simp_all add: base_field_def lock_field_def)

lemma block_single [simp]:
  "block lock_t (Suc 0) p = [p]" "block baseptr_t (Suc 0) p = [p]" "block (EList_t c) (Suc 0) p = [p]"
  by (simp_all add: block_def lock_t_def baseptr_t_def EList_t_def)

lemma single_cells [simp]: "ct_cells lock_t = 1" "ct_cells baseptr_t = 1" "ct_cells (EList_t c) = 1"
  by (simp_all add: lock_t_def baseptr_t_def EList_t_def)

lemma restrict_insert_fresh: "m p = None \<Longrightarrow> m(p \<mapsto> v) |` (- {p}) = m"
  by (auto simp: restrict_map_def fun_eq_iff)

section \<open>Framing\<close>

text \<open>
  \<open>keeps h h' A\<close>: what was live in \<open>h\<close> outside \<open>A\<close> is unchanged in \<open>h'\<close>.
  \<open>grows h h' A W\<close>: moreover \<open>h'\<close> owns \<open>W\<close>, which lies in \<open>A\<close> and in memory that was free.
\<close>

definition keeps :: "('p, 'c) heap \<Rightarrow> ('p, 'c) heap \<Rightarrow> remote_ptr set \<Rightarrow> bool" where
  "keeps h h' A \<longleftrightarrow> (\<forall>a. a \<notin> A \<longrightarrow> cells h a \<noteq> None \<longrightarrow>
     cells h' a = cells h a \<and> (allocs h a \<noteq> None \<longrightarrow> allocs h' a = allocs h a))"

definition grows :: "('p, iht_cell) heap \<Rightarrow> ('p, iht_cell) heap \<Rightarrow> remote_ptr set
    \<Rightarrow> (remote_ptr \<times> iht_cell) list \<Rightarrow> bool" where
  "grows h h' A W \<longleftrightarrow> owns h' W \<and> keeps h h' A \<and> (\<forall>a \<in> addrs W. a \<in> A \<or> cells h a = None)"

lemma grows_addrs: "grows h h' A W \<Longrightarrow> a \<in> addrs W \<Longrightarrow> a \<in> A \<or> cells h a = None"
  unfolding grows_def by (elim conjE) (rule bspec)

lemma keeps_refl [simp]: "keeps h h A"
  by (simp add: keeps_def)

lemma keeps_allocated: "allocated h h' p as cs \<Longrightarrow> keeps h h' A"
  unfolding keeps_def allocated_def by (metis fun_upd_other map_upds_apply_nontin option.distinct(1))

lemma keeps_trans:
  assumes "keeps h h1 A" "keeps h1 h2 A1" "\<And>a. a \<in> A1 \<Longrightarrow> a \<in> A \<or> cells h a = None"
  shows "keeps h h2 A"
  using assms unfolding keeps_def by (smt (verit))

lemma keeps_mono: "keeps h h' A \<Longrightarrow> A \<subseteq> B \<Longrightarrow> keeps h h' B"
  by (auto simp: keeps_def)

lemma owns_live: "owns h W \<Longrightarrow> a \<in> addrs W \<Longrightarrow> cells h a \<noteq> None"
  by (auto simp: owns_def holds_def)

lemma keeps_owns:
  assumes "keeps h h' A" "owns h W" "A \<inter> addrs W = {}"
  shows "owns h' W"
proof (rule owns_cong [OF assms(2)])
  fix a assume a: "a \<in> addrs W"
  then have "a \<notin> A" "cells h a \<noteq> None" using assms(3) owns_live [OF assms(2)] by auto
  then show "cells h' a = cells h a" "allocs h a \<noteq> None \<Longrightarrow> allocs h' a = allocs h a"
    using assms(1) by (auto simp: keeps_def)
qed

lemma grows_trans:
  assumes "grows h h1 A W1" "grows h1 h2 A1 W2" "\<And>a. a \<in> A1 \<Longrightarrow> a \<in> A \<or> cells h a = None"
  shows "grows h h2 A W2"
proof -
  have k: "keeps h h1 A" "keeps h1 h2 A1" using assms(1,2) by (simp_all add: grows_def)
  have "a \<in> A \<or> cells h a = None" if "a \<in> addrs W2" for a
  proof (cases "a \<in> A1")
    case True
    then show ?thesis by (rule assms(3))
  next
    case False
    have "a \<in> A1 \<or> cells h1 a = None" using assms(2) that by (rule grows_addrs)
    then have "cells h1 a = None" using False by simp
    then show ?thesis using k(1) unfolding keeps_def by metis
  qed
  moreover have "keeps h h2 A" using k assms(3) by (rule keeps_trans)
  moreover have "owns h2 W2" using assms(2) by (simp add: grows_def)
  ultimately show ?thesis by (simp add: grows_def)
qed

lemma grows_replace:
  assumes "owns h (pre @ xs @ post)" "grows h h' A ys" "A \<inter> addrs (pre @ post) = {}"
  shows "grows h h' (A \<union> addrs (pre @ xs @ post)) (pre @ ys @ post)"
proof -
  have live: "cells h a \<noteq> None" if "a \<in> addrs (pre @ post)" for a
    using owns_live [OF assms(1), of a] that by auto
  have k: "cells h' a = cells h a" "allocs h a \<noteq> None \<Longrightarrow> allocs h' a = allocs h a"
    if "a \<in> addrs (pre @ post)" for a
  proof -
    have "a \<notin> A" using that assms(3) by blast
    then show "cells h' a = cells h a" "allocs h a \<noteq> None \<Longrightarrow> allocs h' a = allocs h a"
      using assms(2) live [OF that] by (auto simp: grows_def keeps_def)
  qed
  have apart: "addrs ys \<inter> addrs (pre @ post) = {}"
  proof (rule ccontr)
    assume "addrs ys \<inter> addrs (pre @ post) \<noteq> {}"
    then obtain a where a: "a \<in> addrs ys" "a \<in> addrs (pre @ post)" by blast
    then have "a \<in> A" using grows_addrs [OF assms(2) a(1)] live [OF a(2)] by simp
    then show False using assms(3) a(2) by blast
  qed
  have "owns h' (pre @ ys @ post)"
    by (rule owns_replace [OF assms(1) _ k apart]) (use assms(2) in \<open>simp_all add: grows_def\<close>)
  moreover have "a \<in> A \<union> addrs (pre @ xs @ post) \<or> cells h a = None" if "a \<in> addrs (pre @ ys @ post)" for a
  proof (cases "a \<in> addrs ys")
    case True
    then show ?thesis using grows_addrs [OF assms(2) True] by auto
  next
    case False
    then have "a \<in> addrs (pre @ post)" using that by auto
    then show ?thesis by auto
  qed
  moreover have "keeps h h' (A \<union> addrs (pre @ xs @ post))"
    using assms(2) unfolding grows_def by (blast intro: keeps_mono)
  ultimately show ?thesis by (simp add: grows_def)
qed

lemma grows_steps:
  assumes "grows h h1 A W1" "grows h1 h2 (addrs W1) W2"
  shows "grows h h2 A W2"
proof (rule grows_trans [OF assms])
  show "a \<in> A \<or> cells h a = None" if "a \<in> addrs W1" for a
    using assms(1) that by (rule grows_addrs)
qed

lemma grows_append:
  assumes "grows h h1 B H" "grows h1 h2 A W" "A \<inter> addrs H = {}"
    "\<And>a. a \<in> A \<Longrightarrow> a \<in> B \<or> cells h a = None"
  shows "grows h h2 B (H @ W)"
proof -
  have "grows h h2 B W" by (rule grows_trans [OF assms(1,2,4)])
  moreover have H: "owns h2 H" using assms(1-3) by (auto simp: grows_def intro: keeps_owns)
  moreover have "addrs W \<inter> addrs H = {}"
  proof (rule ccontr)
    assume "addrs W \<inter> addrs H \<noteq> {}"
    then obtain a where a: "a \<in> addrs W" "a \<in> addrs H" by blast
    have "a \<notin> A" using a(2) assms(3) by blast
    moreover have "a \<in> A \<or> cells h1 a = None"
      using assms(2) a(1) by (rule grows_addrs)
    moreover have "cells h1 a \<noteq> None" using owns_live [OF _ a(2), of h1] assms(1) by (simp add: grows_def)
    ultimately show False by blast
  qed
  ultimately show ?thesis
    using assms(1) by (auto simp: grows_def owns_def holds_append)
qed

section \<open>Procedures\<close>

locale iht_pool = memory_pool R ok
  for R :: "('p, iht_cell) rome" and ok +
  fixes c :: RdmaIHT and D :: nat
  assumes null: "nullptr c = remote_nullptr R"
    and sizes: "iht_sizes c D"
begin

abbreviation self :: nat where "self \<equiv> self_id c"

lemma wp_acquire [wp_rules]:
  assumes "ok h" "cells h l = Some (LockC E_UNLOCKED)"
    and "\<And>h'. ok h' \<Longrightarrow> cells h' = (cells h)(l \<mapsto> LockC E_LOCKED) \<Longrightarrow> allocs h' = allocs h \<Longrightarrow>
      wp R self (k True) h' Q"
  shows "wp R self (acquire (Suc n) l k) h Q"
  unfolding acquire.simps by (rule wp_CompareAndSwap [OF assms(1,2)]) (auto intro: assms(3))

lemma wp_acquire_fails:
  assumes "ok h" "cells h l = Some (LockC P_UNLOCKED)"
    and "\<And>h'. ok h' \<Longrightarrow> cells h' = cells h \<Longrightarrow> allocs h' = allocs h \<Longrightarrow> wp R self (k False) h' Q"
  shows "wp R self (acquire (Suc n) l k) h Q"
  unfolding acquire.simps by (rule wp_CompareAndSwap [OF assms(1,2)]) (auto intro: assms(3))

lemma wp_unlock [wp_rules]:
  assumes "ok h" "cells h l \<noteq> None"
    and "\<And>h'. ok h' \<Longrightarrow> cells h' = (cells h)(l \<mapsto> LockC s) \<Longrightarrow> allocs h' = allocs h \<Longrightarrow> wp R self k h' Q"
  shows "wp R self (unlock l s k) h Q"
  unfolding unlock_def by (rule wp_staged_write) (use assms in auto)

lemma wp_unlock_bucket [wp_rules]:
  assumes "ok h" "ptr_id q = self" "cells h (lock_field q b) = Some (PtrC l)" "cells h l \<noteq> None"
    and "\<And>h'. ok h' \<Longrightarrow> cells h' = (cells h)(l \<mapsto> LockC s) \<Longrightarrow> allocs h' = allocs h \<Longrightarrow> wp R self k h' Q"
  shows "wp R self (unlock_bucket q b s k) h Q"
  unfolding unlock_bucket_def
  by (rule wp_load_ptr [OF _ assms(3)], simp add: assms(2), rule wp_unlock [OF assms(1,4)], rule assms(5))

lemma wp_change_bucket_pointer [wp_rules]:
  assumes "ok h" "cells h (base_field p b) \<noteq> None"
    and k: "\<And>h'. ok h' \<Longrightarrow> cells h' = (cells h)(base_field p b \<mapsto> PtrC q) \<Longrightarrow> allocs h' = allocs h \<Longrightarrow>
      wp R self k h' Q"
  shows "wp R self (change_bucket_pointer c p b q k) h Q"
proof -
  have m: "Remote (ptr_id p) (address p + 16 * b) = base_field p b"
    by (simp add: base_field_def ptr_add_def)
  show ?thesis
  proof (cases "is_local c (base_field p b)")
    case True
    then show ?thesis
      unfolding change_bucket_pointer_def m Let_def
      using assms by (auto simp: is_local_def intro!: wp_Store_ok)
  next
    case False
    then show ?thesis
      unfolding change_bucket_pointer_def m Let_def
      by (simp only: simp_thms if_True, intro wp_staged_write) (use assms in auto)
  qed
qed

lemma wp_free_curr [wp_rules]:
  assumes "ok h" "d < 32" "old \<Longrightarrow> allocs h q = Some as"
    and "\<And>h'. ok h' \<Longrightarrow> cells h' = (if old then cells h |` (- set as) else cells h) \<Longrightarrow>
      allocs h' = (if old then (allocs h)(q := None) else allocs h) \<Longrightarrow> wp R self k h' Q"
  shows "wp R self (free_curr c old q d k) h Q"
proof (cases old)
  case True
  then show ?thesis
    unfolding free_curr_def using assms(2-4)
    by (auto intro!: wp_shl1 wp_Deallocate [OF assms(1)])
next
  case False
  then show ?thesis using assms(1,4) by (simp add: free_curr_def)
qed

lemma wp_localize_elist:
  assumes "ok h" "cells h a = Some (EListC x)"
    and "\<And>e h'. ok h' \<Longrightarrow> (is_local c a \<or> is_null c a) \<Longrightarrow> e = a \<Longrightarrow> h' = h \<Longrightarrow> wp R self (k e) h' Q"
    and "\<And>e h'. ok h' \<Longrightarrow> \<not> is_local c a \<Longrightarrow> ptr_id e = self \<Longrightarrow> \<not> is_null c e \<Longrightarrow> cells h e = None \<Longrightarrow>
      allocs h e = None \<Longrightarrow> cells h' = (cells h)(e \<mapsto> EListC x) \<Longrightarrow> allocs h' = (allocs h)(e \<mapsto> [e]) \<Longrightarrow>
      wp R self (k e) h' Q"
  shows "wp R self (localize_elist c a k) h Q"
proof (cases "is_local c a \<or> is_null c a")
  case True
  then show ?thesis using assms(1,3) by (simp add: localize_elist_def)
next
  case False
  have "wp R self (Read (EList_t c) 1 a k) h Q"
  proof (rule wp_Read [OF assms(1), where cs = "[EListC x]"])
    fix p h'
    assume "ok h'" "p \<noteq> remote_nullptr R" "ptr_id p = self"
      "allocated h h' p (block (EList_t c) 1 p) [EListC x]"
    then show "wp R self (k p) h' Q"
      using False by (intro assms(4)) (auto simp: allocated_single is_null_def null)
  qed (use assms(2) in simp_all)
  then show ?thesis using False by (simp add: localize_elist_def)
qed

text \<open>How every method ends: unlock, free the copy of the element list, free the copy of the PList.\<close>

lemma wp_leave_empty:
  assumes "ok h" "d < 32" "ptr_id q = self" "cells h (lock_field q b) = Some (PtrC l)" "cells h l \<noteq> None"
    and "old \<Longrightarrow> allocs h q = Some as"
    and "\<And>h'. ok h' \<Longrightarrow> cells h' = (cells h)(l \<mapsto> LockC s) |` (- (if old then set as else {})) \<Longrightarrow>
      allocs h' = allocs h |` (- (if old then {q} else {})) \<Longrightarrow> Q r h'"
  shows "wp R self (unlock_bucket q b s (free_curr c old q d (Return r))) h Q"
proof (rule wp_unlock_bucket [OF assms(1,3,4,5)])
  fix h1 assume h1: "ok h1" "cells h1 = (cells h)(l \<mapsto> LockC s)" "allocs h1 = allocs h"
  show "wp R self (free_curr c old q d (Return r)) h1 Q"
    by (rule wp_free_curr [OF h1(1) assms(2)], simp add: h1(3) assms(6), rule wp_Return, rule assms(7))
      (auto simp: h1 restrict_map_def fun_eq_iff)
qed

lemma wp_leave:
  assumes "ok h" "d < 32" "ptr_id q = self" "cells h (lock_field q b) = Some (PtrC l)" "cells h l \<noteq> None"
    and "old \<Longrightarrow> allocs h q = Some as" "\<not> is_local c a \<Longrightarrow> allocs h e = Some [e]"
    and "\<not> is_local c a \<Longrightarrow> old \<Longrightarrow> e \<noteq> q"
    and "\<And>h'. ok h' \<Longrightarrow> cells h' = (cells h)(l \<mapsto> LockC s) |`
        (- ((if is_local c a then {} else {e}) \<union> (if old then set as else {}))) \<Longrightarrow>
      allocs h' = allocs h |` (- ((if is_local c a then {} else {e}) \<union> (if old then {q} else {}))) \<Longrightarrow> Q r h'"
  shows "wp R self (unlock_bucket q b s (free_elist c a e (free_curr c old q d (Return r)))) h Q"
proof (rule wp_unlock_bucket [OF assms(1,3,4,5)])
  fix h1 assume h1: "ok h1" "cells h1 = (cells h)(l \<mapsto> LockC s)" "allocs h1 = allocs h"
  have "wp R self (free_curr c old q d (Return r)) h2 Q"
    if h2: "ok h2" "cells h2 = cells h1 |` (- (if is_local c a then {} else {e}))"
      "allocs h2 = allocs h1 |` (- (if is_local c a then {} else {e}))" for h2
  proof (rule wp_free_curr [OF h2(1) assms(2)])
    show "allocs h2 q = Some as" if old using that assms(6,8) by (auto simp: h2(3) h1(3))
    fix h3
    assume h3: "ok h3" "cells h3 = (if old then cells h2 |` (- set as) else cells h2)"
      "allocs h3 = (if old then (allocs h2)(q := None) else allocs h2)"
    show "wp R self (Return r) h3 Q"
      by (rule wp_Return, rule assms(9) [OF h3(1)])
        (auto simp: h3 h2 h1 restrict_map_def fun_eq_iff)
  qed
  note rest = this
  show "wp R self (free_elist c a e (free_curr c old q d (Return r))) h1 Q"
  proof (cases "is_local c a")
    case True
    then show ?thesis using rest [of h1] h1(1) by (simp add: free_elist_def restrict_map_def)
  next
    case False
    then have "wp R self (Deallocate (EList_t c) 1 e (free_curr c old q d (Return r))) h1 Q"
      by (intro wp_Deallocate [OF h1(1)] rest)
        (auto simp: assms(7) h1(3) restrict_map_def fun_eq_iff)
    then show ?thesis using False by (simp add: free_elist_def)
  qed
qed

end

section \<open>Making and filling a PList\<close>

definition fields :: "remote_ptr \<Rightarrow> nat \<Rightarrow> nat \<Rightarrow> remote_ptr set" where
  "fields p i n = base_field p ` {i..<i + n} \<union> lock_field p ` {i..<i + n}"

lemma fields_Suc:
  "fields p i (Suc n) = {base_field p i, lock_field p i} \<union> fields p (Suc i) n"
proof -
  have "{i..<i + Suc n} = insert i {Suc i..<Suc i + n}" by auto
  then show ?thesis by (auto simp: fields_def)
qed

lemma fields_notin [simp]: "base_field p i \<notin> fields p (Suc i) n" "lock_field p i \<notin> fields p (Suc i) n"
  by (auto simp: fields_def)

lemma base_field_Suc [simp]: "ptr_add (base_field p i) 16 = base_field p (Suc i)"
  by (simp add: base_field_def add.commute)

lemma base_field_0 [simp]: "base_field p 0 = p"
  by (simp add: base_field_def)

lemma fields_block: "n \<le> s * PLIST_SIZE c \<Longrightarrow> fields p 0 n \<subseteq> set (block (PList_t c) s p)"
  by (auto simp: fields_def intro!: field_in_block)

context iht_pool
begin

lemma wp_init_bucket:
  assumes "ok h" "ptr_id p = self" and live: "cells h (base_field p i) \<noteq> None" "cells h (lock_field p i) \<noteq> None"
    and k: "\<And>l h'. ok h' \<Longrightarrow> cells h l = None \<Longrightarrow> cells h' = (cells h)(lock_field p i \<mapsto> PtrC l,
        l \<mapsto> LockC E_UNLOCKED, base_field p i \<mapsto> PtrC (nullptr c)) \<Longrightarrow> allocs h l = None \<Longrightarrow>
      allocs h' = (allocs h)(l \<mapsto> [l]) \<Longrightarrow> wp R self k h' Q"
  shows "wp R self (Allocate lock_t 1 (\<lambda>l. Store (lock_field p i) (PtrC l) (load_ptr (lock_field p i) (\<lambda>l'.
    Store l' (LockC E_UNLOCKED) (Store (base_field p i) (PtrC (nullptr c)) k))))) h Q"
proof (rule wp_Allocate [OF assms(1)])
  fix l h1 cs
  assume h1: "ok h1" "ptr_id l = self" "length cs = 1 * ct_cells lock_t"
    "allocated h h1 l (block lock_t 1 l) cs"
  obtain z where z: "cs = [z]" using h1(3) by (cases cs) auto
  have l: "cells h l = None" "cells h1 = (cells h)(l \<mapsto> z)" "allocs h l = None"
    "allocs h1 = (allocs h)(l \<mapsto> [l])" using h1(4) by (auto simp: z allocated_single)
  have ne: "l \<noteq> base_field p i" "l \<noteq> lock_field p i" using l(1) live by auto
  show "wp R self (Store (lock_field p i) (PtrC l) (load_ptr (lock_field p i) (\<lambda>l'.
      Store l' (LockC E_UNLOCKED) (Store (base_field p i) (PtrC (nullptr c)) k)))) h1 Q"
  proof (rule wp_Store_ok [OF h1(1)], simp add: assms(2), use l live in simp)
    fix h2 assume h2: "ok h2" "cells h2 = (cells h1)(lock_field p i \<mapsto> PtrC l)" "allocs h2 = allocs h1"
    show "wp R self (load_ptr (lock_field p i) (\<lambda>l'. Store l' (LockC E_UNLOCKED)
        (Store (base_field p i) (PtrC (nullptr c)) k))) h2 Q"
    proof (rule wp_load_ptr [where q = l], simp add: assms(2), simp add: h2,
        rule wp_Store_ok [OF h2(1) h1(2)], simp add: h2 l ne)
      fix h3 assume h3: "ok h3" "cells h3 = (cells h2)(l \<mapsto> LockC E_UNLOCKED)" "allocs h3 = allocs h2"
      show "wp R self (Store (base_field p i) (PtrC (nullptr c)) k) h3 Q"
        by (rule wp_Store_ok [OF h3(1)], simp add: assms(2), use h3 h2 l live ne in simp,
            rule k [OF _ l(1) _ l(3)]) (use ne in \<open>auto simp: h3 h2 l\<close>)
    qed
  qed
qed simp

lemma wp_init_buckets:
  assumes "ok h" "ptr_id p = self" "\<And>a. a \<in> fields p i n \<Longrightarrow> cells h a \<noteq> None"
    and "\<And>h' ls. ok h' \<Longrightarrow> length ls = n \<Longrightarrow>
      grows h h' (fields p i n) (pcells c (base_field p i) (map EmptyB ls)) \<Longrightarrow> wp R self k h' Q"
  shows "wp R self (init_buckets c p i n k) h Q"
  using assms
proof (induction n arbitrary: i h)
  case 0
  show ?case using 0(1) 0(4) [of h "[]"] by (simp add: grows_def owns_def)
next
  case (Suc n)
  have live: "cells h (base_field p i) \<noteq> None" "cells h (lock_field p i) \<noteq> None"
    using Suc.prems(3) by (auto simp: fields_Suc)
  show ?case unfolding init_buckets.simps
  proof (rule wp_init_bucket [OF Suc.prems(1,2) live])
    fix l h4
    assume h4: "ok h4" "cells h l = None" "cells h4 = (cells h)(lock_field p i \<mapsto> PtrC l,
        l \<mapsto> LockC E_UNLOCKED, base_field p i \<mapsto> PtrC (nullptr c))" "allocs h l = None"
      "allocs h4 = (allocs h)(l \<mapsto> [l])"
    have ne: "l \<noteq> base_field p i" "l \<noteq> lock_field p i" using h4(2) live by auto
    let ?H = "bucket_head c (base_field p i) (EmptyB l)"
    have lf: "l \<notin> fields p (Suc i) n" using Suc.prems(3) [of l] h4(2) by (auto simp: fields_Suc)
    have g4: "grows h h4 (fields p i (Suc n)) ?H"
      using h4(2) ne
      by (auto simp: grows_def keeps_def owns_def holds_def bucket_head_def lock_field_base [symmetric]
          h4 fields_Suc)
    show "wp R self (init_buckets c p (Suc i) n k) h4 Q"
    proof (rule Suc.IH [OF h4(1) Suc.prems(2)])
      show "cells h4 a \<noteq> None" if "a \<in> fields p (Suc i) n" for a
        using Suc.prems(3) [of a] that by (auto simp: h4(3) fields_Suc)
      fix h' ls
      assume h': "ok h'" "length ls = n"
        "grows h4 h' (fields p (Suc i) n) (pcells c (base_field p (Suc i)) (map EmptyB ls))"
      have "grows h h' (fields p i (Suc n)) (?H @ pcells c (base_field p (Suc i)) (map EmptyB ls))"
        by (rule grows_append [OF g4 h'(3)])
          (use lf in \<open>auto simp: bucket_head_def lock_field_base [symmetric] fields_Suc\<close>)
      then show "wp R self k h' Q" using Suc.prems(4) [of h' "l # ls"] h' by simp
    qed
  qed
qed

lemma count_factor:
  assumes "1 \<le> d" "d \<le> D"
  shows "count_at c d div PLIST_SIZE c = 2 ^ (d - 1)" "2 ^ (d - 1) * PLIST_SIZE c = count_at c d"
  using sizes by (auto simp: count_at_def iht_sizes_def)

lemma allocated_plist:
  assumes "allocated h h' p (block (PList_t c) s p) cs" "length cs = s * ct_cells (PList_t c)"
  shows "a \<in> set (block (PList_t c) s p) \<Longrightarrow> cells h a = None \<and> cells h' a \<noteq> None"
  using assms map_upds_nth [OF distinct_block, of "PList_t c" s p cs _ "cells h"]
  by (fastforce simp: allocated_def in_set_conv_nth PList_t_def)

text \<open>Allocation and initialisation together: a new PList with \<open>s * PLIST_SIZE\<close> empty buckets.\<close>

lemma wp_new_plist:
  assumes "ok h" "PLIST_SIZE c * s < 2 ^ 31"
    and "\<And>p h' ls. ok h' \<Longrightarrow> p \<noteq> nullptr c \<Longrightarrow> ptr_id p = self \<Longrightarrow> length ls = PLIST_SIZE c * s \<Longrightarrow>
      grows h h' {} (pcells c p (map EmptyB ls)) \<Longrightarrow> wp R self (k p) h' Q"
  shows "wp R self (Allocate (PList_t c) s (\<lambda>p. InitPList c p s (k p))) h Q"
proof (rule wp_Allocate [OF assms(1)])
  fix p h1 cs
  assume h1: "ok h1" "p \<noteq> remote_nullptr R" "ptr_id p = self" "length cs = s * ct_cells (PList_t c)"
    "allocated h h1 p (block (PList_t c) s p) cs"
  note new = allocated_plist [OF h1(5,4)]
  have fb: "fields p 0 (PLIST_SIZE c * s) \<subseteq> set (block (PList_t c) s p)"
    by (rule fields_block) (simp add: mult.commute)
  show "wp R self (InitPList c p s (k p)) h1 Q" unfolding InitPList_def if_P [OF assms(2)]
  proof (rule wp_init_buckets [OF h1(1,3)])
    show "cells h1 a \<noteq> None" if "a \<in> fields p 0 (PLIST_SIZE c * s)" for a
      using that fb new by blast
    fix h' ls
    assume h': "ok h'" "length ls = PLIST_SIZE c * s"
      "grows h1 h' (fields p 0 (PLIST_SIZE c * s)) (pcells c (base_field p 0) (map EmptyB ls))"
    have "grows h h1 {} []" using keeps_allocated [OF h1(5)] by (simp add: grows_def owns_def)
    then have "grows h h' {} (pcells c p (map EmptyB ls))"
      using grows_trans [OF _ h'(3), of h "{}" "[]"] fb new by auto
    then show "wp R self (k p) h' Q" using assms(3) h' h1 by (simp add: null)
  qed
qed simp

end

text \<open>One bucket of a PList changes; \<open>C\<close> is other memory the change may touch.\<close>

lemma grows_bucket:
  assumes "owns h (pcells c p ts)" "b < length ts"
    and "grows h h' (addrs (bcells c (base_field p b) (ts ! b)) \<union> C) (bcells c (base_field p b) t)"
    and "C \<inter> addrs (pcells c p ts) = {}"
  shows "grows h h' (addrs (pcells c p ts) \<union> C) (pcells c p (ts[b := t]))"
proof -
  let ?pre = "pcells_before c p ts b" and ?post = "pcells_after c p ts b"
  let ?xs = "bcells c (base_field p b) (ts ! b)"
  have e: "pcells c p ts = ?pre @ ?xs @ ?post" using assms(2) by (rule pcells_split)
  have "addrs ?xs \<inter> addrs (?pre @ ?post) = {}"
    using assms(1) unfolding e owns_def by (auto simp: holds_append)
  then have "(addrs ?xs \<union> C) \<inter> addrs (?pre @ ?post) = {}"
    using assms(4) unfolding e by (auto simp: disjoint_iff)
  then have "grows h h' ((addrs ?xs \<union> C) \<union> addrs (?pre @ ?xs @ ?post))
      (?pre @ bcells c (base_field p b) t @ ?post)"
    using assms(1,3) unfolding e by (intro grows_replace)
  moreover have "(addrs ?xs \<union> C) \<union> addrs (?pre @ ?xs @ ?post) = addrs (pcells c p ts) \<union> C"
    unfolding e by auto
  ultimately show ?thesis by (simp add: pcells_update [OF assms(2)])
qed

lemma plist_ok_update:
  assumes "plist_ok c D U d 0 ts" "bucket_ok c D U d b t"
  shows "plist_ok c D U d 0 (ts[b := t])"
proof -
  have "bucket_ok c D U d i (ts[b := t] ! i)" if "i < length ts" for i
    using that assms by (cases "i = b") (simp_all add: plist_ok_iff)
  then show ?thesis by (simp add: plist_ok_iff)
qed

lemma owns_middle: "owns h (xs @ ys @ zs) \<Longrightarrow> owns h ys"
  unfolding owns_def by (simp add: holds_append)

lemma owns_bucket:
  "owns h (pcells c p ts) \<Longrightarrow> b < length ts \<Longrightarrow> owns h (bcells c (base_field p b) (ts ! b))"
  by (simp only: pcells_split [of b ts] owns_middle)

section \<open>Rehashing\<close>

text \<open>
  A PList at depth \<open>d\<close> that a rehash has filled with the pairs \<open>ps\<close>: no sub-PLists, every
  element list on this node and made of pairs from \<open>ps\<close>.
\<close>

definition flat :: "RdmaIHT \<Rightarrow> (key \<times> val) list \<Rightarrow> itree \<Rightarrow> bool" where
  "flat c ps t \<longleftrightarrow> (case t of EmptyB _ \<Rightarrow> True
     | LeafB _ e x \<Rightarrow> is_local c e \<and> set (elist_live x) \<subseteq> set ps
     | SubB _ _ _ \<Rightarrow> False)"

definition rehashed :: "RdmaIHT \<Rightarrow> nat \<Rightarrow> key set \<Rightarrow> nat \<Rightarrow> itree list \<Rightarrow> (key \<times> val) list \<Rightarrow> bool" where
  "rehashed c D U d ts ps \<longleftrightarrow> length ts = count_at c d \<and> plist_ok c D U d 0 ts \<and>
     (\<forall>t \<in> set ts. flat c ps t) \<and> pfind c d ts = map_of ps"

lemma rehashed_empty:
  "length ls = count_at c d \<Longrightarrow> rehashed c D U d (map EmptyB ls) []"
  by (auto simp: rehashed_def plist_ok_iff flat_def pfind_def nfind_nth)

lemma rehashed_insert:
  assumes "rehashed c D U d ts ps" and b: "b = level_hash c k d (count_at c d)" "b < length ts"
    and k: "k \<in> U" "k \<notin> fst ` set ps"
    and e: "e \<noteq> nullptr c" "is_local c e"
    and x: "elist_ok c x" "set (elist_live x) \<subseteq> set ps" "map_of (elist_live x) = bfind c d (ts ! b)"
      "\<And>p. p \<in> set (elist_live x) \<Longrightarrow> fst p \<in> U \<and> level_hash c (fst p) d (count_at c d) = b"
      "elist_insert x k v = Some x'"
  shows "rehashed c D U d (ts[b := LeafB l e x']) (ps @ [(k, v)])"
proof -
  note ins = elist_insert_live [OF x(5)]
  have nk: "k \<notin> fst ` set (elist_live x)" using k(2) x(2) by auto
  have "bucket_ok c D U d b (LeafB l e x')"
    using e k(1) x(4) elist_insert_ok [OF x(1,5) nk] by (auto simp: ins b(1))
  then have "plist_ok c D U d 0 (ts[b := LeafB l e x'])"
    using assms(1) by (intro plist_ok_update) (auto simp: rehashed_def)
  moreover have "flat c (ps @ [(k, v)]) t" if "t \<in> set (ts[b := LeafB l e x'])" for t
    using set_update_subset_insert [of ts b "LeafB l e x'"] that assms(1) e(2) x(2)
    by (fastforce simp: rehashed_def flat_def ins split: itree.splits)
  moreover have "pfind c d (ts[b := LeafB l e x']) = map_of (ps @ [(k, v)])"
  proof
    fix k'
    have "map_of (elist_live x) k' = map_of ps k'" if "level_hash c k' d (count_at c d) = b"
    proof -
      have "pfind c d ts k' = map_of ps k'" using assms(1) by (simp add: rehashed_def)
      then show ?thesis using b(2) that by (simp add: x(3) pfind_def nfind_nth)
    qed
    moreover have "pfind c d ts k' = map_of ps k'" using assms(1) by (simp add: rehashed_def)
    moreover have "map_of ps k = None" using k(2) by (simp add: map_of_eq_None_iff)
    ultimately show "pfind c d (ts[b := LeafB l e x']) k' = map_of (ps @ [(k, v)]) k'"
      by (auto simp: pfind_update [OF b(2)] ins map_add_def b(1) [symmetric] split: option.splits)
  qed
  ultimately show ?thesis using assms(1) by (auto simp: rehashed_def)
qed

lemma rehashed_room:
  assumes "rehashed c D U d ts ps" "t \<in> set ts" "t = LeafB l e x" "elist_ok c x" "length ps < ELIST_SIZE c"
  shows "elist_count x < length (elist_pairs x)"
proof -
  have "distinct (elist_live x)" using assms(4) by (auto simp: elist_ok_def distinct_map)
  then have "length (elist_live x) = card (set (elist_live x))" by (simp add: distinct_card)
  also have "\<dots> \<le> card (set ps)"
    using assms(1-3) by (intro card_mono) (force simp: rehashed_def flat_def)+
  also have "\<dots> \<le> length ps" by (rule card_length)
  finally show ?thesis using assms(4,5) by (simp add: elist_ok_def elist_live_def)
qed

context iht_pool
begin

lemma wp_rehash_put:
  assumes "ok h" "ptr_id p = self" "owns h (pcells c p ts)" "b < length ts"
    and leaf: "ts ! b = LeafB l e x" "is_local c e" "elist_insert x k v = Some x'"
    and cont: "\<And>h'. ok h' \<Longrightarrow> grows h h' (addrs (pcells c p ts)) (pcells c p (ts[b := LeafB l e x'])) \<Longrightarrow>
      wp R self cont h' Q"
  shows "wp R self (load_ptr (base_field p b) (\<lambda>dest. load_elist dest (\<lambda>x.
    case elist_insert x k v of Some x' \<Rightarrow> Store dest (EListC x') cont | None \<Rightarrow> Undefined))) h Q"
proof -
  have sub: "set (bcells c (base_field p b) (LeafB l e x)) \<subseteq> set (pcells c p ts)"
    using bcells_in_pcells [OF assms(4), of c p] by (simp add: leaf(1))
  have he: "cells h e = Some (EListC x)" "cells h (base_field p b) = Some (PtrC e)"
    using sub by (auto intro!: ownsD [OF assms(3)] simp: bucket_head_def)
  have ob: "owns h (bcells c (base_field p b) (LeafB l e x))"
    using owns_bucket [OF assms(3,4)] by (simp only: leaf(1))
  show ?thesis
  proof (rule wp_load_ptr [OF _ he(2)], simp add: assms(2), rule wp_load_elist [OF _ he(1)])
    show "ptr_id e = self" using leaf(2) by (simp add: is_local_def)
    then show "wp R self (case elist_insert x k v of None \<Rightarrow> Undefined
        | Some x' \<Rightarrow> Store e (EListC x') cont) h Q" unfolding leaf(3) option.case
    proof (rule wp_Store_ok [OF assms(1)])
      show "cells h e \<noteq> None" using he(1) by simp
      fix h' assume h': "ok h'" "cells h' = (cells h)(e \<mapsto> EListC x')" "allocs h' = allocs h"
      have "grows h h' (addrs (bcells c (base_field p b) (ts ! b)) \<union> {})
          (bcells c (base_field p b) (LeafB l e x'))"
        using ob by (auto simp: leaf(1) grows_def keeps_def owns_def holds_def bucket_head_def h')
      then have "grows h h' (addrs (pcells c p ts) \<union> {}) (pcells c p (ts[b := LeafB l e x']))"
        by (rule grows_bucket [OF assms(3,4)]) simp
      then show "wp R self cont h' Q" using cont h'(1) by simp
    qed
  qed
qed

lemma wp_rehash_new:
  assumes "ok h" "ptr_id p = self" "owns h (pcells c p ts)" "b < length ts" "ts ! b = EmptyB l"
    and cont: "\<And>e x h'. ok h' \<Longrightarrow> e \<noteq> nullptr c \<Longrightarrow> is_local c e \<Longrightarrow> elist_count x = 0 \<Longrightarrow>
      length (elist_pairs x) = ELIST_SIZE c \<Longrightarrow>
      grows h h' (addrs (pcells c p ts)) (pcells c p (ts[b := LeafB l e x])) \<Longrightarrow> wp R self cont h' Q"
  shows "wp R self (Allocate (EList_t c) 1 (\<lambda>e. Store (base_field p b) (PtrC e) cont)) h Q"
proof (rule wp_Allocate [OF assms(1)])
  fix e h1 cs
  assume h1: "ok h1" "e \<noteq> remote_nullptr R" "ptr_id e = self" "length cs = 1 * ct_cells (EList_t c)"
    "list_all (ct_fresh (EList_t c)) cs" "allocated h h1 e (block (EList_t c) 1 e) cs"
  obtain x where x: "cs = [EListC x]" "elist_count x = 0" "length (elist_pairs x) = ELIST_SIZE c"
    using h1(4,5) by (cases cs) (auto simp: EList_t_def split: iht_cell.splits)
  have e: "cells h e = None" "cells h1 = (cells h)(e \<mapsto> EListC x)" "allocs h1 = (allocs h)(e \<mapsto> [e])"
    using h1(6) by (auto simp: x allocated_single)
  have ob: "owns h (bcells c (base_field p b) (EmptyB l))"
    using owns_bucket [OF assms(3,4)] by (simp only: assms(5))
  then have live: "cells h (base_field p b) \<noteq> None" "cells h (ptr_add (base_field p b) 8) \<noteq> None"
    "cells h l \<noteq> None"
    by (auto simp: owns_def holds_def bucket_head_def)
  show "wp R self (Store (base_field p b) (PtrC e) cont) h1 Q"
  proof (rule wp_Store_ok [OF h1(1)], simp add: assms(2), use live e in simp)
    fix h' assume h': "ok h'" "cells h' = (cells h1)(base_field p b \<mapsto> PtrC e)" "allocs h' = allocs h1"
    have "grows h h' (addrs (bcells c (base_field p b) (ts ! b)) \<union> {})
        (bcells c (base_field p b) (LeafB l e x))"
      using ob live e by (auto simp: assms(5) grows_def keeps_def owns_def holds_def bucket_head_def h')
    then have "grows h h' (addrs (pcells c p ts) \<union> {}) (pcells c p (ts[b := LeafB l e x]))"
      by (rule grows_bucket [OF assms(3,4)]) simp
    then show "wp R self cont h' Q" using cont [OF h'(1)] h1(2,3) x by (simp add: null is_local_def)
  qed
qed simp

lemma wp_rehash_pairs:
  assumes "ok h" "ptr_id p = self" "d < D" "owns h (pcells c p ts)" "rehashed c D U (d + 1) ts done"
    "distinct (map fst (done @ ps))" "fst ` set ps \<subseteq> U" "length (done @ ps) \<le> ELIST_SIZE c"
    and "\<And>h' ts'. ok h' \<Longrightarrow> rehashed c D U (d + 1) ts' (done @ ps) \<Longrightarrow>
      grows h h' (addrs (pcells c p ts)) (pcells c p ts') \<Longrightarrow> wp R self k h' Q"
  shows "wp R self (rehash_pairs c p (count_at c (d + 1)) d ps k) h Q"
  using assms(1,4-)
proof (induction ps arbitrary: h ts "done")
  case Nil
  then show ?case using Nil(7) [of h ts] by (simp add: grows_def)
next
  case (Cons kv ps)
  obtain key v where kv: "kv = (key, v)" by fastforce
  let ?b = "level_hash c key (d + 1) (count_at c (d + 1))"
  let ?put = "load_ptr (base_field p ?b) (\<lambda>dest. load_elist dest (\<lambda>x. case elist_insert x key v of
      Some x' \<Rightarrow> Store dest (EListC x') (rehash_pairs c p (count_at c (d + 1)) d ps k)
    | None \<Rightarrow> Undefined))"
  have len: "length ts = count_at c (d + 1)" using Cons.prems(3) by (simp add: rehashed_def)
  have b: "?b < length ts" unfolding len by (rule level_hash_less [OF sizes]) (use assms(3) in auto)
  have bok: "bucket_ok c D U (d + 1) ?b (ts ! ?b)" and fl: "flat c done (ts ! ?b)"
    using Cons.prems(3) b by (auto simp: rehashed_def plist_ok_iff)
  have room: "length done < ELIST_SIZE c" using Cons.prems(6) by simp
  have new: "key \<in> U" "key \<notin> fst ` set done" using Cons.prems(4,5) by (auto simp: kv)
  have put: "wp R self ?put h1 Q"
    if h1: "ok h1" "grows h h1 (addrs (pcells c p ts)) (pcells c p ts1)" "ts1 = ts[?b := LeafB l e x]"
      and e: "e \<noteq> nullptr c" "is_local c e" and x: "elist_ok c x" "elist_count x < length (elist_pairs x)"
      "set (elist_live x) \<subseteq> set done" "map_of (elist_live x) = bfind c (d + 1) (ts ! ?b)"
      "\<And>q. q \<in> set (elist_live x) \<Longrightarrow> fst q \<in> U \<and> level_hash c (fst q) (d + 1) (count_at c (d + 1)) = ?b"
    for h1 ts1 l e x
  proof -
    obtain x' where x': "elist_insert x key v = Some x'" using elist_insert_Some [OF x(2)] by blast
    have o1: "owns h1 (pcells c p ts1)" using h1(2) by (simp add: grows_def)
    have re: "rehashed c D U (d + 1) (ts[?b := LeafB l e x']) (done @ [(key, v)])"
      by (rule rehashed_insert [OF Cons.prems(3) refl b new e x(1,3,4,5) x'])
    show ?thesis
    proof (rule wp_rehash_put [OF h1(1) assms(2) o1])
      show "?b < length ts1" "ts1 ! ?b = LeafB l e x" using b by (simp_all add: h1(3))
      show "is_local c e" "elist_insert x key v = Some x'" by (fact e(2), fact x')
      fix h2
      assume h2: "ok h2" "grows h1 h2 (addrs (pcells c p ts1)) (pcells c p (ts1[?b := LeafB l e x']))"
      have g2: "grows h h2 (addrs (pcells c p ts)) (pcells c p (ts[?b := LeafB l e x']))"
        using grows_steps [OF h1(2) h2(2)] by (simp add: h1(3))
      show "wp R self (rehash_pairs c p (count_at c (d + 1)) d ps k) h2 Q"
      proof (rule Cons.IH [OF h2(1) _ re])
        show "owns h2 (pcells c p (ts[?b := LeafB l e x']))" using g2 by (simp add: grows_def)
        fix h' ts'
        assume "ok h'" "rehashed c D U (d + 1) ts' ((done @ [(key, v)]) @ ps)"
          "grows h2 h' (addrs (pcells c p (ts[?b := LeafB l e x']))) (pcells c p ts')"
        then show "wp R self k h' Q"
          using Cons.prems(7) [of h' ts'] grows_steps [OF g2] by (simp add: kv)
      qed (use Cons.prems(4-6) in \<open>auto simp: kv\<close>)
    qed
  qed
  have hb: "cells h (base_field p ?b) = Some (PtrC (bucket_base c (ts ! ?b)))"
    using pcells_head(1) [OF b] by (rule ownsD [OF Cons.prems(2)])
  have "wp R self (if is_null c (bucket_base c (ts ! ?b))
      then Allocate (EList_t c) 1 (\<lambda>e. Store (base_field p ?b) (PtrC e) ?put) else ?put) h Q"
  proof (cases "ts ! ?b")
    case (EmptyB l)
    have "wp R self (Allocate (EList_t c) 1 (\<lambda>e. Store (base_field p ?b) (PtrC e) ?put)) h Q"
      by (rule wp_rehash_new [OF Cons.prems(1) assms(2) Cons.prems(2) b EmptyB], rule put [OF _ _ refl])
        (use sizes in \<open>auto simp: elist_ok_def elist_live_def EmptyB [simplified] fun_eq_iff iht_sizes_def\<close>)
    then show ?thesis by (simp only: EmptyB bucket_base.simps is_null_def if_True simp_thms)
  next
    case (LeafB l e x)
    have ts: "ts = ts[?b := LeafB l e x]" by (simp add: LeafB [symmetric])
    have "elist_count x < length (elist_pairs x)"
      by (rule rehashed_room [OF Cons.prems(3) nth_mem [OF b] LeafB _ room]) (use bok LeafB in simp)
    then have "wp R self ?put h Q"
      using bok fl Cons.prems(2) unfolding LeafB
      by (intro put [OF Cons.prems(1) _ ts]) (auto simp: LeafB [simplified] flat_def grows_def fun_eq_iff)
    moreover have "e \<noteq> nullptr c" using bok LeafB by simp
    ultimately show ?thesis by (simp only: LeafB bucket_base.simps is_null_def if_False)
  next
    case (SubB l q us)
    have False using fl unfolding SubB by (simp add: flat_def)
    then show ?thesis by simp
  qed
  then show ?case
    unfolding rehash_pairs.simps Let_def kv fst_conv snd_conv
    by (intro wp_load_ptr [OF _ hb]) (simp_all add: assms(2))
qed

text \<open>The second half of \<open>rehash\<close>: the pairs of the source move to the new PList, the source is freed.\<close>

lemma wp_rehash_move:
  assumes "ok h2" "ptr_id p = self" "d < D" "grows h h2 {} (pcells c p ts)" "rehashed c D U (d + 1) ts []"
    and s: "ptr_id s = self" "cells h2 s = Some (EListC x)" "allocs h2 s = Some [s]" "s \<notin> addrs (pcells c p ts)"
      "s \<in> A \<or> cells h s = None"
    and x: "elist_ok c x" "fst ` set (elist_live x) \<subseteq> U"
    and k: "\<And>h' ts'. ok h' \<Longrightarrow> rehashed c D U (d + 1) ts' (elist_live x) \<Longrightarrow>
      grows h h' A (pcells c p ts') \<Longrightarrow> (\<And>a. a \<in> addrs (pcells c p ts') \<Longrightarrow> cells h a = None) \<Longrightarrow>
      wp R self k h' Q"
  shows "wp R self (load_elist s (\<lambda>x. if length (elist_pairs x) < elist_count x then Undefined else
    rehash_pairs c p (count_at c (d + 1)) d (elist_live x) (Deallocate (EList_t c) 1 s k))) h2 Q"
proof (rule wp_load_elist [OF s(1,2)])
  have len: "\<not> length (elist_pairs x) < elist_count x" "length (elist_live x) \<le> ELIST_SIZE c"
    "distinct (map fst (elist_live x))"
    using x(1) by (auto simp: elist_ok_def elist_live_def)
  have "wp R self (rehash_pairs c p (count_at c (d + 1)) d (elist_live x) (Deallocate (EList_t c) 1 s k)) h2 Q"
  proof (rule wp_rehash_pairs [OF assms(1-3) _ assms(5)])
    show "owns h2 (pcells c p ts)" using assms(4) by (simp add: grows_def)
    fix h3 ts'
    assume h3: "ok h3" "rehashed c D U (d + 1) ts' ([] @ elist_live x)"
      "grows h2 h3 (addrs (pcells c p ts)) (pcells c p ts')"
    have g3: "grows h h3 {} (pcells c p ts')" by (rule grows_steps [OF assms(4) h3(3)])
    have s3: "cells h3 s = Some (EListC x)" "allocs h3 s = Some [s]"
      using h3(3) s(2-4) by (auto simp: grows_def keeps_def)
    have sn: "s \<notin> addrs (pcells c p ts')"
      using h3(3) s(2,4) unfolding grows_def by force
    show "wp R self (Deallocate (EList_t c) 1 s k) h3 Q"
    proof (rule wp_Deallocate [OF h3(1) s3(2)])
      fix h4 assume h4: "ok h4" "cells h4 = cells h3 |` (- set [s])" "allocs h4 = (allocs h3)(s := None)"
      have "owns h4 (pcells c p ts')"
        using g3 sn by (intro owns_free [OF _ _ _ h4(2,3)]) (auto simp: grows_def)
      moreover have "keeps h h4 A"
      proof (rule keeps_trans)
        show "keeps h h3 A" using g3 by (auto simp: grows_def intro: keeps_mono)
        show "keeps h3 h4 {s}" by (auto simp: keeps_def h4)
      qed (use s(5) in simp)
      ultimately show "wp R self k h4 Q"
        using g3 h3(2) by (intro k [OF h4(1)]) (auto simp: grows_def)
    qed
  qed (use len x(2) in auto)
  then show "wp R self (if length (elist_pairs x) < elist_count x then Undefined else
      rehash_pairs c p (count_at c (d + 1)) d (elist_live x) (Deallocate (EList_t c) 1 s k)) h2 Q"
    using len(1) by simp
qed

lemma wp_rehash:
  assumes "ok h" "ptr_id q = self" "1 \<le> d" "d < D" "cells h (base_field q b) = Some (PtrC a)"
    and a: "cells h a = Some (EListC x)" "allocs h a = Some [a]"
    and x: "elist_ok c x" "fst ` set (elist_live x) \<subseteq> U"
    and k: "\<And>p h' ts. ok h' \<Longrightarrow> p \<noteq> nullptr c \<Longrightarrow> ptr_id p = self \<Longrightarrow>
      rehashed c D U (d + 1) ts (elist_live x) \<Longrightarrow>
      grows h h' (if is_local c a then {a} else {}) (pcells c p ts) \<Longrightarrow>
      (\<And>a. a \<in> addrs (pcells c p ts) \<Longrightarrow> cells h a = None) \<Longrightarrow> wp R self (k p) h' Q"
  shows "wp R self (rehash c q (count_at c d) d b k) h Q"
proof -
  let ?A = "if is_local c a then {a} else {}"
  let ?move = "\<lambda>p s. load_elist s (\<lambda>x. if length (elist_pairs x) < elist_count x then Undefined else
      rehash_pairs c p (count_at c (d + 1)) d (elist_live x) (Deallocate (EList_t c) 1 s (k p)))"
  have pc: "(count_at c d * 2) mod 2 ^ 64 = count_at c (d + 1)"
    by (rule count_at_double [OF sizes assms(3,4)])
  have fac: "count_at c (d + 1) div PLIST_SIZE c = 2 ^ d" "PLIST_SIZE c * 2 ^ d = count_at c (d + 1)"
    using count_factor [of "d + 1"] assms(4) by (simp_all add: mult.commute)
  have "d < 31" using assms(4) sizes by (simp add: iht_sizes_def)
  then have "(2 :: nat) ^ d < 2 ^ 31" by (rule power_strict_increasing) simp
  then have small: "PLIST_SIZE c * 2 ^ d < 2 ^ 31" "\<not> 2 ^ 31 \<le> (2 :: nat) ^ d"
    unfolding fac using count_at_bounds(3) [OF sizes, of "d + 1"] assms(4) by simp_all
  show ?thesis
    unfolding rehash_def Let_def pc fac(1) if_not_P [OF small(2)]
  proof (rule wp_new_plist [OF assms(1) small(1)])
    fix p h1 ls
    assume h1: "ok h1" "p \<noteq> nullptr c" "ptr_id p = self" "length ls = PLIST_SIZE c * 2 ^ d"
      "grows h h1 {} (pcells c p (map EmptyB ls))"
    let ?ts = "map EmptyB ls"
    have re: "rehashed c D U (d + 1) ?ts []" using h1(4) by (intro rehashed_empty) (simp add: fac)
    have new: "a' \<in> addrs (pcells c p ?ts) \<Longrightarrow> cells h a' = None" for a'
      using grows_addrs [OF h1(5)] by simp
    have q1: "cells h1 (base_field q b) = Some (PtrC a)" "cells h1 a = Some (EListC x)" "allocs h1 a = Some [a]"
      using h1(5) assms(5) a by (auto simp: grows_def keeps_def)
    have "wp R self ((if is_local c a then (\<lambda>k'. k' a) else Read (EList_t c) 1 a) (?move p)) h1 Q"
    proof (cases "is_local c a")
      case True
      then have "wp R self (?move p a) h1 Q"
        using a(1) new [of a] k [OF _ h1(2,3)] q1
        by (intro wp_rehash_move [OF h1(1,3) assms(4) h1(5) re _ _ _ _ _ x, where A = ?A])
          (auto simp: is_local_def)
      then show ?thesis using True by simp
    next
      case False
      have "wp R self (Read (EList_t c) 1 a (?move p)) h1 Q"
      proof (rule wp_Read [OF h1(1), where cs = "[EListC x]"])
        fix s h2
        assume h2: "ok h2" "ptr_id s = self" "allocated h1 h2 s (block (EList_t c) 1 s) [EListC x]"
        have s: "cells h1 s = None" "cells h2 s = Some (EListC x)" "allocs h2 s = Some [s]"
          using h2(3) by (auto simp: allocated_single)
        have o1: "owns h1 (pcells c p ?ts)" using h1(5) by (simp add: grows_def)
        have "keeps h h2 {}"
          using keeps_trans [OF _ keeps_allocated [OF h2(3)], of h "{}" "{}"] h1(5) by (simp add: grows_def)
        then have g2: "grows h h2 {} (pcells c p ?ts)"
          using owns_allocated [OF o1 h2(3)] new by (simp add: grows_def)
        have "cells h s = None" using h1(5) s(1) unfolding grows_def keeps_def by force
        then show "wp R self (?move p s) h2 Q"
          using owns_live [OF o1, of s] s False k [OF _ h1(2,3)]
          by (intro wp_rehash_move [OF h2(1) h1(3) assms(4) g2 re h2(2) _ _ _ _ x, where A = ?A]) auto
      qed (use q1 in simp_all)
      then show ?thesis using False by simp
    qed
    then show "wp R self (load_ptr (base_field q b) (\<lambda>parent_bucket.
        (if is_local c parent_bucket then (\<lambda>k'. k' parent_bucket) else Read (EList_t c) 1 parent_bucket)
          (?move p))) h1 Q"
      by (intro wp_load_ptr [OF _ q1(1)]) (simp_all add: assms(2))
  qed
qed

end

end
