(* ===== verification/Iht_Levels.thy ===== *)
theory Iht_Levels
  imports Iht_Proc
begin

text \<open>
  The loops of \<open>contains\<close>, \<open>insert\<close> and \<open>remove\<close>, level by level: from any depth of the tree
  they finish, answer what the map of the subtree says, and change that map as specified.
\<close>

lemma disjoint_Un_mono: "A \<inter> C = {} \<Longrightarrow> B \<inter> C = {} \<Longrightarrow> C' \<subseteq> C \<Longrightarrow> (A \<union> B) \<inter> C' = {}"
  by blast

section \<open>The cursor\<close>

text \<open>
  \<open>curr\<close> is the PList itself when it is local, and a copy that the method owns otherwise
  (\<open>old\<close>, \<^verbatim>\<open>oldBucketBase\<close>).
\<close>

definition cur_block :: "RdmaIHT \<Rightarrow> nat \<Rightarrow> remote_ptr \<Rightarrow> bool \<Rightarrow> remote_ptr set" where
  "cur_block c d q old = (if old then set (block (PList_t c) (2 ^ (d - 1)) q) else {})"

definition cursor :: "RdmaIHT \<Rightarrow> ('p, iht_cell) heap \<Rightarrow> nat \<Rightarrow> remote_ptr \<Rightarrow> remote_ptr \<Rightarrow> itree list
    \<Rightarrow> bool \<Rightarrow> bool" where
  "cursor c h d q p ts old \<longleftrightarrow> ptr_id q = self_id c \<and> shows_plist c h q ts \<and> length ts = count_at c d \<and>
     (if old then allocs h q = Some (block (PList_t c) (2 ^ (d - 1)) q) \<and>
        cur_block c d q True \<inter> addrs (pcells c p ts) = {}
      else q = p)"

lemma cursorD:
  assumes "cursor c h d q p ts old"
  shows "ptr_id q = self_id c" "length ts = count_at c d"
    "b < length ts \<Longrightarrow> cells h (base_field q b) = Some (PtrC (bucket_base c (ts ! b)))"
    "b < length ts \<Longrightarrow> cells h (lock_field q b) = Some (PtrC (bucket_lock (ts ! b)))"
    "cur_block c d q old \<inter> addrs (pcells c p ts) = {}"
    "old \<Longrightarrow> allocs h q = Some (block (PList_t c) (2 ^ (d - 1)) q)"
    "shows_plist c h q ts"
  using assms by (simp_all add: cursor_def shows_plist_def cur_block_def split: if_splits)

lemma block_in_pcells:
  assumes "s * PLIST_SIZE c = length ts"
  shows "set (block (PList_t c) s p) \<subseteq> addrs (pcells c p ts)"
proof
  fix a assume "a \<in> set (block (PList_t c) s p)"
  then obtain j where j: "j < 2 * length ts" "a = ptr_add p (8 * j)"
    by (auto simp: block_PList assms)
  have "j div 2 < length ts" using j(1) by simp
  note head = pcells_head [OF this, where c = c and p = p, THEN imageI, of fst]
  show "a \<in> addrs (pcells c p ts)"
    using head(1,2) by (simp add: j(2) word_address)
qed

context iht_pool
begin

lemma plist_block_live:
  assumes "shows_plist c h q ts" "length ts = count_at c d" "1 \<le> d" "d \<le> D"
    "a \<in> set (block (PList_t c) (2 ^ (d - 1)) q)"
  shows "cells h a \<noteq> None"
proof -
  have "map (cells h) (block (PList_t c) (2 ^ (d - 1)) q) = map Some (plist_words c ts)"
    by (rule shows_plist_words [OF assms(1)]) (simp only: count_factor [OF assms(3,4)] assms(2))
  then have "cells h a \<in> set (map Some (plist_words c ts))"
    using assms(5) by (metis image_eqI list.set_map)
  then show ?thesis by auto
qed

lemma plist_block_first:
  assumes "1 \<le> d" "d \<le> D"
  shows "q \<in> set (block (PList_t c) (2 ^ (d - 1)) q)"
  using field_in_block(1) [of 0 "2 ^ (d - 1)" c q] sizes by (simp add: iht_sizes_def)

lemma cursor_block:
  assumes "cursor c h d q p ts old" "1 \<le> d" "d \<le> D"
  shows "a \<in> cur_block c d q old \<Longrightarrow> cells h a \<noteq> None" "old \<Longrightarrow> q \<in> cur_block c d q old"
  using assms plist_block_live [of h q ts d a] plist_block_first [of d q]
  by (auto simp: cursor_def cur_block_def split: if_splits)

lemma cursor_keeps:
  assumes "keeps h h' A" "cursor c h d q p ts old" "1 \<le> d" "d \<le> D"
    and "A \<inter> set (block (PList_t c) (2 ^ (d - 1)) q) = {}"
  shows "cursor c h' d q p ts old"
proof -
  have n: "b < length ts \<Longrightarrow> b < 2 ^ (d - 1) * PLIST_SIZE c" for b
    using cursorD(2) [OF assms(2)] count_factor [OF assms(3,4)] by simp
  have k: "cells h' a = cells h a" "allocs h a \<noteq> None \<Longrightarrow> allocs h' a = allocs h a"
    if "a \<in> set (block (PList_t c) (2 ^ (d - 1)) q)" for a
  proof -
    have "cells h a \<noteq> None"
      by (rule plist_block_live [OF cursorD(7,2) [OF assms(2)] assms(3,4) that])
    moreover have "a \<notin> A" using that assms(5) by blast
    ultimately show "cells h' a = cells h a" "allocs h a \<noteq> None \<Longrightarrow> allocs h' a = allocs h a"
      using assms(1) by (auto simp: keeps_def)
  qed
  have "shows_plist c h' q ts"
    using assms(2) k(1) field_in_block n unfolding cursor_def shows_plist_def by metis
  moreover have "old \<Longrightarrow> allocs h' q = allocs h q"
    using k(2) [OF plist_block_first [OF assms(3,4)]] cursorD(6) [OF assms(2)] by simp
  ultimately show ?thesis using assms(2) by (auto simp: cursor_def)
qed

text \<open>Descending into a sub-PList.\<close>

lemma wp_read_plist:
  assumes "ok h" "owns h (pcells c p ts)" "length ts = count_at c d" "1 \<le> d" "d \<le> D"
    and "\<And>q h'. ok h' \<Longrightarrow> q \<noteq> nullptr c \<Longrightarrow> cursor c h' d q p ts True \<Longrightarrow> keeps h h' {} \<Longrightarrow>
      (\<And>a. a \<in> cur_block c d q True \<Longrightarrow> cells h a = None) \<Longrightarrow> allocs h q = None \<Longrightarrow> wp R self (k q) h' Q"
  shows "wp R self (Read (PList_t c) (2 ^ (d - 1)) p k) h Q"
proof -
  have len: "2 ^ (d - 1) * PLIST_SIZE c = length ts" by (simp only: count_factor [OF assms(4,5)] assms(3))
  have "shows_plist c h p ts" by (rule holds_shows_plist) (use assms(2) in \<open>auto simp: owns_def\<close>)
  then have w: "map (cells h) (block (PList_t c) (2 ^ (d - 1)) p) = map Some (plist_words c ts)"
    by (rule shows_plist_words [OF _ len])
  show ?thesis
  proof (rule wp_Read [OF assms(1) _ w])
    fix q h'
    assume h': "ok h'" "q \<noteq> remote_nullptr R" "ptr_id q = self"
      "allocated h h' q (block (PList_t c) (2 ^ (d - 1)) q) (plist_words c ts)"
    have new: "a \<in> cur_block c d q True \<Longrightarrow> cells h a = None" for a
      using h'(4) by (auto simp: allocated_def cur_block_def)
    have "cur_block c d q True \<inter> addrs (pcells c p ts) = {}"
      using new owns_live [OF assms(2)] by (auto simp only: disjoint_iff)
    then have "cursor c h' d q p ts True"
      using h' allocated_shows_plist [OF h'(4) len] assms(3)
      by (auto simp: cursor_def allocated_def)
    then show "wp R self (k q) h' Q"
      using h' new keeps_allocated [OF h'(4)] by (intro assms(6)) (auto simp: null allocated_def)
  qed simp
qed

text \<open>The two deallocations at the end of \<open>descend\<close>.\<close>

lemma wp_descend_free:
  assumes "ok h" "1 \<le> d" "d \<le> D" "allocs h t = Some (block (PList_t c) (2 ^ (d - 1)) t)"
    and "old \<Longrightarrow> allocs h q = Some (block (PList_t c) (2 ^ (d - 1)) q)" "q \<noteq> t"
    and "\<And>h'. ok h' \<Longrightarrow> keeps h h' (cur_block c d t True \<union> cur_block c d q old) \<Longrightarrow>
      (\<And>a. a \<noteq> t \<Longrightarrow> a \<noteq> q \<Longrightarrow> allocs h' a = allocs h a) \<Longrightarrow> wp R self k h' Q"
  shows "wp R self (Deallocate (PList_t c) (2 ^ (d - 1)) t (free_curr c old q d k)) h Q"
proof (rule wp_Deallocate [OF assms(1,4)])
  fix h1 assume h1: "ok h1" "cells h1 = cells h |` (- set (block (PList_t c) (2 ^ (d - 1)) t))"
    "allocs h1 = (allocs h)(t := None)"
  have d32: "d < 32" using sizes assms(3) by (simp add: iht_sizes_def)
  note first = plist_block_first [OF assms(2,3)]
  show "wp R self (free_curr c old q d k) h1 Q"
  proof (rule wp_free_curr [OF h1(1) d32])
    show "allocs h1 q = Some (block (PList_t c) (2 ^ (d - 1)) q)" if old
      using that assms(5,6) by (simp add: h1)
    fix h2 assume h2: "ok h2"
      "cells h2 = (if old then cells h1 |` (- set (block (PList_t c) (2 ^ (d - 1)) q)) else cells h1)"
      "allocs h2 = (if old then (allocs h1)(q := None) else allocs h1)"
    show "wp R self k h2 Q"
      using first [of q] first [of t]
      by (intro assms(7) [OF h2(1)]) (auto simp: keeps_def cur_block_def h1 h2 restrict_map_def)
  qed
qed

lemma wp_descend:
  assumes "ok h" "1 \<le> d" "d < D" "owns h (pcells c p ts)" "length ts = count_at c d" "b < length ts"
    and sub: "ts ! b = SubB l p' us" "p' \<noteq> nullptr c" "length us = count_at c (d + 1)"
    and cur: "old \<Longrightarrow> cursor c h d q p ts old"
    and k: "\<And>q' h'. ok h' \<Longrightarrow> keeps h h' (cur_block c d q old) \<Longrightarrow>
      cursor c h' (d + 1) q' p' us (\<not> is_local c p') \<Longrightarrow>
      (\<And>a. a \<in> cur_block c (d + 1) q' (\<not> is_local c p') \<Longrightarrow> cells h a = None) \<Longrightarrow>
      wp R self (k q' p' (\<not> is_local c p')) h' Q"
    and q: "cells h q \<noteq> None"
  shows "wp R self (descend c q p d b old k) h Q"
proof -
  have d30: "d - 1 < 31" "d < 31" "d \<le> D" "1 \<le> d + 1" "d + 1 \<le> D"
    using sizes assms(3) by (auto simp: iht_sizes_def)
  have sub_in: "set (pcells c p' us) \<subseteq> set (pcells c p ts)"
    using bcells_in_pcells [OF assms(6), of c p] by (auto simp: sub(1))
  have o': "owns h (pcells c p' us)"
    using owns_bucket [OF assms(4,6)] owns_middle [of h "bucket_head c (base_field p b) (SubB l p' us)" "pcells c p' us" "[]"]
    by (simp add: sub(1))
  have qd: "cur_block c d q old \<inter> addrs (pcells c p' us) = {}"
    using cursorD(5) [OF cur] sub_in by (cases old) (auto simp: cur_block_def disjoint_iff)
  have lc: "a \<in> cur_block c d q old \<Longrightarrow> cells h a \<noteq> None" for a
    using cursor_block(1) [OF cur assms(2) d30(3)] by (cases old) (auto simp: cur_block_def)
  show ?thesis unfolding descend_def
  proof (rule wp_shl1 [OF d30(1)], rule wp_read_plist [OF assms(1,4,5,2) d30(3)])
    fix t h1
    assume h1: "ok h1" "cursor c h1 d t p ts True" "keeps h h1 {}"
      "\<And>a. a \<in> cur_block c d t True \<Longrightarrow> cells h a = None" "allocs h t = None"
    have tq: "q \<noteq> t"
      using cursor_block(2) [OF h1(2) assms(2) d30(3)] h1(4) [of t] q by auto
    have q1: "allocs h1 q = Some (block (PList_t c) (2 ^ (d - 1)) q)" if old
      using cursorD(6) [OF cur [OF that] that] h1(3) q by (auto simp: keeps_def)
    have o1: "owns h1 (pcells c p' us)" using keeps_owns [OF h1(3) o'] by simp
    let ?free = "\<lambda>r. Deallocate (PList_t c) (2 ^ (d - 1)) t
        (free_curr c old q d (k r p' (\<not> is_local c p')))"
    have fin: "wp R self (?free r) h2 Q"
      if h2: "ok h2" "keeps h1 h2 {}" "cursor c h2 (d + 1) r p' us (\<not> is_local c p')"
        "\<And>a. a \<in> cur_block c (d + 1) r (\<not> is_local c p') \<Longrightarrow> cells h1 a = None" for r h2
    proof (rule wp_descend_free [OF h2(1) assms(2) d30(3)])
      show "allocs h2 t = Some (block (PList_t c) (2 ^ (d - 1)) t)"
        using cursorD(6) [OF h1(2)] cursor_block(1) [OF h1(2) assms(2) d30(3), of t]
          cursor_block(2) [OF h1(2) assms(2) d30(3)] h2(2)
        by (auto simp: keeps_def)
      show "allocs h2 q = Some (block (PList_t c) (2 ^ (d - 1)) q)" if old
        using q1 [OF that] q h2(2) h1(3) by (auto simp: keeps_def)
      show "q \<noteq> t" by (fact tq)
      fix h3 assume h3: "ok h3" "keeps h2 h3 (cur_block c d t True \<union> cur_block c d q old)"
      have k2: "keeps h h2 (cur_block c d q old)"
        using keeps_trans [OF h1(3) h2(2)] by (auto intro: keeps_mono)
      have k3: "keeps h h3 (cur_block c d q old)"
        by (rule keeps_trans [OF k2 h3(2)]) (use h1(4) in auto)
      have fresh: "a \<in> cur_block c (d + 1) r (\<not> is_local c p') \<Longrightarrow> cells h a = None" for a
        using h2(4) h1(3) by (force simp: keeps_def)
      have disj: "(cur_block c d t True \<union> cur_block c d q old) \<inter>
          set (block (PList_t c) (2 ^ (d + 1 - 1)) r) = {}"
      proof (cases "is_local c p'")
        case True
        then have r: "r = p'" using h2(3) by (simp add: cursor_def)
        have "2 ^ (d + 1 - 1) * PLIST_SIZE c = length us" by (simp only: count_factor [OF d30(4,5)] sub(3))
        note inp = block_in_pcells [OF this, of p']
        have "cur_block c d t True \<inter> addrs (pcells c p' us) = {}"
          using h1(4) owns_live [OF o'] by (auto simp only: disjoint_iff)
        then show ?thesis unfolding r by (rule disjoint_Un_mono [OF _ qd inp])
      next
        case False
        have "cells h1 a \<noteq> None" if "a \<in> cur_block c d t True \<union> cur_block c d q old" for a
          using that cursor_block(1) [OF h1(2) assms(2) d30(3)] lc h1(3) by (auto simp: keeps_def)
        moreover have "cells h1 a = None" if "a \<in> set (block (PList_t c) (2 ^ (d + 1 - 1)) r)" for a
          using h2(4) [of a] False that by (simp only: cur_block_def if_True simp_thms)
        ultimately show ?thesis by blast
      qed
      show "wp R self (k r p' (\<not> is_local c p')) h3 Q"
        by (rule k [OF h3(1) k3 cursor_keeps [OF h3(2) h2(3) d30(4,5) disj] fresh])
    qed
    have hb: "cells h1 (base_field t b) = Some (PtrC p')"
      using cursorD(3) [OF h1(2) assms(6)] by (simp add: sub(1))
    have "wp R self ((if is_local c p' \<or> is_null c p' then (\<lambda>k'. k' p')
        else (\<lambda>k'. shl1 d (\<lambda>s'. Read (PList_t c) s' p' k'))) ?free) h1 Q"
    proof (cases "is_local c p'")
      case True
      have "shows_plist c h1 p' us" by (rule holds_shows_plist) (use o1 in \<open>auto simp: owns_def\<close>)
      then have "wp R self (?free p') h1 Q"
        using True sub(3) by (intro fin [OF h1(1)]) (auto simp: cursor_def is_local_def cur_block_def)
      then show ?thesis using True by simp
    next
      case False
      have "wp R self (shl1 d (\<lambda>s'. Read (PList_t c) s' p' ?free)) h1 Q"
        using wp_read_plist [OF h1(1) o1 sub(3) d30(4,5), where k = ?free and Q = Q] fin False
        by (intro wp_shl1 [OF d30(2)]) simp
      then show ?thesis using False sub(2) by (simp add: is_null_def)
    qed
    then show "wp R self (load_ptr (base_field t b) (\<lambda>bucket_base.
        (if is_local c bucket_base \<or> is_null c bucket_base then (\<lambda>k'. k' bucket_base)
         else (\<lambda>k'. shl1 d (\<lambda>s'. Read (PList_t c) s' bucket_base k'))) (\<lambda>base_ptr.
        Deallocate (PList_t c) (2 ^ (d - 1)) t
          (free_curr c old q d (k base_ptr bucket_base (\<not> is_local c bucket_base)))))) h1 Q"
      by (intro wp_load_ptr [OF _ hb]) (use cursorD(1) [OF h1(2)] in simp_all)
  qed
qed

section \<open>One turn of a loop\<close>

lemma owns_sub:
  assumes "owns h (pcells c p ts)" "b < length ts" "ts ! b = SubB l p' us"
  shows "owns h (pcells c p' us)"
  using owns_bucket [OF assms(1,2)] owns_middle [of h "bucket_head c (base_field p b) (SubB l p' us)" "pcells c p' us" "[]"]
  by (simp add: assms(3))

lemma wp_enter_sub:
  assumes "ok h" "1 \<le> d" "d \<le> D" "owns h (pcells c p ts)" "length ts = count_at c d"
    "plist_ok c D U d 0 ts" "b < length ts" "ts ! b = SubB l p' us"
    and q: "ptr_id q = self" "cells h (lock_field q b) = Some (PtrC l)" "cells h q \<noteq> None"
      "old \<Longrightarrow> cursor c h d q p ts old"
    and k: "\<And>q' h'. ok h' \<Longrightarrow> keeps h h' (cur_block c d q old) \<Longrightarrow> d < D \<Longrightarrow>
      owns h' (pcells c p' us) \<Longrightarrow> plist_ok c D U (d + 1) 0 us \<Longrightarrow>
      cursor c h' (d + 1) q' p' us (\<not> is_local c p') \<Longrightarrow>
      (\<And>a. a \<in> cur_block c (d + 1) q' (\<not> is_local c p') \<Longrightarrow> cells h a = None) \<Longrightarrow>
      wp R self (k q' p' (\<not> is_local c p')) h' Q"
  shows "wp R self (load_ptr (lock_field q b) (\<lambda>l. acquire (Suc n) l (\<lambda>locked.
    if \<not> locked then descend c q p d b old k else body))) h Q"
proof (rule wp_load_ptr [OF _ q(2)], simp add: q(1), rule wp_acquire_fails [OF assms(1)])
  have sub: "p' \<noteq> nullptr c" "d < D" "length us = count_at c (d + 1)" "plist_ok c D U (d + 1) 0 us"
    using assms(6,7,8) by (auto simp: plist_ok_iff dest!: spec [of _ b])
  show "cells h l = Some (LockC P_UNLOCKED)"
    using pcells_head(3) [OF assms(7), of c p] ownsD [OF assms(4)] by (simp add: assms(8))
  fix h1 assume h1: "ok h1" "cells h1 = cells h" "allocs h1 = allocs h"
  have o1: "owns h1 (pcells c p ts)" using assms(4) by (simp add: owns_def h1)
  have c1: "old \<Longrightarrow> cursor c h1 d q p ts old" using q(4) by (simp add: cursor_def shows_plist_def h1)
  show "wp R self (if \<not> False then descend c q p d b old k else body) h1 Q"
    unfolding not_False_eq_True if_True
  proof (rule wp_descend [OF h1(1) assms(2) sub(2) o1 assms(5,7,8) sub(1,3) c1])
    show "cells h1 q \<noteq> None" using q(3) by (simp add: h1)
    fix q' h'
    assume h': "ok h'" "keeps h1 h' (cur_block c d q old)"
      "cursor c h' (d + 1) q' p' us (\<not> is_local c p')"
      "\<And>a. a \<in> cur_block c (d + 1) q' (\<not> is_local c p') \<Longrightarrow> cells h1 a = None"
    have "cur_block c d q old \<inter> addrs (pcells c p ts) = {}"
      using q(4) cursorD(5) by (cases old) (fastforce simp: cur_block_def)+
    then have "owns h' (pcells c p ts)" by (rule keeps_owns [OF h'(2) o1])
    then have "owns h' (pcells c p' us)" by (rule owns_sub [OF _ assms(7,8)])
    then show "wp R self (k q' p' (\<not> is_local c p')) h' Q"
      using h' sub by (intro k) (auto simp: keeps_def h1)
  qed
qed

lemma wp_enter_leaf:
  assumes "ok h" "owns h (pcells c p ts)" "b < length ts" "bucket_state (ts ! b) = E_UNLOCKED"
    "cursor c h d q p ts old"
    and body: "\<And>h1. ok h1 \<Longrightarrow> cells h1 = (cells h)(bucket_lock (ts ! b) \<mapsto> LockC E_LOCKED) \<Longrightarrow>
      allocs h1 = allocs h \<Longrightarrow> wp R self body h1 Q"
  shows "wp R self (load_ptr (lock_field q b) (\<lambda>l. acquire (Suc n) l (\<lambda>locked.
    if \<not> locked then sub else body))) h Q"
proof (rule wp_load_ptr [OF _ cursorD(4) [OF assms(5,3)]], simp add: cursorD(1) [OF assms(5)],
    rule wp_acquire [OF assms(1)])
  show "cells h (bucket_lock (ts ! b)) = Some (LockC E_UNLOCKED)"
    using pcells_head(3) [OF assms(3), of c p] ownsD [OF assms(2)] by (simp add: assms(4))
qed (simp add: body)

section \<open>\<open>contains\<close>\<close>

lemma search_elist_wp:
  assumes "elist_ok c x"
    and "\<And>i. linear_search k (elist_live x) = Some i \<Longrightarrow> map_of (elist_live x) k = Some (snd (elist_pairs x ! i)) \<Longrightarrow>
      wp R self (found i) h Q"
    and "linear_search k (elist_live x) = None \<Longrightarrow> map_of (elist_live x) k = None \<Longrightarrow> wp R self missing h Q"
  shows "wp R self (search_elist x k found missing) h Q"
proof (cases "linear_search k (elist_live x)")
  case None
  then show ?thesis
    using assms(1,3) linear_search_map_of [OF None] by (simp add: search_elist_def elist_ok_def)
next
  case (Some i)
  have "i < elist_count x" "elist_live x ! i = elist_pairs x ! i"
    using linear_search_Some [OF Some] by (auto simp: elist_live_def)
  then show ?thesis
    using assms(1) assms(2) [of i] linear_search_Some [OF Some] Some by (simp add: search_elist_def elist_ok_def)
qed

text \<open>
  A locked bucket.  \<open>locked h h1 \<dots>\<close> is the state in which the body of a method runs: the
  bucket's lock is taken, the cursor and the tree are otherwise as in \<open>h\<close>.
\<close>

definition locked :: "('p, iht_cell) heap \<Rightarrow> ('p, iht_cell) heap \<Rightarrow> nat \<Rightarrow> remote_ptr \<Rightarrow> itree list \<Rightarrow> nat
    \<Rightarrow> remote_ptr \<Rightarrow> bool \<Rightarrow> bool" where
  "locked h h1 d p ts b q old \<longleftrightarrow> ok h1 \<and> 1 \<le> d \<and> d \<le> D \<and> owns h (pcells c p ts) \<and> b < length ts \<and>
     bucket_state (ts ! b) = E_UNLOCKED \<and> cursor c h d q p ts old \<and>
     cells h1 = (cells h)(bucket_lock (ts ! b) \<mapsto> LockC E_LOCKED) \<and> allocs h1 = allocs h"

lemma lockedD:
  assumes "locked h h1 d p ts b q old"
  shows "ok h1" "d < 32" "ptr_id q = self"
    "cells h (bucket_lock (ts ! b)) = Some (LockC E_UNLOCKED)"
    "cells h (base_field q b) = Some (PtrC (bucket_base c (ts ! b)))"
    "cells h (lock_field q b) = Some (PtrC (bucket_lock (ts ! b)))"
    "cells h1 = (cells h)(bucket_lock (ts ! b) \<mapsto> LockC E_LOCKED)" "allocs h1 = allocs h"
    "old \<Longrightarrow> allocs h q = Some (block (PList_t c) (2 ^ (d - 1)) q)"
    "old \<Longrightarrow> q \<in> cur_block c d q old" "a \<in> cur_block c d q old \<Longrightarrow> cells h a \<noteq> None"
    "owns h (pcells c p ts)" "b < length ts" "cur_block c d q old \<inter> addrs (pcells c p ts) = {}"
proof -
  note L = assms [unfolded locked_def]
  note cur = L [THEN conjunct2, THEN conjunct2, THEN conjunct2, THEN conjunct2, THEN conjunct2,
      THEN conjunct2, THEN conjunct1]
  show "ok h1" "d < 32" "cells h1 = (cells h)(bucket_lock (ts ! b) \<mapsto> LockC E_LOCKED)"
    "allocs h1 = allocs h" "owns h (pcells c p ts)" "b < length ts"
    using L sizes by (auto simp: iht_sizes_def)
  show "ptr_id q = self" "old \<Longrightarrow> allocs h q = Some (block (PList_t c) (2 ^ (d - 1)) q)"
    "cur_block c d q old \<inter> addrs (pcells c p ts) = {}"
    by (rule cursorD [OF cur]; assumption)+
  show "cells h (base_field q b) = Some (PtrC (bucket_base c (ts ! b)))"
    "cells h (lock_field q b) = Some (PtrC (bucket_lock (ts ! b)))"
    using L by (auto intro: cursorD(3,4) [OF cur])
  show "cells h (bucket_lock (ts ! b)) = Some (LockC E_UNLOCKED)"
    using L pcells_head(3) [of b ts c p] ownsD [of h "pcells c p ts"] by auto
  show "old \<Longrightarrow> q \<in> cur_block c d q old" "a \<in> cur_block c d q old \<Longrightarrow> cells h a \<noteq> None"
    using L cursor_block [OF cur] by auto
qed

text \<open>
  \<open>local_copy h1 h2 a e x\<close>: the element list \<open>x\<close> at \<open>a\<close> is at hand in \<open>h2\<close> as \<open>e\<close>, \<open>a\<close> itself
  when that is local, a copy of it otherwise.
\<close>

definition local_copy :: "('p, iht_cell) heap \<Rightarrow> ('p, iht_cell) heap \<Rightarrow> remote_ptr \<Rightarrow> remote_ptr \<Rightarrow> EList \<Rightarrow> bool" where
  "local_copy h1 h2 a e x \<longleftrightarrow> ok h2 \<and> ptr_id e = self \<and> cells h1 a = Some (EListC x) \<and>
     (if is_local c a then e = a \<and> cells h2 = cells h1 \<and> allocs h2 = allocs h1
      else cells h1 e = None \<and> allocs h1 e = None \<and> cells h2 = (cells h1)(e \<mapsto> EListC x) \<and>
        allocs h2 = (allocs h1)(e \<mapsto> [e]))"

lemma wp_locked_bucket:
  assumes L: "locked h h1 d p ts b q old" and pl: "plist_ok c D U d 0 ts"
    and vacant: "\<And>l. ts ! b = EmptyB l \<Longrightarrow> wp R self (vacant (nullptr c)) h1 Q"
    and leaf: "\<And>l a x e h2. ts ! b = LeafB l a x \<Longrightarrow> bucket_ok c D U d b (LeafB l a x) \<Longrightarrow>
      local_copy h1 h2 a e x \<Longrightarrow> wp R self (found a e x) h2 Q"
  shows "wp R self (load_ptr (base_field q b) (\<lambda>bucket_base. localize_elist c bucket_base (\<lambda>e.
    if is_null c e then vacant e else load_elist e (found bucket_base e)))) h1 Q"
proof -
  note F = lockedD [OF L]
  have hb: "cells h1 (base_field q b) = Some (PtrC (bucket_base c (ts ! b)))"
    using F(4,5) by (auto simp: F(7))
  have "wp R self (localize_elist c (bucket_base c (ts ! b)) (\<lambda>e.
    if is_null c e then vacant e else load_elist e (found (bucket_base c (ts ! b)) e))) h1 Q"
  proof (cases "ts ! b")
    case (EmptyB l)
    then show ?thesis using vacant by (simp add: localize_elist_def is_null_def)
  next
    case (LeafB l a x)
    have bok: "bucket_ok c D U d b (LeafB l a x)"
      using pl F(13) LeafB unfolding plist_ok_iff by (metis add_0)
    have "cells h a = Some (EListC x)"
      using ownsD [OF F(12)] bcells_in_pcells [OF F(13), of c p] by (auto simp: LeafB)
    then have a: "cells h1 a = Some (EListC x)" using F(4) by (auto simp: F(7))
    have "wp R self (if is_null c e then vacant e else load_elist e (found a e)) h2 Q"
      if "local_copy h1 h2 a e x" "\<not> is_null c e" for e h2
      using that leaf [OF LeafB bok that(1)] a
      by (auto simp: local_copy_def split: if_splits intro!: wp_load_elist)
    then show ?thesis unfolding LeafB bucket_base.simps using bok a F(1)
      by (intro wp_localize_elist [OF F(1) a]) (auto simp: local_copy_def is_null_def is_local_def)
  next
    case (SubB l p' us)
    then show ?thesis using L by (auto simp: locked_def)
  qed
  then show ?thesis by (intro wp_load_ptr [OF _ hb]) (simp add: F(3))
qed

text \<open>Leaving a bucket: what the memory is afterwards, address by address.\<close>

lemma wp_leave_to:
  assumes L: "locked h h1 d p ts b q old" and "ok h3"
    and l: "cells h3 (lock_field q b) = Some (PtrC (bucket_lock (ts ! b)))" "cells h3 (bucket_lock (ts ! b)) \<noteq> None"
    and old: "old \<Longrightarrow> allocs h3 q = Some (block (PList_t c) (2 ^ (d - 1)) q)"
    and e: "\<not> is_local c a \<Longrightarrow> allocs h3 e = Some [e] \<and> cells h e = None"
    and Q: "\<And>h'. ok h' \<Longrightarrow>
      (\<And>y. y \<notin> cur_block c d q old \<Longrightarrow> is_local c a \<or> y \<noteq> e \<Longrightarrow>
        cells h' y = (if y = bucket_lock (ts ! b) then Some (LockC s) else cells h3 y) \<and>
        allocs h' y = allocs h3 y) \<Longrightarrow> Q r h'"
  shows "wp R self (unlock_bucket q b s (free_elist c a e (free_curr c old q d (Return r)))) h3 Q"
proof -
  note F = lockedD [OF L]
  have eq: "e \<noteq> q" if "\<not> is_local c a" old
    using e [OF that(1)] F(11) [OF F(10) [OF that(2)]] by auto
  show ?thesis
  proof (rule wp_leave [OF assms(2) F(2,3) l old])
    show "\<not> is_local c a \<Longrightarrow> allocs h3 e = Some [e]" using e by simp
    show "\<not> is_local c a \<Longrightarrow> old \<Longrightarrow> e \<noteq> q" by (fact eq)
    fix h'
    assume h': "ok h'" "cells h' = (cells h3)(bucket_lock (ts ! b) \<mapsto> LockC s) |`
        (- ((if is_local c a then {} else {e}) \<union> (if old then set (block (PList_t c) (2 ^ (d - 1)) q) else {})))"
      "allocs h' = allocs h3 |` (- ((if is_local c a then {} else {e}) \<union> (if old then {q} else {})))"
    show "Q r h'"
      using F(10) by (intro Q [OF h'(1)]) (auto simp: h' cur_block_def restrict_map_def split: if_splits)
  qed
qed

lemma local_copyD:
  assumes "locked h h1 d p ts b q old" "local_copy h1 h2 a e x"
  shows "ok h2" "ptr_id e = self" "cells h2 e = Some (EListC x)"
    "\<not> is_local c a \<Longrightarrow> allocs h2 e = Some [e] \<and> cells h e = None" "is_local c a \<Longrightarrow> e = a"
    "y = e \<longrightarrow> is_local c a \<Longrightarrow> cells h2 y = cells h1 y"
    "y = e \<longrightarrow> is_local c a \<Longrightarrow> allocs h2 y = allocs h1 y"
    "cells h a = Some (EListC x)" "e = a \<longrightarrow> is_local c a" "cells h y \<noteq> None \<Longrightarrow> y = e \<longrightarrow> is_local c a"
  using assms(2) lockedD(4,7) [OF assms(1)]
  by (auto simp: local_copy_def split: if_splits)

lemma wp_leave_unchanged:
  assumes L: "locked h h1 d p ts b q old" and e: "local_copy h1 h2 a e x"
    and "\<And>h'. ok h' \<Longrightarrow> keeps h h' (cur_block c d q old) \<Longrightarrow> Q r h'"
  shows "wp R self (unlock_bucket q b E_UNLOCKED (free_elist c a e (free_curr c old q d (Return r)))) h2 Q"
proof -
  note F = lockedD [OF L] and E = local_copyD [OF L e]
  note live = E(10)
  show ?thesis
  proof (rule wp_leave_to [OF L E(1)])
    show "cells h2 (lock_field q b) = Some (PtrC (bucket_lock (ts ! b)))"
      using E(6) [OF live] F(4,6) by (auto simp: F(7))
    show "cells h2 (bucket_lock (ts ! b)) \<noteq> None"
      using E(6) [OF live] F(4) by (simp add: F(7))
    show "allocs h2 q = Some (block (PList_t c) (2 ^ (d - 1)) q)" if old
      using that E(7) [OF live] F(9,10,11) by (simp add: F(8))
    show "\<not> is_local c a \<Longrightarrow> allocs h2 e = Some [e] \<and> cells h e = None" by (fact E(4))
    fix h'
    assume h': "ok h'" "\<And>y. y \<notin> cur_block c d q old \<Longrightarrow> is_local c a \<or> y \<noteq> e \<Longrightarrow>
        cells h' y = (if y = bucket_lock (ts ! b) then Some (LockC E_UNLOCKED) else cells h2 y) \<and>
        allocs h' y = allocs h2 y"
    have "keeps h h' (cur_block c d q old)" unfolding keeps_def
    proof (intro allI impI)
      fix y assume y: "y \<notin> cur_block c d q old" "cells h y \<noteq> None"
      show "cells h' y = cells h y \<and> (allocs h y \<noteq> None \<longrightarrow> allocs h' y = allocs h y)"
        using h'(2) [OF y(1)] live [OF y(2)] E(6,7) [OF live [OF y(2)]] F(4) by (auto simp: F(7,8))
    qed
    then show "Q r h'" using assms(3) h'(1) by blast
  qed
qed

text \<open>The element list of the locked bucket is replaced, through the copy if there is one.\<close>

lemma wp_update_elist:
  assumes L: "locked h h1 d p ts b q old" and e: "local_copy h1 h2 a e x"
    and "\<And>h3. ok h3 \<Longrightarrow> cells h3 a = Some (EListC x') \<Longrightarrow>
      (\<And>y. y \<noteq> a \<Longrightarrow> y = e \<longrightarrow> is_local c a \<Longrightarrow> cells h3 y = cells h1 y) \<Longrightarrow> allocs h3 = allocs h2 \<Longrightarrow>
      wp R self k h3 Q"
  shows "wp R self (Store e (EListC x') (write_back c a e k)) h2 Q"
proof -
  note F = lockedD [OF L] and E = local_copyD [OF L e]
  have a1: "cells h1 a = Some (EListC x)" using e by (simp add: local_copy_def)
  show ?thesis
  proof (rule wp_Store_ok [OF E(1,2)], simp add: E(3))
    fix h3 assume h3: "ok h3" "cells h3 = (cells h2)(e \<mapsto> EListC x')" "allocs h3 = allocs h2"
    show "wp R self (write_back c a e k) h3 Q"
    proof (cases "is_local c a")
      case True
      then have "wp R self k h3 Q"
        using E(5) E(6) by (intro assms(3) [OF h3(1)]) (auto simp: h3)
      then show ?thesis using True by (simp add: write_back_def)
    next
      case False
      then have ea: "e \<noteq> a" using E(9) by simp
      have "wp R self (Load e (\<lambda>y. Write a y None k)) h3 Q"
      proof (rule wp_Load [OF E(2), of _ "EListC x'"], simp add: h3, rule wp_Write [OF h3(1)])
        show "cells h3 a \<noteq> None" using E(6) [of a] ea a1 by (simp add: h3)
        fix h4
        assume h4: "ok h4" "cells h4 a = Some (EListC x')"
          "\<And>y. y \<noteq> a \<Longrightarrow> None \<noteq> Some y \<Longrightarrow> cells h4 y = cells h3 y" "allocs h4 = allocs h3"
        show "wp R self k h4 Q"
          using E(6) False by (intro assms(3) [OF h4(1,2)]) (auto simp: h4 h3)
      qed simp
      then show ?thesis using False by (simp add: write_back_def)
    qed
  qed
qed

lemma wp_leave_empty_bucket:
  assumes L: "locked h h1 d p ts b q old"
    and "\<And>h'. ok h' \<Longrightarrow> keeps h h' (cur_block c d q old) \<Longrightarrow> Q r h'"
  shows "wp R self (unlock_bucket q b E_UNLOCKED (free_curr c old q d (Return r))) h1 Q"
proof -
  note F = lockedD [OF L]
  show ?thesis
  proof (rule wp_leave_empty [OF F(1,2,3), where l = "bucket_lock (ts ! b)"])
    show "cells h1 (lock_field q b) = Some (PtrC (bucket_lock (ts ! b)))"
      using F(4,6) by (auto simp: F(7))
    show "cells h1 (bucket_lock (ts ! b)) \<noteq> None" by (simp add: F(7))
    show "allocs h1 q = Some (block (PList_t c) (2 ^ (d - 1)) q)" if old using F(9) that by (simp add: F(8))
    fix h'
    assume h': "ok h'" "cells h' = (cells h1)(bucket_lock (ts ! b) \<mapsto> LockC E_UNLOCKED) |`
        (- (if old then set (block (PList_t c) (2 ^ (d - 1)) q) else {}))"
      "allocs h' = allocs h1 |` (- (if old then {q} else {}))"
    have "keeps h h' (cur_block c d q old)"
      using F(4,10) by (auto simp: keeps_def h' F(7,8) cur_block_def restrict_map_def split: if_splits)
    then show "Q r h'" using assms(2) h'(1) by blast
  qed
qed

section \<open>\<open>contains\<close>\<close>

lemma pfind_bucket:
  "b = level_hash c key d (count_at c d) \<Longrightarrow> b < length ts \<Longrightarrow> pfind c d ts key = bfind c d (ts ! b) key"
  by (simp add: pfind_def nfind_nth)

lemma wp_contains_body:
  assumes L: "locked h h1 d p ts b q old" and pl: "plist_ok c D U d 0 ts"
    and b: "b = level_hash c key d (count_at c d)"
  shows "wp R self (contains_body c key q d b old) h1 (\<lambda>r h'. ok h' \<and>
    r = spec_contains (pfind c d ts) key \<and> keeps h h' (cur_block c d q old))"
  unfolding contains_body_def
proof (rule wp_locked_bucket [OF L pl])
  note pf = pfind_bucket [OF b lockedD(13) [OF L]]
  show "wp R self (unlock_bucket q b E_UNLOCKED (free_curr c old q d (Return (ht_res FALSE_STATE 0)))) h1
      (\<lambda>r h'. ok h' \<and> r = spec_contains (pfind c d ts) key \<and> keeps h h' (cur_block c d q old))"
    if "ts ! b = EmptyB l" for l
    by (rule wp_leave_empty_bucket [OF L]) (simp add: spec_contains_def pf that)
  fix l a x e h2
  assume leaf: "ts ! b = LeafB l a x" "bucket_ok c D U d b (LeafB l a x)" "local_copy h1 h2 a e x"
  show "wp R self (search_elist x key
      (\<lambda>i. unlock_bucket q b E_UNLOCKED (free_elist c a e (free_curr c old q d (
        Return (ht_res TRUE_STATE (snd (elist_pairs x ! i)))))))
      (unlock_bucket q b E_UNLOCKED (free_elist c a e (free_curr c old q d (
        Return (ht_res FALSE_STATE 0)))))) h2
      (\<lambda>r h'. ok h' \<and> r = spec_contains (pfind c d ts) key \<and> keeps h h' (cur_block c d q old))"
    by (rule search_elist_wp; (rule wp_leave_unchanged [OF L leaf(3)])?)
      (use leaf in \<open>auto simp: spec_contains_def pf\<close>)
qed

lemma locked_enter:
  assumes "owns h (pcells c p ts)" "b < length ts" "bucket_state (ts ! b) = E_UNLOCKED"
    "cursor c h d q p ts old" "1 \<le> d" "d \<le> D"
    "ok h1" "cells h1 = (cells h)(bucket_lock (ts ! b) \<mapsto> LockC E_LOCKED)" "allocs h1 = allocs h"
  shows "locked h h1 d p ts b q old"
  using assms by (simp add: locked_def)

lemma cursor_live:
  assumes "cursor c h d q p ts old" "1 \<le> d" "d \<le> D"
  shows "cells h q \<noteq> None"
  using plist_block_live [OF cursorD(7,2) [OF assms(1)] assms(2,3) plist_block_first [OF assms(2,3)]] .

theorem contains_level:
  assumes "ok h" "1 \<le> d" "d \<le> D" "D - d < n" "owns h (pcells c p ts)" "plist_ok c D U d 0 ts"
    "cursor c h d q p ts old"
  shows "wp R self (contains_loop c key n q p d (count_at c d) old) h (\<lambda>r h'. ok h' \<and>
    r = spec_contains (pfind c d ts) key \<and> keeps h h' (cur_block c d q old))"
  using assms
proof (induction n arbitrary: h d p ts q old)
  case (Suc n)
  note cur = Suc.prems(7)
  let ?b = "level_hash c key d (count_at c d)"
  have b: "?b < length ts"
    using level_hash_less [OF sizes Suc.prems(2,3)] cursorD(2) [OF cur] by simp
  show ?case
  proof (cases "\<exists>l p' us. ts ! ?b = SubB l p' us")
    case True
    then obtain l p' us where sub: "ts ! ?b = SubB l p' us" by blast
    have lk: "cells h (lock_field q ?b) = Some (PtrC l)" using cursorD(4) [OF cur b] by (simp add: sub)
    show ?thesis unfolding contains_loop.simps Let_def
    proof (rule wp_enter_sub [OF Suc.prems(1,2,3,5) cursorD(2) [OF cur] Suc.prems(6) b sub cursorD(1) [OF cur] lk
          cursor_live [OF cur Suc.prems(2,3)]])
      fix q' h'
      assume h': "ok h'" "keeps h h' (cur_block c d q old)" "d < D" "owns h' (pcells c p' us)"
        "plist_ok c D U (d + 1) 0 us" "cursor c h' (d + 1) q' p' us (\<not> is_local c p')"
        "\<And>a. a \<in> cur_block c (d + 1) q' (\<not> is_local c p') \<Longrightarrow> cells h a = None"
      have dbl: "(count_at c d * 2) mod 2 ^ 64 = count_at c (d + 1)"
        by (rule count_at_double [OF sizes Suc.prems(2) h'(3)])
      have pf: "pfind c (d + 1) us key = pfind c d ts key"
        using pfind_bucket [OF refl b] by (simp only: sub bfind_SubB)
      show "wp R self (contains_loop c key n q' p' (d + 1) ((count_at c d * 2) mod 2 ^ 64) (\<not> is_local c p'))
          h' (\<lambda>r h''. ok h'' \<and> r = spec_contains (pfind c d ts) key \<and> keeps h h'' (cur_block c d q old))"
        unfolding dbl
      proof (rule wp_conseq [OF Suc.IH [OF h'(1) _ _ _ h'(4,5,6)]])
        fix r h''
        assume "ok h'' \<and> r = spec_contains (pfind c (d + 1) us) key \<and>
            keeps h' h'' (cur_block c (d + 1) q' (\<not> is_local c p'))"
        then show "ok h'' \<and> r = spec_contains (pfind c d ts) key \<and> keeps h h'' (cur_block c d q old)"
          using keeps_trans [OF h'(2)] h'(7) by (auto simp: spec_contains_def pf [simplified])
      qed (use h'(3) Suc.prems(4) in auto)
    qed (use cur in simp)
  next
    case False
    then have st: "bucket_state (ts ! ?b) = E_UNLOCKED" by (cases "ts ! ?b") auto
    show ?thesis unfolding contains_loop.simps Let_def
      by (rule wp_enter_leaf [OF Suc.prems(1,5) b st cur],
          rule wp_contains_body [OF locked_enter [OF Suc.prems(5) b st cur Suc.prems(2,3)] Suc.prems(6) refl])
  qed
qed simp

section \<open>Changing the tree\<close>

text \<open>
  \<open>becomes U h h' d p ts ts' C\<close>: the PList at \<open>p\<close>, with buckets \<open>ts\<close> in \<open>h\<close>, has the well-formed
  buckets \<open>ts'\<close> in \<open>h'\<close>; other memory is unchanged, but for \<open>C\<close>.
\<close>

definition becomes :: "key set \<Rightarrow> ('p, iht_cell) heap \<Rightarrow> ('p, iht_cell) heap \<Rightarrow> nat \<Rightarrow> remote_ptr
    \<Rightarrow> itree list \<Rightarrow> itree list \<Rightarrow> remote_ptr set \<Rightarrow> bool" where
  "becomes U h h' d p ts ts' C \<longleftrightarrow> grows h h' (addrs (pcells c p ts) \<union> C) (pcells c p ts') \<and>
     length ts' = length ts \<and> plist_ok c D U d 0 ts'"

lemma becomes_keeps:
  assumes "owns h (pcells c p ts)" "plist_ok c D U d 0 ts" "keeps h h' C" "C \<inter> addrs (pcells c p ts) = {}"
  shows "becomes U h h' d p ts ts C"
  using assms keeps_owns [OF assms(3,1,4)]
  by (auto simp: becomes_def grows_def intro: keeps_mono)

text \<open>One bucket changes.\<close>

lemma becomes_bucket:
  assumes "owns h (pcells c p ts)" "plist_ok c D U d 0 ts" "b < length ts" "C \<inter> addrs (pcells c p ts) = {}"
    and t: "bucket_ok c D U d b t"
      "grows h h' (addrs (bcells c (base_field p b) (ts ! b)) \<union> C) (bcells c (base_field p b) t)"
  shows "becomes U h h' d p ts (ts[b := t]) C"
  using grows_bucket [OF assms(1,3) t(2) assms(4)] plist_ok_update [OF assms(2) t(1)]
  by (simp add: becomes_def)

text \<open>The sub-PList of a bucket changes, after a descent that touched only \<open>C\<close> and new memory.\<close>

lemma becomes_sub:
  assumes "owns h (pcells c p ts)" "plist_ok c D U d 0 ts" "b < length ts" "ts ! b = SubB l p' us"
    and C: "C \<inter> addrs (pcells c p ts) = {}" "keeps h h1 C" "\<And>a. a \<in> C' \<Longrightarrow> cells h a = None"
    and sub: "becomes U h1 h' (d + 1) p' us us' C'"
  shows "becomes U h h' d p ts (ts[b := SubB l p' us']) C"
proof -
  let ?H = "bucket_head c (base_field p b) (SubB l p' us)" and ?xs = "pcells c p' us" and ?ys = "pcells c p' us'"
  have H: "bcells c (base_field p b) (SubB l p' us') = ?H @ ?ys" by (simp add: bucket_head_def)
  have bc: "bcells c (base_field p b) (ts ! b) = ?H @ ?xs" by (simp add: assms(4))
  have ob: "owns h (?H @ ?xs)" using owns_bucket [OF assms(1,3)] by (simp only: bc)
  have inb: "addrs (?H @ ?xs) \<subseteq> addrs (pcells c p ts)"
    using bcells_in_pcells [OF assms(3), of c p] unfolding bc by (rule image_mono)
  have Cb: "C \<inter> addrs (?H @ ?xs) = {}"
    using disjoint_Un_mono [OF C(1) C(1) inb] by simp
  have ob1: "owns h1 (?H @ ?xs @ [])" using keeps_owns [OF C(2) ob Cb] by simp
  have g: "grows h1 h' (addrs ?xs \<union> C') ?ys" using sub by (simp add: becomes_def)
  have dj: "addrs ?xs \<inter> addrs ?H = {}" using ob unfolding owns_def holds_append by (simp add: Int_commute)
  have live: "a \<in> addrs ?H \<Longrightarrow> cells h a \<noteq> None" for a using owns_live [OF ob, of a] by auto
  have C'H: "C' \<inter> addrs ?H = {}" using C(3) live by (auto simp only: disjoint_iff)
  have "grows h1 h' ((addrs ?xs \<union> C') \<union> addrs (?H @ ?xs @ [])) (?H @ ?ys @ [])"
    by (rule grows_replace [OF ob1 g]) (use dj C'H in \<open>simp add: Int_Un_distrib2\<close>)
  then have g1: "grows h1 h' (addrs (?H @ ?xs) \<union> C') (?H @ ?ys)"
    by (simp add: image_Un Un_ac)
  have g0: "grows h h1 (addrs (?H @ ?xs) \<union> C) (?H @ ?xs)"
    using ob1 keeps_mono [OF C(2)] by (simp add: grows_def)
  have "grows h h' (addrs (?H @ ?xs) \<union> C) (?H @ ?ys)"
    by (rule grows_trans [OF g0 g1]) (use C(3) in auto)
  moreover have "bucket_ok c D U d b (SubB l p' us')"
    using assms(2,3,4) sub by (auto simp: plist_ok_iff becomes_def dest!: spec [of _ b])
  ultimately show ?thesis
    by (intro becomes_bucket [OF assms(1-3) C(1)]) (simp_all only: H bc)
qed

text \<open>The element list of the locked bucket has been replaced; the method leaves.\<close>

lemma wp_leave_leaf:
  assumes L: "locked h h1 d p ts b q old" and pl: "plist_ok c D U d 0 ts"
    and leaf: "ts ! b = LeafB l a x" "bucket_ok c D U d b (LeafB l a x')" and e: "local_copy h1 h2 a e x"
    and h3: "ok h3" "cells h3 a = Some (EListC x')"
      "\<And>y. y \<noteq> a \<Longrightarrow> y = e \<longrightarrow> is_local c a \<Longrightarrow> cells h3 y = cells h1 y" "allocs h3 = allocs h2"
    and Q: "\<And>h'. ok h' \<Longrightarrow> becomes U h h' d p ts (ts[b := LeafB l a x']) (cur_block c d q old) \<Longrightarrow> Q r h'"
  shows "wp R self (unlock_bucket q b E_UNLOCKED (free_elist c a e (free_curr c old q d (Return r)))) h3 Q"
proof -
  note F = lockedD [OF L] and E = local_copyD [OF L e]
  note live = E(10)
  have C: "cur_block c d q old \<inter> addrs (pcells c p ts) = {}"
    by (fact F(14))
  show ?thesis
  proof (rule wp_leave_to [OF L h3(1)])
    show "cells h3 (lock_field q b) = Some (PtrC (bucket_lock (ts ! b)))"
    proof -
      have "lock_field q b \<noteq> a" "lock_field q b \<noteq> bucket_lock (ts ! b)" using F(4,6) E(8) by auto
      then show ?thesis using h3(3) [OF _ live, of "lock_field q b"] F(6) by (simp add: F(7))
    qed
    show "cells h3 (bucket_lock (ts ! b)) \<noteq> None"
    proof -
      have "bucket_lock (ts ! b) \<noteq> a" using F(4) E(8) by auto
      then show ?thesis using h3(3) [OF _ live, of "bucket_lock (ts ! b)"] F(4) by (simp add: F(7))
    qed
    show "allocs h3 q = Some (block (PList_t c) (2 ^ (d - 1)) q)" if old
      using that E(7) [OF live] F(9,10,11) by (simp add: F(8) h3(4))
    show "\<not> is_local c a \<Longrightarrow> allocs h3 e = Some [e] \<and> cells h e = None" using E(4) by (simp add: h3(4))
    fix h'
    assume h': "ok h'" "\<And>y. y \<notin> cur_block c d q old \<Longrightarrow> is_local c a \<or> y \<noteq> e \<Longrightarrow>
        cells h' y = (if y = bucket_lock (ts ! b) then Some (LockC E_UNLOCKED) else cells h3 y) \<and>
        allocs h' y = allocs h3 y"
    have at: "cells h' y = (if y = a then Some (EListC x') else cells h y)"
      "allocs h y \<noteq> None \<Longrightarrow> allocs h' y = allocs h y"
      if y: "y \<notin> cur_block c d q old" "cells h y \<noteq> None" for y
      using h'(2) [OF y(1)] live [OF y(2)] h3(2) h3(3) [OF _ live [OF y(2)]] E(7) [OF live [OF y(2)]] F(4) E(8)
      by (auto simp: F(7,8) h3(4))
    have ob: "owns h (bcells c (base_field p b) (LeafB l a x))"
      using owns_bucket [OF F(12,13)] by (simp only: leaf(1))
    have nC: "y \<notin> cur_block c d q old" if "y \<in> addrs (bcells c (base_field p b) (LeafB l a x))" for y
      using that C bcells_in_pcells [OF F(13), of c p] unfolding leaf(1) by (meson disjoint_iff image_mono subsetD)
    have at': "cells h' y = (if y = a then Some (EListC x') else cells h y)"
      if "y \<in> addrs (bcells c (base_field p b) (LeafB l a x))" for y
      by (rule at(1) [OF nC [OF that] owns_live [OF ob that]])
    have al: "allocs h' a = Some [a]"
      using at(2) [OF nC owns_live [OF ob], of a] ob by (auto simp: owns_def)
    have "owns h' (bcells c (base_field p b) (LeafB l a x'))"
      using ob at' [of a] at' [of l] at' [of "base_field p b"] at' [of "ptr_add (base_field p b) 8"]
      by (auto simp: owns_def holds_def bucket_head_def al)
    moreover have "keeps h h' (addrs (bcells c (base_field p b) (LeafB l a x)) \<union> cur_block c d q old)"
      using at by (auto simp: keeps_def)
    ultimately have "grows h h' (addrs (bcells c (base_field p b) (ts ! b)) \<union> cur_block c d q old)
        (bcells c (base_field p b) (LeafB l a x'))"
      by (auto simp: grows_def leaf(1) bucket_head_def)
    then have "becomes U h h' d p ts (ts[b := LeafB l a x']) (cur_block c d q old)"
      by (rule becomes_bucket [OF F(12) pl F(13) C leaf(2)])
    then show "Q r h'" by (rule Q [OF h'(1)])
  qed
qed

section \<open>The change of the map\<close>

text \<open>
  The two mutating methods change the map at their key only, and answer from its value there.
  \<open>level_post\<close> is what they promise of a PList for such a specification.
\<close>

definition level_post :: "key set \<Rightarrow> ('p, iht_cell) heap \<Rightarrow> nat \<Rightarrow> remote_ptr \<Rightarrow> itree list \<Rightarrow> remote_ptr set
    \<Rightarrow> ((key \<Rightarrow> val option) \<Rightarrow> HT_Res \<times> (key \<Rightarrow> val option)) \<Rightarrow> HT_Res \<Rightarrow> ('p, iht_cell) heap \<Rightarrow> bool" where
  "level_post U h d p ts C S r h' \<longleftrightarrow> ok h' \<and>
     (\<exists>ts'. becomes U h h' d p ts ts' C \<and> S (pfind c d ts) = (r, pfind c d ts'))"

lemma pfind_set:
  assumes "b = level_hash c k d (count_at c d)" "b < length ts" "bfind c d t = (bfind c d (ts ! b))(k := w)"
  shows "pfind c d (ts[b := t]) = (pfind c d ts)(k := w)"
proof
  fix k'
  show "pfind c d (ts[b := t]) k' = ((pfind c d ts)(k := w)) k'"
    using assms(1,2) pfind_bucket [of b k' d ts]
    by (cases "level_hash c k' d (count_at c d) = b") (auto simp: pfind_update assms(3))
qed

lemma level_post_bucket:
  assumes "ok h'" "becomes U h h' d p ts (ts[b := t]) C"
    and "b = level_hash c k d (count_at c d)" "b < length ts"
    and "bfind c d t = (bfind c d (ts ! b))(k := g (bfind c d (ts ! b) k))" "r = f (bfind c d (ts ! b) k)"
  shows "level_post U h d p ts C (at_key k f g) r h'"
  using assms pfind_set [OF assms(3-5)] pfind_bucket [OF assms(3,4)]
  by (auto simp: level_post_def at_key_def)

lemma level_post_same:
  assumes "ok h'" "locked h h1 d p ts b q old" "plist_ok c D U d 0 ts" "keeps h h' (cur_block c d q old)"
    and "b = level_hash c k d (count_at c d)"
    and "g (bfind c d (ts ! b) k) = bfind c d (ts ! b) k" "r = f (bfind c d (ts ! b) k)"
  shows "level_post U h d p ts (cur_block c d q old) (at_key k f g) r h'"
proof (rule level_post_bucket [where b = b and t = "ts ! b"])
  from lockedD(14) [OF assms(2)]
  show "becomes U h h' d p ts (ts[b := ts ! b]) (cur_block c d q old)"
    using becomes_keeps [OF lockedD(12) [OF assms(2)] assms(3,4)] by simp
qed (use assms lockedD(13) [OF assms(2)] in auto)

text \<open>A turn of the loop at a bucket with a sub-PList, given that the rest of the loop is right.\<close>

lemma wp_level_sub:
  assumes "ok h" "1 \<le> d" "d \<le> D" "owns h (pcells c p ts)" "length ts = count_at c d"
    "plist_ok c D U d 0 ts" "b < length ts" "ts ! b = SubB l p' us" "b = level_hash c key d (count_at c d)"
    and q: "ptr_id q = self" "cells h (lock_field q b) = Some (PtrC l)" "cells h q \<noteq> None"
      "old \<Longrightarrow> cursor c h d q p ts old"
    and k: "\<And>q' h'. ok h' \<Longrightarrow> d < D \<Longrightarrow> owns h' (pcells c p' us) \<Longrightarrow> plist_ok c D U (d + 1) 0 us \<Longrightarrow>
      cursor c h' (d + 1) q' p' us (\<not> is_local c p') \<Longrightarrow>
      wp R self (k q' p' (\<not> is_local c p')) h'
        (level_post U h' (d + 1) p' us (cur_block c (d + 1) q' (\<not> is_local c p')) (at_key key f g))"
  shows "wp R self (load_ptr (lock_field q b) (\<lambda>l. acquire (Suc n) l (\<lambda>locked.
      if \<not> locked then descend c q p d b old k else body))) h
    (level_post U h d p ts (cur_block c d q old) (at_key key f g))"
proof (rule wp_enter_sub [OF assms(1-8) q])
  fix q' h'
  assume h': "ok h'" "keeps h h' (cur_block c d q old)" "d < D" "owns h' (pcells c p' us)"
    "plist_ok c D U (d + 1) 0 us" "cursor c h' (d + 1) q' p' us (\<not> is_local c p')"
    "\<And>a. a \<in> cur_block c (d + 1) q' (\<not> is_local c p') \<Longrightarrow> cells h a = None"
  have C: "cur_block c d q old \<inter> addrs (pcells c p ts) = {}"
    using q(4) cursorD(5) by (cases old) (fastforce simp: cur_block_def)+
  show "wp R self (k q' p' (\<not> is_local c p')) h' (level_post U h d p ts (cur_block c d q old) (at_key key f g))"
  proof (rule wp_conseq [OF k [OF h'(1,3,4,5,6)]])
    fix r h''
    assume "level_post U h' (d + 1) p' us (cur_block c (d + 1) q' (\<not> is_local c p')) (at_key key f g) r h''"
    then obtain us' where us': "ok h''" "r = f (pfind c (d + 1) us key)"
      "becomes U h' h'' (d + 1) p' us us' (cur_block c (d + 1) q' (\<not> is_local c p'))"
      "pfind c (d + 1) us' = (pfind c (d + 1) us)(key := g (pfind c (d + 1) us key))"
      by (auto simp: level_post_def at_key_def)
    have bf: "bfind c d (SubB l p' vs) = pfind c (d + 1) vs" for vs by (rule ext) (rule bfind_SubB)
    have "becomes U h h'' d p ts (ts[b := SubB l p' us']) (cur_block c d q old)"
      by (rule becomes_sub [OF assms(4,6,7,8) C h'(2) h'(7) us'(3)])
    then show "level_post U h d p ts (cur_block c d q old) (at_key key f g) r h''"
      by (rule level_post_bucket [OF us'(1) _ assms(9,7)]) (simp_all only: assms(8) bf us'(2,4))
  qed
qed

section \<open>\<open>remove\<close>\<close>

lemma wp_remove_body:
  assumes L: "locked h h1 d p ts b q old" and pl: "plist_ok c D U d 0 ts"
    and b: "b = level_hash c key d (count_at c d)"
  shows "wp R self (remove_body c key q d b old) h1
    (level_post U h d p ts (cur_block c d q old) (\<lambda>m. spec_remove m key))"
  unfolding remove_body_def spec_remove_at_key
proof (rule wp_locked_bucket [OF L pl], goal_cases)
  case (1 l)
  show ?case
    by (rule wp_leave_empty_bucket [OF L], rule level_post_same [OF _ L pl _ b]) (simp_all add: 1)
next
  case (2 l a x e h2)
  have x: "elist_ok c x" using 2(2) by simp
  show ?case
  proof (rule search_elist_wp [OF x], goal_cases)
    case (1 i)
    note rm = elist_remove_ok [OF x 1(1)]
    have bok: "bucket_ok c D U d b (LeafB l a (elist_remove_at x i))"
      using 2(2) rm(1,2) by auto
    show ?case
      by (rule wp_update_elist [OF L 2(3)], rule wp_leave_leaf [OF L pl 2(1) bok 2(3)], assumption+,
          rule level_post_bucket [OF _ _ b lockedD(13) [OF L]], assumption+)
        (simp_all add: 2(1) 1(2) rm(3) fun_eq_iff)
  next
    case 2
    show ?case
      by (rule wp_leave_unchanged [OF L \<open>local_copy h1 h2 a e x\<close>], rule level_post_same [OF _ L pl _ b])
        (simp_all add: \<open>ts ! b = LeafB l a x\<close> 2(2))
  qed
qed

theorem remove_level:
  assumes "ok h" "1 \<le> d" "d \<le> D" "D - d < n" "owns h (pcells c p ts)" "plist_ok c D U d 0 ts"
    "cursor c h d q p ts old"
  shows "wp R self (remove_loop c key n q p d (count_at c d) old) h
    (level_post U h d p ts (cur_block c d q old) (\<lambda>m. spec_remove m key))"
  using assms
proof (induction n arbitrary: h d p ts q old)
  case (Suc n)
  note cur = Suc.prems(7)
  let ?b = "level_hash c key d (count_at c d)"
  have b: "?b < length ts"
    using level_hash_less [OF sizes Suc.prems(2,3)] cursorD(2) [OF cur] by simp
  show ?case
  proof (cases "\<exists>l p' us. ts ! ?b = SubB l p' us")
    case True
    then obtain l p' us where sub: "ts ! ?b = SubB l p' us" by blast
    have lk: "cells h (lock_field q ?b) = Some (PtrC l)" using cursorD(4) [OF cur b] by (simp add: sub)
    show ?thesis unfolding remove_loop.simps Let_def spec_remove_at_key
    proof (rule wp_level_sub [OF Suc.prems(1,2,3,5) cursorD(2) [OF cur] Suc.prems(6) b sub refl cursorD(1) [OF cur] lk
          cursor_live [OF cur Suc.prems(2,3)] cur], goal_cases)
      case (1 q' h')
      show ?case
        unfolding count_at_double [OF sizes Suc.prems(2) 1(2)] spec_remove_at_key [symmetric]
        by (rule Suc.IH [OF 1(1) _ _ _ 1(3,4,5)]) (use 1(2) Suc.prems(4) in auto)
    qed
  next
    case False
    then have st: "bucket_state (ts ! ?b) = E_UNLOCKED" by (cases "ts ! ?b") auto
    show ?thesis unfolding remove_loop.simps Let_def
      by (rule wp_enter_leaf [OF Suc.prems(1,5) b st cur],
          rule wp_remove_body [OF locked_enter [OF Suc.prems(5) b st cur Suc.prems(2,3)] Suc.prems(6) refl])
  qed
qed simp

section \<open>\<open>insert\<close>\<close>

text \<open>Where the cursor's pointers to the bucket are, relative to the tree.\<close>

lemma cursor_fields:
  assumes "locked h h1 d p ts b q old"
  shows "base_field q b \<in> cur_block c d q old \<or> q = p" "lock_field q b \<noteq> base_field p b"
    "\<exists>z. cells h q = Some (PtrC z)" "base_field p b \<in> addrs (bcells c (base_field p b) (ts ! b))"
    "cells h (base_field p b) = Some (PtrC (bucket_base c (ts ! b)))"
    "cells h (lock_field p b) = Some (PtrC (bucket_lock (ts ! b)))" "lock_field p b \<noteq> base_field q b"
proof -
  note F = lockedD [OF assms]
  have L: "1 \<le> d" "d \<le> D" "cursor c h d q p ts old" using assms by (simp_all add: locked_def)
  have n: "b < 2 ^ (d - 1) * PLIST_SIZE c"
    using F(13) cursorD(2) [OF L(3)] by (simp only: count_factor [OF L(1,2)])
  note fb = field_in_block [OF n, of q]
  have hd: "base_field p b \<in> addrs (pcells c p ts)"
    using pcells_head(1) [OF F(13), THEN imageI, of fst] by simp
  show bq: "base_field q b \<in> cur_block c d q old \<or> q = p"
    using L(3) fb(1) by (auto simp only: cursor_def cur_block_def if_True split: if_splits)
  have hl: "lock_field p b \<in> addrs (pcells c p ts)"
    using pcells_head(2) [OF F(13), THEN imageI, of fst] by simp
  from bq show "lock_field p b \<noteq> base_field q b"
  proof
    assume "base_field q b \<in> cur_block c d q old"
    then have "base_field q b \<notin> addrs (pcells c p ts)" using F(14) by blast
    then show ?thesis using hl by metis
  qed simp
  have "lock_field q b \<in> cur_block c d q old \<or> q = p"
    using L(3) fb(2) by (auto simp only: cursor_def cur_block_def if_True split: if_splits)
  then show "lock_field q b \<noteq> base_field p b"
  proof
    assume "lock_field q b \<in> cur_block c d q old"
    then have "lock_field q b \<notin> addrs (pcells c p ts)" using F(14) by blast
    then show ?thesis using hd by metis
  qed simp
  have "0 < length ts" using F(13) by (rule order.strict_trans1 [OF le0])
  from cursorD(3) [OF L(3) this] show "\<exists>z. cells h q = Some (PtrC z)" by simp
  show "base_field p b \<in> addrs (bcells c (base_field p b) (ts ! b))"
    by (cases "ts ! b") (simp_all add: bucket_head_def)
  show "cells h (base_field p b) = Some (PtrC (bucket_base c (ts ! b)))"
    "cells h (lock_field p b) = Some (PtrC (bucket_lock (ts ! b)))"
    using pcells_head(1,2) [OF F(13)] by (auto intro: ownsD [OF F(12)])
qed

text \<open>The empty bucket gets a new element list.\<close>

lemma becomes_new_leaf:
  assumes L: "locked h h1 d p ts b q old" and pl: "plist_ok c D U d 0 ts"
    and t: "ts ! b = EmptyB l" "bucket_ok c D U d b (LeafB l e x)" "cells h e = None"
    and h': "\<And>y. y \<notin> cur_block c d q old \<Longrightarrow>
      cells h' y = (if y = l then Some (LockC E_UNLOCKED) else if y = base_field p b then Some (PtrC e)
        else if y = e then Some (EListC x) else cells h y) \<and>
      allocs h' y = (if y = e then Some [e] else allocs h y)"
  shows "becomes U h h' d p ts (ts[b := LeafB l e x]) (cur_block c d q old)"
proof (rule becomes_bucket [OF lockedD(12) [OF L] pl lockedD(13,14) [OF L] t(2)])
  note F = lockedD [OF L]
  have ob: "owns h (bcells c (base_field p b) (EmptyB l))"
    using owns_bucket [OF F(12,13)] by (simp only: t(1))
  have nC: "y \<notin> cur_block c d q old" if "y \<in> addrs (bcells c (base_field p b) (EmptyB l))" for y
    using that F(14) bcells_in_pcells [OF F(13), of c p] unfolding t(1) by (meson disjoint_iff image_mono subsetD)
  have ne: "e \<notin> cur_block c d q old" using F(11) [of e] t(3) by blast
  have n3: "base_field p b \<notin> cur_block c d q old" "ptr_add (base_field p b) 8 \<notin> cur_block c d q old"
    "l \<notin> cur_block c d q old"
    using nC by (simp_all add: bucket_head_def)
  have dist: "base_field p b \<noteq> l" "ptr_add (base_field p b) 8 \<noteq> l" "e \<noteq> l" "e \<noteq> base_field p b"
    "e \<noteq> ptr_add (base_field p b) 8"
    "cells h (ptr_add (base_field p b) 8) = Some (PtrC l)"
    using ob t(3) by (auto simp: owns_def holds_def bucket_head_def)
  have "owns h' (bcells c (base_field p b) (LeafB l e x))"
    using ob dist h' [OF n3(1)] h' [OF n3(2)] h' [OF n3(3)] h' [OF ne]
    by (auto simp: owns_def holds_def bucket_head_def)
  moreover have "keeps h h' (addrs (bcells c (base_field p b) (EmptyB l)) \<union> cur_block c d q old)"
    using h' t(3) by (auto simp: keeps_def bucket_head_def)
  ultimately show "grows h h' (addrs (bcells c (base_field p b) (ts ! b)) \<union> cur_block c d q old)
      (bcells c (base_field p b) (LeafB l e x))"
    using t(3) by (auto simp: grows_def t(1) bucket_head_def)
qed

lemma wp_insert_empty:
  assumes L: "locked h h1 d p ts b q old" and pl: "plist_ok c D U d 0 ts" and t: "ts ! b = EmptyB l"
    and b: "b = level_hash c key d (count_at c d)" and key: "key \<in> U"
    and Q: "\<And>e x h'. ok h' \<Longrightarrow> elist_live x = [(key, v)] \<Longrightarrow>
      becomes U h h' d p ts (ts[b := LeafB l e x]) (cur_block c d q old) \<Longrightarrow> Q r h'"
  shows "wp R self (Allocate (EList_t c) 1 (\<lambda>e_new. load_elist e_new (\<lambda>x. case elist_insert x key v of
      None \<Rightarrow> Undefined
    | Some x' \<Rightarrow> Store e_new (EListC x') (change_bucket_pointer c p b e_new (
        unlock_bucket q b E_UNLOCKED (free_curr c old q d (Return r))))))) h1 Q"
proof (rule wp_Allocate [OF lockedD(1) [OF L]])
  note F = lockedD [OF L] and G = cursor_fields [OF L]
  have tl: "bucket_lock (ts ! b) = l" by (simp add: t)
  fix e h2 cs
  assume h2: "ok h2" "e \<noteq> remote_nullptr R" "ptr_id e = self" "length cs = 1 * ct_cells (EList_t c)"
    "list_all (ct_fresh (EList_t c)) cs" "allocated h1 h2 e (block (EList_t c) 1 e) cs"
  obtain x where x: "cs = [EListC x]" "elist_count x = 0" "length (elist_pairs x) = ELIST_SIZE c"
    using h2(4,5) by (cases cs) (auto simp: EList_t_def split: iht_cell.splits)
  have e: "cells h1 e = None" "cells h2 = (cells h1)(e \<mapsto> EListC x)" "allocs h2 = (allocs h1)(e \<mapsto> [e])"
    using h2(6) by (auto simp: x allocated_single)
  have e0: "cells h e = None" "e \<noteq> l" using e(1) by (auto simp: F(7) tl split: if_splits)
  obtain x' where x': "elist_insert x key v = Some x'"
    using elist_insert_Some [of x] x sizes by (auto simp: iht_sizes_def)
  have live: "elist_live x = []" "elist_live x' = [(key, v)]"
    using elist_insert_live(1) [OF x'] x(2) by (simp_all add: elist_live_def)
  have "elist_ok c x" by (simp add: elist_ok_def x live)
  then have bok: "bucket_ok c D U d b (LeafB l e x')"
    using elist_insert_ok [OF _ x'] h2(2) key b by (simp add: live null)
  have loc: "is_local c e" using h2(3) by (simp add: is_local_def)
  show "wp R self (load_elist e (\<lambda>x. case elist_insert x key v of None \<Rightarrow> Undefined
    | Some x' \<Rightarrow> Store e (EListC x') (change_bucket_pointer c p b e (
        unlock_bucket q b E_UNLOCKED (free_curr c old q d (Return r)))))) h2 Q"
  proof (rule wp_load_elist [OF h2(3), of _ x], simp add: e, unfold x' option.case,
      rule wp_Store_ok [OF h2(1,3)], simp add: e)
    fix h3 assume h3: "ok h3" "cells h3 = (cells h2)(e \<mapsto> EListC x')" "allocs h3 = allocs h2"
    show "wp R self (change_bucket_pointer c p b e
        (unlock_bucket q b E_UNLOCKED (free_curr c old q d (Return r)))) h3 Q"
    proof (rule wp_change_bucket_pointer [OF h3(1)])
      show "cells h3 (base_field p b) \<noteq> None" using G(5) by (simp add: h3 e F(7))
      fix h4 assume h4: "ok h4" "cells h4 = (cells h3)(base_field p b \<mapsto> PtrC e)" "allocs h4 = allocs h3"
      have c4: "cells h4 = (cells h)(l \<mapsto> LockC E_LOCKED, e \<mapsto> EListC x', base_field p b \<mapsto> PtrC e)"
        using e0 by (auto simp: h4 h3 e F(7) tl)
      have "wp R self (unlock_bucket q b E_UNLOCKED (free_elist c e e (free_curr c old q d (Return r)))) h4 Q"
      proof (rule wp_leave_to [OF L h4(1)])
        show "cells h4 (lock_field q b) = Some (PtrC (bucket_lock (ts ! b)))"
          using F(4,6) G(2) e0 by (auto simp: c4 tl)
        show "cells h4 (bucket_lock (ts ! b)) \<noteq> None" using e0 by (simp add: c4 tl)
        show "allocs h4 q = Some (block (PList_t c) (2 ^ (d - 1)) q)" if old
          using that F(9) G(3) e0 by (auto simp: h4 h3 e F(8))
        fix h'
        assume h': "ok h'" "\<And>y. y \<notin> cur_block c d q old \<Longrightarrow> is_local c e \<or> y \<noteq> e \<Longrightarrow>
          cells h' y = (if y = bucket_lock (ts ! b) then Some (LockC E_UNLOCKED) else cells h4 y) \<and>
          allocs h' y = allocs h4 y"
        have "becomes U h h' d p ts (ts[b := LeafB l e x']) (cur_block c d q old)"
          by (rule becomes_new_leaf [OF L pl t bok e0(1)])
            (use h'(2) loc in \<open>auto simp: tl c4 h4(3) h3(3) e(3) F(8)\<close>)
        then show "Q r h'" by (rule Q [OF h'(1) live(2)])
      qed (simp add: loc)
      then show "wp R self (unlock_bucket q b E_UNLOCKED (free_curr c old q d (Return r))) h4 Q"
        by (simp add: free_elist_def loc)
    qed
  qed
qed simp

text \<open>The full element list is rehashed into a new sub-PList.\<close>

lemma becomes_rehashed:
  assumes L: "locked h h1 d p ts b q old" and pl: "plist_ok c D U d 0 ts"
    and t: "ts ! b = LeafB l a x" and e: "local_copy h1 h2 a e x"
    and n: "d < D" "p' \<noteq> nullptr c" "rehashed c D U (d + 1) us ps"
    and g: "grows h2 h3 (if is_local c a then {a} else {}) (pcells c p' us)"
      "\<And>y. y \<in> addrs (pcells c p' us) \<Longrightarrow> cells h2 y = None"
    and k: "keeps h3 h' ({base_field p b, base_field q b, l} \<union> (if is_local c a then {} else {e}))"
    and h': "cells h' (base_field p b) = Some (PtrC p')" "cells h' l = Some (LockC P_UNLOCKED)"
  shows "becomes U h h' d p ts (ts[b := SubB l p' us]) (cur_block c d q old)"
proof (rule becomes_bucket [OF lockedD(12) [OF L] pl lockedD(13,14) [OF L]])
  note F = lockedD [OF L] and G = cursor_fields [OF L] and E = local_copyD [OF L e]
  let ?W = "pcells c p' us" and ?H = "bucket_head c (base_field p b) (SubB l p' us)"
  let ?T = "{base_field p b, base_field q b, l} \<union> (if is_local c a then {} else {e})"
  let ?old = "addrs (bcells c (base_field p b) (ts ! b)) \<union> cur_block c d q old"
  have tl: "bucket_lock (ts ! b) = l" by (simp add: t)
  show "bucket_ok c D U d b (SubB l p' us)" using n by (simp add: rehashed_def)
  have ob: "owns h (bcells c (base_field p b) (LeafB l a x))"
    using owns_bucket [OF F(12,13)] by (simp only: t)
  have up: "cells h2 y \<noteq> None" if "cells h y \<noteq> None" for y
    using that E(6) [of y] E(3) by (cases "y = e") (auto simp: F(7))
  have fresh: "cells h y = None" if "y \<in> addrs ?W" for y using g(2) [OF that] up by blast
  have "base_field p b \<notin> addrs ?W" "base_field q b \<notin> addrs ?W" "l \<notin> addrs ?W" "e \<notin> addrs ?W"
    using g(2) [of "base_field p b"] g(2) [of "base_field q b"] g(2) [of l] g(2) [of e]
      up [of "base_field p b"] up [of "base_field q b"] up [of l] F(4,5) G(5) E(3)
    by (metis option.distinct(1) tl)+
  then have T: "?T \<inter> addrs ?W = {}" by simp
  have oW: "owns h' ?W" using keeps_owns [OF k _ T] g(1) by (simp add: grows_def)
  have k02: "keeps h h2 ?old"
    unfolding keeps_def
  proof (intro allI impI)
    fix y assume y: "y \<notin> ?old" "cells h y \<noteq> None"
    then have "y \<noteq> l" "y = e \<longrightarrow> is_local c a" using E(10) by (auto simp: t bucket_head_def)
    then show "cells h2 y = cells h y \<and> (allocs h y \<noteq> None \<longrightarrow> allocs h2 y = allocs h y)"
      using E(6,7) [of y] by (simp add: F(7,8) tl)
  qed
  have k03: "keeps h h3 ?old"
  proof (rule keeps_trans [OF k02])
    show "keeps h2 h3 (if is_local c a then {a} else {})" using g(1) by (simp add: grows_def)
  qed (auto simp: t split: if_splits)
  have k0: "keeps h h' ?old"
    by (rule keeps_trans [OF k03 k]) (use G(1) E(4) in \<open>auto simp: t bucket_head_def split: if_splits\<close>)
  have dist: "base_field p b \<noteq> l" "lock_field p b \<noteq> l"
    using F(4) G(5,6) by (auto simp: tl)
  have lf: "cells h' (lock_field p b) = Some (PtrC l)"
  proof -
    have ne: "lock_field p b \<noteq> a" "lock_field p b = e \<longrightarrow> is_local c a" "lock_field p b \<noteq> l"
      using G(6) E(8) E(10) [of "lock_field p b"] dist by auto
    have "cells h2 (lock_field p b) = Some (PtrC l)"
      using E(6) [OF ne(2)] G(6) ne(3) by (simp add: F(7) tl)
    then have "cells h3 (lock_field p b) = Some (PtrC l)"
      using g(1) ne(1) by (simp add: grows_def keeps_def)
    moreover have "lock_field p b \<notin> ?T" using ne G(7) by (cases "is_local c a") auto
    ultimately show ?thesis using k by (simp add: keeps_def del: Un_iff)
  qed
  have "owns h' ?H"
    using h' lf dist by (auto simp: owns_def holds_def bucket_head_def lock_field_base [symmetric])
  moreover have "addrs ?H \<inter> addrs ?W = {}"
    using fresh [of "base_field p b"] fresh [of "lock_field p b"] fresh [of l] F(4) G(5,6)
    by (auto simp: bucket_head_def lock_field_base [symmetric] tl)
  ultimately have "owns h' (bcells c (base_field p b) (SubB l p' us))"
    using oW by (auto simp: owns_def holds_append)
  then show "grows h h' ?old (bcells c (base_field p b) (SubB l p' us))"
    using k0 fresh by (auto simp: grows_def t bucket_head_def)
qed

lemma wp_insert_rehash:
  assumes L: "locked h h1 d p ts b q old" and pl: "plist_ok c D U d 0 ts"
    and t: "ts ! b = LeafB l a x" "bucket_ok c D U d b (LeafB l a x)" and e: "local_copy h1 h2 a e x"
    and n: "d < D"
    and again: "\<And>h' p' us. ok h' \<Longrightarrow> rehashed c D U (d + 1) us (elist_live x) \<Longrightarrow>
      becomes U h h' d p ts (ts[b := SubB l p' us]) (cur_block c d q old) \<Longrightarrow>
      cells h' (lock_field q b) = Some (PtrC l) \<Longrightarrow> cells h' q \<noteq> None \<Longrightarrow> wp R self again h' Q"
  shows "wp R self (rehash c q (count_at c d) d b (\<lambda>p'. change_bucket_pointer c p b p' (
    Store (base_field q b) (PtrC p') (unlock_bucket q b P_UNLOCKED (free_elist c a e again))))) h2 Q"
proof -
  note F = lockedD [OF L] and G = cursor_fields [OF L] and E = local_copyD [OF L e]
  have tl: "bucket_lock (ts ! b) = l" "bucket_base c (ts ! b) = a" by (simp_all add: t)
  have d1: "1 \<le> d" using L by (simp add: locked_def)
  have ob: "owns h (bcells c (base_field p b) (LeafB l a x))"
    using owns_bucket [OF F(12,13)] by (simp only: t)
  note live = E(10)
  have h2: "cells h2 y = cells h y" "allocs h2 y = allocs h y" if "cells h y \<noteq> None" "y \<noteq> l" for y
    using E(6,7) [OF live [OF that(1)]] that(2) by (simp_all add: F(7,8) tl)
  have la: "l \<noteq> a" using F(4) E(8) by (auto simp: tl)
  have a2: "cells h2 a = Some (EListC x)" "allocs h2 a = Some [a]"
    using h2 [of a] E(8) la ob by (auto simp: owns_def)
  have nl: "base_field q b \<noteq> l" "lock_field q b \<noteq> l" "base_field p b \<noteq> l" using F(4,5,6) G(5) by (auto simp: tl)
  have na: "base_field q b \<noteq> a" "lock_field q b \<noteq> a" "base_field p b \<noteq> a" using E(8) F(5,6) G(5) by auto
  show ?thesis
  proof (rule wp_rehash [OF E(1) F(3) d1 n _ a2, where U = U])
    show "cells h2 (base_field q b) = Some (PtrC a)" using h2(1) [of "base_field q b"] F(5) nl by (simp add: tl)
    show "elist_ok c x" "fst ` set (elist_live x) \<subseteq> U" using t(2) by auto
    fix p' h3 us
    assume h3: "ok h3" "p' \<noteq> nullptr c" "rehashed c D U (d + 1) us (elist_live x)"
      "grows h2 h3 (if is_local c a then {a} else {}) (pcells c p' us)"
      "\<And>y. y \<in> addrs (pcells c p' us) \<Longrightarrow> cells h2 y = None"
    have th: "cells h3 y = cells h2 y" "allocs h2 y \<noteq> None \<Longrightarrow> allocs h3 y = allocs h2 y"
      if "cells h2 y \<noteq> None" "y = a \<longrightarrow> \<not> is_local c a" for y
      using h3(4) that by (auto simp: grows_def keeps_def)
    have c3: "cells h3 (base_field p b) \<noteq> None" "cells h3 (base_field q b) \<noteq> None"
      "cells h3 (lock_field q b) = Some (PtrC l)" "cells h3 l \<noteq> None" "cells h3 q \<noteq> None"
    proof -
      have th': "cells h3 y = cells h y" if "cells h y \<noteq> None" "y \<noteq> l" "y \<noteq> a" for y
        using th(1) [of y] h2(1) [OF that(1,2)] that(1,3) by simp
      show "cells h3 (base_field p b) \<noteq> None" "cells h3 (base_field q b) \<noteq> None"
        "cells h3 (lock_field q b) = Some (PtrC l)"
        using th' [of "base_field p b"] th' [of "base_field q b"] th' [of "lock_field q b"]
          F(5,6) G(5) nl na by (auto simp: tl)
      have "q \<noteq> l" "q \<noteq> a" using G(3) F(4) E(8) by (auto simp: tl)
      then show "cells h3 q \<noteq> None" using th' [of q] G(3) by auto
      have "cells h2 l \<noteq> None" using E(6) [OF live, of l] F(4) by (simp add: tl F(7))
      then show "cells h3 l \<noteq> None" using th(1) [of l] la by simp
    qed
    show "wp R self (change_bucket_pointer c p b p' (Store (base_field q b) (PtrC p')
        (unlock_bucket q b P_UNLOCKED (free_elist c a e again)))) h3 Q"
    proof (rule wp_change_bucket_pointer [OF h3(1) c3(1)])
      fix h4 assume h4: "ok h4" "cells h4 = (cells h3)(base_field p b \<mapsto> PtrC p')" "allocs h4 = allocs h3"
      show "wp R self (Store (base_field q b) (PtrC p')
          (unlock_bucket q b P_UNLOCKED (free_elist c a e again))) h4 Q"
      proof (rule wp_Store_ok [OF h4(1)], simp add: F(3), use c3(2) in \<open>simp add: h4(2)\<close>)
        fix h5 assume h5: "ok h5" "cells h5 = (cells h4)(base_field q b \<mapsto> PtrC p')" "allocs h5 = allocs h4"
        show "wp R self (unlock_bucket q b P_UNLOCKED (free_elist c a e again)) h5 Q"
        proof (rule wp_unlock_bucket [OF h5(1) F(3), of _ l])
          show "cells h5 (lock_field q b) = Some (PtrC l)" using c3(3) G(2) by (simp add: h5 h4)
          show "cells h5 l \<noteq> None" using c3(4) by (simp add: h5 h4)
          fix h6 assume h6: "ok h6" "cells h6 = (cells h5)(l \<mapsto> LockC P_UNLOCKED)" "allocs h6 = allocs h5"
          have c6: "cells h6 = (cells h3)(base_field p b \<mapsto> PtrC p', base_field q b \<mapsto> PtrC p', l \<mapsto> LockC P_UNLOCKED)"
            "allocs h6 = allocs h3"
            by (simp_all add: h6 h5 h4)
          let ?E = "if is_local c a then {} else {e}"
          have fin: "wp R self again h7 Q"
            if h7: "ok h7" "cells h7 = cells h6 |` (- ?E)" "allocs h7 = allocs h6 |` (- ?E)" for h7
          proof (rule again [OF h7(1) h3(3)])
            have ee: "y \<notin> ?E" if "cells h y \<noteq> None" for y using live [OF that] by auto
            show "becomes U h h7 d p ts (ts[b := SubB l p' us]) (cur_block c d q old)"
            proof (rule becomes_rehashed [OF L pl t(1) e n h3(2,3,4,5)])
              show "keeps h3 h7 ({base_field p b, base_field q b, l} \<union> ?E)"
                by (auto simp: keeps_def h7 c6 restrict_map_def)
              show "cells h7 (base_field p b) = Some (PtrC p')" "cells h7 l = Some (LockC P_UNLOCKED)"
                using ee [of "base_field p b"] ee [of l] nl G(5) F(4) by (auto simp: h7 c6 tl restrict_map_def)
            qed
            show "cells h7 (lock_field q b) = Some (PtrC l)"
              using ee [of "lock_field q b"] c3(3) G(2) nl F(6) by (auto simp: h7 c6 restrict_map_def)
            show "cells h7 q \<noteq> None"
              using ee [of q] G(3) c3(5) by (auto simp: h7 c6 restrict_map_def)
          qed
          show "wp R self (free_elist c a e again) h6 Q"
          proof (cases "is_local c a")
            case True
            then show ?thesis using fin [of h6] h6(1) by (simp add: free_elist_def restrict_map_def)
          next
            case False
            have "allocs h6 e = Some [e]"
              using th [of e] E(3,4) False by (auto simp: c6)
            then have "wp R self (Deallocate (EList_t c) 1 e again) h6 Q"
              using False by (intro wp_Deallocate [OF h6(1)] fin) (auto simp: restrict_map_def fun_eq_iff)
            then show ?thesis using False by (simp add: free_elist_def)
          qed
        qed
      qed
    qed
  qed
qed

lemma becomes_trans:
  assumes "becomes U h h1 d p ts ts1 C" "becomes U h1 h2 d p ts1 ts2 {}"
  shows "becomes U h h2 d p ts ts2 C"
  using assms grows_steps [of h h1 "addrs (pcells c p ts) \<union> C" "pcells c p ts1" h2 "pcells c p ts2"]
  by (simp add: becomes_def)

lemma pfind_rehashed:
  assumes "rehashed c D U (d + 1) us (elist_live x)" "ts ! b = LeafB l a x" "b < length ts"
  shows "pfind c d (ts[b := SubB l p' us]) = pfind c d ts"
proof
  fix k
  show "pfind c d (ts[b := SubB l p' us]) k = pfind c d ts k"
  proof (cases "level_hash c k d (count_at c d) = b")
    case True
    have "pfind c d (ts[b := SubB l p' us]) k = pfind c (d + 1) us k"
      unfolding pfind_update [OF assms(3)] bfind_SubB using True by simp
    also have "\<dots> = map_of (elist_live x) k" using assms(1) by (simp add: rehashed_def)
    also have "\<dots> = pfind c d ts k" using pfind_bucket [OF True [symmetric] assms(3)] by (simp add: assms(2))
    finally show ?thesis .
  next
    case False
    then show ?thesis by (simp add: pfind_update [OF assms(3)])
  qed
qed

end

text \<open>
  For \<open>insert\<close> the keys must be told apart by the hash at the depth bound, so that a full bucket
  at that depth holds the key.
\<close>

locale iht_table = iht_pool R ok c D
  for R :: "('p, iht_cell) rome" and ok and c and D +
  fixes U :: "key set"
  assumes separates: "hash_separates c D U"
begin

lemma full_leaf_depth:
  assumes "bucket_ok c D U d b (LeafB l a x)" "b = level_hash c key d (count_at c d)" "key \<in> U" "d \<le> D"
    "key \<notin> fst ` set (elist_live x)" "\<not> elist_count x < ELIST_SIZE c"
  shows "d < D"
proof (rule ccontr)
  assume "\<not> d < D"
  then have d: "d = D" using assms(4) by simp
  have "0 < length (elist_live x)"
    using assms(1,6) sizes by (auto simp: elist_live_def elist_ok_def iht_sizes_def)
  then obtain p where p: "p \<in> set (elist_live x)" by (metis length_greater_0_conv list.set_intros(1) neq_Nil_conv)
  have "fst p \<in> U" "level_hash c (fst p) D (count_at c D) = level_hash c key D (count_at c D)"
    using assms(1,2) p by (auto simp: d)
  then have "fst p = key" using separates assms(3) by (auto simp: hash_separates_def dest: inj_onD)
  then show False using p assms(5) by auto
qed

lemma wp_insert_body:
  assumes L: "locked h h1 d p ts b q old" and pl: "plist_ok c D U d 0 ts"
    and b: "b = level_hash c key d (count_at c d)" and key: "key \<in> U"
    and again: "\<And>h' ts' l p' us. ok h' \<Longrightarrow> d < D \<Longrightarrow> owns h' (pcells c p ts') \<Longrightarrow> plist_ok c D U d 0 ts' \<Longrightarrow>
      length ts' = length ts \<Longrightarrow> ts' ! b = SubB l p' us \<Longrightarrow>
      cells h' (lock_field q b) = Some (PtrC l) \<Longrightarrow> cells h' q \<noteq> None \<Longrightarrow>
      wp R self again h' (level_post U h' d p ts' {} (\<lambda>m. spec_insert m key v))"
  shows "wp R self (insert_body c key v q p d (count_at c d) b old again) h1
    (level_post U h d p ts (cur_block c d q old) (\<lambda>m. spec_insert m key v))"
  unfolding insert_body_def spec_insert_at_key
proof (rule wp_locked_bucket [OF L pl], goal_cases)
  case (1 l)
  show ?case
    by (rule wp_insert_empty [OF L pl 1 b key], rule level_post_bucket [OF _ _ b lockedD(13) [OF L]], assumption+)
      (simp_all add: 1 fun_eq_iff)
next
  case (2 l a x e h2)
  note leaf = 2
  have x: "elist_ok c x" using leaf(2) by simp
  show ?case
  proof (rule search_elist_wp [OF x], goal_cases)
    case (1 i)
    show ?case
      by (rule wp_leave_unchanged [OF L leaf(3)], rule level_post_same [OF _ L pl _ b])
        (simp_all add: leaf(1) 1(2))
  next
    case 2
    have new: "key \<notin> fst ` set (elist_live x)" using 2(1) by (simp add: linear_search_None)
    show ?case
    proof (cases "elist_count x < ELIST_SIZE c")
      case True
      obtain x' where x': "elist_insert x key v = Some x'"
        using elist_insert_Some [of x] True x by (auto simp: elist_ok_def)
      have bok: "bucket_ok c D U d b (LeafB l a x')"
        using leaf(2) elist_insert_ok [OF x x' new] key b by (auto simp: elist_insert_live [OF x'])
      have "wp R self (Store e (EListC x') (write_back c a e (unlock_bucket q b E_UNLOCKED
          (free_elist c a e (free_curr c old q d (Return (ht_res TRUE_STATE 0))))))) h2
          (level_post U h d p ts (cur_block c d q old) (at_key key
            (\<lambda>w. case w of None \<Rightarrow> ht_res TRUE_STATE 0 | Some v' \<Rightarrow> ht_res FALSE_STATE v')
            (\<lambda>w. case w of None \<Rightarrow> Some v | Some v' \<Rightarrow> Some v')))"
        by (rule wp_update_elist [OF L leaf(3)], rule wp_leave_leaf [OF L pl leaf(1) bok leaf(3)], assumption+,
            rule level_post_bucket [OF _ _ b lockedD(13) [OF L]], assumption+)
          (use 2(2) in \<open>auto simp: leaf(1) elist_insert_live [OF x'] fun_eq_iff map_add_def split: option.splits\<close>)
      then show ?thesis using True by (simp add: x')
    next
      case False
      have dD: "d < D"
        by (rule full_leaf_depth [OF leaf(2) b key _ new False]) (use L in \<open>simp add: locked_def\<close>)
      have "wp R self (rehash c q (count_at c d) d b (\<lambda>p'. change_bucket_pointer c p b p' (
          Store (base_field q b) (PtrC p') (unlock_bucket q b P_UNLOCKED (free_elist c a e again))))) h2
          (level_post U h d p ts (cur_block c d q old) (\<lambda>m. spec_insert m key v))"
      proof (rule wp_insert_rehash [OF L pl leaf dD])
        fix h' p' us
        assume h': "ok h'" "rehashed c D U (d + 1) us (elist_live x)"
          "becomes U h h' d p ts (ts[b := SubB l p' us]) (cur_block c d q old)"
          "cells h' (lock_field q b) = Some (PtrC l)" "cells h' q \<noteq> None"
        let ?ts = "ts[b := SubB l p' us]"
        have ts: "owns h' (pcells c p ?ts)" "plist_ok c D U d 0 ?ts" "length ?ts = length ts"
          using h'(3) by (auto simp: becomes_def grows_def)
        have at: "?ts ! b = SubB l p' us" using lockedD(13) [OF L] by simp
        show "wp R self again h' (level_post U h d p ts (cur_block c d q old) (\<lambda>m. spec_insert m key v))"
        proof (rule wp_conseq [OF again [OF h'(1) dD ts at h'(4,5)]])
          fix r h''
          assume "level_post U h' d p ?ts {} (\<lambda>m. spec_insert m key v) r h''"
          then show "level_post U h d p ts (cur_block c d q old) (\<lambda>m. spec_insert m key v) r h''"
            using becomes_trans [OF h'(3)] pfind_rehashed [OF h'(2) leaf(1) lockedD(13) [OF L]]
            by (auto simp: level_post_def)
        qed
      qed
      then show ?thesis using False by (simp add: spec_insert_at_key)
    qed
  qed
qed

theorem insert_level:
  assumes "ok h" "1 \<le> d" "d \<le> D" "2 * (D - d) < n" "owns h (pcells c p ts)" "plist_ok c D U d 0 ts"
    "cursor c h d q p ts old" and key: "key \<in> U"
  shows "wp R self (insert_loop c key v n q p d (count_at c d) old) h
    (level_post U h d p ts (cur_block c d q old) (\<lambda>m. spec_insert m key v))"
  using assms(1-7)
proof (induction n arbitrary: h d p ts q old rule: less_induct)
  case (less n)
  note cur = less.prems(7)
  let ?b = "level_hash c key d (count_at c d)"
  let ?S = "\<lambda>m. spec_insert m key v"
  have b: "?b < length ts"
    using level_hash_less [OF sizes less.prems(2,3)] cursorD(2) [OF cur] by simp
  obtain n1 where n: "n = Suc n1" using less.prems(4) by (cases n) auto
  have sub: "wp R self (insert_loop c key v m q p d (count_at c d) old') h'
      (level_post U h' d p ts' (cur_block c d q old') ?S)"
    if m: "m \<le> n" "2 * (D - d) \<le> m" and h': "ok h'" "owns h' (pcells c p ts')" "plist_ok c D U d 0 ts'"
      "length ts' = length ts" "ts' ! ?b = SubB l p' us" "d < D"
      and q: "cells h' (lock_field q ?b) = Some (PtrC l)" "cells h' q \<noteq> None" "old' \<Longrightarrow> cursor c h' d q p ts' old'"
    for m old' h' ts' l p' us
  proof -
    obtain m1 where m1: "m = Suc m1" using m(2) h'(6) by (cases m) auto
    have b': "?b < length ts'" "length ts' = count_at c d" using b h'(4) cursorD(2) [OF cur] by simp_all
    show ?thesis unfolding m1 insert_loop.simps Let_def spec_insert_at_key
    proof (rule wp_level_sub [OF h'(1) less.prems(2,3) h'(2) b'(2) h'(3) b'(1) h'(5) refl cursorD(1) [OF cur] q], goal_cases)
      case (2 q' h')
      show ?case
        unfolding count_at_double [OF sizes less.prems(2) 2(2)] spec_insert_at_key [symmetric]
        by (rule less.IH [OF _ 2(1) _ _ _ 2(3,4,5)]) (use 2(2) m m1 in auto)
    qed
  qed
  show ?case
  proof (cases "\<exists>l p' us. ts ! ?b = SubB l p' us")
    case True
    then obtain l p' us where t: "ts ! ?b = SubB l p' us" by blast
    have lk: "cells h (lock_field q ?b) = Some (PtrC l)" using cursorD(4) [OF cur b] by (simp add: t)
    have "bucket_ok c D U d ?b (SubB l p' us)"
      using less.prems(6) b t unfolding plist_ok_iff by (metis add_0)
    then have "d < D" by simp
    then show ?thesis
      by (intro sub [OF _ _ less.prems(1,5,6) refl t _ lk cursor_live [OF cur less.prems(2,3)] cur])
        (use less.prems(4) in auto)
  next
    case False
    then have st: "bucket_state (ts ! ?b) = E_UNLOCKED" by (cases "ts ! ?b") auto
    show ?thesis unfolding n insert_loop.simps Let_def
    proof (rule wp_enter_leaf [OF less.prems(1,5) b st cur],
        rule wp_insert_body [OF locked_enter [OF less.prems(5) b st cur less.prems(2,3)] less.prems(6) refl key],
        assumption+, goal_cases)
      case (1 h1 h' ts' l p' us)
      have "wp R self (insert_loop c key v n1 q p d (count_at c d) False) h'
          (level_post U h' d p ts' (cur_block c d q False) ?S)"
        by (rule sub [where l = l and p' = p' and us = us]) (use 1 n less.prems(4) in auto)
      then show ?case by (simp add: cur_block_def)
    qed
  qed
qed

end

end
