(* ===== verification/Iht_Correct.thy ===== *)
theory Iht_Correct
  imports Iht_Levels Map_Contract
begin

text \<open>
  The interlocked hash table as a key/value map: whoever runs a method, on whatever library
  meets the contract of \<open>memory_pool\<close>, the method finishes with the answer of the map and
  leaves the table in the state of the updated map.
\<close>

section \<open>The state of a table\<close>

text \<open>
  \<open>iht_state c D U h m\<close>: the table at \<open>root c\<close> is well formed in memory \<open>h\<close>, at most \<open>D\<close> PLists
  deep, holds keys from \<open>U\<close> only, and stands for the map \<open>m\<close>.
\<close>

definition iht_state :: "RdmaIHT \<Rightarrow> nat \<Rightarrow> key set \<Rightarrow> ('p, iht_cell) heap \<Rightarrow> (key \<Rightarrow> val option) \<Rightarrow> bool" where
  "iht_state c D U h m \<longleftrightarrow> (\<exists>ts. owns h (pcells c (root c) ts) \<and> length ts = PLIST_SIZE c \<and>
     plist_ok c D U 1 0 ts \<and> pfind c 1 ts = m)"

text \<open>A table does not depend on who looks at it.\<close>

lemma bucket_base_self [simp]: "bucket_base (c\<lparr>self_id := s\<rparr>) t = bucket_base c t"
  by (cases t) auto

lemma bcells_self [simp]:
  "bcells (c\<lparr>self_id := s\<rparr>) a t = bcells c a t" "pcells (c\<lparr>self_id := s\<rparr>) p ts = pcells c p ts"
  by (induction t and ts arbitrary: a and p rule: bcells_pcells.induct) (auto simp: bucket_head_def)

lemma hash_self [simp]:
  "level_hash (c\<lparr>self_id := s\<rparr>) = level_hash c" "count_at (c\<lparr>self_id := s\<rparr>) = count_at c"
  by (auto simp: level_hash_def count_at_def fun_eq_iff)

lemma bucket_ok_self [simp]:
  "bucket_ok (c\<lparr>self_id := s\<rparr>) D U d i t = bucket_ok c D U d i t"
  "plist_ok (c\<lparr>self_id := s\<rparr>) D U d i ts = plist_ok c D U d i ts"
  by (induction c D U d i t and c D U d i ts rule: bucket_ok_plist_ok.induct) (auto simp: elist_ok_def)

lemma bfind_self [simp]:
  "bfind (c\<lparr>self_id := s\<rparr>) d t k = bfind c d t k" "nfind (c\<lparr>self_id := s\<rparr>) d ts i k = nfind c d ts i k"
  by (induction c d t k and c d ts i k rule: bfind_nfind.induct) auto

lemma iht_state_self [simp]: "iht_state (c\<lparr>self_id := s\<rparr>) D U h m = iht_state c D U h m"
  by (simp add: iht_state_def pfind_def [abs_def])

section \<open>The methods\<close>

context iht_pool
begin

lemma wp_enter_root:
  assumes "ok h" "iht_state c D U h m"
    and "\<And>q h' ts. ok h' \<Longrightarrow> keeps h h' {} \<Longrightarrow> owns h' (pcells c (root c) ts) \<Longrightarrow> plist_ok c D U 1 0 ts \<Longrightarrow>
      pfind c 1 ts = m \<Longrightarrow> length ts = PLIST_SIZE c \<Longrightarrow> cursor c h' 1 q (root c) ts True \<Longrightarrow>
      (\<And>a. a \<in> cur_block c 1 q True \<Longrightarrow> cells h a = None) \<Longrightarrow> wp R self (k q) h' Q"
  shows "wp R self (Read (PList_t c) 1 (root c) k) h Q"
proof -
  obtain ts where ts: "owns h (pcells c (root c) ts)" "length ts = PLIST_SIZE c"
    "plist_ok c D U 1 0 ts" "pfind c 1 ts = m"
    using assms(2) by (auto simp: iht_state_def)
  have D: "1 \<le> D" using sizes by (simp add: iht_sizes_def)
  have n: "length ts = count_at c 1" by (simp add: ts count_at_def)
  have "wp R self (Read (PList_t c) (2 ^ (1 - 1)) (root c) k) h Q"
    by (rule wp_read_plist [OF assms(1) ts(1) n order_refl D], rule assms(3))
      (use ts keeps_owns [OF _ ts(1), of _ "{}"] in auto)
  then show ?thesis by simp
qed

lemma contains_state:
  assumes "ok h" "iht_state c D U h m" "D \<le> fuel"
  shows "wp R self (iht_contains c fuel key) h (\<lambda>r h'. ok h' \<and> r = spec_contains m key \<and>
    iht_state c D U h' m \<and> keeps h h' {})"
  unfolding iht_contains_def
proof (rule wp_enter_root [OF assms(1,2)])
  fix q h1 ts
  assume h1: "ok h1" "keeps h h1 {}" "owns h1 (pcells c (root c) ts)" "plist_ok c D U 1 0 ts"
    "pfind c 1 ts = m" "length ts = PLIST_SIZE c" "cursor c h1 1 q (root c) ts True"
    "\<And>a. a \<in> cur_block c 1 q True \<Longrightarrow> cells h a = None"
  have D: "1 \<le> D" using sizes by (simp add: iht_sizes_def)
  have n: "PLIST_SIZE c = count_at c 1" by (simp add: count_at_def)
  have fuel: "D - 1 < fuel" using assms(3) D by simp
  show "wp R self (contains_loop c key fuel q (root c) 1 (PLIST_SIZE c) True) h1 (\<lambda>r h'. ok h' \<and>
      r = spec_contains m key \<and> iht_state c D U h' m \<and> keeps h h' {})"
    unfolding n
  proof (rule wp_conseq [OF contains_level [OF h1(1) order_refl D fuel h1(3,4,7)]])
    fix r h'
    assume r: "ok h' \<and> r = spec_contains (pfind c 1 ts) key \<and> keeps h1 h' (cur_block c 1 q True)"
    have "keeps h h' {}" using keeps_trans [OF h1(2), of h' "cur_block c 1 q True"] r h1(8) by simp
    moreover have "owns h' (pcells c (root c) ts)"
      using keeps_owns [OF _ h1(3) cursorD(5) [OF h1(7)]] r by blast
    ultimately show "ok h' \<and> r = spec_contains m key \<and> iht_state c D U h' m \<and> keeps h h' {}"
      using r h1(4-6) by (auto simp: iht_state_def)
  qed
qed

lemma level_post_state:
  assumes "level_post U h1 1 (root c) ts (cur_block c 1 q True) S r h'"
    and "pfind c 1 ts = m" "length ts = PLIST_SIZE c"
  shows "ok h' \<and> r = fst (S m) \<and> iht_state c D U h' (snd (S m))"
  using assms by (auto simp: level_post_def becomes_def grows_def iht_state_def)

lemma remove_state:
  assumes "ok h" "iht_state c D U h m" "D \<le> fuel"
  shows "wp R self (iht_remove c fuel key) h (\<lambda>r h'. ok h' \<and> r = fst (spec_remove m key) \<and>
    iht_state c D U h' (snd (spec_remove m key)))"
  unfolding iht_remove_def
proof (rule wp_enter_root [OF assms(1,2)], goal_cases)
  case (1 q h1 ts)
  have D: "1 \<le> D" using sizes by (simp add: iht_sizes_def)
  have n: "PLIST_SIZE c = count_at c 1" by (simp add: count_at_def)
  have fuel: "D - 1 < fuel" using assms(3) D by simp
  show ?case
    by (subst n, rule wp_conseq [OF remove_level [OF 1(1) order_refl D fuel 1(3,4,7)]],
        drule level_post_state [OF _ 1(5,6)])
qed

text \<open>A new table: \<open>InitAsFirst\<close> makes an empty one on the caller's node.\<close>

lemma small: "PLIST_SIZE c * 1 < 2 ^ 31"
  using count_at_bounds(3) [OF sizes order_refl] sizes by (simp add: count_at_def iht_sizes_def)

lemma init_state:
  assumes "ok h"
  shows "wp R self (InitAsFirst c) h (\<lambda>c' h'. ok h' \<and> c' = c\<lparr>root := root c'\<rparr> \<and> is_local c (root c') \<and>
    iht_state c' D U h' Map.empty \<and> keeps h h' {})"
  unfolding InitAsFirst_def
proof (rule wp_new_plist [OF assms small], rule wp_Return)
  fix p h' ls
  assume h': "ok h'" "p \<noteq> nullptr c" "ptr_id p = self" "length ls = PLIST_SIZE c * 1"
    "grows h h' {} (pcells c p (map EmptyB ls))"
  let ?c = "c\<lparr>root := p\<rparr>"
  have cells: "pcells ?c a (map EmptyB ls) = pcells c a (map EmptyB ls)" for a
    by (induction ls arbitrary: a) (auto simp: bucket_head_def)
  have "pfind ?c 1 (map EmptyB ls) = Map.empty"
    by (auto simp: fun_eq_iff pfind_def nfind_nth)
  then have "iht_state ?c D U h' Map.empty"
    using h'(4,5) cells unfolding iht_state_def
    by (intro exI [of _ "map EmptyB ls"]) (auto simp: grows_def plist_ok_iff)
  then show "ok h' \<and> ?c = c\<lparr>root := root ?c\<rparr> \<and> is_local c (root ?c) \<and>
      iht_state ?c D U h' Map.empty \<and> keeps h h' {}"
    using h' by (simp add: is_local_def grows_def)
qed

end

context iht_table
begin

lemma insert_state:
  assumes "ok h" "iht_state c D U h m" "2 * D \<le> fuel" "key \<in> U"
  shows "wp R self (iht_insert c fuel key v) h (\<lambda>r h'. ok h' \<and> r = fst (spec_insert m key v) \<and>
    iht_state c D U h' (snd (spec_insert m key v)))"
  unfolding iht_insert_def
proof (rule wp_enter_root [OF assms(1,2)], goal_cases)
  case (1 q h1 ts)
  have D: "1 \<le> D" using sizes by (simp add: iht_sizes_def)
  have n: "PLIST_SIZE c = count_at c 1" by (simp add: count_at_def)
  have fuel: "2 * (D - 1) < fuel" using assms(3) D by simp
  show ?case
    by (subst n, rule wp_conseq [OF insert_level [OF 1(1) order_refl D fuel 1(3,4,7) assms(4)]],
        drule level_post_state [OF _ 1(5,6)])
qed

end

section \<open>The table as a shared map\<close>

text \<open>A call of a method by node \<open>n\<close> on the table that all nodes reach through \<open>root c\<close>.\<close>

fun iht_call :: "RdmaIHT \<Rightarrow> nat \<Rightarrow> call \<Rightarrow> HT_Res iht_prog" where
  "iht_call c fuel (Contains k) = iht_contains c fuel k"
| "iht_call c fuel (Insert k v) = iht_insert c fuel k v"
| "iht_call c fuel (Remove k) = iht_remove c fuel k"

definition finished :: "('r, 'h) outcome \<Rightarrow> ('r \<times> 'h) option" where
  "finished x = (case x of Finished r h \<Rightarrow> Some (r, h) | _ \<Rightarrow> None)"

definition iht_exec :: "('p, iht_cell) rome \<Rightarrow> RdmaIHT \<Rightarrow> nat \<Rightarrow> nat \<Rightarrow> call \<Rightarrow> ('p, iht_cell) heap
    \<Rightarrow> (HT_Res \<times> ('p, iht_cell) heap) option" where
  "iht_exec R c fuel n x h = finished (run R n (iht_call (c\<lparr>self_id := n\<rparr>) fuel x) h)"

locale iht_fuelled = iht_table R ok c D U
  for R :: "('p, iht_cell) rome" and ok and c and D and U +
  fixes fuel :: nat
  assumes fuel: "2 * D \<le> fuel"
begin

lemma other_node: "iht_fuelled R ok (c\<lparr>self_id := n\<rparr>) D U fuel"
  using sizes separates null fuel
  by unfold_locales (auto simp: iht_sizes_def hash_separates_def)

lemma call_state:
  assumes "ok h" "iht_state c D U h m" "call_key x \<in> U"
  shows "wp R self (iht_call c fuel x) h (\<lambda>r h'. ok h' \<and> r = fst (spec_call x m) \<and>
    iht_state c D U h' (snd (spec_call x m)))"
proof (cases x)
  case (Contains k)
  then show ?thesis
    using contains_state [OF assms(1,2), of fuel k] fuel by (auto elim!: wp_conseq)
next
  case (Insert k v)
  then show ?thesis using insert_state [OF assms(1,2) fuel, of k v] assms(3) by simp
next
  case (Remove k)
  then show ?thesis using remove_state [OF assms(1,2), of fuel k] fuel by simp
qed

end

sublocale iht_fuelled \<subseteq> shared: ht_map "iht_exec R c fuel" "\<lambda>h m. ok h \<and> iht_state c D U h m" U
proof
  fix h m x n
  assume h: "ok h \<and> iht_state c D U h m" and x: "call_key x \<in> U"
  have "wp R n (iht_call (c\<lparr>self_id := n\<rparr>) fuel x) h (\<lambda>r h'. ok h' \<and> r = fst (spec_call x m) \<and>
      iht_state c D U h' (snd (spec_call x m)))"
    using iht_fuelled.call_state [OF other_node [of n], of h m x] h x by simp
  then show "\<exists>s'. iht_exec R c fuel n x h = Some (fst (spec_call x m), s') \<and>
      (ok s' \<and> iht_state c D U s' (snd (spec_call x m)))"
    by (auto simp: wp_def iht_exec_def finished_def)
qed

context iht_fuelled
begin

lemma calls_state:
  assumes "ok h" "iht_state c D U h m" "call_key ` snd ` set xs \<subseteq> U"
  shows "\<exists>h'. exec_calls (iht_exec R c fuel) xs h = Some (fst (spec_calls (map snd xs) m), h') \<and>
    ok h' \<and> iht_state c D U h' (snd (spec_calls (map snd xs) m))"
  using shared.exec_calls_ok [of h m xs] assms by blast

end

section \<open>The table as the sources configure it\<close>

text \<open>
  \<^verbatim>\<open>RdmaIHT<int, int, CNF_ELIST_SIZE, CNF_PLIST_SIZE>\<close> with \<^verbatim>\<open>std::hash<int>\<close>, which is the
  identity on the value, converted to \<^verbatim>\<open>size_t\<close>.
\<close>

definition std_hash :: "key \<Rightarrow> uint64" where
  "std_hash k = scast k"

definition deployed :: "remote_ptr \<Rightarrow> nat \<Rightarrow> remote_ptr \<Rightarrow> RdmaIHT" where
  "deployed nul s r = \<lparr>ELIST_SIZE = CNF_ELIST_SIZE, PLIST_SIZE = CNF_PLIST_SIZE, pre_hash = std_hash,
     nullptr = nul, self_id = s, root = r\<rparr>"

definition key_range :: "key set" where
  "key_range = {k. unat k < 2 ^ 29}"

lemma deployed_sizes: "iht_sizes (deployed nul s r) 24"
  by (simp add: iht_sizes_def deployed_def CNF_ELIST_SIZE_def CNF_PLIST_SIZE_def)

lemma std_hash_range:
  assumes "k \<in> key_range"
  shows "std_hash k = ucast k"
  using scast_nonneg assms by (simp add: std_hash_def key_range_def)

lemma deployed_hash:
  assumes "k \<in> key_range"
  shows "level_hash (deployed nul s r) k 24 (count_at (deployed nul s r) 24) = 24 XOR unat k"
proof -
  have cnt: "count_at (deployed nul s r) 24 = 1073741824"
    by (simp add: count_at_def deployed_def CNF_PLIST_SIZE_def)
  have "24 XOR unat k < 2 ^ 29"
    by (rule nat_xor_less) (use assms in \<open>simp_all add: key_range_def\<close>)
  moreover have "unat ((24 XOR ucast k :: uint64) mod 1073741823) = (24 XOR unat k) mod 1073741823"
    by (simp add: unat_mod unsigned_xor_eq unat_ucast_up)
  ultimately show ?thesis
    using std_hash_range [OF assms] unfolding level_hash_def cnt by (simp add: deployed_def)
qed

lemma deployed_separates: "hash_separates (deployed nul s r) 24 key_range"
  unfolding hash_separates_def
proof (rule inj_onI)
  fix x y
  assume "x \<in> key_range" "y \<in> key_range"
    "level_hash (deployed nul s r) x 24 (count_at (deployed nul s r) 24) =
     level_hash (deployed nul s r) y 24 (count_at (deployed nul s r) 24)"
  then have "24 XOR (24 XOR unat x) = 24 XOR (24 XOR unat y)"
    by (simp add: deployed_hash)
  then have "unat x = unat y" by (simp add: xor.assoc [symmetric])
  then show "x = y" by (rule word_unat_eq_iff [THEN iffD2])
qed

text \<open>The deployed table on the executable library, for all nodes and roots.\<close>

interpretation deployed: iht_fuelled bump_rome bump_ok "deployed (Remote 0 0) s r" 24 key_range 48
  for s r
  using deployed_sizes deployed_separates
  by unfold_locales (auto simp: deployed_def bump_rome_def)

text \<open>A table made by node 1, the starting point of the concrete runs below.\<close>

definition fresh_table :: "RdmaIHT \<times> (nat, iht_cell) heap" where
  "fresh_table = (case run bump_rome 1 (InitAsFirst (deployed (Remote 0 0) 1 (Remote 0 0))) bump_empty of
     Finished c h \<Rightarrow> (c, h) | _ \<Rightarrow> undefined)"

lemma fresh_table:
  obtains r h where "fresh_table = (deployed (Remote 0 0) 1 r, h)" "bump_ok h"
    "iht_state (deployed (Remote 0 0) 1 r) 24 key_range h Map.empty"
proof -
  have "wp bump_rome 1 (InitAsFirst (deployed (Remote 0 0) 1 (Remote 0 0))) bump_empty
     (\<lambda>c h. bump_ok h \<and> c = (deployed (Remote 0 0) 1 (Remote 0 0))\<lparr>root := root c\<rparr> \<and>
        iht_state c 24 key_range h Map.empty)"
    using deployed.init_state [of bump_empty 1 "Remote 0 0" key_range]
    by (auto simp: deployed_def elim!: wp_conseq)
  then obtain c h where c: "run bump_rome 1 (InitAsFirst (deployed (Remote 0 0) 1 (Remote 0 0))) bump_empty =
      Finished c h" "bump_ok h" "c = (deployed (Remote 0 0) 1 (Remote 0 0))\<lparr>root := root c\<rparr>"
    "iht_state c 24 key_range h Map.empty"
    by (auto simp: wp_def)
  have "c = deployed (Remote 0 0) 1 (root c)" by (subst c(3)) (simp add: deployed_def)
  then show ?thesis using that [of "root c" h] c by (simp add: fresh_table_def)
qed

section \<open>Correctness of the public methods\<close>

text \<open>C1: \<open>insert\<close> on a well-formed table, run alone, always returns: with \<open>TRUE_STATE\<close> after adding the
  pair when the key was absent, with \<open>FALSE_STATE\<close> and the present value, the map unchanged, when
  it was there.  This covers every branch: descending through sub-PLists, the empty bucket, the
  bucket with room, and rehashing a full bucket, on local and on remote memory, for every
  library that meets the contract.\<close>

theorem iht_insert_correct:
  assumes "iht_table R ok c D U" "ok h" "iht_state c D U h m" "2 * D \<le> fuel" "key \<in> U"
  shows "\<exists>h'. run R (self_id c) (iht_insert c fuel key v) h = Finished (fst (spec_insert m key v)) h' \<and>
    ok h' \<and> iht_state c D U h' (snd (spec_insert m key v))"
  using iht_table.insert_state [OF assms] by (auto simp: wp_def)

theorem iht_insert_correct_witness:
  "\<exists>h'. run bump_rome 1 (iht_insert (fst fresh_table) 48 5 10) (snd fresh_table) =
      Finished (ht_res TRUE_STATE 0) h' \<and>
    iht_state (fst fresh_table) 24 key_range h' [5 \<mapsto> 10]"
proof -
  obtain r h where t: "fresh_table = (deployed (Remote 0 0) 1 r, h)" "bump_ok h"
    "iht_state (deployed (Remote 0 0) 1 r) 24 key_range h Map.empty"
    by (rule fresh_table)
  have "iht_table bump_rome bump_ok (deployed (Remote 0 0) 1 r) 24 key_range"
    by (rule deployed.iht_table_axioms)
  from iht_insert_correct [OF this t(2,3), of 48 5 10] show ?thesis
    by (auto simp: t(1) spec_insert_def key_range_def deployed_def)
qed

text \<open>C2: \<open>contains\<close> on a well-formed table, run alone, always returns the value of the map at the key, and
  changes nothing: every cell and every allocation that was live before is the same afterwards,
  so all its temporary copies are its own and the locks are back in their state.\<close>

theorem iht_contains_correct:
  assumes "iht_pool R ok c D" "ok h" "iht_state c D U h m" "D \<le> fuel"
  shows "\<exists>h'. run R (self_id c) (iht_contains c fuel key) h = Finished (spec_contains m key) h' \<and>
    ok h' \<and> iht_state c D U h' m \<and>
    (\<forall>a. cells h a \<noteq> None \<longrightarrow> cells h' a = cells h a \<and> (allocs h a \<noteq> None \<longrightarrow> allocs h' a = allocs h a))"
  using iht_pool.contains_state [OF assms, of key] by (auto simp: wp_def keeps_def)

theorem iht_contains_correct_witness:
  "\<exists>h'. run bump_rome 1 (iht_contains (fst fresh_table) 24 5) (snd fresh_table) =
      Finished (ht_res FALSE_STATE 0) h' \<and>
    iht_state (fst fresh_table) 24 key_range h' Map.empty"
proof -
  obtain r h where t: "fresh_table = (deployed (Remote 0 0) 1 r, h)" "bump_ok h"
    "iht_state (deployed (Remote 0 0) 1 r) 24 key_range h Map.empty"
    by (rule fresh_table)
  have "iht_pool bump_rome bump_ok (deployed (Remote 0 0) 1 r) 24"
    by (rule deployed.iht_pool_axioms)
  from iht_contains_correct [OF this t(2,3), of 24 5] show ?thesis
    by (auto simp: t(1) spec_contains_def deployed_def)
qed

text \<open>C3: \<open>remove\<close> on a well-formed table, run alone, always returns: with \<open>TRUE_STATE\<close> and the old value
  after deleting the key, with \<open>FALSE_STATE\<close> and no change when it was absent.\<close>

theorem iht_remove_correct:
  assumes "iht_pool R ok c D" "ok h" "iht_state c D U h m" "D \<le> fuel"
  shows "\<exists>h'. run R (self_id c) (iht_remove c fuel key) h = Finished (fst (spec_remove m key)) h' \<and>
    ok h' \<and> iht_state c D U h' (snd (spec_remove m key))"
  using iht_pool.remove_state [OF assms, of key] by (auto simp: wp_def)

theorem iht_remove_correct_witness:
  "\<exists>h'. run bump_rome 1 (iht_remove (fst fresh_table) 24 5) (snd fresh_table) =
      Finished (ht_res FALSE_STATE 0) h' \<and>
    iht_state (fst fresh_table) 24 key_range h' Map.empty"
proof -
  obtain r h where t: "fresh_table = (deployed (Remote 0 0) 1 r, h)" "bump_ok h"
    "iht_state (deployed (Remote 0 0) 1 r) 24 key_range h Map.empty"
    by (rule fresh_table)
  have "iht_pool bump_rome bump_ok (deployed (Remote 0 0) 1 r) 24"
    by (rule deployed.iht_pool_axioms)
  from iht_remove_correct [OF this t(2,3), of 24 5] show ?thesis
    by (auto simp: t(1) spec_remove_def deployed_def)
qed

text \<open>C16: \<open>InitAsFirst\<close> makes a well-formed empty table on the caller's node and leaves all other memory
  alone.\<close>

theorem InitAsFirst_correct:
  assumes "iht_pool R ok c D" "ok h"
  shows "\<exists>c' h'. run R (self_id c) (InitAsFirst c) h = Finished c' h' \<and> ok h' \<and>
    c' = c\<lparr>root := root c'\<rparr> \<and> is_local c (root c') \<and> iht_state c' D U h' Map.empty \<and>
    (\<forall>a. cells h a \<noteq> None \<longrightarrow> cells h' a = cells h a \<and> (allocs h a \<noteq> None \<longrightarrow> allocs h' a = allocs h a))"
  using iht_pool.init_state [OF assms, of U] by (auto simp: wp_def keeps_def)

theorem InitAsFirst_correct_witness:
  "\<exists>c' h'. run bump_rome 1 (InitAsFirst (deployed (Remote 0 0) 1 (Remote 0 0))) bump_empty = Finished c' h' \<and>
    iht_state c' 24 {} h' Map.empty"
proof -
  have "iht_pool bump_rome bump_ok (deployed (Remote 0 0) 1 (Remote 0 0)) 24"
    by (rule deployed.iht_pool_axioms)
  from InitAsFirst_correct [OF this bump_ok_empty, of "{}"] show ?thesis
    by (auto simp: deployed_def)
qed

text \<open>C4: any sequence of \<open>contains\<close>, \<open>insert\<close> and \<open>remove\<close> calls, made one after the other by any
  nodes on the table they share, returns what a map returns: refinement of the table to the
  abstract key/value map.\<close>

theorem iht_calls_refine_map:
  assumes "iht_fuelled R ok c D U fuel" "ok h" "iht_state c D U h m" "call_key ` snd ` set xs \<subseteq> U"
  shows "\<exists>h'. exec_calls (iht_exec R c fuel) xs h = Some (fst (spec_calls (map snd xs) m), h') \<and>
    ok h' \<and> iht_state c D U h' (snd (spec_calls (map snd xs) m))"
  by (rule iht_fuelled.calls_state [OF assms])

theorem iht_calls_refine_map_witness:
  "\<exists>h'. exec_calls (iht_exec bump_rome (fst fresh_table) 48)
      [(1, Insert 5 10), (2, Insert 5 20), (3, Contains 5), (2, Remove 5), (1, Contains 5)] (snd fresh_table) =
    Some ([ht_res TRUE_STATE 0, ht_res FALSE_STATE 10, ht_res TRUE_STATE 10, ht_res TRUE_STATE 10,
      ht_res FALSE_STATE 0], h')"
proof -
  obtain r h where t: "fresh_table = (deployed (Remote 0 0) 1 r, h)" "bump_ok h"
    "iht_state (deployed (Remote 0 0) 1 r) 24 key_range h Map.empty"
    by (rule fresh_table)
  have "iht_fuelled bump_rome bump_ok (deployed (Remote 0 0) 1 r) 24 key_range 48"
    by (rule deployed.iht_fuelled_axioms)
  from iht_calls_refine_map [OF this t(2,3),
      of "[(1, Insert 5 10), (2, Insert 5 20), (3, Contains 5), (2, Remove 5), (1, Contains 5)]"]
  show ?thesis
    by (auto simp: t(1) spec_insert_def spec_contains_def spec_remove_def key_range_def)
qed

end
