(* ===== verification/Client_Correct.thy ===== *)
theory Client_Correct
  imports Client Iht_Correct
begin

text \<open>
  The client against the contract of the table: a workload runs to its end without a failed
  assertion, the built-in tests say what they say, and what the stop sequence waits for.
\<close>

section \<open>Workloads\<close>

text \<open>The client stores every key with itself as value; its assertions rely on it.\<close>

definition diagonal :: "(key \<Rightarrow> val option) \<Rightarrow> bool" where
  "diagonal m \<longleftrightarrow> (\<forall>k v. m k = Some v \<longrightarrow> v = k)"

definition op_ok :: "key set \<Rightarrow> IHT_Op \<Rightarrow> bool" where
  "op_ok U op \<longleftrightarrow> op_key op \<in> U \<and> (op_type op = INSERT \<longrightarrow> op_value op = op_key op)"

lemma op_codes_distinct [simp]:
  "CONTAINS \<noteq> INSERT" "CONTAINS \<noteq> REMOVE" "INSERT \<noteq> REMOVE" "INSERT \<noteq> CONTAINS" "REMOVE \<noteq> CONTAINS" "REMOVE \<noteq> INSERT"
  by (simp_all add: CONTAINS_def INSERT_def REMOVE_def)

lemma diagonal_empty [simp]: "diagonal Map.empty"
  by (simp add: diagonal_def)

lemma diagonal_call:
  assumes "diagonal m" "\<And>k v. x = Insert k v \<Longrightarrow> v = k"
  shows "diagonal (snd (spec_call x m))"
  using assms
  by (cases x) (auto simp: diagonal_def spec_insert_def spec_remove_def spec_contains_def split: option.splits if_splits)

lemma assert_key_ok:
  assumes "diagonal m"
  shows "assert_key (spec_contains m k) k r = r" "assert_key (fst (spec_remove m k)) k r = r"
  using assms by (auto simp: assert_key_def spec_contains_def spec_remove_def diagonal_def split: option.splits)

context ht_map
begin

lemma Apply_ok:
  assumes "rep s m" "diagonal m" "op_ok keys op" "progression c \<noteq> 0" "count c + 1 < 2 ^ 31"
  shows "\<exists>s' m'. Apply exec self op c s = Inr (c\<lparr>count := count c + 1\<rparr>, s') \<and> rep s' m' \<and> diagonal m'"
proof -
  have step: "\<exists>s'. exec self x s = Some (fst (spec_call x m), s') \<and> rep s' (snd (spec_call x m)) \<and> diagonal (snd (spec_call x m))"
    if "call_key x = op_key op" "\<And>k v. x = Insert k v \<Longrightarrow> v = k" for x
    using exec_ok [of s m x self] diagonal_call [OF assms(2), of x] that assms(1,3) by (auto simp: op_ok_def)
  consider "op_type op = CONTAINS" | "op_type op = INSERT" | "op_type op = REMOVE"
    | "op_type op \<notin> {CONTAINS, INSERT, REMOVE}" by blast
  then show ?thesis
  proof cases
    case 1
    then show ?thesis using step [of "Contains (op_key op)"] assms
      by (auto simp: Apply_def Let_def log_progress_def assert_key_ok)
  next
    case 2
    then show ?thesis using step [of "Insert (op_key op) (op_value op)"] assms
      by (auto simp: Apply_def Let_def log_progress_def op_ok_def)
  next
    case 3
    then show ?thesis using step [of "Remove (op_key op)"] assms
      by (auto simp: Apply_def Let_def log_progress_def assert_key_ok)
  next
    case 4
    then show ?thesis using assms by (auto simp: Apply_def Let_def)
  qed
qed

lemma apply_all_ok:
  assumes "rep s m" "diagonal m" "\<forall>op \<in> set ops. op_ok keys op" "progression c \<noteq> 0"
    "count c + int (length ops) < 2 ^ 31"
  shows "\<exists>s' m'. apply_all exec self ops c s = Inr (c\<lparr>count := count c + int (length ops)\<rparr>, s') \<and> rep s' m' \<and> diagonal m'"
  using assms
proof (induction ops arbitrary: c s m)
  case (Cons op ops)
  obtain s1 m1 where s1: "Apply exec self op c s = Inr (c\<lparr>count := count c + 1\<rparr>, s1)" "rep s1 m1" "diagonal m1"
    using Apply_ok [of s m op c self] Cons.prems by auto
  show ?case using Cons.IH [OF s1(2,3), of "c\<lparr>count := count c + 1\<rparr>"] s1(1) Cons.prems by (auto simp: algebra_simps)
qed auto

lemma populate_loop_ok:
  assumes "rep s m" "diagonal m" "\<forall>u \<in> set us. word_of_int (draw_key rnd kr lb u) \<in> keys"
  shows "\<exists>s' m'. populate_loop exec self rnd kr lb (\<lambda>key. key) us s = Some s' \<and> rep s' m' \<and> diagonal m'"
  using assms
proof (induction us arbitrary: s m)
  case (Cons u us)
  let ?x = "Insert (word_of_int (draw_key rnd kr lb u)) (word_of_int (draw_key rnd kr lb u))"
  obtain s1 where "exec self ?x s = Some (fst (spec_call ?x m), s1)" "rep s1 (snd (spec_call ?x m))"
    using exec_ok [of s m ?x self] Cons.prems by auto
  then show ?case using Cons.IH [of s1 "snd (spec_call ?x m)"] diagonal_call [of m ?x] Cons.prems by (auto simp: Let_def)
qed auto

end

text \<open>The keys a client draws lie between the bounds of the experiment.\<close>

definition keys_between :: "int \<Rightarrow> int \<Rightarrow> key set" where
  "keys_between lb ub = {k. lb \<le> sint k \<and> sint k \<le> ub}"

lemma word_of_int_between:
  assumes "lb \<le> i" "i \<le> ub" "- (2 ^ 31) \<le> lb" "ub < 2 ^ 31"
  shows "(word_of_int i :: key) \<in> keys_between lb ub"
proof -
  have "sint (word_of_int i :: key) = i"
    using assms by (simp add: sint_uint unsigned_of_int signed_take_bit_take_bit signed_take_bit_int_eq_self)
  then show ?thesis using assms by (simp add: keys_between_def)
qed

lemma keys_between_range:
  assumes "0 \<le> lb" "ub < 2 ^ 29"
  shows "keys_between lb ub \<subseteq> key_range"
proof
  fix k :: key
  assume "k \<in> keys_between lb ub"
  then have k: "0 \<le> sint k" "sint k < 2 ^ 29" using assms by (auto simp: keys_between_def)
  then have "take_bit 32 (sint k) = sint k" by (simp add: take_bit_int_eq_self)
  moreover have "unat k = nat (take_bit 32 (sint k))"
    using unsigned_of_int [of "sint k", where ?'a = nat and ?'b = 32] by simp
  ultimately show "k \<in> key_range" using k by (simp add: key_range_def nat_less_iff)
qed

definition bounds_ok :: "ExperimentParams \<Rightarrow> bool" where
  "bounds_ok ps \<longleftrightarrow> - (2 ^ 31) \<le> key_lb ps \<and> key_lb ps \<le> key_ub ps \<and> key_ub ps < 2 ^ 31 \<and>
     key_ub ps - key_lb ps < 2 ^ 31"

definition is_draw :: "real \<Rightarrow> bool" where
  "is_draw u \<longleftrightarrow> 0 \<le> u \<and> u < 1"

context doubles
begin

lemma drawn_key:
  assumes "bounds_ok ps" "is_draw u"
  shows "word_of_int (draw_key rnd (key_ub ps - key_lb ps) (key_lb ps) u) \<in> keys_between (key_lb ps) (key_ub ps)"
  using draw_key_between [of u "key_ub ps - key_lb ps" "key_lb ps"] assms
  by (intro word_of_int_between) (auto simp: bounds_ok_def is_draw_def)

lemma generator_ok:
  assumes "bounds_ok ps" "is_draw (snd u)" "keys_between (key_lb ps) (key_ub ps) \<subseteq> U"
  shows "op_ok U (generator rnd ps u)"
  using drawn_key [OF assms(1,2)] assms(3) by (auto simp: generator_def Let_def op_ok_def mk_op_def)

lemma milli: "9999/10000000 \<le> rnd (1/1000)" "rnd (1/1000) \<le> 10001/10000000"
proof -
  define d where "d = rnd (1/1000)"
  have "\<bar>d - 1/1000\<bar> \<le> 1/1000 / 2 ^ 53" unfolding d_def by (rule rnd_near) auto
  also have "\<dots> \<le> (1/10000000 :: real)" by simp
  finally have "9999/10000000 \<le> d \<and> d \<le> 10001/10000000" by linarith
  then show "9999/10000000 \<le> rnd (1/1000)" "rnd (1/1000) \<le> 10001/10000000" by (simp_all only: d_def)
qed

lemma thousandth_small:
  assumes "0 \<le> n" "n < 1000"
  shows "trunc (rnd (of_int n * rnd (1/1000))) = 0"
proof (cases "n = 0")
  case True
  then show ?thesis using rnd_int [of 0] by (simp add: trunc_def)
next
  case False
  let ?d = "rnd (1/1000)" let ?x = "of_int n * ?d"
  note d = milli
  have "(1 :: real) / 1024 \<le> 9999/10000000" by simp
  then have d': "1 / 1024 \<le> ?d" using d(1) by (rule order_trans)
  have n: "1 \<le> real_of_int n" "real_of_int n \<le> 999" using assms False by auto
  have lo: "1 * ?d \<le> ?x" using n d by (intro mult_right_mono) auto
  have hi: "?x \<le> 999 * (10001/10000000)" using n d by (intro mult_mono) auto
  have x: "0 \<le> ?x" "1 / 1024 \<le> ?x" "?x \<le> 9995/10000" using lo hi d' by linarith+
  have "\<bar>rnd ?x - ?x\<bar> \<le> ?x / 2 ^ 53" using x by (intro rnd_near) auto
  also have "\<dots> \<le> 1/10000" using x by simp
  finally have "\<bar>rnd ?x - ?x\<bar> \<le> 1/10000" .
  then have "0 \<le> rnd ?x" "rnd ?x < 1" using x by linarith+
  then show ?thesis by (simp add: trunc_def floor_eq_iff)
qed

lemma thousandth_large:
  assumes "1000 < n"
  shows "0 < trunc (rnd (of_int n * rnd (1/1000)))"
proof -
  let ?d = "rnd (1/1000)"
  note d = milli(1)
  have "1001 * (9999/10000000) \<le> of_int n * ?d" using assms d by (intro mult_mono) auto
  then have "rnd 1 \<le> rnd (of_int n * ?d)" by (intro rnd_mono) simp
  then have "1 \<le> rnd (of_int n * ?d)" using rnd_int [of 1] by simp
  then show ?thesis by (auto simp: trunc_def)
qed

end

text \<open>The operations a client applies when the driver can hand over \<open>handed\<close> before it is stopped.\<close>

definition applied_ops :: "ExperimentParams \<Rightarrow> nat \<Rightarrow> nat" where
  "applied_ops ps handed = (if unlimited_stream ps then handed else min handed (nat (op_count ps)))"

text \<open>C29: on any table that honours the contract and holds every key with itself as its value, in particular on a new interlocked hash
  table, the client's part of an experiment runs to the point where the driver is stopped, for valid key bounds, enough draws
  below 1, a counter that does not overflow and, if any operation is applied, a progression other than 0: populating
  and every operation the driver hands over return, and no assertion on a result fails, because only
  keys between the bounds are used and every key is stored with itself. The client counts as many operations
  as the driver could hand over before the runtime was over, but of a bounded stream at most
  \<^verbatim>\<open>op_count\<close>; so all of a bounded stream if there was time for them.\<close>

theorem client_run_ok:
  assumes "ht_map exec rep keys" "doubles rnd" "rep s m" "diagonal m" "bounds_ok (params c)"
    "keys_between (key_lb (params c)) (key_ub (params c)) \<subseteq> keys"
    "list_all is_draw us" "nat (populate_count rnd (params c) portion) \<le> length us"
    "list_all (\<lambda>v. is_draw (snd v)) vs" "(if unlimited_stream (params c) then handed else nat (op_count (params c))) \<le> length vs"
    "count c + int (applied_ops (params c) handed) < 2 ^ 31" "applied_ops (params c) handed = 0 \<or> progression c \<noteq> 0"
  shows "\<exists>s' m'. Run_table exec self rnd portion us vs handed c s =
      Inr (c\<lparr>count := count c + int (applied_ops (params c) handed)\<rparr>, s') \<and> rep s' m' \<and> diagonal m'"
proof -
  let ?ps = "params c" let ?cnt = "nat (populate_count rnd ?ps portion)" let ?ops = "take handed (workload rnd ?ps vs)"
  have k: "\<forall>u \<in> set (take ?cnt us). word_of_int (draw_key rnd (key_ub ?ps - key_lb ?ps) (key_lb ?ps) u) \<in> keys"
    using doubles.drawn_key [OF assms(2,5)] assms(6,7) by (auto simp: list_all_iff dest: in_set_takeD)
  obtain s1 m1 where s1: "populate_loop exec self rnd (key_ub ?ps - key_lb ?ps) (key_lb ?ps) (\<lambda>key. key) (take ?cnt us) s = Some s1"
    "rep s1 m1" "diagonal m1"
    using ht_map.populate_loop_ok [OF assms(1,3,4) k] by blast
  have "op_ok keys (generator rnd ?ps v)" if "v \<in> set vs" for v
    using doubles.generator_ok [OF assms(2,5) _ assms(6), of v] assms(9) that by (simp add: list_all_iff)
  moreover have "\<exists>v \<in> set vs. op = generator rnd ?ps v" if "op \<in> set ?ops" for op
    using in_set_takeD [OF that] by (auto simp: workload_def stream_draws_def dest: in_set_takeD split: if_splits)
  ultimately have ops: "\<forall>op \<in> set ?ops. op_ok keys op" by metis
  have len: "length ?ops = applied_ops ?ps handed" using assms(10) by (auto simp: workload_def stream_draws_def applied_ops_def min_def split: if_splits)
  show ?thesis
  proof (cases "progression c = 0")
    case True
    then have "length ?ops = 0" unfolding len using assms(12) by blast
    then have "?ops = []" by (simp only: length_0_conv)
    then show ?thesis using s1 len assms(5,8) by (auto simp: Run_table_def populate_def bounds_ok_def)
  next
    case False
    show ?thesis
      using ht_map.apply_all_ok [OF assms(1) s1(2,3) ops False, of self] assms(5,8,11) s1(1) len
      by (simp add: Run_table_def populate_def bounds_ok_def)
  qed
qed

text \<open>A bounded workload of fewer than 1000 operations makes the constructor set \<open>progression\<close> to zero, so that the
  first operation divides by zero; more than 1000 operations give a positive \<open>progression\<close>.\<close>

theorem progression_zero:
  assumes "doubles rnd" "\<not> unlimited_stream ps" "0 \<le> op_count ps" "op_count ps < 2 ^ 31"
  shows "(op_count ps < 1000 \<longrightarrow> progression (Client_new rnd host ctx ps b mc) = 0 \<and>
      (op_type op \<in> {CONTAINS, INSERT, REMOVE} \<longrightarrow>
        Apply exec self op (Client_new rnd host ctx ps b mc) s = Inl Division_by_zero)) \<and>
    (1000 < op_count ps \<longrightarrow> 0 < progression (Client_new rnd host ctx ps b mc))"
proof (intro conjI impI)
  assume n: "op_count ps < 1000"
  show z: "progression (Client_new rnd host ctx ps b mc) = 0"
    using doubles.thousandth_small [OF assms(1,3) n] assms(2) by (simp add: Client_new_def)
  assume "op_type op \<in> {CONTAINS, INSERT, REMOVE}"
  then show "Apply exec self op (Client_new rnd host ctx ps b mc) s = Inl Division_by_zero"
    using z by (auto simp: Apply_def log_progress_def Client_new_def)
next
  assume "1000 < op_count ps"
  then show "0 < progression (Client_new rnd host ctx ps b mc)"
    using doubles.thousandth_large [OF assms(1)] assms(2) by (simp add: Client_new_def)
qed

text \<open>An experiment with the identity as rounding.\<close>

definition demo_params :: "int \<Rightarrow> ExperimentParams" where
  "demo_params n = \<lparr>unlimited_stream = False, op_count = n, p_contains = 80, p_insert = 10, key_lb = 0, key_ub = 100,
     thread_count = 1, node_count = 1, qp_max = 30, node_id = 0, runtime = 1\<rparr>"

definition demo_client :: "int \<Rightarrow> Client" where
  "demo_client n = Client_new (\<lambda>x. x) (node_peer 0) (EndpointContext_new 0) (demo_params n) True True"

theorem progression_zero_witness:
  "progression (demo_client 999) = 0 \<and> 0 < progression (demo_client 2000) \<and>
    Apply (\<lambda>n x s. None) (0::nat) (mk_op REMOVE 5 0) (demo_client 999) () = Inl Division_by_zero"
  using progression_zero [OF exact.doubles_axioms, of "demo_params 999" "node_peer 0" "EndpointContext_new 0" True True
      "mk_op REMOVE 5 0" "\<lambda>n x s. None" 0 "()"]
    progression_zero [OF exact.doubles_axioms, of "demo_params 2000" "node_peer 0" "EndpointContext_new 0" True True
      "mk_op REMOVE 5 0" "\<lambda>n x s. None" 0 "()"]
  by (simp add: demo_params_def demo_client_def mk_op_def)

theorem client_run_ok_witness:
  "\<exists>h1 h2. Run_table (iht_exec bump_rome (fst fresh_table) 48) 1 (\<lambda>x. x) 0.02 [0.1, 0.5]
      (replicate 2000 (0.85, 0.25)) 1500 (demo_client 2000) (snd fresh_table) =
      Inr (demo_client 2000\<lparr>count := 1500\<rparr>, h1) \<and>
    Run_table (iht_exec bump_rome (fst fresh_table) 48) 1 (\<lambda>x. x) 0.02 [0.1, 0.5]
      (replicate 2000 (0.85, 0.25)) 3000 (demo_client 2000) (snd fresh_table) =
      Inr (demo_client 2000\<lparr>count := 2000\<rparr>, h2)"
proof -
  obtain r h where f: "fresh_table = (deployed (Remote 0 0) 1 r, h)" "bump_ok h"
    "iht_state (deployed (Remote 0 0) 1 r) 24 key_range h Map.empty"
    by (rule fresh_table)
  let ?c = "demo_client 2000"
  have "keys_between 0 100 \<subseteq> key_range" by (rule keys_between_range) simp_all
  then have "\<exists>h'. Run_table (iht_exec bump_rome (fst fresh_table) 48) 1 (\<lambda>x. x) 0.02 [0.1, 0.5]
      (replicate 2000 (0.85, 0.25)) handed ?c (snd fresh_table) = Inr (?c\<lparr>count := int (min handed 2000)\<rparr>, h')" for handed
    using client_run_ok [OF deployed.shared.ht_map_axioms [of 1 r] exact.doubles_axioms, of h Map.empty ?c
        "[0.1, 0.5]" "0.02" "replicate 2000 (0.85, 0.25)" handed 1] f(2,3) unfolding f(1) fst_conv snd_conv
    by (auto simp: demo_client_def demo_params_def Client_new_def bounds_ok_def is_draw_def populate_count_def trunc_def
        list_all_iff applied_ops_def min_less_iff_disj)
  from this [of 1500] this [of 3000] show ?thesis by auto
qed

end
