(* ===== verification/Lock_Protocol.thy ===== *)
theory Lock_Protocol
  imports Map_Contract Rome
begin

text \<open>
  Calls that overlap in time on objects behind locks.

  A call reads what nobody changes to find the lock of its object, spins on the lock with a
  compare-and-swap, works on the object while it has it, gives it back with a remote write, and
  frees its own copies.  Between two of its verbs any number of verbs of other calls can happen.
  \<open>spinning\<close>, \<open>locked\<close> and \<open>leaving\<close> say of the three parts of a call that they use nothing
  but that and memory of their own; from this alone the locale \<open>locked_objects\<close> proves that
  whatever the schedule, the calls take effect one after the other.
\<close>

section \<open>The three parts of a call\<close>

type_synonym 'c memory = "remote_ptr \<Rightarrow> 'c option"

text \<open>The allocations of a call itself: the first address of each, and all addresses it covers.\<close>

type_synonym copies = "remote_ptr \<Rightarrow> remote_ptr list option"

definition covered :: "copies \<Rightarrow> remote_ptr set" where
  "covered al = (\<Union>as \<in> ran al. set as)"

lemma covered_simps [simp]:
  "covered Map.empty = {}" "p \<notin> dom al \<Longrightarrow> covered (al(p \<mapsto> as)) = set as \<union> covered al"
  by (auto simp: covered_def domIff)

lemma in_covered: "al p = Some as \<Longrightarrow> set as \<subseteq> covered al"
  by (auto simp: covered_def ran_def)

text \<open>After it has given the lock back a call only frees its allocations and returns.\<close>

primrec leaving :: "'r \<Rightarrow> ('c, 'r) prog \<Rightarrow> copies \<Rightarrow> bool" where
  "leaving r (Return r') = (\<lambda>al. r' = r)"
| "leaving r Undefined = (\<lambda>al. False)"
| "leaving r Out_of_fuel = (\<lambda>al. False)"
| "leaving r (Allocate T n k) = (\<lambda>al. False)"
| "leaving r (Deallocate T n p k) = (\<lambda>al. p \<in> dom al \<and> leaving r k (al(p := None)))"
| "leaving r (Read T n p k) = (\<lambda>al. False)"
| "leaving r (Write p c tmp k) = (\<lambda>al. False)"
| "leaving r (CompareAndSwap p c c' k) = (\<lambda>al. False)"
| "leaving r (Load p k) = (\<lambda>al. False)"
| "leaving r (Store p c k) = (\<lambda>al. False)"

text \<open>
  What the calls share: the null pointer, the addresses of the locks, the memory that does not
  change, the allocations that stay, and the two values of a lock.
\<close>

record 'c shared =
  nul :: remote_ptr
  locks :: "remote_ptr set"
  fixed :: "'c memory"
  kept :: copies
  unl :: 'c
  lck :: 'c

text \<open>A pointer \<open>p\<close> to the addresses \<open>as\<close> that the library may hand out to a call on node \<open>self\<close> with local memory \<open>m\<close>.\<close>

definition fresh_for :: "'c shared \<Rightarrow> nat \<Rightarrow> 'c memory \<Rightarrow> remote_ptr \<Rightarrow> remote_ptr list \<Rightarrow> bool" where
  "fresh_for S self m p as \<longleftrightarrow>
     (\<forall>a \<in> set as. m a = None \<and> a \<notin> locks S \<and> fixed S a = None) \<and> p \<noteq> nul S \<and> ptr_id p = self"

text \<open>
  \<open>locked S l self Q p m al\<close>: from local memory \<open>m\<close>, of which the blocks \<open>al\<close> are allocations of
  the call itself, the rest \<open>p\<close> of the call accesses local memory, and loads from memory that does not
  change, whatever addresses and contents it gets from the library; it ends with the write that frees
  the lock \<open>l\<close>, when a part \<open>D\<close> of the local memory, given back, satisfies \<open>Q\<close> together with the result.
\<close>

definition splits_off :: "copies \<Rightarrow> remote_ptr set \<Rightarrow> bool" where
  "splits_off al D \<longleftrightarrow> (\<forall>p as. al p = Some as \<longrightarrow> p \<notin> D \<longrightarrow> set as \<inter> D = {})"

primrec locked :: "'c shared \<Rightarrow> remote_ptr \<Rightarrow> nat \<Rightarrow> ('r \<Rightarrow> 'c memory \<Rightarrow> bool) \<Rightarrow> ('c, 'r) prog
    \<Rightarrow> 'c memory \<Rightarrow> copies \<Rightarrow> bool" where
  "locked S l self Q (Return r) = (\<lambda>m al. False)"
| "locked S l self Q Undefined = (\<lambda>m al. False)"
| "locked S l self Q Out_of_fuel = (\<lambda>m al. False)"
| "locked S l self Q (Allocate T n k) = (\<lambda>m al. ctype_ok T \<and> n * ct_cells T = 1 \<and>
     (\<forall>p c. fresh_for S self m p [p] \<and> ct_fresh T c \<longrightarrow> locked S l self Q (k p) (m(p \<mapsto> c)) (al(p \<mapsto> [p]))))"
| "locked S l self Q (Deallocate T n p k) = (\<lambda>m al.
     \<exists>as. al p = Some as \<and> locked S l self Q k (m |` (- set as)) (al(p := None)))"
| "locked S l self Q (Read T n q k) = (\<lambda>m al. ctype_ok T \<and> n * ct_cells T = 1 \<and>
     (\<exists>c. m q = Some c \<and>
        (\<forall>p. fresh_for S self m p [p] \<longrightarrow> locked S l self Q (k p) (m(p \<mapsto> c)) (al(p \<mapsto> [p])))))"
| "locked S l self Q (Write p c tmp k) = (\<lambda>m al.
     if p = l then c = unl S \<and> (\<exists>t. tmp = Some t \<and> m t \<noteq> None \<and>
        (\<forall>y. \<exists>D r. leaving r k (al |` (- D)) \<and> splits_off al D \<and> Q r ((m(t \<mapsto> y)) |` D)))
     else m p \<noteq> None \<and> tmp = None \<and> locked S l self Q k (m(p \<mapsto> c)) al)"
| "locked S l self Q (CompareAndSwap p c c' k) = (\<lambda>m al. False)"
| "locked S l self Q (Load p k) = (\<lambda>m al. ptr_id p = self \<and>
     (\<exists>c. (fixed S ++ m) p = Some c \<and> locked S l self Q (k c) m al))"
| "locked S l self Q (Store p c k) = (\<lambda>m al. ptr_id p = self \<and> m p \<noteq> None \<and> locked S l self Q k (m(p \<mapsto> c)) al)"

text \<open>
  \<open>spinning S l self G p m al\<close>: the call reads local memory and memory that does not change, frees
  copies, and tries to swap the lock \<open>l\<close>; if it succeeds, what follows satisfies \<open>G\<close>, otherwise it may
  try again or run out of fuel, and is then no longer \<open>spinning\<close>.  It may also try to swap memory that
  does not change and holds something else than it expects.
\<close>

primrec spinning :: "'c shared \<Rightarrow> remote_ptr \<Rightarrow> nat \<Rightarrow> (('c, 'r) prog \<Rightarrow> 'c memory \<Rightarrow> copies \<Rightarrow> bool)
    \<Rightarrow> ('c, 'r) prog \<Rightarrow> 'c memory \<Rightarrow> copies \<Rightarrow> bool" where
  "spinning S l self G (Return r) = (\<lambda>m al. False)"
| "spinning S l self G Undefined = (\<lambda>m al. False)"
| "spinning S l self G Out_of_fuel = (\<lambda>m al. False)"
| "spinning S l self G (Allocate T n k) = (\<lambda>m al. False)"
| "spinning S l self G (Deallocate T n p k) = (\<lambda>m al.
     \<exists>as. al p = Some as \<and> spinning S l self G k (m |` (- set as)) (al(p := None)))"
| "spinning S l self G (Read T n q k) = (\<lambda>m al. ctype_ok T \<and> 0 < n * ct_cells T \<and>
     (\<exists>cs. map (fixed S ++ m) (block T n q) = map Some cs \<and>
        (\<forall>p. fresh_for S self m p (block T n p) \<longrightarrow>
           spinning S l self G (k p) (m(block T n p [\<mapsto>] cs)) (al(p \<mapsto> block T n p)))))"
| "spinning S l self G (Write p c tmp k) = (\<lambda>m al. False)"
| "spinning S l self G (CompareAndSwap p c c' k) = (\<lambda>m al.
     if p = l then c = unl S \<and> c' = lck S \<and>
       G (k (unl S)) m al \<and> (k (lck S) = Out_of_fuel \<or> spinning S l self G (k (lck S)) m al)
     else \<exists>v. fixed S p = Some v \<and> v \<noteq> c \<and> spinning S l self G (k v) m al)"
| "spinning S l self G (Load p k) = (\<lambda>m al. ptr_id p = self \<and>
     (\<exists>c. (fixed S ++ m) p = Some c \<and> spinning S l self G (k c) m al))"
| "spinning S l self G (Store p c k) = (\<lambda>m al. False)"

definition waiting :: "'c shared \<Rightarrow> remote_ptr \<Rightarrow> nat \<Rightarrow> (('c, 'r) prog \<Rightarrow> 'c memory \<Rightarrow> copies \<Rightarrow> bool)
    \<Rightarrow> ('c, 'r) prog \<Rightarrow> 'c memory \<Rightarrow> copies \<Rightarrow> bool" where
  "waiting S l self G p m al \<longleftrightarrow> p = Out_of_fuel \<or> spinning S l self G p m al"

section \<open>Pieces that calls share\<close>

definition own_blocks :: "'c memory \<Rightarrow> copies \<Rightarrow> bool" where
  "own_blocks m al \<longleftrightarrow> (\<forall>p as. al p = Some as \<longrightarrow> p \<in> set as \<and> set as \<subseteq> dom m)"

lemma own_blocks_empty [simp]: "own_blocks m Map.empty"
  by (simp add: own_blocks_def)

lemma own_blocks_vacant: "own_blocks m al \<Longrightarrow> m q = None \<Longrightarrow> al q = None \<and> q \<notin> covered al"
  unfolding own_blocks_def covered_def ran_def by (cases "al q") blast+

lemma own_blocks_mono: "own_blocks m al \<Longrightarrow> dom m \<subseteq> dom m' \<Longrightarrow> own_blocks m' al"
  by (force simp: own_blocks_def)

lemma own_blocks_upd [simp]: "own_blocks m al \<Longrightarrow> own_blocks (m(a \<mapsto> c)) al"
  by (rule own_blocks_mono) auto

lemma own_blocks_add [simp]: "own_blocks m al \<Longrightarrow> own_blocks (m(q \<mapsto> c)) (al(q \<mapsto> [q]))"
  by (force simp: own_blocks_def)

lemma own_blocks_apart:
  assumes "own_blocks m al" "D \<inter> covered al = {}"
  shows "al |` (- D) = al" "splits_off al D"
proof -
  have "D \<inter> dom al = {}" using assms by (force simp: own_blocks_def covered_def ran_def)
  then show "al |` (- D) = al" by (intro ext) (metis Compl_iff disjoint_iff domIff restrict_map_def)
  show "splits_off al D" using assms(2) by (force simp: splits_off_def covered_def ran_def)
qed

text \<open>The lock is given back through a staging buffer, which is freed.\<close>

lemma locked_give:
  assumes T: "ctype_ok T" "ct_cells T = 1" and S: "v = unl S" and al: "own_blocks m al" and D: "D \<subseteq> dom m"
    and out: "leaving r k (al |` (- D))" "splits_off al D" "Q r (m |` D)"
  shows "locked S l self Q (Allocate T 1 (\<lambda>t. Write l v (Some t) (Deallocate T n t k))) m al"
  unfolding locked.simps(4,7)
proof (intro conjI allI impI)
  fix t c
  assume t: "fresh_for S self m t [t] \<and> ct_fresh T c"
  then have n: "m t = None" "t \<notin> D" "al t = None" "t \<notin> covered al"
    using D own_blocks_vacant [OF al, of t] by (auto simp: fresh_for_def)
  have "(m(t \<mapsto> c, t \<mapsto> y)) |` D = m |` D" for y using n(2) by (auto simp: restrict_map_def fun_eq_iff)
  moreover have "((al(t \<mapsto> [t])) |` (- D))(t := None) = al |` (- D)" "((al(t \<mapsto> [t])) |` (- D)) t = Some [t]"
    using n(2,3) by (auto simp: restrict_map_def fun_eq_iff)
  moreover have "splits_off (al(t \<mapsto> [t])) D" using out(2) n(2) by (auto simp: splits_off_def)
  ultimately have "leaving r (Deallocate T n t k) ((al(t \<mapsto> [t])) |` (- D)) \<and> splits_off (al(t \<mapsto> [t])) D \<and>
      Q r ((m(t \<mapsto> c, t \<mapsto> y)) |` D)" for y
    using out by (simp add: domIff del: fun_upd_restrict restrict_fun_upd)
  then have "v = unl S \<and> (\<exists>t'. Some t = Some t' \<and> (m(t \<mapsto> c)) t' \<noteq> None \<and>
      (\<forall>y. \<exists>D r. leaving r (Deallocate T n t k) ((al(t \<mapsto> [t])) |` (- D)) \<and> splits_off (al(t \<mapsto> [t])) D \<and>
        Q r ((m(t \<mapsto> c, t' \<mapsto> y)) |` D)))"
    using S by (intro conjI exI [of _ t] exI [of _ D] exI [of _ r] allI refl) (auto simp del: leaving.simps)
  then show "if l = l then v = unl S \<and> (\<exists>t'. Some t = Some t' \<and> (m(t \<mapsto> c)) t' \<noteq> None \<and>
      (\<forall>y. \<exists>D r. leaving r (Deallocate T n t k) ((al(t \<mapsto> [t])) |` (- D)) \<and> splits_off (al(t \<mapsto> [t])) D \<and>
        Q r ((m(t \<mapsto> c, t' \<mapsto> y)) |` D)))
    else (m(t \<mapsto> c)) l \<noteq> None \<and> Some t = None \<and>
      locked S l self Q (Deallocate T n t k) (m(t \<mapsto> c, l \<mapsto> v)) (al(t \<mapsto> [t]))"
    by (rule if_P [OF refl, THEN iffD2])
qed (use T in simp_all)

text \<open>A copy of one cell is made, and freed.\<close>

lemma spinning_read_one:
  assumes "ctype_ok T" "n * ct_cells T = 1" "(fixed S ++ m) q = Some c"
    and "\<And>p. fresh_for S self m p [p] \<Longrightarrow> spinning S l self G (k p) (m(p \<mapsto> c)) (al(p \<mapsto> [p]))"
  shows "spinning S l self G (Read T n q k) m al"
proof -
  have b: "block T n p = [p]" for p using assms(2) by (simp add: block_def)
  show ?thesis
    unfolding spinning.simps b using assms by (intro conjI exI [of _ "[c]"] allI impI) simp_all
qed

lemma locked_free:
  assumes "m q = None" "own_blocks m al" "locked S l self Q k m al"
  shows "locked S l self Q (Deallocate T n q k) (m(q \<mapsto> c)) (al(q \<mapsto> [q]))"
proof -
  have "(m(q \<mapsto> c)) |` (- set [q]) = m" "(al(q \<mapsto> [q]))(q := None) = al"
    using assms(1) own_blocks_vacant [OF assms(2,1)] by (auto simp: restrict_map_def fun_eq_iff)
  then show ?thesis using assms(3) by (simp del: fun_upd_upd)
qed

section \<open>Schedules\<close>

text \<open>A program gets smaller with every step.\<close>

lemma step_wf:
  fixes R :: "('p, 'c) rome"
  shows "wf {(p', p :: ('c, 'r) prog). \<exists>self h h'. step R self p h = Some (p', h')}"
proof (rule wfUNIVI)
  fix P :: "('c, 'r) prog \<Rightarrow> bool" and p
  assume "\<forall>p. (\<forall>p'. (p', p) \<in> {(p', p). \<exists>self h h'. step R self p h = Some (p', h')} \<longrightarrow> P p') \<longrightarrow> P p"
  then have smaller: "(\<And>p' self h h'. step R self p h = Some (p', h') \<Longrightarrow> P p') \<Longrightarrow> P p" for p by blast
  show "P p" by (induction p) (rule smaller, auto split: prod.splits option.splits if_splits)+
qed

lemma schedule_append:
  assumes "schedule R is1 ts h = Some (ts1, h1)" "schedule R is2 ts1 h1 = Some (ts2, h2)"
  shows "schedule R (is1 @ is2) ts h = Some (ts2, h2)"
  using assms
proof (induction is1 arbitrary: ts h)
  case (Cons i is1)
  then show ?case by (auto split: if_splits prod.splits option.splits)
qed simp

section \<open>Who owns which memory\<close>

text \<open>The shared memory is there: the locks, what does not change, and the allocations that stay.\<close>

definition standing :: "'c shared \<Rightarrow> ('p, 'c) heap \<Rightarrow> bool" where
  "standing S h \<longleftrightarrow> (\<forall>a \<in> locks S. cells h a \<noteq> None \<and> fixed S a = None) \<and> fixed S \<subseteq>\<^sub>m cells h \<and> kept S \<subseteq>\<^sub>m allocs h"

lemma standing_lock: "standing S h \<Longrightarrow> a \<in> locks S \<Longrightarrow> cells h a \<noteq> None \<and> fixed S a = None"
  by (simp add: standing_def)

lemma standing_fixed: "standing S h \<Longrightarrow> fixed S a = Some c \<Longrightarrow> cells h a = Some c"
  by (force simp: standing_def map_le_def dom_def)

lemma standing_kept: "standing S h \<Longrightarrow> kept S p = Some as \<Longrightarrow> allocs h p = Some as"
  by (force simp: standing_def map_le_def dom_def)

lemma standing_free:
  assumes "standing S h" "cells h a = None"
  shows "a \<notin> locks S" "fixed S a = None"
  using standing_lock [OF assms(1)] assms(2) standing_fixed [OF assms(1), of a] by (blast, cases "fixed S a") auto

lemma standingI:
  assumes "\<And>a. a \<in> locks S \<Longrightarrow> cells h a \<noteq> None \<and> fixed S a = None" "\<And>a c. fixed S a = Some c \<Longrightarrow> cells h a = Some c"
    "\<And>p as. kept S p = Some as \<Longrightarrow> allocs h p = Some as"
  shows "standing S h"
  using assms by (auto simp: standing_def map_le_def)

text \<open>\<open>h'\<close> has the shared memory of \<open>h\<close>.\<close>

definition untouched :: "'c shared \<Rightarrow> ('p, 'c) heap \<Rightarrow> ('p, 'c) heap \<Rightarrow> bool" where
  "untouched S h h' \<longleftrightarrow> (\<forall>a. a \<in> locks S \<or> fixed S a \<noteq> None \<longrightarrow> cells h' a = cells h a) \<and>
     (\<forall>p. kept S p \<noteq> None \<longrightarrow> allocs h' p = allocs h p)"

lemma untouched_standing: "untouched S h h' \<Longrightarrow> standing S h \<Longrightarrow> standing S h'"
  by (auto simp: untouched_def standing_def map_le_def dom_def)

lemma standing_relock:
  assumes "standing S h" "l \<in> locks S" "cells h' l \<noteq> None" "allocs h' = allocs h"
    "\<forall>a. a \<noteq> l \<longrightarrow> a \<in> locks S \<or> fixed S a \<noteq> None \<longrightarrow> cells h' a = cells h a"
  shows "standing S h'"
proof (rule standingI)
  show "cells h' a \<noteq> None \<and> fixed S a = None" if "a \<in> locks S" for a
    using standing_lock [OF assms(1) that] assms(3) assms(5) [rule_format, of a] that by (cases "a = l") simp_all
  show "cells h' a = Some c" if f: "fixed S a = Some c" for a c
  proof -
    have "a \<noteq> l" using f standing_lock [OF assms(1,2)] by auto
    then show ?thesis using assms(5) [rule_format, of a] f standing_fixed [OF assms(1) f] by simp
  qed
qed (simp add: assms(4) standing_kept [OF assms(1)])

text \<open>
  \<open>divided S h M A\<close>: the cells \<open>M x\<close> of the owners \<open>x\<close> are pairwise disjoint parts of the memory
  that is not shared, and \<open>A x\<close> are live allocations among them.
\<close>

definition divided :: "'c shared \<Rightarrow> ('p, 'c) heap \<Rightarrow> ('o \<Rightarrow> 'c memory) \<Rightarrow> ('o \<Rightarrow> copies) \<Rightarrow> bool" where
  "divided S h M A \<longleftrightarrow>
     (\<forall>x a c. M x a = Some c \<longrightarrow> cells h a = Some c \<and> a \<notin> locks S \<and> fixed S a = None) \<and>
     (\<forall>x p as. A x p = Some as \<longrightarrow> p \<in> set as \<and> set as \<subseteq> dom (M x) \<and> allocs h p = Some as \<and> kept S p = None) \<and>
     (\<forall>x p q as bs. A x p = Some as \<longrightarrow> A x q = Some bs \<longrightarrow> set as \<inter> set bs \<noteq> {} \<longrightarrow> p = q) \<and>
     (\<forall>x y a. x \<noteq> y \<longrightarrow> M x a = None \<or> M y a = None)"

lemma divided_cell: "divided S h M A \<Longrightarrow> M x a = Some c \<Longrightarrow> cells h a = Some c \<and> a \<notin> locks S \<and> fixed S a = None"
  by (simp add: divided_def)

lemma divided_alloc:
  "divided S h M A \<Longrightarrow> A x p = Some as \<Longrightarrow> p \<in> set as \<and> set as \<subseteq> dom (M x) \<and> allocs h p = Some as \<and> kept S p = None"
  by (auto simp: divided_def)

lemma divided_blocks: "divided S h M A \<Longrightarrow> A x p = Some as \<Longrightarrow> A x q = Some bs \<Longrightarrow> set as \<inter> set bs \<noteq> {} \<Longrightarrow> p = q"
  unfolding divided_def by iprover

lemma divided_vacant: "divided S h M A \<Longrightarrow> cells h a = None \<Longrightarrow> M x a = None"
  by (metis divided_cell not_None_eq option.distinct(1))

lemma divided_other: "divided S h M A \<Longrightarrow> M x a = Some c \<Longrightarrow> y \<noteq> x \<Longrightarrow> M y a = None"
  unfolding divided_def by (metis option.distinct(1))

lemma divided_visible: "divided S h M A \<Longrightarrow> standing S h \<Longrightarrow> (fixed S ++ M x) a = Some c \<Longrightarrow> cells h a = Some c"
  using divided_cell standing_fixed by (fastforce simp: map_add_Some_iff)

lemma dividedI:
  assumes "\<And>x a c. M x a = Some c \<Longrightarrow> cells h a = Some c" "\<And>x a c. M x a = Some c \<Longrightarrow> a \<notin> locks S \<and> fixed S a = None"
    "\<And>x p as. A x p = Some as \<Longrightarrow> p \<in> set as \<and> set as \<subseteq> dom (M x)"
    "\<And>x p as. A x p = Some as \<Longrightarrow> allocs h p = Some as \<and> kept S p = None"
    "\<And>x p q as bs. A x p = Some as \<Longrightarrow> A x q = Some bs \<Longrightarrow> set as \<inter> set bs \<noteq> {} \<Longrightarrow> p = q"
    "\<And>x y a c. M x a = Some c \<Longrightarrow> y \<noteq> x \<Longrightarrow> M y a = None"
  shows "divided S h M A"
proof -
  have "M x a = None \<or> M y a = None" if "x \<noteq> y" for x y a
    using assms(6) [of x a _ y] that by (cases "M x a") auto
  then show ?thesis unfolding divided_def using assms(1-4) assms(5) by (intro conjI allI impI) blast+
qed

lemma upds_in:
  "length as = length cs \<Longrightarrow> a \<in> set as \<Longrightarrow> (f(as [\<mapsto>] cs)) a = (g(as [\<mapsto>] cs)) a"
  "length as = length cs \<Longrightarrow> dom (f(as [\<mapsto>] cs)) = set as \<union> dom f"
proof -
  assume l: "length as = length cs"
  then show d: "dom (f(as [\<mapsto>] cs)) = set as \<union> dom f" by (simp add: Un_commute)
  have "dom (map_of (rev (zip as cs))) = set as" using l by (simp add: dom_map_of_zip dom_map_of_conv_image_fst flip: set_map)
  then show "(f(as [\<mapsto>] cs)) a = (g(as [\<mapsto>] cs)) a" if "a \<in> set as"
    using that unfolding map_upds_def by (simp add: map_add_dom_app_simps(1))
qed

lemma divided_add:
  assumes "divided S h M A" "standing S h" "allocated h h' p as cs" "p \<in> set as" "length as = length cs"
  shows "divided S h' (M(x := (M x)(as [\<mapsto>] cs))) (A(x := (A x)(p \<mapsto> as)))"
proof (rule dividedI)
  have f: "cells h a = None" if "a \<in> set as" for a using assms(3) that by (simp add: allocated_def)
  have h': "cells h' = (cells h)(as [\<mapsto>] cs)" "allocs h' = (allocs h)(p \<mapsto> as)" "allocs h p = None"
    using assms(3) by (simp_all add: allocated_def)
  have n: "M y a = None" if "a \<in> set as" for y a by (rule divided_vacant [OF assms(1) f [OF that]])
  have np: "kept S p = None" using standing_kept [OF assms(2), of p] h'(3) by (cases "kept S p") auto
  note pl = standing_free [OF assms(2) f]
  have apart: "set as \<inter> set bs = {}" if "A y q = Some bs" for y q bs
    using divided_alloc [OF assms(1) that] n by (fastforce simp: dom_def)
  note o = divided_cell [OF assms(1)] divided_alloc [OF assms(1)] divided_other [OF assms(1)] divided_blocks [OF assms(1)]
  note up = upds_in [OF assms(5)]
  have at: "((M x)(as [\<mapsto>] cs)) a = (if a \<in> set as then cells h' a else M x a)" for a
    using up(1) by (auto simp: h'(1) map_upds_apply_nontin)
  have out: "cells h' a = cells h a" if "a \<notin> set as" for a using that by (simp add: h'(1) map_upds_apply_nontin)
  fix y z q r a d bs es
  show "(A(x := (A x)(p \<mapsto> as))) y q = Some bs \<Longrightarrow> (A(x := (A x)(p \<mapsto> as))) y r = Some es \<Longrightarrow> set bs \<inter> set es \<noteq> {} \<Longrightarrow> q = r"
    using o(4) [of y q bs r es] apart [of x r es] apart [of x q bs] by (auto simp: Int_commute split: if_splits)
  show "(M(x := (M x)(as [\<mapsto>] cs))) y a = Some d \<Longrightarrow> cells h' a = Some d"
    using o(1) n out by (cases "a \<in> set as") (auto simp: at split: if_splits)
  show "(M(x := (M x)(as [\<mapsto>] cs))) y a = Some d \<Longrightarrow> a \<notin> locks S \<and> fixed S a = None"
    using pl o(1) by (cases "a \<in> set as") (auto simp: at split: if_splits)
  show "(A(x := (A x)(p \<mapsto> as))) y q = Some bs \<Longrightarrow> q \<in> set bs \<and> set bs \<subseteq> dom ((M(x := (M x)(as [\<mapsto>] cs))) y)"
    using o(2) assms(4) up(2) [of "M x"] by (fastforce split: if_splits simp del: dom_map_upds)
  show "(A(x := (A x)(p \<mapsto> as))) y q = Some bs \<Longrightarrow> allocs h' q = Some bs \<and> kept S q = None"
    using o(2) [of y q bs] np h'(3) by (auto simp: h'(2) split: if_splits)
  show "(M(x := (M x)(as [\<mapsto>] cs))) y a = Some d \<Longrightarrow> z \<noteq> y \<Longrightarrow> (M(x := (M x)(as [\<mapsto>] cs))) z a = None"
    using o(3) n by (cases "a \<in> set as") (auto simp: at split: if_splits)
qed

lemma divided_drop:
  assumes "divided S h M A" "A x p = Some as" "cells h' = cells h |` (- set as)" "allocs h' = (allocs h)(p := None)"
  shows "divided S h' (M(x := M x |` (- set as))) (A(x := (A x)(p := None)))"
proof (rule dividedI)
  note al = divided_alloc [OF assms(1,2)]
  have n: "M y a = None" if "y \<noteq> x" "a \<in> set as" for y a
  proof -
    have "a \<in> dom (M x)" using al that(2) by blast
    then show ?thesis using divided_other [OF assms(1) _ that(1)] by blast
  qed
  note o = divided_cell [OF assms(1)] divided_alloc [OF assms(1)] divided_other [OF assms(1)] divided_blocks [OF assms(1)]
  fix y z q r a d bs es
  show "(A(x := (A x)(p := None))) y q = Some bs \<Longrightarrow> (A(x := (A x)(p := None))) y r = Some es \<Longrightarrow> set bs \<inter> set es \<noteq> {} \<Longrightarrow> q = r"
    using o(4) [of y q bs r es] by (auto split: if_splits)
  show "(M(x := M x |` (- set as))) y a = Some d \<Longrightarrow> cells h' a = Some d"
    using o(1) n by (auto simp: assms(3) restrict_map_def split: if_splits)
  show "(M(x := M x |` (- set as))) y a = Some d \<Longrightarrow> a \<notin> locks S \<and> fixed S a = None"
    using o(1) by (auto simp: restrict_map_def split: if_splits)
  show "q \<in> set bs \<and> set bs \<subseteq> dom ((M(x := M x |` (- set as))) y)" if "(A(x := (A x)(p := None))) y q = Some bs"
  proof (cases "y = x")
    case True
    then have "set bs \<inter> set as = {}" using o(4) [OF assms(2), of q bs] that by (auto split: if_splits)
    then show ?thesis using that o(2) [of y q bs] True by (auto split: if_splits)
  qed (use that o(2) in simp)
  show "(A(x := (A x)(p := None))) y q = Some bs \<Longrightarrow> allocs h' q = Some bs \<and> kept S q = None"
    using o(2) [of y q bs] n [of y p] al by (auto simp: assms(4) split: if_splits)
  show "(M(x := M x |` (- set as))) y a = Some d \<Longrightarrow> z \<noteq> y \<Longrightarrow> (M(x := M x |` (- set as))) z a = None"
    using o(3) [of y a d z] by (auto simp: restrict_map_def split: if_splits)
qed

lemma divided_set:
  assumes "divided S h M A" "M x p \<noteq> None" "cells h' = (cells h)(p \<mapsto> c)" "allocs h' = allocs h"
  shows "divided S h' (M(x := (M x)(p \<mapsto> c))) A"
proof (rule dividedI)
  obtain b where b: "M x p = Some b" using assms(2) by blast
  have n: "M y p = None" if "y \<noteq> x" for y by (rule divided_other [OF assms(1) b that])
  note o = divided_cell [OF assms(1)] divided_alloc [OF assms(1)] divided_other [OF assms(1)] divided_blocks [OF assms(1)]
  fix y z q r a d as bs
  show "(M(x := (M x)(p \<mapsto> c))) y a = Some d \<Longrightarrow> cells h' a = Some d"
    using o(1) n by (auto simp: assms(3) split: if_splits)
  show "(M(x := (M x)(p \<mapsto> c))) y a = Some d \<Longrightarrow> a \<notin> locks S \<and> fixed S a = None"
    using o(1) [OF b] o(1) by (auto split: if_splits)
  show "A y q = Some as \<Longrightarrow> q \<in> set as \<and> set as \<subseteq> dom ((M(x := (M x)(p \<mapsto> c))) y)"
    using o(2) by fastforce
  show "A y q = Some as \<Longrightarrow> allocs h' q = Some as \<and> kept S q = None"
    using o(2) by (simp add: assms(4))
  show "A y q = Some as \<Longrightarrow> A y r = Some bs \<Longrightarrow> set as \<inter> set bs \<noteq> {} \<Longrightarrow> q = r" by (rule o(4))
  show "(M(x := (M x)(p \<mapsto> c))) y a = Some d \<Longrightarrow> z \<noteq> y \<Longrightarrow> (M(x := (M x)(p \<mapsto> c))) z a = None"
    using o(3) n by (auto split: if_splits)
qed

lemma divided_lock:
  assumes "divided S h M A" "\<And>a. a \<notin> locks S \<Longrightarrow> cells h' a = cells h a" "allocs h' = allocs h"
  shows "divided S h' M A"
proof (rule dividedI)
  note o = divided_cell [OF assms(1)] divided_alloc [OF assms(1)] divided_other [OF assms(1)] divided_blocks [OF assms(1)]
  fix y z q r a d as bs
  show "M y a = Some d \<Longrightarrow> cells h' a = Some d" using o(1) [of y a d] assms(2) [of a] by simp
  show "M y a = Some d \<Longrightarrow> a \<notin> locks S \<and> fixed S a = None" using o(1) by blast
  show "A y q = Some as \<Longrightarrow> q \<in> set as \<and> set as \<subseteq> dom (M y)" using o(2) by blast
  show "A y q = Some as \<Longrightarrow> allocs h' q = Some as \<and> kept S q = None" using o(2) by (simp add: assms(3))
  show "A y q = Some as \<Longrightarrow> A y r = Some bs \<Longrightarrow> set as \<inter> set bs \<noteq> {} \<Longrightarrow> q = r" by (rule o(4))
  show "M y a = Some d \<Longrightarrow> z \<noteq> y \<Longrightarrow> M z a = None" by (rule o(3))
qed

text \<open>A part of what an owner has goes to an owner that has nothing.\<close>

lemma divided_split:
  assumes "divided S h M A" "M y = Map.empty" "A y = Map.empty" "x \<noteq> y" "splits_off (A x) D"
  shows "divided S h (M(x := M x |` (- D), y := M x |` D)) (A(x := A x |` (- D)))"
proof (rule dividedI)
  note o = divided_cell [OF assms(1)] divided_alloc [OF assms(1)] divided_other [OF assms(1)] divided_blocks [OF assms(1)]
  let ?M = "M(x := M x |` (- D), y := M x |` D)" and ?A = "A(x := A x |` (- D))"
  have A: "A w q = Some bs \<and> w \<noteq> y" "w = x \<Longrightarrow> set bs \<inter> D = {}" if "?A w q = Some bs" for w q bs
    using that assms(3-5) by (auto simp: restrict_map_def splits_off_def split: if_splits)
  fix w z q r a d as bs
  show "?M w a = Some d \<Longrightarrow> cells h a = Some d"
    using o(1) by (auto simp: restrict_map_def split: if_splits)
  show "?M w a = Some d \<Longrightarrow> a \<notin> locks S \<and> fixed S a = None"
    using o(1) by (auto simp: restrict_map_def split: if_splits)
  show "q \<in> set as \<and> set as \<subseteq> dom (?M w)" if "?A w q = Some as"
    using A [OF that] o(2) [of w q as] assms(4) by auto
  show "?A w q = Some as \<Longrightarrow> allocs h q = Some as \<and> kept S q = None" using A(1) [of w q as] o(2) [of w q as] by blast
  show "?A w q = Some as \<Longrightarrow> ?A w r = Some bs \<Longrightarrow> set as \<inter> set bs \<noteq> {} \<Longrightarrow> q = r"
    using A(1) [of w q as] A(1) [of w r bs] o(4) [of w q as r bs] by blast
  show "?M w a = Some d \<Longrightarrow> z \<noteq> w \<Longrightarrow> ?M z a = None"
    using o(3) [of w a d z] o(3) [of x a d z] o(3) [of w a d x] by (auto simp: restrict_map_def split: if_splits)
qed

text \<open>An owner takes over all that another one has.\<close>

lemma divided_join:
  assumes "divided S h M A" "A y = Map.empty" "x \<noteq> y"
  shows "divided S h (M(x := M x ++ M y, y := Map.empty)) A"
proof (rule dividedI)
  note o = divided_cell [OF assms(1)] divided_alloc [OF assms(1)] divided_other [OF assms(1)] divided_blocks [OF assms(1)]
  let ?M = "M(x := M x ++ M y, y := Map.empty)"
  fix w z q r a d as bs
  show "?M w a = Some d \<Longrightarrow> cells h a = Some d" using o(1) by (auto split: if_splits)
  show "?M w a = Some d \<Longrightarrow> a \<notin> locks S \<and> fixed S a = None" using o(1) by (auto split: if_splits)
  show "A w q = Some as \<Longrightarrow> q \<in> set as \<and> set as \<subseteq> dom (?M w)" using o(2) [of w q as] assms(2) by (cases "w = y") auto
  show "A w q = Some as \<Longrightarrow> allocs h q = Some as \<and> kept S q = None" using o(2) by blast
  show "A w q = Some as \<Longrightarrow> A w r = Some bs \<Longrightarrow> set as \<inter> set bs \<noteq> {} \<Longrightarrow> q = r" by (rule o(4))
  show "?M w a = Some d \<Longrightarrow> z \<noteq> w \<Longrightarrow> ?M z a = None"
    using o(3) [of w a d z] o(3) [of x a d z] o(3) [of y a d z] o(3) [of w a d y] o(3) [of w a d x]
    by (auto split: if_splits)
qed

section \<open>One verb\<close>

text \<open>
  What this needs of the library beyond its contract for one caller: the staging buffer of a
  remote write stays allocated memory.
\<close>

locale shared_pool = memory_pool R ok for R :: "('p, 'c) rome" and ok +
  assumes write_staging: "ok h \<Longrightarrow> cells h p \<noteq> None \<Longrightarrow> cells h t \<noteq> None \<Longrightarrow> t \<noteq> p \<Longrightarrow>
      cells (rome_write R self p c (Some t) h) t \<noteq> None"
begin

lemma one_block: "n * ct_cells T = 1 \<Longrightarrow> block T n p = [p]"
  by (simp add: block_def)

lemma block_first: "0 < n * ct_cells T \<Longrightarrow> p \<in> set (block T n p)"
  unfolding in_set_block by (rule exI [of _ 0]) simp

text \<open>Changes to memory that is not shared.\<close>

lemma untouched_fresh:
  assumes "standing S h" "allocated h h' p as cs"
  shows "untouched S h h'"
proof -
  have "a \<notin> set as" if "a \<in> locks S \<or> fixed S a \<noteq> None" for a
    using standing_free [OF assms(1), of a] assms(2) that by (auto simp: allocated_def)
  moreover have "q \<noteq> p" if "kept S q \<noteq> None" for q
    using standing_kept [OF assms(1), of p] assms(2) that by (auto simp: allocated_def)
  ultimately show ?thesis using assms(2) by (auto simp: untouched_def allocated_def map_upds_apply_nontin)
qed

lemma untouched_own:
  assumes "divided S h M A" "\<And>a. M x a = None \<Longrightarrow> cells h' a = cells h a" "\<And>p. kept S p \<noteq> None \<Longrightarrow> allocs h' p = allocs h p"
  shows "untouched S h h'"
proof -
  have "M x a = None" if "a \<in> locks S \<or> fixed S a \<noteq> None" for a
    using divided_cell [OF assms(1), of x a] that by (cases "M x a") auto
  then show ?thesis using assms(2,3) by (simp add: untouched_def)
qed

lemma free_step:
  assumes "ok h" "divided S h M A" "A x q = Some as" "rome_deallocate R self T n q h = h'"
  shows "ok h' \<and> divided S h' (M(x := M x |` (- set as))) (A(x := (A x)(q := None))) \<and> untouched S h h'"
proof -
  note al = divided_alloc [OF assms(2,3)]
  then have "allocs h q = Some as" by blast
  note d = deallocate_frees [OF assms(1) this assms(4)]
  have "divided S h' (M(x := M x |` (- set as))) (A(x := (A x)(q := None)))"
    by (rule divided_drop [OF assms(2,3)]) (use d in auto)
  moreover have "untouched S h h'"
    by (rule untouched_own [OF assms(2), where x = x]) (use d al in \<open>auto simp: restrict_map_def\<close>)
  ultimately show ?thesis using d by blast
qed

lemma fresh_block:
  assumes "standing S h" "divided S h M A" "allocated h h' q as cs" "q \<noteq> nul S" "ptr_id q = self"
  shows "fresh_for S self (M x) q as"
proof -
  have "cells h a = None" if "a \<in> set as" for a using assms(3) that by (simp add: allocated_def)
  then show ?thesis
    using divided_vacant [OF assms(2)] standing_free [OF assms(1)] assms(4,5) by (auto simp: fresh_for_def)
qed

lemma copy_step:
  assumes "ok h" "standing S h" "divided S h M A" "ctype_ok T" "0 < n * ct_cells T" "map (cells h) (block T n a) = map Some cs"
    "rome_read R self T n a h = (q, h')" "nul S = remote_nullptr R"
  shows "ok h' \<and> divided S h' (M(x := (M x)(block T n q [\<mapsto>] cs))) (A(x := (A x)(q \<mapsto> block T n q))) \<and> untouched S h h' \<and>
    fresh_for S self (M x) q (block T n q)"
proof -
  note cp = read_copies [OF assms(1,4,7,6)] and lc = read_local [OF assms(1,4,7)]
  have len: "length (block T n q) = length cs" using arg_cong [OF assms(6), of length] by simp
  show ?thesis
    using divided_add [OF assms(3,2) cp block_first [OF assms(5)] len] untouched_fresh [OF assms(2) cp] lc
      fresh_block [OF assms(2,3) cp] assms(8) by simp
qed

lemma leaving_step:
  assumes "ok h" "divided S h M A" "leaving r p (A x)" "step R self p h = Some (p', h')"
  shows "ok h' \<and> (\<exists>m' al'. leaving r p' al' \<and> divided S h' (M(x := m')) (A(x := al'))) \<and> untouched S h h'"
proof (cases p)
  case (Deallocate T n q k)
  obtain as where q: "A x q = Some as" "leaving r k ((A x)(q := None))" using assms(3) by (auto simp: Deallocate)
  have p': "p' = k" "rome_deallocate R self T n q h = h'" using assms(4) by (auto simp: Deallocate)
  show ?thesis using free_step [OF assms(1,2) q(1) p'(2)] q(2) p'(1) by blast
qed (use assms(3,4) in auto)

lemma leaving_not_stuck:
  "leaving r p al \<Longrightarrow> p = Return r \<or> step R self p h \<noteq> None"
  by (cases p) auto

text \<open>A verb of the first part, unless it is the swap that succeeds.\<close>

lemma spinning_fuel: "spinning S l self G p m al \<Longrightarrow> p \<noteq> Out_of_fuel"
  by auto

lemma spinning_stays:
  assumes "spinning S l self G p' m' al'" "divided S h' (M(x := m')) (A(x := al'))" "untouched S h h'" "ok h'"
  shows "ok h' \<and>
    ((\<exists>m' al'. waiting S l self G p' m' al' \<and> divided S h' (M(x := m')) (A(x := al')) \<and> untouched S h h' \<and>
        (cells h l = Some (unl S) \<longrightarrow> p' \<noteq> Out_of_fuel)) \<or>
     (cells h l = Some (unl S) \<and> cells h' = (cells h)(l \<mapsto> lck S) \<and> allocs h' = allocs h \<and> G p' (M x) (A x)))"
  using assms spinning_fuel unfolding waiting_def by blast

lemma spinning_step:
  assumes "ok h" "standing S h" "divided S h M A" "waiting S l self G p (M x) (A x)" "nul S = remote_nullptr R"
    "step R self p h = Some (p', h')" "l \<in> locks S" "cells h l \<in> {Some (unl S), Some (lck S)}" "unl S \<noteq> lck S"
  shows "ok h' \<and>
    ((\<exists>m' al'. waiting S l self G p' m' al' \<and> divided S h' (M(x := m')) (A(x := al')) \<and> untouched S h h' \<and>
        (cells h l = Some (unl S) \<longrightarrow> p' \<noteq> Out_of_fuel)) \<or>
     (cells h l = Some (unl S) \<and> cells h' = (cells h)(l \<mapsto> lck S) \<and> allocs h' = allocs h \<and> G p' (M x) (A x)))"
proof (cases p)
  case (Read T n a k)
  obtain cs where lk: "ctype_ok T" "0 < n * ct_cells T" "map (fixed S ++ M x) (block T n a) = map Some cs"
    "\<And>q. fresh_for S self (M x) q (block T n q) \<Longrightarrow>
      spinning S l self G (k q) ((M x)(block T n q [\<mapsto>] cs)) ((A x)(q \<mapsto> block T n q))"
    using assms(4) unfolding Read waiting_def spinning.simps by (elim disjE) (simp, iprover)
  obtain q where q: "rome_read R self T n a h = (q, h')" "p' = k q"
    using assms(6) by (auto simp: Read split: prod.splits)
  have "map (cells h) (block T n a) = map Some cs"
  proof (rule nth_equalityI)
    show "length (map (cells h) (block T n a)) = length (map Some cs)" using arg_cong [OF lk(3), of length] by simp
    show "map (cells h) (block T n a) ! j = map Some cs ! j" if "j < length (map (cells h) (block T n a))" for j
      using arg_cong [OF lk(3), of "\<lambda>ys. ys ! j"] divided_visible [OF assms(3,2)] that arg_cong [OF lk(3), of length] by simp
  qed
  from copy_step [OF assms(1-3) lk(1,2) this q(1) assms(5), of x] show ?thesis
    using lk(4) q(2) by (intro spinning_stays) blast+
next
  case (Deallocate T n q k)
  obtain as where q: "A x q = Some as" "spinning S l self G k (M x |` (- set as)) ((A x)(q := None))"
    using assms(4) by (auto simp: Deallocate waiting_def)
  have p': "p' = k" "rome_deallocate R self T n q h = h'" using assms(6) by (auto simp: Deallocate)
  show ?thesis using free_step [OF assms(1,3) q(1) p'(2)] q(2) p'(1) by (intro spinning_stays) blast+
next
  case (Load a k)
  obtain c where lk: "(fixed S ++ M x) a = Some c" "spinning S l self G (k c) (M x) (A x)"
    using assms(4) unfolding Load waiting_def spinning.simps by (elim disjE) (simp, iprover)
  have "cells h a = Some c" by (rule divided_visible [OF assms(3,2) lk(1)])
  then have p': "p' = k c" "h' = h" using assms(6) by (auto simp: Load split: if_splits)
  have "divided S h' (M(x := M x)) (A(x := A x))" "untouched S h h'" using assms(3) p'(2) by (simp_all add: untouched_def)
  then show ?thesis using lk(2) p' assms(1) by (intro spinning_stays [where m' = "M x" and al' = "A x"]) simp_all
next
  case (CompareAndSwap a c c' k)
  obtain w where w: "rome_cas R self a c c' h = (w, h')" "p' = k w"
    using assms(6) by (auto simp: CompareAndSwap split: prod.splits)
  have same: "divided S h' (M(x := M x)) (A(x := A x))" "untouched S h h'" if "cells h' = cells h" "allocs h' = allocs h"
  proof -
    have "divided S h' M A" by (rule divided_lock [OF assms(3)]) (simp_all add: that)
    then show "divided S h' (M(x := M x)) (A(x := A x))" by simp
  qed (simp add: untouched_def that)
  show ?thesis
  proof (cases "a = l")
    case True
    have p: "c = unl S" "c' = lck S" "G (k (unl S)) (M x) (A x)" "waiting S l self G (k (lck S)) (M x) (A x)"
      using assms(4) by (auto simp: CompareAndSwap waiting_def True)
    obtain v where v: "cells h l = Some v" "v \<in> {unl S, lck S}" using assms(8) by auto
    note cs = cas_swaps [OF assms(1) v(1) w(1) [unfolded True p(1,2)]]
    show ?thesis
    proof (cases "v = unl S")
      case True
      then show ?thesis using cs v(1) w(2) p(3) by simp
    next
      case False
      have h': "cells h' = cells h" "allocs h' = allocs h" "p' = k (lck S)" using cs False w(2) v(2) by auto
      have "cells h l \<noteq> Some (unl S)" using False v(1) by simp
      then show ?thesis using cs p(4) h'(3) same [OF h'(1,2)] by blast
    qed
  next
    case False
    obtain v where v: "fixed S a = Some v" "v \<noteq> c" "spinning S l self G (k v) (M x) (A x)"
      using assms(4) False by (auto simp: CompareAndSwap waiting_def)
    note cs = cas_swaps [OF assms(1) standing_fixed [OF assms(2) v(1)] w(1)]
    show ?thesis using cs v(2,3) w(2) same by (intro spinning_stays [where m' = "M x" and al' = "A x"]) simp_all
  qed
qed (use assms(4,6) in \<open>auto simp: waiting_def\<close>)

lemma spinning_not_stuck:
  assumes "divided S h M A" "standing S h" "waiting S l self G p (M x) (A x)"
  shows "p = Out_of_fuel \<or> step R self p h \<noteq> None"
  using assms(3) by (cases p) (auto simp: waiting_def split: prod.splits option.splits dest: divided_cell [OF assms(1)] standing_fixed [OF assms(2)])

text \<open>
  A verb of the part under the lock either leaves the lock alone or is the one that gives it
  back.
\<close>

lemma locked_stays:
  assumes "locked S l self Q p' m' al'" "divided S h' (M(x := m')) (A(x := al'))" "untouched S h h'" "ok h'"
  shows "ok h' \<and>
    ((\<exists>m' al'. locked S l self Q p' m' al' \<and> divided S h' (M(x := m')) (A(x := al')) \<and> untouched S h h') \<or>
     (\<exists>m' D r. leaving r p' (A x |` (- D)) \<and> splits_off (A x) D \<and> Q r (m' |` D) \<and> divided S h' (M(x := m')) A \<and>
        cells h' l = Some (unl S) \<and> allocs h' = allocs h \<and>
        (\<forall>a. a \<noteq> l \<longrightarrow> a \<in> locks S \<or> fixed S a \<noteq> None \<longrightarrow> cells h' a = cells h a)))"
  using assms by blast

lemma locked_step:
  assumes "ok h" "standing S h" "divided S h M A" "locked S l self Q p (M x) (A x)" "nul S = remote_nullptr R"
    "step R self p h = Some (p', h')" "l \<in> locks S"
  shows "ok h' \<and>
    ((\<exists>m' al'. locked S l self Q p' m' al' \<and> divided S h' (M(x := m')) (A(x := al')) \<and> untouched S h h') \<or>
     (\<exists>m' D r. leaving r p' (A x |` (- D)) \<and> splits_off (A x) D \<and> Q r (m' |` D) \<and> divided S h' (M(x := m')) A \<and>
        cells h' l = Some (unl S) \<and> allocs h' = allocs h \<and>
        (\<forall>a. a \<noteq> l \<longrightarrow> a \<in> locks S \<or> fixed S a \<noteq> None \<longrightarrow> cells h' a = cells h a)))"
proof (cases p)
  case (Allocate T n k)
  have lk: "ctype_ok T" "n * ct_cells T = 1" "\<And>q c. fresh_for S self (M x) q [q] \<Longrightarrow> ct_fresh T c \<Longrightarrow>
      locked S l self Q (k q) ((M x)(q \<mapsto> c)) ((A x)(q \<mapsto> [q]))"
    using assms(4) by (auto simp: Allocate)
  obtain q where q: "rome_allocate R self T n h = (q, h')" "p' = k q"
    using assms(6) by (auto simp: Allocate split: prod.splits)
  obtain cs where cs: "length cs = n * ct_cells T" "list_all (ct_fresh T) cs" "allocated h h' q (block T n q) cs"
    using allocate_fresh [OF assms(1) lk(1) q(1)] by blast
  obtain c where c: "cs = [c]" using cs(1) lk(2) by (cases cs) auto
  note al = cs(3) [unfolded one_block [OF lk(2)] c]
  note lc = allocate_local [OF assms(1) lk(1) q(1)]
  have "fresh_for S self (M x) q [q]" by (rule fresh_block [OF assms(2,3) al]) (use lc assms(5) in auto)
  then have "locked S l self Q p' ((M x)(q \<mapsto> c)) ((A x)(q \<mapsto> [q]))" using lk(3) cs(2) by (simp add: c q(2))
  then show ?thesis
    using divided_add [OF assms(3,2) al, of x] untouched_fresh [OF assms(2) al] lc by (intro locked_stays) simp_all
next
  case (Read T n a k)
  obtain c where lk: "ctype_ok T" "n * ct_cells T = 1" "M x a = Some c" "\<And>q. fresh_for S self (M x) q [q] \<Longrightarrow>
      locked S l self Q (k q) ((M x)(q \<mapsto> c)) ((A x)(q \<mapsto> [q]))"
    using assms(4) by (auto simp: Read)
  obtain q where q: "rome_read R self T n a h = (q, h')" "p' = k q"
    using assms(6) by (auto simp: Read split: prod.splits)
  have "map (cells h) (block T n a) = map Some [c]" using divided_cell [OF assms(3) lk(3)] by (simp add: one_block [OF lk(2)])
  from copy_step [OF assms(1-3) lk(1) _ this q(1) assms(5), of x]
  have "ok h' \<and> divided S h' (M(x := (M x)(q \<mapsto> c))) (A(x := (A x)(q \<mapsto> [q]))) \<and> untouched S h h' \<and> fresh_for S self (M x) q [q]"
    unfolding one_block [OF lk(2)] using lk(2) by simp
  then show ?thesis using lk(4) q(2) by (intro locked_stays) blast+
next
  case (Deallocate T n q k)
  obtain as where q: "A x q = Some as" "locked S l self Q k (M x |` (- set as)) ((A x)(q := None))"
    using assms(4) by (auto simp: Deallocate)
  have p': "p' = k" "rome_deallocate R self T n q h = h'" using assms(6) by (auto simp: Deallocate)
  show ?thesis using free_step [OF assms(1,3) q(1) p'(2)] q(2) p'(1) by (intro locked_stays) blast+
next
  case (Write a c tmp k)
  have p': "p' = k" "rome_write R self a c tmp h = h'" using assms(6) by (auto simp: Write)
  show ?thesis
  proof (cases "a = l")
    case True
    obtain t where t: "c = unl S" "tmp = Some t" "M x t \<noteq> None"
      "\<And>y. \<exists>D r. leaving r k (A x |` (- D)) \<and> splits_off (A x) D \<and> Q r (((M x)(t \<mapsto> y)) |` D)"
      using assms(4) by (auto simp: Write True)
    obtain d where d: "M x t = Some d" using t(3) by blast
    have tl: "cells h t \<noteq> None" "t \<noteq> l" "t \<notin> locks S" "fixed S t = None"
      using divided_cell [OF assms(3) d] assms(7) by auto
    have cl: "cells h l \<noteq> None" using standing_lock [OF assms(2,7)] by simp
    have tp: "tmp \<noteq> Some a" using tl(2) t(2) True by simp
    have w: "ok h'" "allocs h' = allocs h" "cells h' l = Some (unl S)"
      "\<And>b. b \<noteq> l \<Longrightarrow> b \<noteq> t \<Longrightarrow> cells h' b = cells h b"
      using write_target [OF assms(1) _ tp p'(2)] write_frame [OF assms(1) _ tp _ _ p'(2)] cl t(1,2) True by auto
    obtain y where y: "cells h' t = Some y"
      using write_staging [OF assms(1) cl tl(1,2), of self c] p'(2) t(2) True by auto
    let ?g = "h\<lparr>cells := (cells h)(t \<mapsto> y)\<rparr>"
    have "divided S ?g (M(x := (M x)(t \<mapsto> y))) A" by (rule divided_set [OF assms(3) t(3)]) simp_all
    then have "divided S h' (M(x := (M x)(t \<mapsto> y))) A" proof (rule divided_lock)
      fix a assume "a \<notin> locks S"
      then have "a \<noteq> l" using assms(7) by auto
      then show "cells h' a = cells ?g a" using w(4) y by (cases "a = t") auto
    qed (simp add: w(2))
    moreover have "\<forall>a. a \<noteq> l \<longrightarrow> a \<in> locks S \<or> fixed S a \<noteq> None \<longrightarrow> cells h' a = cells h a"
      using w(4) tl(3,4) by metis
    ultimately show ?thesis using t(4) [of y] w p'(1) by blast
  next
    case False
    have lk: "M x a \<noteq> None" "tmp = None" "locked S l self Q k ((M x)(a \<mapsto> c)) (A x)"
      using assms(4) False by (auto simp: Write)
    have ca: "cells h a \<noteq> None" using lk(1) divided_cell [OF assms(3)] by fastforce
    have w: "ok h'" "allocs h' = allocs h" "cells h' a = Some c" "\<And>b. b \<noteq> a \<Longrightarrow> cells h' b = cells h b"
      using write_target [OF assms(1) ca _ p'(2)] write_frame [OF assms(1) ca _ _ _ p'(2)] lk(2) by auto
    have "cells h' = (cells h)(a \<mapsto> c)" using w by auto
    then have "divided S h' (M(x := (M x)(a \<mapsto> c))) A" using w(2) by (rule divided_set [OF assms(3) lk(1)])
    then have "divided S h' (M(x := (M x)(a \<mapsto> c))) (A(x := A x))" by simp
    moreover have "untouched S h h'"
    proof (rule untouched_own [OF assms(3), where x = x])
      show "cells h' b = cells h b" if "M x b = None" for b using that lk(1) by (intro w(4)) auto
    qed (simp add: w(2))
    ultimately show ?thesis using lk(3) w(1) p'(1) by (intro locked_stays [where al' = "A x"]) simp_all
  qed
next
  case (Load a k)
  obtain c where lk: "(fixed S ++ M x) a = Some c" "locked S l self Q (k c) (M x) (A x)"
    using assms(4) unfolding Load locked.simps by iprover
  have "cells h a = Some c" by (rule divided_visible [OF assms(3,2) lk(1)])
  then have p': "p' = k c" "h' = h" using assms(6) by (auto simp: Load split: if_splits)
  have "divided S h' (M(x := M x)) (A(x := A x))" "untouched S h h'" using assms(3) p'(2) by (simp_all add: untouched_def)
  then show ?thesis using lk(2) p' assms(1) by (intro locked_stays [where m' = "M x" and al' = "A x"]) simp_all
next
  case (Store a c k)
  have lk: "M x a \<noteq> None" "locked S l self Q k ((M x)(a \<mapsto> c)) (A x)"
    using assms(4) by (auto simp: Store)
  have ca: "cells h a \<noteq> None" using lk(1) divided_cell [OF assms(3)] by fastforce
  have p': "p' = k" "h' = h\<lparr>cells := (cells h)(a \<mapsto> c)\<rparr>"
    using assms(6) by (auto simp: Store split: if_splits)
  have "divided S h' (M(x := (M x)(a \<mapsto> c))) A" by (rule divided_set [OF assms(3) lk(1)]) (simp_all add: p')
  then have "divided S h' (M(x := (M x)(a \<mapsto> c))) (A(x := A x))" by simp
  moreover have "untouched S h h'" by (rule untouched_own [OF assms(3), where x = x]) (use lk(1) in \<open>auto simp: p'\<close>)
  moreover have "ok h'" using store_ok [OF assms(1) ca] by (simp add: p')
  ultimately show ?thesis using lk(2) p'(1) by (intro locked_stays [where al' = "A x"]) simp_all
qed (use assms(4) in auto)

lemma locked_not_stuck:
  assumes "divided S h M A" "standing S h" "locked S l self Q p (M x) (A x)"
  shows "step R self p h \<noteq> None"
  using assms(3) by (cases p) (auto split: prod.splits option.splits dest: divided_cell [OF assms(1)] standing_fixed [OF assms(2)])

end


interpretation shared_bump: shared_pool bump_rome bump_ok
  by unfold_locales (auto simp: bump_rome_def bump_ok_def split: if_splits)

section \<open>Calls that overlap\<close>

text \<open>The answer of a call that has returned.\<close>

definition answer :: "('c, 'r) prog \<Rightarrow> 'r option" where
  "answer p = (case p of Return r \<Rightarrow> Some r | _ \<Rightarrow> None)"

lemma answer_Some [simp]: "answer p = Some r \<longleftrightarrow> p = Return r"
  by (cases p) (simp_all add: answer_def)

text \<open>
  \<open>cs\<close> lists the calls, each with the node that makes it; \<open>log\<close> is the order, as positions in
  \<open>cs\<close>, in which some of them have taken effect.
\<close>

definition taken :: "(nat \<times> call) list \<Rightarrow> nat list \<Rightarrow> call list" where
  "taken cs log = map (\<lambda>i. snd (cs ! i)) log"

definition state_after :: "(nat \<times> call) list \<Rightarrow> (key \<Rightarrow> val option) \<Rightarrow> nat list \<Rightarrow> key \<Rightarrow> val option" where
  "state_after cs m log = snd (spec_calls (taken cs log) m)"

definition answers_after :: "(nat \<times> call) list \<Rightarrow> (key \<Rightarrow> val option) \<Rightarrow> nat list \<Rightarrow> HT_Res list" where
  "answers_after cs m log = fst (spec_calls (taken cs log) m)"

lemma after_Nil [simp]: "state_after cs m [] = m" "answers_after cs m [] = []"
  by (simp_all add: state_after_def answers_after_def taken_def)

lemma after_snoc:
  "state_after cs m (log @ [i]) = snd (spec_call (snd (cs ! i)) (state_after cs m log))"
  "answers_after cs m (log @ [i]) = answers_after cs m log @ [fst (spec_call (snd (cs ! i)) (state_after cs m log))]"
  by (simp_all add: state_after_def answers_after_def taken_def spec_calls_append split: prod.splits)

lemma length_answers_after [simp]: "length (answers_after cs m log) = length log"
  by (simp add: answers_after_def spec_calls_length taken_def)

text \<open>
  \<open>linearized cs m is ts log\<close>: after the schedule \<open>is\<close> the threads \<open>ts\<close> agree with the log. Only
  calls that have made a step have taken effect; a call that has returned has taken effect, with
  the answer the map gives at its place in the log.
\<close>

definition linearized :: "(nat \<times> call) list \<Rightarrow> (key \<Rightarrow> val option) \<Rightarrow> nat list \<Rightarrow> ('c, HT_Res) thread list
    \<Rightarrow> nat list \<Rightarrow> bool" where
  "linearized cs m is ts log \<longleftrightarrow>
     distinct log \<and> set log \<subseteq> set is \<inter> {..<length cs} \<and> length ts = length cs \<and>
     (\<forall>i \<in> {..<length cs} - set log. answer (snd (ts ! i)) = None) \<and>
     (\<forall>j \<in> {..<length log}. answer (snd (ts ! (log ! j))) \<in> {None, Some (answers_after cs m log ! j)})"

text \<open>
  \<open>linearization R cs m is ts h log\<close>: one log serves the whole schedule \<open>is\<close> from \<open>ts\<close>. After the first
  \<open>n\<close> steps its first \<open>k n\<close> calls have taken effect, with \<open>k\<close> growing from step to step, and all of it has at the end.
\<close>

definition linearization :: "('p, 'c) rome \<Rightarrow> (nat \<times> call) list \<Rightarrow> (key \<Rightarrow> val option) \<Rightarrow> nat list
    \<Rightarrow> ('c, HT_Res) thread list \<Rightarrow> ('p, 'c) heap \<Rightarrow> nat list \<Rightarrow> bool" where
  "linearization R cs m is ts h log \<longleftrightarrow>
     (\<exists>k. mono k \<and> k (length is) = length log \<and>
        (\<forall>n \<le> length is. \<exists>ts1 h1. schedule R (take n is) ts h = Some (ts1, h1) \<and>
           linearized cs m (take n is) ts1 (take (k n) log)))"

text \<open>So a call that has returned before another one makes its first step comes before it in the log.\<close>

lemma linearization_order:
  assumes "linearization R cs m is ts h log" "schedule R (take n is) ts h = Some (ts1, h1)" "n \<le> length is"
    "i < length cs" "answer (snd (ts1 ! i)) \<noteq> None" "j \<notin> set (take n is)" "b < length log" "log ! b = j"
  shows "\<exists>a < b. log ! a = i"
proof -
  obtain k where k: "linearized cs m (take n is) ts1 (take (k n) log)"
    using assms(1-3) unfolding linearization_def by fastforce
  have "i \<in> set (take (k n) log)" using k assms(4,5) unfolding linearized_def by (meson DiffI lessThan_iff)
  then obtain a where a: "a < k n" "a < length log" "log ! a = i" unfolding in_set_conv_nth by auto
  have "j \<notin> set (take (k n) log)" using k assms(6) unfolding linearized_def by blast
  then have "\<not> b < k n" using assms(7,8) by (auto simp: in_set_conv_nth)
  then show ?thesis using a by (intro exI [of _ a]) simp
qed

text \<open>Only the value at the key of a call matters to it, and only that changes.\<close>

lemma spec_call_local:
  "m (call_key x) = m' (call_key x) \<Longrightarrow> fst (spec_call x m) = fst (spec_call x m')"
  "m (call_key x) = m' (call_key x) \<Longrightarrow> snd (spec_call x m) (call_key x) = snd (spec_call x m') (call_key x)"
  "k \<noteq> call_key x \<Longrightarrow> snd (spec_call x m) k = m k"
  by (cases x; auto simp: spec_contains_def spec_insert_def spec_remove_def split: option.splits)+

datatype phase = Waiting | Holding | Leaving HT_Res

datatype owner = Object remote_ptr | Caller nat

text \<open>
  The keys are spread over objects; \<open>klock\<close> gives the lock of the object of a key, and
  \<open>obj l m b\<close> says that memory \<open>b\<close> is the object of lock \<open>l\<close> when the map is \<open>m\<close>.  A call that got
  the lock of its object, with whatever map, is to bring the object to the next map and to answer
  as the map does.
\<close>

definition served :: "(remote_ptr \<Rightarrow> (key \<Rightarrow> val option) \<Rightarrow> 'c memory \<Rightarrow> bool) \<Rightarrow> remote_ptr \<Rightarrow> call
    \<Rightarrow> (key \<Rightarrow> val option) \<Rightarrow> HT_Res \<Rightarrow> 'c memory \<Rightarrow> bool" where
  "served obj l x m r b \<longleftrightarrow> r = fst (spec_call x m) \<and> obj l (snd (spec_call x m)) b"

definition apart :: "'c shared \<Rightarrow> 'c memory \<Rightarrow> 'c memory \<Rightarrow> bool" where
  "apart S m b \<longleftrightarrow> (\<forall>a. b a \<noteq> None \<longrightarrow> m a = None \<and> a \<notin> locks S \<and> fixed S a = None)"

definition serves :: "'c shared \<Rightarrow> (remote_ptr \<Rightarrow> (key \<Rightarrow> val option) \<Rightarrow> 'c memory \<Rightarrow> bool) \<Rightarrow> remote_ptr \<Rightarrow> nat
    \<Rightarrow> call \<Rightarrow> ('c, HT_Res) prog \<Rightarrow> 'c memory \<Rightarrow> copies \<Rightarrow> bool" where
  "serves S obj l self x p m al \<longleftrightarrow>
     (\<forall>st b. obj l st b \<longrightarrow> apart S m b \<longrightarrow> locked S l self (served obj l x st) p (m ++ b) al)"

locale locked_objects = shared_pool R ok for R :: "('p, 'c) rome" and ok +
  fixes S :: "'c shared" and klock :: "key \<Rightarrow> remote_ptr"
    and obj :: "remote_ptr \<Rightarrow> (key \<Rightarrow> val option) \<Rightarrow> 'c memory \<Rightarrow> bool"
    and begins :: "nat \<Rightarrow> call \<Rightarrow> ('c, HT_Res) prog" and X :: "call set"
  assumes lock_values: "unl S \<noteq> lck S" and null: "nul S = remote_nullptr R"
    and call_lock: "x \<in> X \<Longrightarrow> klock (call_key x) \<in> locks S"
    and obj_local: "obj l m b \<Longrightarrow> (\<And>k. klock k = l \<Longrightarrow> m' k = m k) \<Longrightarrow> obj l m' b"
    and call_spins: "x \<in> X \<Longrightarrow> spinning S (klock (call_key x)) self (serves S obj (klock (call_key x)) self x)
      (begins self x) Map.empty Map.empty"
begin

definition lock_at :: "(nat \<times> call) list \<Rightarrow> nat \<Rightarrow> remote_ptr" where
  "lock_at cs i = klock (call_key (snd (cs ! i)))"

text \<open>What a call in each phase is doing, and divided.\<close>

definition phase_ok :: "(nat \<times> call) list \<Rightarrow> (key \<Rightarrow> val option) \<Rightarrow> nat list \<Rightarrow> nat \<Rightarrow> phase
    \<Rightarrow> ('c, HT_Res) prog \<Rightarrow> 'c memory \<Rightarrow> copies \<Rightarrow> bool" where
  "phase_ok cs m log i P p b al = (case P of
     Waiting \<Rightarrow> i \<notin> set log \<and> waiting S (lock_at cs i) (fst (cs ! i))
       (serves S obj (lock_at cs i) (fst (cs ! i)) (snd (cs ! i))) p b al
   | Holding \<Rightarrow> i \<notin> set log \<and> locked S (lock_at cs i) (fst (cs ! i))
       (served obj (lock_at cs i) (snd (cs ! i)) (state_after cs m log)) p b al
   | Leaving r \<Rightarrow> i \<in> set log \<and> leaving r p al)"

text \<open>The invariant of all schedules.\<close>

definition overlap :: "(nat \<times> call) list \<Rightarrow> (key \<Rightarrow> val option) \<Rightarrow> nat list \<Rightarrow> ('c, HT_Res) thread list
    \<Rightarrow> ('p, 'c) heap \<Rightarrow> (owner \<Rightarrow> 'c memory) \<Rightarrow> (owner \<Rightarrow> copies) \<Rightarrow> (nat \<Rightarrow> phase) \<Rightarrow> bool" where
  "overlap cs m log ts h M A ph \<longleftrightarrow>
     ok h \<and> standing S h \<and> divided S h M A \<and> (\<forall>l. A (Object l) = Map.empty) \<and> map fst ts = map fst cs \<and>
     distinct log \<and> set log \<subseteq> {..<length cs} \<and>
     (\<forall>i<length cs. phase_ok cs m log i (ph i) (snd (ts ! i)) (M (Caller i)) (A (Caller i))) \<and>
     (\<forall>j<length log. ph (log ! j) = Leaving (answers_after cs m log ! j)) \<and>
     (\<forall>i<length cs. \<forall>j<length cs. ph i = Holding \<longrightarrow> ph j = Holding \<longrightarrow> lock_at cs i = lock_at cs j \<longrightarrow> i = j) \<and>
     (\<forall>l \<in> locks S.
        if \<exists>i<length cs. ph i = Holding \<and> lock_at cs i = l then cells h l = Some (lck S) \<and> M (Object l) = Map.empty
        else cells h l = Some (unl S) \<and> obj l (state_after cs m log) (M (Object l)))"

lemma overlap_length: "overlap cs m log ts h M A ph \<Longrightarrow> length ts = length cs"
  unfolding overlap_def by (metis length_map)

lemma overlapD:
  assumes "overlap cs m log ts h M A ph"
  shows "ok h" "standing S h" "divided S h M A" "A (Object l) = Map.empty" "map fst ts = map fst cs" "distinct log"
    "set log \<subseteq> {..<length cs}"
    "i < length cs \<Longrightarrow> phase_ok cs m log i (ph i) (snd (ts ! i)) (M (Caller i)) (A (Caller i))"
    "j < length log \<Longrightarrow> ph (log ! j) = Leaving (answers_after cs m log ! j)"
    "i < length cs \<Longrightarrow> j < length cs \<Longrightarrow> ph i = Holding \<Longrightarrow> ph j = Holding \<Longrightarrow> lock_at cs i = lock_at cs j \<Longrightarrow> i = j"
    "l \<in> locks S \<Longrightarrow> i < length cs \<Longrightarrow> ph i = Holding \<Longrightarrow> lock_at cs i = l \<Longrightarrow>
       cells h l = Some (lck S) \<and> M (Object l) = Map.empty"
    "l \<in> locks S \<Longrightarrow> \<forall>i<length cs. ph i = Holding \<longrightarrow> lock_at cs i \<noteq> l \<Longrightarrow>
       cells h l = Some (unl S) \<and> obj l (state_after cs m log) (M (Object l))"
  using assms unfolding overlap_def by (auto split: if_splits)

lemma overlap_lock: "overlap cs m log ts h M A ph \<Longrightarrow> l \<in> locks S \<Longrightarrow> cells h l \<in> {Some (unl S), Some (lck S)}"
  unfolding overlap_def by (auto split: if_splits)

text \<open>A step of one call that does not touch the shared memory.\<close>

lemma overlap_thread:
  assumes "overlap cs m log ts h M A ph" "i < length cs" "ok h'" "divided S h' (M(Caller i := b)) (A(Caller i := al))"
    "phase_ok cs m log i P p b al" "untouched S h h'" "(P = Holding) = (ph i = Holding)" "i \<in> set log \<Longrightarrow> P = ph i"
  shows "overlap cs m log (ts[i := (fst (ts ! i), p)]) h' (M(Caller i := b)) (A(Caller i := al)) (ph(i := P))"
proof -
  have len: "length ts = length cs" by (rule overlap_length [OF assms(1)])
  have "map fst (ts[i := (fst (ts ! i), p)]) = map fst ts"
    using assms(2) len by (intro nth_equalityI) (auto simp: nth_list_update)
  moreover have "(ph(i := P)) (log ! j) = ph (log ! j)" if "j < length log" for j
    using assms(8) that by auto
  moreover have "(ph(i := P)) j = Holding \<longleftrightarrow> ph j = Holding" for j using assms(7) by simp
  moreover have "cells h' l = cells h l" if "l \<in> locks S" for l using assms(6) that by (simp add: untouched_def)
  moreover have "standing S h'" by (rule untouched_standing [OF assms(6)]) (rule overlapD(2) [OF assms(1)])
  ultimately show ?thesis
    using assms(1-5) len unfolding overlap_def by (simp add: nth_list_update)
qed

text \<open>What a call is to do with its object depends on the keys of the object only.\<close>

lemma served_local:
  assumes "klock (call_key x) = l" "\<And>k. klock k = l \<Longrightarrow> m' k = m k"
  shows "served obj l x m' = served obj l x m"
proof (intro ext iffI)
  have e: "fst (spec_call x m') = fst (spec_call x m)" using spec_call_local(1) assms by blast
  have s: "snd (spec_call x m') k = snd (spec_call x m) k" if "klock k = l" for k
    using spec_call_local(2,3) assms that by metis
  fix r b
  show "served obj l x m' r b \<Longrightarrow> served obj l x m r b"
    using obj_local [of l "snd (spec_call x m')" b "snd (spec_call x m)"] s e by (simp add: served_def)
  show "served obj l x m r b \<Longrightarrow> served obj l x m' r b"
    using obj_local [of l "snd (spec_call x m)" b "snd (spec_call x m')"] s e by (simp add: served_def)
qed

lemma state_after_other: "klock k \<noteq> lock_at cs i \<Longrightarrow> state_after cs m (log @ [i]) k = state_after cs m log k"
  by (auto simp: after_snoc lock_at_def intro!: spec_call_local(3))

lemma overlapI:
  assumes "ok h" "standing S h" "divided S h M A" "\<And>l. A (Object l) = Map.empty" "map fst ts = map fst cs" "distinct log"
    "set log \<subseteq> {..<length cs}"
    "\<And>j. j < length cs \<Longrightarrow> phase_ok cs m log j (ph j) (snd (ts ! j)) (M (Caller j)) (A (Caller j))"
    "\<And>j. j < length log \<Longrightarrow> ph (log ! j) = Leaving (answers_after cs m log ! j)"
    "\<And>i j. i < length cs \<Longrightarrow> j < length cs \<Longrightarrow> ph i = Holding \<Longrightarrow> ph j = Holding \<Longrightarrow> lock_at cs i = lock_at cs j \<Longrightarrow> i = j"
    "\<And>l. l \<in> locks S \<Longrightarrow>
        if \<exists>i<length cs. ph i = Holding \<and> lock_at cs i = l then cells h l = Some (lck S) \<and> M (Object l) = Map.empty
        else cells h l = Some (unl S) \<and> obj l (state_after cs m log) (M (Object l))"
  shows "overlap cs m log ts h M A ph"
  unfolding overlap_def using assms by blast

text \<open>A call takes the lock, and the object with it.\<close>

lemma overlap_take:
  assumes "overlap cs m log ts h M A ph" "i < length cs" "ph i = Waiting" "lock_at cs i \<in> locks S"
    "ok h'" "cells h (lock_at cs i) = Some (unl S)" "cells h' = (cells h)(lock_at cs i \<mapsto> lck S)" "allocs h' = allocs h"
    "serves S obj (lock_at cs i) (fst (cs ! i)) (snd (cs ! i)) p (M (Caller i)) (A (Caller i))"
  shows "overlap cs m log (ts[i := (fst (ts ! i), p)]) h'
    (M(Caller i := M (Caller i) ++ M (Object (lock_at cs i)), Object (lock_at cs i) := Map.empty)) A (ph(i := Holding))"
proof -
  let ?l = "lock_at cs i"
  let ?M = "M(Caller i := M (Caller i) ++ M (Object ?l), Object ?l := Map.empty)"
  note o = overlapD [OF assms(1)]
  have len: "length ts = length cs" by (rule overlap_length [OF assms(1)])
  have free: "ph j = Holding \<longrightarrow> lock_at cs j \<noteq> ?l" if "j < length cs" for j
    using o(11) [OF assms(4) that] assms(6) lock_values by auto
  then have b: "obj ?l (state_after cs m log) (M (Object ?l))" using o(12) [OF assms(4)] by blast
  have p: "i \<notin> set log" using o(8) [OF assms(2)] by (auto simp: phase_ok_def assms(3))
  have ap: "apart S (M (Caller i)) (M (Object ?l))"
    using divided_cell [OF o(3)] divided_other [OF o(3), of "Object ?l" _ _ "Caller i"] by (auto simp: apart_def)
  have "divided S h' M A" by (rule divided_lock [OF o(3)]) (use assms(4,7,8) in auto)
  then have own: "divided S h' ?M A" by (rule divided_join) (simp_all add: o(4))
  have "standing S h'"
    using o(2) assms(4) by (auto simp: standing_def assms(7,8) map_le_def dom_def)
  moreover have "phase_ok cs m log i Holding p (M (Caller i) ++ M (Object ?l)) (A (Caller i))"
    using assms(9) b ap p by (simp add: phase_ok_def serves_def)
  moreover have "map fst (ts[i := (fst (ts ! i), p)]) = map fst ts"
    using assms(2) len by (intro nth_equalityI) (auto simp: nth_list_update)
  moreover have "(ph(i := Holding)) (log ! j) = ph (log ! j)" if "j < length log" for j
    using p that by auto
  moreover have "if \<exists>j<length cs. (ph(i := Holding)) j = Holding \<and> lock_at cs j = l
      then cells h' l = Some (lck S) \<and> ?M (Object l) = Map.empty
      else cells h' l = Some (unl S) \<and> obj l (state_after cs m log) (?M (Object l))" if l: "l \<in> locks S" for l
  proof (cases "l = ?l")
    case False
    then have "(\<exists>j<length cs. (ph(i := Holding)) j = Holding \<and> lock_at cs j = l) =
        (\<exists>j<length cs. ph j = Holding \<and> lock_at cs j = l)" by auto
    then show ?thesis using o(11,12) [OF l] False by (auto simp: assms(7))
  qed (use assms(2,7) in auto)
  moreover have "phase_ok cs m log j ((ph(i := Holding)) j) (snd (ts[i := (fst (ts ! i), p)] ! j)) (?M (Caller j)) (A (Caller j))"
    if "j < length cs" for j
    using o(8) [OF that] calculation(2) assms(2) len by (cases "j = i") simp_all
  moreover have "k = j" if "k < length cs" "j < length cs" "(ph(i := Holding)) k = Holding" "(ph(i := Holding)) j = Holding"
    "lock_at cs k = lock_at cs j" for k j
    using o(10) [OF that(1,2)] free [OF that(1)] free [OF that(2)] that(3-5) by (cases "k = i"; cases "j = i") simp_all
  ultimately show ?thesis
    by (intro overlapI own assms(5) o(4,6,7)) (simp_all only: o(5,9))
qed

text \<open>A call gives the lock back: this is the moment it takes effect.\<close>

lemma overlap_give:
  assumes "overlap cs m log ts h M A ph" "i < length cs" "ph i = Holding" "ok h'" "lock_at cs i \<in> locks S"
    "leaving r p (A (Caller i) |` (- D))" "splits_off (A (Caller i)) D" "served obj (lock_at cs i) (snd (cs ! i)) (state_after cs m log) r (b |` D)"
    "divided S h' (M(Caller i := b)) A" "cells h' (lock_at cs i) = Some (unl S)" "allocs h' = allocs h"
    "\<forall>a. a \<noteq> lock_at cs i \<longrightarrow> a \<in> locks S \<or> fixed S a \<noteq> None \<longrightarrow> cells h' a = cells h a"
  shows "overlap cs m (log @ [i]) (ts[i := (fst (ts ! i), p)]) h'
    (M(Caller i := b |` (- D), Object (lock_at cs i) := b |` D)) (A(Caller i := A (Caller i) |` (- D))) (ph(i := Leaving r))"
proof -
  let ?l = "lock_at cs i"
  let ?M = "M(Caller i := b |` (- D), Object ?l := b |` D)"
  note o = overlapD [OF assms(1)]
  have len: "length ts = length cs" by (rule overlap_length [OF assms(1)])
  have e: "M (Object ?l) = Map.empty" using o(11) [OF assms(5,2,3)] by simp
  have p: "i \<notin> set log" using o(8) [OF assms(2)] by (simp add: phase_ok_def assms(3))
  have others: "lock_at cs j \<noteq> ?l" if "j < length cs" "j \<noteq> i" "ph j = Holding" for j
    using o(10) [OF assms(2) that(1) assms(3)] that(2,3) by metis
  have "divided S h' (M(Caller i := b, Caller i := (M(Caller i := b)) (Caller i) |` (- D),
      Object ?l := (M(Caller i := b)) (Caller i) |` D)) (A(Caller i := A (Caller i) |` (- D)))"
    by (rule divided_split [OF assms(9)]) (simp_all add: e o(4) assms(7))
  then have own: "divided S h' ?M (A(Caller i := A (Caller i) |` (- D)))" by simp
  have "phase_ok cs m (log @ [i]) j (ph j) (snd (ts ! j)) (M (Caller j)) (A (Caller j))" if j: "j < length cs" "j \<noteq> i" for j
  proof (cases "ph j")
    case Holding
    have "served obj (lock_at cs j) (snd (cs ! j)) (state_after cs m (log @ [i])) =
        served obj (lock_at cs j) (snd (cs ! j)) (state_after cs m log)"
      by (rule served_local) (use others [OF j Holding] state_after_other in \<open>auto simp: lock_at_def\<close>)
    then show ?thesis using o(8) [OF j(1)] j(2) by (auto simp: phase_ok_def Holding)
  qed (use o(8) [OF j(1)] j(2) in \<open>auto simp: phase_ok_def\<close>)
  moreover have "phase_ok cs m (log @ [i]) i (Leaving r) p (b |` (- D)) (A (Caller i) |` (- D))"
    using assms(6) by (simp add: phase_ok_def)
  moreover have "map fst (ts[i := (fst (ts ! i), p)]) = map fst ts"
    using assms(2) len by (intro nth_equalityI) (auto simp: nth_list_update)
  moreover have "(ph(i := Leaving r)) ((log @ [i]) ! j) = Leaving (answers_after cs m (log @ [i]) ! j)"
    if "j < length (log @ [i])" for j
    using o(9) [of j] p that assms(8) by (auto simp: nth_append after_snoc served_def)
  moreover have "standing S h'"
    by (rule standing_relock [OF o(2) assms(5) _ assms(11,12)]) (simp add: assms(10))
  moreover have "if \<exists>j<length cs. (ph(i := Leaving r)) j = Holding \<and> lock_at cs j = l
      then cells h' l = Some (lck S) \<and> ?M (Object l) = Map.empty
      else cells h' l = Some (unl S) \<and> obj l (state_after cs m (log @ [i])) (?M (Object l))" if l: "l \<in> locks S" for l
  proof (cases "l = ?l")
    case True
    have n: "\<not> (\<exists>j<length cs. (ph(i := Leaving r)) j = Holding \<and> lock_at cs j = l)" using others True by auto
    have "obj l (state_after cs m (log @ [i])) (b |` D)" using assms(8) by (simp add: served_def after_snoc True)
    then show ?thesis using assms(10) unfolding if_not_P [OF n] by (simp add: True)
  next
    case False
    have ex: "(\<exists>j<length cs. (ph(i := Leaving r)) j = Holding \<and> lock_at cs j = l) =
        (\<exists>j<length cs. ph j = Holding \<and> lock_at cs j = l)" using False by auto
    have c: "cells h' l = cells h l" using assms(12) False l by blast
    show ?thesis
    proof (cases "\<exists>j<length cs. ph j = Holding \<and> lock_at cs j = l")
      case True
      then show ?thesis using o(11) [OF l] False ex c by auto
    next
      case no: False
      have "obj l (state_after cs m (log @ [i])) (M (Object l))"
        by (rule obj_local [of l "state_after cs m log"]) (use o(12) [OF l] no False state_after_other in auto)
      then show ?thesis using o(12) [OF l] no False ex c by auto
    qed
  qed
  moreover have "phase_ok cs m (log @ [i]) j ((ph(i := Leaving r)) j) (snd (ts[i := (fst (ts ! i), p)] ! j)) (?M (Caller j))
      ((A(Caller i := A (Caller i) |` (- D))) (Caller j))" if "j < length cs" for j
    using calculation(1) [OF that] calculation(2) assms(2) len by (cases "j = i") simp_all
  moreover have "k = j" if "k < length cs" "j < length cs" "(ph(i := Leaving r)) k = Holding" "(ph(i := Leaving r)) j = Holding"
    "lock_at cs k = lock_at cs j" for k j
    using o(10) [OF that(1,2)] that(3-5) by (cases "k = i"; cases "j = i") simp_all
  moreover have "distinct (log @ [i])" "set (log @ [i]) \<subseteq> {..<length cs}" using o(6,7) p assms(2) by auto
  ultimately show ?thesis
    by (intro overlapI own assms(4)) (simp_all only: o(5) fun_upd_apply o(4) owner.simps if_False)
qed

text \<open>A call that has got its lock, or will get it with its next swap if nobody else moves.\<close>

definition going :: "(nat \<times> call) list \<Rightarrow> ('c, HT_Res) thread list \<Rightarrow> ('p, 'c) heap \<Rightarrow> (nat \<Rightarrow> phase) \<Rightarrow> nat \<Rightarrow> bool" where
  "going cs ts h ph i \<longleftrightarrow> ph i \<noteq> Waiting \<or> cells h (lock_at cs i) = Some (unl S) \<and> snd (ts ! i) \<noteq> Out_of_fuel"

lemma overlap_step:
  assumes "overlap cs m log ts h M A ph" "i < length cs" "snd ` set cs \<subseteq> X"
    "step R (fst (ts ! i)) (snd (ts ! i)) h = Some (p', h')"
  shows "\<exists>log' M' A' ph'. overlap cs m log' (ts[i := (fst (ts ! i), p')]) h' M' A' ph' \<and>
    (log' = log \<or> log' = log @ [i]) \<and> (\<forall>j. j \<noteq> i \<longrightarrow> ph' j = ph j) \<and>
    (going cs ts h ph i \<longrightarrow> going cs (ts[i := (fst (ts ! i), p')]) h' ph' i)"
proof -
  let ?l = "lock_at cs i"
  note o = overlapD [OF assms(1)]
  have len: "length ts = length cs" by (rule overlap_length [OF assms(1)])
  have x: "snd (cs ! i) \<in> X" using assms(2,3) by auto
  have l: "?l \<in> locks S" using call_lock [OF x] by (simp add: lock_at_def)
  have self: "fst (ts ! i) = fst (cs ! i)" using o(5) assms(2) len by (metis nth_map)
  have goal: ?thesis if "overlap cs m log' (ts[i := (fst (ts ! i), p')]) h' M' A' ph'" "log' = log \<or> log' = log @ [i]"
    "\<And>j. j \<noteq> i \<Longrightarrow> ph' j = ph j" "going cs ts h ph i \<Longrightarrow> going cs (ts[i := (fst (ts ! i), p')]) h' ph' i" for log' M' A' ph'
    using that by blast
  show ?thesis
  proof (cases "ph i")
    case Waiting
    let ?G = "serves S obj ?l (fst (cs ! i)) (snd (cs ! i))"
    have p: "i \<notin> set log" "waiting S ?l (fst (ts ! i)) ?G (snd (ts ! i)) (M (Caller i)) (A (Caller i))"
      using o(8) [OF assms(2)] by (auto simp: phase_ok_def Waiting self)
    from spinning_step [OF o(1-3) p(2) null assms(4) l overlap_lock [OF assms(1) l] lock_values]
    consider (waits) b al where "ok h'" "waiting S ?l (fst (ts ! i)) ?G p' b al"
        "divided S h' (M(Caller i := b)) (A(Caller i := al))" "untouched S h h'" "cells h ?l = Some (unl S) \<Longrightarrow> p' \<noteq> Out_of_fuel"
      | (takes) "ok h'" "cells h ?l = Some (unl S)" "cells h' = (cells h)(?l \<mapsto> lck S)" "allocs h' = allocs h"
        "?G p' (M (Caller i)) (A (Caller i))"
      by blast
    then show ?thesis
    proof cases
      case waits
      have "overlap cs m log (ts[i := (fst (ts ! i), p')]) h' (M(Caller i := b)) (A(Caller i := al)) (ph(i := Waiting))"
        using waits p(1) Waiting by (intro overlap_thread [OF assms(1,2)]) (auto simp: phase_ok_def self)
      then show ?thesis
      proof (rule goal)
        assume "going cs ts h ph i"
        then show "going cs (ts[i := (fst (ts ! i), p')]) h' (ph(i := Waiting)) i"
          using waits(4,5) Waiting assms(2) len l by (auto simp: going_def untouched_def)
      qed simp_all
    next
      case takes
      show ?thesis by (rule goal [OF overlap_take [OF assms(1,2) Waiting l takes]]) (simp_all add: going_def)
    qed
  next
    case Holding
    let ?Q = "served obj ?l (snd (cs ! i)) (state_after cs m log)"
    have p: "i \<notin> set log" "locked S ?l (fst (ts ! i)) ?Q (snd (ts ! i)) (M (Caller i)) (A (Caller i))"
      using o(8) [OF assms(2)] by (auto simp: phase_ok_def Holding self)
    from locked_step [OF o(1-3) p(2) null assms(4) l]
    consider (inside) b al where "ok h'" "locked S ?l (fst (ts ! i)) ?Q p' b al"
        "divided S h' (M(Caller i := b)) (A(Caller i := al))" "untouched S h h'"
      | (gives) b D r where "ok h'" "leaving r p' (A (Caller i) |` (- D))" "splits_off (A (Caller i)) D" "?Q r (b |` D)"
        "divided S h' (M(Caller i := b)) A" "cells h' ?l = Some (unl S)" "allocs h' = allocs h"
        "\<forall>a. a \<noteq> ?l \<longrightarrow> a \<in> locks S \<or> fixed S a \<noteq> None \<longrightarrow> cells h' a = cells h a"
      by blast
    then show ?thesis
    proof cases
      case inside
      have "overlap cs m log (ts[i := (fst (ts ! i), p')]) h' (M(Caller i := b)) (A(Caller i := al)) (ph(i := Holding))"
        using inside p(1) Holding by (intro overlap_thread [OF assms(1,2)]) (auto simp: phase_ok_def self)
      then show ?thesis by (rule goal) (simp_all add: going_def)
    next
      case gives
      show ?thesis
        by (rule goal [OF overlap_give [OF assms(1,2) Holding gives(1) l gives(2-8)]]) (simp_all add: going_def)
    qed
  next
    case (Leaving r)
    have p: "i \<in> set log" "leaving r (snd (ts ! i)) (A (Caller i))"
      using o(8) [OF assms(2)] by (auto simp: phase_ok_def Leaving)
    from leaving_step [OF o(1,3) p(2) assms(4)] obtain b al where s: "ok h'" "leaving r p' al"
      "divided S h' (M(Caller i := b)) (A(Caller i := al))" "untouched S h h'" by blast
    have "overlap cs m log (ts[i := (fst (ts ! i), p')]) h' (M(Caller i := b)) (A(Caller i := al)) (ph(i := Leaving r))"
      using s p(1) Leaving by (intro overlap_thread [OF assms(1,2)]) (auto simp: phase_ok_def)
    then show ?thesis by (rule goal) (simp_all add: going_def)
  qed
qed

text \<open>The log of a schedule only grows, and at every cut it is the log of the cut.\<close>

lemma overlap_cuts:
  assumes "overlap cs m log ts h M A ph" "snd ` set cs \<subseteq> X" "schedule R is ts h = Some (ts', h')"
  shows "\<exists>new k. mono k \<and> k (length is) = length new \<and>
    (\<forall>n \<le> length is. \<exists>ts1 h1 M1 A1 ph1. schedule R (take n is) ts h = Some (ts1, h1) \<and>
       overlap cs m (log @ take (k n) new) ts1 h1 M1 A1 ph1 \<and> set (take (k n) new) \<subseteq> set (take n is))"
  using assms
proof (induction "is" arbitrary: log ts h M A ph)
  case Nil
  then show ?case by (intro exI [of _ "[]"] exI [of _ "\<lambda>_. 0"]) (auto simp: mono_def)
next
  case (Cons i "is")
  have len: "length ts = length cs" by (rule overlap_length [OF Cons.prems(1)])
  have i: "i < length cs" using Cons.prems(3) len by (auto split: if_splits)
  obtain p1 h1 where s: "step R (fst (ts ! i)) (snd (ts ! i)) h = Some (p1, h1)"
    "schedule R is (ts[i := (fst (ts ! i), p1)]) h1 = Some (ts', h')"
    using Cons.prems(3) i len by (auto split: prod.splits option.splits)
  let ?ts = "ts[i := (fst (ts ! i), p1)]"
  have first: "schedule R (i # js) ts h = schedule R js ?ts h1" for js using s(1) i len by (simp add: case_prod_beta)
  obtain new1 M1 A1 ph1 where l1: "overlap cs m (log @ new1) ?ts h1 M1 A1 ph1" "set new1 \<subseteq> {i}"
    using overlap_step [OF Cons.prems(1) i Cons.prems(2) s(1)] by (metis append_Nil2 empty_set empty_subsetI list.simps(15) order_refl)
  from Cons.IH [OF l1(1) Cons.prems(2) s(2)] obtain new k where k: "mono k" "k (length is) = length new"
    "\<And>n. n \<le> length is \<Longrightarrow> \<exists>ts1 h2 M1 A1 ph1. schedule R (take n is) ?ts h1 = Some (ts1, h2) \<and>
       overlap cs m (log @ new1 @ take (k n) new) ts1 h2 M1 A1 ph1 \<and> set (take (k n) new) \<subseteq> set (take n is)"
    by auto
  let ?k = "\<lambda>n. case n of 0 \<Rightarrow> 0 | Suc n' \<Rightarrow> length new1 + k n'"
  show ?case
  proof (intro exI [of _ "new1 @ new"] exI [of _ ?k] conjI allI impI)
    show "mono ?k" using k(1) by (auto simp: mono_def split: nat.splits)
    show "?k (length (i # is)) = length (new1 @ new)" by (simp add: k(2))
    fix n assume n: "n \<le> length (i # is)"
    show "\<exists>ts1 h1 M1 A1 ph1. schedule R (take n (i # is)) ts h = Some (ts1, h1) \<and>
       overlap cs m (log @ take (?k n) (new1 @ new)) ts1 h1 M1 A1 ph1 \<and> set (take (?k n) (new1 @ new)) \<subseteq> set (take n (i # is))"
    proof (cases n)
      case 0
      then show ?thesis using Cons.prems(1) by auto
    next
      case (Suc n')
      then obtain ts1 h2 M2 A2 ph2 where c: "schedule R (take n' is) ?ts h1 = Some (ts1, h2)"
        "overlap cs m (log @ new1 @ take (k n') new) ts1 h2 M2 A2 ph2" "set (take (k n') new) \<subseteq> set (take n' is)"
        using k(3) [of n'] n by auto
      then show ?thesis using first [of "take n' is"] l1(2) Suc by (fastforce simp del: schedule.simps)
    qed
  qed
qed

lemma overlap_schedule:
  assumes "overlap cs m log ts h M A ph" "snd ` set cs \<subseteq> X" "schedule R is ts h = Some (ts', h')"
  shows "\<exists>log' M' A' ph'. overlap cs m (log @ log') ts' h' M' A' ph' \<and> set log' \<subseteq> set is"
  using overlap_cuts [OF assms] assms(3) by fastforce

lemma overlap_silent:
  assumes "overlap cs m log ts h M A ph" "i < length cs" "i \<notin> set log"
  shows "answer (snd (ts ! i)) = None"
  using overlapD(8) [OF assms(1,2)] assms(3)
  by (cases "snd (ts ! i)") (auto simp: phase_ok_def waiting_def answer_def split: phase.splits)

lemma overlap_linearized:
  assumes "overlap cs m log ts h M A ph" "set log \<subseteq> set is"
  shows "linearized cs m is ts log"
proof -
  note o = overlapD [OF assms(1)]
  have "answer (snd (ts ! (log ! j))) \<in> {None, Some (answers_after cs m log ! j)}" if j: "j \<in> {..<length log}" for j
  proof -
    have l: "log ! j < length cs" using j o(7) nth_mem by fastforce
    have "leaving (answers_after cs m log ! j) (snd (ts ! (log ! j))) (A (Caller (log ! j)))"
      using o(8) [OF l] o(9) [of j] j by (auto simp: phase_ok_def)
    then show ?thesis by (cases "snd (ts ! (log ! j))") (auto simp: answer_def)
  qed
  then show ?thesis
    using o(6,7) assms(2) overlap_length [OF assms(1)] overlap_silent [OF assms(1)] by (auto simp: linearized_def)
qed

text \<open>All calls are about to begin, all locks are free, and \<open>M\<close> is the memory of the objects.\<close>

definition ready :: "(key \<Rightarrow> val option) \<Rightarrow> ('p, 'c) heap \<Rightarrow> bool" where
  "ready m h \<longleftrightarrow> ok h \<and> standing S h \<and> (\<forall>l \<in> locks S. cells h l = Some (unl S)) \<and>
     (\<exists>M. (\<forall>l \<in> locks S. obj l m (M l)) \<and> divided S h M (\<lambda>_. Map.empty))"

definition threads_of :: "(nat \<times> call) list \<Rightarrow> ('c, HT_Res) thread list" where
  "threads_of cs = map (\<lambda>(self, x). (self, begins self x)) cs"

lemma overlap_start:
  assumes "ready m h" "snd ` set cs \<subseteq> X"
  shows "\<exists>M. overlap cs m [] (threads_of cs) h M (\<lambda>w. Map.empty) (\<lambda>i. Waiting)"
proof -
  obtain M where r: "ok h" "standing S h" "\<forall>l \<in> locks S. cells h l = Some (unl S)" "\<forall>l \<in> locks S. obj l m (M l)"
    "divided S h M (\<lambda>_. Map.empty)"
    using assms(1) by (auto simp: ready_def)
  let ?M = "\<lambda>w. case w of Object l \<Rightarrow> M l | Caller i \<Rightarrow> Map.empty"
  have "overlap cs m [] (threads_of cs) h ?M (\<lambda>w. Map.empty) (\<lambda>i. Waiting)"
  proof (rule overlapI)
    show "divided S h ?M (\<lambda>w. Map.empty)"
    proof (rule dividedI)
      fix w z a c
      show "?M w a = Some c \<Longrightarrow> cells h a = Some c" "?M w a = Some c \<Longrightarrow> a \<notin> locks S \<and> fixed S a = None"
        using divided_cell [OF r(5)] by (cases w; auto)+
      show "?M w a = Some c \<Longrightarrow> z \<noteq> w \<Longrightarrow> ?M z a = None"
        using divided_other [OF r(5)] by (cases w; cases z; auto)
    qed auto
    fix j assume j: "j < length cs"
    have "snd (cs ! j) \<in> X" using j assms(2) by auto
    then show "phase_ok cs m [] j Waiting (snd (threads_of cs ! j)) (?M (Caller j)) Map.empty"
      using call_spins j by (simp add: phase_ok_def waiting_def threads_of_def lock_at_def case_prod_beta)
  qed (use r in \<open>auto simp: threads_of_def\<close>)
  then show ?thesis by blast
qed

text \<open>Once every call has returned, the objects are free and hold what the log says.\<close>

lemma overlap_quiet:
  assumes "overlap cs m log ts h M A ph" "list_all (\<lambda>t. answer (snd t) \<noteq> None) ts"
  shows "set log = {..<length cs}" "ready (state_after cs m log) h"
proof -
  note o = overlapD [OF assms(1)]
  have ans: "answer (snd (ts ! i)) \<noteq> None" if "i < length cs" for i
    using assms(2) that overlap_length [OF assms(1)] by (simp add: list_all_length)
  have "i \<in> set log" if "i < length cs" for i using ans [OF that] overlap_silent [OF assms(1) that] by metis
  then show l: "set log = {..<length cs}" using o(7) by auto
  have nh: "\<forall>i<length cs. ph i = Holding \<longrightarrow> lock_at cs i \<noteq> l" for l
    using o(8) l by (fastforce simp: phase_ok_def)
  have "divided S h (\<lambda>l. M (Object l)) (\<lambda>_. Map.empty)"
    by (rule dividedI) (use divided_cell [OF o(3)] divided_other [OF o(3)] in auto)
  then show "ready (state_after cs m log) h"
    using o(1,2,12) nh unfolding ready_def by (intro conjI exI [of _ "\<lambda>l. M (Object l)"]) auto
qed

lemma linearizable:
  assumes "ready m h" "snd ` set cs \<subseteq> X" "schedule R is (threads_of cs) h = Some (ts', h')"
  shows "\<exists>log. linearization R cs m is (threads_of cs) h log \<and>
    (list_all (\<lambda>t. answer (snd t) \<noteq> None) ts' \<longrightarrow> ready (state_after cs m log) h')"
proof -
  obtain M where s: "overlap cs m [] (threads_of cs) h M (\<lambda>w. Map.empty) (\<lambda>i. Waiting)"
    using overlap_start [OF assms(1,2)] by blast
  from overlap_cuts [OF s assms(2,3)] obtain log k where k: "mono k" "k (length is) = length log"
    "\<And>n. n \<le> length is \<Longrightarrow> \<exists>ts1 h1 M1 A1 ph1. schedule R (take n is) (threads_of cs) h = Some (ts1, h1) \<and>
       overlap cs m (take (k n) log) ts1 h1 M1 A1 ph1 \<and> set (take (k n) log) \<subseteq> set (take n is)"
    by auto
  have "linearization R cs m is (threads_of cs) h log"
    unfolding linearization_def using k(1,2) k(3) overlap_linearized by (intro exI [of _ k]) blast
  moreover obtain M' A' ph' where "overlap cs m log ts' h' M' A' ph'"
    using k(2) k(3) [of "length is"] assms(3) by auto
  ultimately show ?thesis using overlap_quiet(2) by blast
qed

text \<open>
  In between, what does not change is as it was, a lock is either taken or free, and the object of a
  free lock is an object.
\<close>

lemma always_typed:
  assumes "ready m h" "snd ` set cs \<subseteq> X" "schedule R is (threads_of cs) h = Some (ts', h')"
  shows "ok h' \<and> standing S h' \<and> (\<forall>l \<in> locks S. cells h' l = Some (lck S) \<or>
    (cells h' l = Some (unl S) \<and> (\<exists>st b. obj l st b \<and> b \<subseteq>\<^sub>m cells h')))"
proof -
  obtain M0 where s: "overlap cs m [] (threads_of cs) h M0 (\<lambda>w. Map.empty) (\<lambda>i. Waiting)"
    using overlap_start [OF assms(1,2)] by blast
  obtain log M A ph where l1: "overlap cs m log ts' h' M A ph"
    using overlap_schedule [OF s assms(2,3)] by auto
  note o = overlapD [OF l1]
  have "M (Object l) \<subseteq>\<^sub>m cells h'" for l using divided_cell [OF o(3), of "Object l"] by (auto simp: map_le_def)
  then have "cells h' l = Some (lck S) \<or> (cells h' l = Some (unl S) \<and> (\<exists>st b. obj l st b \<and> b \<subseteq>\<^sub>m cells h'))"
    if "l \<in> locks S" for l
    using o(11) [OF that] o(12) [OF that] by blast
  then show ?thesis using o(1,2) by blast
qed

text \<open>No verb of an overlapping call goes wrong: a call stops early only by running out of fuel.\<close>

lemma overlap_moves:
  assumes "overlap cs m log ts' h' M A ph" and i: "i < length cs"
  shows "step R (fst (ts' ! i)) (snd (ts' ! i)) h' \<noteq> None \<or> answer (snd (ts' ! i)) \<noteq> None \<or>
    snd (ts' ! i) = Out_of_fuel"
proof -
  note o = overlapD [OF assms(1)]
  have self: "fst (ts' ! i) = fst (cs ! i)" using o(5) i overlap_length [OF assms(1)] by (metis nth_map)
  show ?thesis
  proof (cases "ph i")
    case Waiting
    then have "waiting S (lock_at cs i) (fst (cs ! i)) (serves S obj (lock_at cs i) (fst (cs ! i)) (snd (cs ! i)))
        (snd (ts' ! i)) (M (Caller i)) (A (Caller i))" using o(8) [OF i] by (simp add: phase_ok_def)
    from spinning_not_stuck [OF o(3,2) this] show ?thesis unfolding self by (rule disjE) (simp_all del: not_None_eq)
  next
    case Holding
    then have "locked S (lock_at cs i) (fst (cs ! i)) (served obj (lock_at cs i) (snd (cs ! i)) (state_after cs m log))
        (snd (ts' ! i)) (M (Caller i)) (A (Caller i))" using o(8) [OF i] by (simp add: phase_ok_def)
    from locked_not_stuck [OF o(3,2) this] show ?thesis unfolding self by (rule disjI1)
  next
    case (Leaving r)
    then have "leaving r (snd (ts' ! i)) (A (Caller i))" using o(8) [OF i] by (simp add: phase_ok_def)
    from leaving_not_stuck [OF this, of "fst (ts' ! i)" h'] show ?thesis by (rule disjE) (simp_all add: answer_def)
  qed
qed

section \<open>Progress\<close>

text \<open>A call that is going, left alone, returns.\<close>

lemma going_not_stuck:
  assumes "overlap cs m log ts h M A ph" "i < length cs" "going cs ts h ph i" "answer (snd (ts ! i)) = None"
  obtains p' h' where "step R (fst (ts ! i)) (snd (ts ! i)) h = Some (p', h')"
proof -
  have "snd (ts ! i) \<noteq> Out_of_fuel"
    using overlapD(8) [OF assms(1,2)] assms(3) by (cases "ph i") (auto simp: phase_ok_def going_def)
  moreover have "step R (fst (ts ! i)) (snd (ts ! i)) h \<noteq> None \<or> answer (snd (ts ! i)) \<noteq> None \<or> snd (ts ! i) = Out_of_fuel"
    by (rule overlap_moves [OF assms(1,2)])
  ultimately show ?thesis using assms(4) that by auto
qed

lemma going_returns:
  assumes "overlap cs m log ts h M A ph" "i < length cs" "snd ` set cs \<subseteq> X" "going cs ts h ph i"
  shows "\<exists>n ts' h' log' M' A' ph'. schedule R (replicate n i) ts h = Some (ts', h') \<and>
    overlap cs m log' ts' h' M' A' ph' \<and> answer (snd (ts' ! i)) \<noteq> None \<and> (\<forall>j. j \<noteq> i \<longrightarrow> ph' j = ph j \<and> ts' ! j = ts ! j)"
  using assms(1,4)
proof (induction "snd (ts ! i)" arbitrary: log ts h M A ph rule: wf_induct_rule [OF step_wf [of R]])
  case less: (1 ts)
  show ?case
  proof (cases "answer (snd (ts ! i))")
    case None
    have len: "length ts = length cs" by (rule overlap_length [OF less.prems(1)])
    obtain p1 h1 where s: "step R (fst (ts ! i)) (snd (ts ! i)) h = Some (p1, h1)"
      by (rule going_not_stuck [OF less.prems(1) assms(2) less.prems(2) None])
    let ?ts = "ts[i := (fst (ts ! i), p1)]"
    obtain log1 M1 A1 ph1 where l1: "overlap cs m log1 ?ts h1 M1 A1 ph1" "\<forall>j. j \<noteq> i \<longrightarrow> ph1 j = ph j" "going cs ?ts h1 ph1 i"
      using overlap_step [OF less.prems(1) assms(2,3) s] less.prems(2) by blast
    have "(snd (?ts ! i), snd (ts ! i)) \<in> {(p', p). \<exists>self h h'. step R self p h = Some (p', h')}"
      using s assms(2) len by auto
    from less.hyps [OF this l1(1,3)] obtain n ts' h' log' M' A' ph' where r: "schedule R (replicate n i) ?ts h1 = Some (ts', h')"
      "overlap cs m log' ts' h' M' A' ph'" "answer (snd (ts' ! i)) \<noteq> None"
      "\<forall>j. j \<noteq> i \<longrightarrow> ph' j = ph1 j \<and> ts' ! j = ?ts ! j" by blast
    have "schedule R (replicate (Suc n) i) ts h = Some (ts', h')"
      using s r(1) assms(2) len by (simp add: case_prod_beta)
    moreover have "\<forall>j. j \<noteq> i \<longrightarrow> ph' j = ph j \<and> ts' ! j = ts ! j" using r(4) l1(2) by simp
    ultimately show ?thesis using r(2,3) by blast
  next
    case (Some r)
    have "schedule R (replicate 0 i) ts h = Some (ts, h)" by simp
    then show ?thesis using less.prems(1) Some by blast
  qed
qed

text \<open>
  No deadlock: from whatever state the calls have reached, a call that has not used up its fuel can
  still be brought to its answer: at most the call that has the lock has to finish first.  No
  other call moves.
\<close>

lemma overlap_can_answer:
  assumes "overlap cs m log ts h M A ph" "i < length cs" "snd ` set cs \<subseteq> X" "snd (ts ! i) \<noteq> Out_of_fuel"
  shows "\<exists>is ts' h' log' M' A' ph'. schedule R is ts h = Some (ts', h') \<and> overlap cs m log' ts' h' M' A' ph' \<and>
    answer (snd (ts' ! i)) \<noteq> None \<and> (\<forall>k. ts' ! k = ts ! k \<or> answer (snd (ts' ! k)) \<noteq> None)"
proof (cases "going cs ts h ph i")
  case True
  from going_returns [OF assms(1-3) True] obtain n ts' h' log' M' A' ph' where "schedule R (replicate n i) ts h = Some (ts', h')"
    "overlap cs m log' ts' h' M' A' ph'" "answer (snd (ts' ! i)) \<noteq> None" "\<And>j. j \<noteq> i \<Longrightarrow> ph' j = ph j \<and> ts' ! j = ts ! j" by blast
  then show ?thesis by metis
next
  case False
  then have w: "ph i = Waiting" "cells h (lock_at cs i) \<noteq> Some (unl S)" using assms(4) by (auto simp: going_def)
  have "snd (cs ! i) \<in> X" using assms(2,3) by auto
  then have l: "lock_at cs i \<in> locks S" using call_lock by (simp add: lock_at_def)
  obtain j where j: "j < length cs" "ph j = Holding" "lock_at cs j = lock_at cs i"
    using overlapD(12) [OF assms(1) l] w(2) by blast
  then have "going cs ts h ph j" "i \<noteq> j" using w(1) by (auto simp: going_def)
  from going_returns [OF assms(1) j(1) assms(3) this(1)] obtain n ts1 h1 log1 M1 A1 ph1 where
    r: "schedule R (replicate n j) ts h = Some (ts1, h1)" "overlap cs m log1 ts1 h1 M1 A1 ph1" "answer (snd (ts1 ! j)) \<noteq> None"
    "\<And>k. k \<noteq> j \<Longrightarrow> ph1 k = ph k \<and> ts1 ! k = ts ! k" by blast
  have "ph1 j \<noteq> Holding"
    using overlapD(8) [OF r(2) j(1)] r(3) by (cases "snd (ts1 ! j)") (auto simp: phase_ok_def answer_def)
  then have "\<forall>k<length cs. ph1 k = Holding \<longrightarrow> lock_at cs k \<noteq> lock_at cs i"
    using r(4) overlapD(10) [OF assms(1) _ j(1) _ j(2)] j(3) by metis
  then have "going cs ts1 h1 ph1 i"
    using overlapD(12) [OF r(2) l] r(4) [OF \<open>i \<noteq> j\<close>] assms(4) by (simp add: going_def)
  from going_returns [OF r(2) assms(2,3) this] obtain n' ts2 h2 log2 M2 A2 ph2 where
    r': "schedule R (replicate n' i) ts1 h1 = Some (ts2, h2)" "overlap cs m log2 ts2 h2 M2 A2 ph2" "answer (snd (ts2 ! i)) \<noteq> None"
    "\<And>k. k \<noteq> i \<Longrightarrow> ph2 k = ph1 k \<and> ts2 ! k = ts1 ! k" by blast
  have "ts2 ! k = ts ! k \<or> answer (snd (ts2 ! k)) \<noteq> None" for k
    using r(3) r(4) [of k] r'(3) r'(4) [of k] by (cases "k = i"; cases "k = j") simp_all
  then show ?thesis using schedule_append [OF r(1) r'(1)] r'(2,3) by blast
qed

text \<open>One after the other, all of them.\<close>

lemma overlap_all_answer:
  assumes "overlap cs m log ts h M A ph" "snd ` set cs \<subseteq> X" "n \<le> length cs"
  shows "\<exists>is ts' h' log' M' A' ph'. schedule R is ts h = Some (ts', h') \<and> overlap cs m log' ts' h' M' A' ph' \<and>
    (\<forall>k. ts' ! k = ts ! k \<or> answer (snd (ts' ! k)) \<noteq> None) \<and>
    (\<forall>k<n. snd (ts ! k) \<noteq> Out_of_fuel \<longrightarrow> answer (snd (ts' ! k)) \<noteq> None)"
  using assms(3)
proof (induction n)
  case 0
  have "schedule R [] ts h = Some (ts, h)" by simp
  then show ?case using assms(1) by blast
next
  case (Suc n)
  have n: "n < length cs" "n \<le> length cs" using Suc.prems by simp_all
  obtain is1 ts1 h1 log1 M1 A1 ph1 where r: "schedule R is1 ts h = Some (ts1, h1)" "overlap cs m log1 ts1 h1 M1 A1 ph1"
    "\<And>k. ts1 ! k = ts ! k \<or> answer (snd (ts1 ! k)) \<noteq> None"
    "\<And>k. k < n \<Longrightarrow> snd (ts ! k) \<noteq> Out_of_fuel \<Longrightarrow> answer (snd (ts1 ! k)) \<noteq> None"
    using Suc.IH [OF n(2)] by blast
  show ?case
  proof (cases "snd (ts1 ! n) = Out_of_fuel")
    case True
    then have "answer (snd (ts1 ! n)) = None" by (simp add: answer_def)
    then have "snd (ts ! n) = Out_of_fuel" using r(3) [of n] True by simp
    then have "\<forall>k<Suc n. snd (ts ! k) \<noteq> Out_of_fuel \<longrightarrow> answer (snd (ts1 ! k)) \<noteq> None"
      using r(4) by (auto simp: less_Suc_eq)
    then show ?thesis using r(1-3) by blast
  next
    case False
    from overlap_can_answer [OF r(2) n(1) assms(2) False] obtain is2 ts2 h2 log2 M2 A2 ph2 where
      r': "schedule R is2 ts1 h1 = Some (ts2, h2)" "overlap cs m log2 ts2 h2 M2 A2 ph2" "answer (snd (ts2 ! n)) \<noteq> None"
      "\<And>k. ts2 ! k = ts1 ! k \<or> answer (snd (ts2 ! k)) \<noteq> None" by blast
    have "ts2 ! k = ts ! k \<or> answer (snd (ts2 ! k)) \<noteq> None" for k using r(3) [of k] r'(4) [of k] by metis
    moreover have "\<forall>k<Suc n. snd (ts ! k) \<noteq> Out_of_fuel \<longrightarrow> answer (snd (ts2 ! k)) \<noteq> None"
      using r(4) r'(3,4) by (metis less_Suc_eq)
    ultimately show ?thesis using schedule_append [OF r(1) r'(1)] r'(2) by blast
  qed
qed

lemma deadlock_free:
  assumes "ready m h" "snd ` set cs \<subseteq> X" "schedule R is (threads_of cs) h = Some (ts', h')"
  shows "\<exists>is' ts2 h2. schedule R is' ts' h' = Some (ts2, h2) \<and>
    (\<forall>i < length ts'. snd (ts' ! i) \<noteq> Out_of_fuel \<longrightarrow> answer (snd (ts2 ! i)) \<noteq> None)"
proof -
  obtain M0 where s: "overlap cs m [] (threads_of cs) h M0 (\<lambda>w. Map.empty) (\<lambda>i. Waiting)"
    using overlap_start [OF assms(1,2)] by blast
  obtain log M A ph where l1: "overlap cs m log ts' h' M A ph"
    using overlap_schedule [OF s assms(2,3)] by auto
  show ?thesis
    using overlap_all_answer [OF l1 assms(2) order_refl] unfolding overlap_length [OF l1] by blast
qed

end

end
