(* ===== verification/Lock_Clients.thy ===== *)
theory Lock_Clients
  imports Lock_Protocol
begin

text \<open>
  Clients that make one call after the other, each deciding on its next call by the answers it has got, when any number
  of them run at once on objects behind locks: whatever the interleaving of the verbs, the clients
  cannot tell it from one in which their calls are indivisible.
\<close>

section \<open>Clients\<close>

text \<open>One program after the other.\<close>

primrec bind_prog :: "('a \<Rightarrow> ('c, 'b) prog) \<Rightarrow> ('c, 'a) prog \<Rightarrow> ('c, 'b) prog" where
  "bind_prog f (Return r) = f r"
| "bind_prog f Undefined = Undefined"
| "bind_prog f Out_of_fuel = Out_of_fuel"
| "bind_prog f (Allocate T n k) = Allocate T n (\<lambda>p. bind_prog f (k p))"
| "bind_prog f (Deallocate T n p k) = Deallocate T n p (bind_prog f k)"
| "bind_prog f (Read T n p k) = Read T n p (\<lambda>q. bind_prog f (k q))"
| "bind_prog f (Write p c tmp k) = Write p c tmp (bind_prog f k)"
| "bind_prog f (CompareAndSwap p c c' k) = CompareAndSwap p c c' (\<lambda>v. bind_prog f (k v))"
| "bind_prog f (Load p k) = Load p (\<lambda>c. bind_prog f (k c))"
| "bind_prog f (Store p c k) = Store p c (bind_prog f k)"

lemma step_bind:
  "answer p = None \<Longrightarrow> step R self (bind_prog f p) h = map_option (map_prod (bind_prog f) id) (step R self p h)"
  by (cases p) (auto simp: answer_def split: prod.splits option.splits)

lemma step_answered: "step R self p h \<noteq> None \<Longrightarrow> answer p = None"
  by (cases p) (simp_all add: answer_def)

lemma answer_bind: "answer p = None \<Longrightarrow> answer (bind_prog f p) = None"
  by (cases p) (simp_all add: answer_def)

lemma run_bind:
  "run R self (bind_prog f p) h = (case run R self p h of
     Finished r h' \<Rightarrow> run R self (f r) h' | Fault \<Rightarrow> Fault | Exhausted \<Rightarrow> Exhausted)"
  by (induction p arbitrary: h) (auto split: outcome.splits prod.splits option.splits)

text \<open>A client is done, or makes a call and goes on with its answer.\<close>

datatype 'r user = Done 'r | Ask call "HT_Res \<Rightarrow> 'r user"

primrec user_prog :: "(call \<Rightarrow> ('c, HT_Res) prog) \<Rightarrow> 'r user \<Rightarrow> ('c, 'r) prog" where
  "user_prog tbl (Done v) = Return v"
| "user_prog tbl (Ask x k) = bind_prog (\<lambda>r. user_prog tbl (k r)) (tbl x)"

primrec asks :: "call set \<Rightarrow> 'r user \<Rightarrow> bool" where
  "asks X (Done v) = True"
| "asks X (Ask x k) = (x \<in> X \<and> (\<forall>r. asks X (k r)))"

text \<open>A client alone with a table, in the sense of \<open>Map_Contract\<close>.\<close>

primrec user_run :: "('n \<Rightarrow> call \<Rightarrow> 's \<Rightarrow> (HT_Res \<times> 's) option) \<Rightarrow> 'n \<Rightarrow> 'r user \<Rightarrow> 's \<Rightarrow> ('r \<times> 's) option" where
  "user_run exec self (Done v) = (\<lambda>s. Some (v, s))"
| "user_run exec self (Ask x k) = (\<lambda>s. case exec self x s of None \<Rightarrow> None | Some (r, s') \<Rightarrow> user_run exec self (k r) s')"

text \<open>
  Clients whose calls are indivisible: the list names the client that makes its next call.  A client
  that is done makes no calls.
\<close>

fun atomically :: "nat list \<Rightarrow> 'r user list \<Rightarrow> (key \<Rightarrow> val option) \<Rightarrow> ('r user list \<times> (key \<Rightarrow> val option)) option" where
  "atomically [] us m = Some (us, m)"
| "atomically (i # is) us m =
     (if i < length us then
        (case us ! i of
           Done v \<Rightarrow> None
         | Ask x k \<Rightarrow> atomically is (us[i := k (fst (spec_call x m))]) (snd (spec_call x m)))
      else None)"

lemma atomically_snoc:
  assumes "atomically is us m = Some (us', m')" "i < length us'" "us' ! i = Ask x k"
  shows "atomically (is @ [i]) us m = Some (us'[i := k (fst (spec_call x m'))], snd (spec_call x m'))"
  using assms
proof (induction "is" arbitrary: us m)
  case (Cons j "is")
  then show ?case by (auto split: if_splits user.splits)
qed simp

lemma atomically_length: "atomically is us m = Some (us', m') \<Longrightarrow> length us' = length us"
  by (induction "is" us m rule: atomically.induct) (auto split: if_splits user.splits)

text \<open>What all calls of all clients keep, holds at the end.\<close>

lemma atomically_keeps:
  assumes "atomically is us m = Some (us', m')" "P m" "\<And>i. i < length us \<Longrightarrow> C i (us ! i)"
    "\<And>i x k m. P m \<Longrightarrow> C i (Ask x k) \<Longrightarrow> P (snd (spec_call x m)) \<and> C i (k (fst (spec_call x m)))"
  shows "P m' \<and> (\<forall>i < length us. C i (us' ! i))"
  using assms(1-3)
proof (induction "is" us m rule: atomically.induct)
  case (2 i "is" us m)
  then obtain x k where x: "i < length us" "us ! i = Ask x k"
    "atomically is (us[i := k (fst (spec_call x m))]) (snd (spec_call x m)) = Some (us', m')"
    by (auto split: if_splits user.splits)
  have "C i (Ask x k)" using "2.prems"(3) [OF x(1)] x(2) by simp
  note n = assms(4) [OF "2.prems"(2) this]
  have "C j (us[i := k (fst (spec_call x m))] ! j)" if "j < length us" for j
    using n "2.prems"(3) [OF that] x(1) by (cases "j = i") simp_all
  then show ?case using "2.IH" [OF x(1,2,3)] n by simp
qed simp

section \<open>Clients that overlap\<close>

lemma taken_append: "set log \<subseteq> {..<length cs} \<Longrightarrow> taken (cs @ ds) log = taken cs log"
  by (auto simp: taken_def nth_append)

context locked_objects
begin

lemma begins_fresh:
  assumes "x \<in> X"
  shows "answer (begins self x) = None" "begins self x \<noteq> Out_of_fuel"
  using call_spins [OF assms, of self] by (cases "begins self x"; simp add: answer_def)+

lemma user_not_starved: "asks X t \<Longrightarrow> user_prog (begins self) t \<noteq> Out_of_fuel"
proof (cases t)
  case (Ask x k)
  assume "asks X t"
  then have "x \<in> X" by (simp add: Ask)
  from begins_fresh [OF this, of self] show ?thesis unfolding Ask by (cases "begins self x") (simp_all add: answer_def)
qed simp

text \<open>Another call begins.\<close>

lemma overlap_begin:
  assumes "overlap cs m log us h M A ph" "x \<in> X"
  shows "\<exists>M' A'. overlap (cs @ [(self, x)]) m log (us @ [(self, begins self x)]) h M' A' (ph(length cs := Waiting))"
proof -
  let ?n = "length cs" let ?cs = "cs @ [(self, x)]"
  let ?M = "M(Caller ?n := Map.empty)" and ?A = "A(Caller ?n := Map.empty)" and ?ph = "ph(?n := Waiting)"
  note o = overlapD [OF assms(1)]
  have len: "length us = ?n" by (rule overlap_length [OF assms(1)])
  have tk: "state_after ?cs m log = state_after cs m log" "answers_after ?cs m log = answers_after cs m log"
    using o(7) by (simp_all add: state_after_def answers_after_def taken_append)
  have at: "lock_at ?cs j = lock_at cs j" if "j < ?n" for j using that by (simp add: lock_at_def nth_append)
  have "?n \<notin> set log" using o(7) by auto
  have "overlap ?cs m log (us @ [(self, begins self x)]) h ?M ?A ?ph"
  proof (rule overlapI)
    show "divided S h ?M ?A"
    proof (rule dividedI)
      fix w z q r a d as bs
      show "?M w a = Some d \<Longrightarrow> cells h a = Some d" "?M w a = Some d \<Longrightarrow> a \<notin> locks S \<and> fixed S a = None"
        using divided_cell [OF o(3)] by (auto split: if_splits)
      show "?A w q = Some as \<Longrightarrow> q \<in> set as \<and> set as \<subseteq> dom (?M w)" "?A w q = Some as \<Longrightarrow> allocs h q = Some as \<and> kept S q = None"
        using divided_alloc [OF o(3)] by (auto split: if_splits)
      show "?A w q = Some as \<Longrightarrow> ?A w r = Some bs \<Longrightarrow> set as \<inter> set bs \<noteq> {} \<Longrightarrow> q = r"
        using divided_blocks [OF o(3), of w q as r bs] by (simp split: if_splits)
      show "?M w a = Some d \<Longrightarrow> z \<noteq> w \<Longrightarrow> ?M z a = None"
        using divided_other [OF o(3)] by (auto split: if_splits)
    qed
    show "phase_ok ?cs m log j (?ph j) (snd ((us @ [(self, begins self x)]) ! j)) (?M (Caller j)) (?A (Caller j))"
      if j: "j < length ?cs" for j
    proof (cases "j < ?n")
      case True
      have c: "?cs ! j = cs ! j" using True by (simp add: nth_append)
      have "phase_ok ?cs m log j P p b al = phase_ok cs m log j P p b al" for P p b al
        by (cases P) (simp_all add: phase_ok_def c tk at [OF True])
      then show ?thesis using o(8) [OF True] True by (simp add: nth_append len)
    next
      case False
      then have "j = ?n" using j by simp
      moreover have "(us @ [(self, begins self x)]) ! ?n = (self, begins self x)" by (simp add: len [symmetric])
      ultimately show ?thesis using call_spins [OF assms(2), of self] \<open>?n \<notin> set log\<close>
        by (simp add: phase_ok_def waiting_def lock_at_def)
    qed
    show "?ph (log ! j) = Leaving (answers_after ?cs m log ! j)" if "j < length log" for j
      using o(9) [OF that] \<open>?n \<notin> set log\<close> that unfolding tk by (auto simp: in_set_conv_nth)
    show "i = j" if "i < length ?cs" "j < length ?cs" "?ph i = Holding" "?ph j = Holding" "lock_at ?cs i = lock_at ?cs j" for i j
      using that o(10) [of i j] at by (auto simp: less_Suc_eq split: if_splits)
    fix l assume l: "l \<in> locks S"
    have "(\<exists>i<length ?cs. ?ph i = Holding \<and> lock_at ?cs i = l) \<longleftrightarrow> (\<exists>i<?n. ph i = Holding \<and> lock_at cs i = l)" (is "?L \<longleftrightarrow> ?R")
    proof
      show ?L if ?R
        using that at by (metis fun_upd_apply length_append_singleton less_SucI less_irrefl)
    qed (use at in \<open>auto simp: less_Suc_eq split: if_splits\<close>)
    then show "if \<exists>i<length ?cs. ?ph i = Holding \<and> lock_at ?cs i = l then cells h l = Some (lck S) \<and> ?M (Object l) = Map.empty
        else cells h l = Some (unl S) \<and> obj l (state_after ?cs m log) (?M (Object l))"
      using o(11) [OF l] o(12) [OF l] unfolding tk by (auto simp del: length_append)
  qed (use o(1,2,4,5,6,7) in auto)
  then show ?thesis by blast
qed

text \<open>
  \<open>client_at\<close>: a client whose thread is \<open>t\<close> is between two calls or in the middle of call \<open>j\<close>, one of the calls \<open>us\<close>
  of \<open>overlap\<close>.  With indivisible calls it would be at \<open>u\<close>.
\<close>

definition client_at :: "(nat \<times> call) list \<Rightarrow> nat list \<Rightarrow> ('c, HT_Res) thread list \<Rightarrow> (nat \<Rightarrow> phase)
    \<Rightarrow> nat option \<Rightarrow> ('c, 'r) thread \<Rightarrow> 'r user \<Rightarrow> bool" where
  "client_at cs log us ph cur t u = (case cur of
     None \<Rightarrow> snd t = user_prog (begins (fst t)) u \<and> asks X u
   | Some j \<Rightarrow> j < length cs \<and> fst (cs ! j) = fst t \<and> answer (snd (us ! j)) = None \<and>
       (\<exists>k. (\<forall>r. asks X (k r)) \<and> snd t = bind_prog (\<lambda>r. user_prog (begins (fst t)) (k r)) (snd (us ! j)) \<and>
          (if j \<in> set log then \<exists>r. ph j = Leaving r \<and> u = k r else u = Ask (snd (cs ! j)) k)))"

definition serve :: "(key \<Rightarrow> val option) \<Rightarrow> ('c, 'r) thread list \<Rightarrow> ('p, 'c) heap \<Rightarrow> 'r user list \<Rightarrow> (nat \<Rightarrow> nat option)
    \<Rightarrow> (nat \<times> call) list \<Rightarrow> nat list \<Rightarrow> ('c, HT_Res) thread list \<Rightarrow> (owner \<Rightarrow> 'c memory) \<Rightarrow> (owner \<Rightarrow> copies)
    \<Rightarrow> (nat \<Rightarrow> phase) \<Rightarrow> bool" where
  "serve m ts h cl cur cs log us M A ph \<longleftrightarrow>
     overlap cs m log us h M A ph \<and> snd ` set cs \<subseteq> X \<and> length cl = length ts \<and>
     (\<forall>i<length ts. client_at cs log us ph (cur i) (ts ! i) (cl ! i)) \<and>
     (\<forall>i<length ts. \<forall>i'<length ts. cur i = cur i' \<longrightarrow> cur i \<noteq> None \<longrightarrow> i = i') \<and>
     (\<forall>j<length cs. (\<forall>i<length ts. cur i \<noteq> Some j) \<longrightarrow> answer (snd (us ! j)) \<noteq> None)"

lemma serveD:
  assumes "serve m ts h cl cur cs log us M A ph"
  shows "overlap cs m log us h M A ph" "snd ` set cs \<subseteq> X" "length cl = length ts"
    "i < length ts \<Longrightarrow> client_at cs log us ph (cur i) (ts ! i) (cl ! i)"
    "i < length ts \<Longrightarrow> i' < length ts \<Longrightarrow> cur i = Some j \<Longrightarrow> cur i' = Some j \<Longrightarrow> i = i'"
    "j < length cs \<Longrightarrow> (\<And>i. i < length ts \<Longrightarrow> cur i \<noteq> Some j) \<Longrightarrow> answer (snd (us ! j)) \<noteq> None"
proof -
  note s = assms [unfolded serve_def]
  show "overlap cs m log us h M A ph" "snd ` set cs \<subseteq> X" "length cl = length ts"
    "i < length ts \<Longrightarrow> client_at cs log us ph (cur i) (ts ! i) (cl ! i)"
    using s by simp_all
  have u: "\<forall>i<length ts. \<forall>i'<length ts. cur i = cur i' \<longrightarrow> cur i \<noteq> None \<longrightarrow> i = i'" using s by (elim conjE)
  show "i < length ts \<Longrightarrow> i' < length ts \<Longrightarrow> cur i = Some j \<Longrightarrow> cur i' = Some j \<Longrightarrow> i = i'"
    using u [rule_format, of i i'] by simp
  have v: "\<forall>j<length cs. (\<forall>i<length ts. cur i \<noteq> Some j) \<longrightarrow> answer (snd (us ! j)) \<noteq> None" using s by (elim conjE)
  show "j < length cs \<Longrightarrow> (\<And>i. i < length ts \<Longrightarrow> cur i \<noteq> Some j) \<Longrightarrow> answer (snd (us ! j)) \<noteq> None"
    using v [rule_format, of j] by simp
qed

lemma serveI:
  assumes "overlap cs m log us h M A ph" "snd ` set cs \<subseteq> X" "length cl = length ts"
    "\<And>i. i < length ts \<Longrightarrow> client_at cs log us ph (cur i) (ts ! i) (cl ! i)"
    "\<And>i i' j. i < length ts \<Longrightarrow> i' < length ts \<Longrightarrow> cur i = Some j \<Longrightarrow> cur i' = Some j \<Longrightarrow> i = i'"
    "\<And>j. j < length cs \<Longrightarrow> (\<And>i. i < length ts \<Longrightarrow> cur i \<noteq> Some j) \<Longrightarrow> answer (snd (us ! j)) \<noteq> None"
  shows "serve m ts h cl cur cs log us M A ph"
proof -
  have "i = i'" if "i < length ts" "i' < length ts" "cur i = cur i'" "cur i \<noteq> None" for i i'
    using assms(5) [OF that(1,2)] that(3,4) by auto
  then show ?thesis unfolding serve_def using assms(1-4,6) by simp
qed

text \<open>A client begins its next call.\<close>

lemma serve_begin:
  assumes "serve m ts h cl cur cs log us M A ph" "i < length ts" "cur i = None" "cl ! i = Ask x k"
  shows "\<exists>M' A'. serve m ts h cl (cur(i \<mapsto> length cs)) (cs @ [(fst (ts ! i), x)]) log
      (us @ [(fst (ts ! i), begins (fst (ts ! i)) x)]) M' A' (ph(length cs := Waiting)) \<and>
    state_after (cs @ [(fst (ts ! i), x)]) m log = state_after cs m log"
proof -
  let ?self = "fst (ts ! i)" let ?n = "length cs"
  let ?cs = "cs @ [(?self, x)]" and ?us = "us @ [(?self, begins ?self x)]" and ?ph = "ph(?n := Waiting)"
  note s = serveD [OF assms(1)]
  have at: "snd (ts ! i) = user_prog (begins ?self) (Ask x k)" "asks X (Ask x k)"
    using s(4) [OF assms(2)] by (simp_all add: client_at_def assms(3,4))
  have x: "x \<in> X" using at(2) by simp
  obtain M' A' where o: "overlap ?cs m log ?us h M' A' ?ph" using overlap_begin [OF s(1) x] by blast
  have len: "length us = ?n" by (rule overlap_length [OF s(1)])
  have lg: "set log \<subseteq> {..<?n}" by (rule overlapD(7) [OF s(1)])
  have new: "?cs ! ?n = (?self, x)" "?us ! ?n = (?self, begins ?self x)" using len by (simp, metis nth_append_length)
  have old: "?cs ! j = cs ! j" "?us ! j = us ! j" "?ph j = ph j" if "j < ?n" for j
    using that by (simp_all add: nth_append len)
  have "serve m ts h cl (cur(i \<mapsto> ?n)) ?cs log ?us M' A' ?ph"
  proof (rule serveI [OF o])
    show "snd ` set ?cs \<subseteq> X" using s(2) x by simp
    show "client_at ?cs log ?us ?ph ((cur(i \<mapsto> ?n)) i') (ts ! i') (cl ! i')" if i': "i' < length ts" for i'
    proof (cases "i' = i")
      case True
      have "?n \<notin> set log" using lg by auto
      then show ?thesis unfolding True using new at begins_fresh(1) [OF x]
        by (auto simp: client_at_def assms(4) simp del: nth_append_length)
    next
      case False
      then show ?thesis using s(4) [OF i'] old
        by (cases "cur i'") (auto simp: client_at_def)
    qed
    show "a = b" if "a < length ts" "b < length ts" "(cur(i \<mapsto> ?n)) a = Some j" "(cur(i \<mapsto> ?n)) b = Some j" for a b j
    proof -
      have "cur a \<noteq> Some ?n" if "a < length ts" for a using s(4) [OF that] by (auto simp: client_at_def)
      then show ?thesis using that s(5) [of a b j] by (auto split: if_splits)
    qed
    show "answer (snd (?us ! j)) \<noteq> None" if j: "j < length ?cs" "\<And>a. a < length ts \<Longrightarrow> (cur(i \<mapsto> ?n)) a \<noteq> Some j" for j
    proof -
      have "j < ?n" using j(1) j(2) [OF assms(2)] by (simp add: less_Suc_eq)
      moreover have "cur a \<noteq> Some j" if "a < length ts" for a using j(2) [OF that] assms(3) by (auto split: if_splits)
      ultimately show ?thesis using s(6) [of j] old(2) by simp
    qed
  qed (use s(3) in simp)
  moreover have "state_after ?cs m log = state_after cs m log" using lg by (simp add: state_after_def taken_append)
  ultimately show ?thesis by blast
qed

text \<open>
  \<open>atomic_step\<close>: with indivisible calls a client makes its call, or stays.  \<open>calling\<close>: a client is in call \<open>j\<close> and goes on with \<open>k\<close>
  after it.
\<close>

definition atomic_step :: "'r user list \<Rightarrow> (key \<Rightarrow> val option) \<Rightarrow> nat \<Rightarrow> 'r user list \<Rightarrow> (key \<Rightarrow> val option) \<Rightarrow> bool" where
  "atomic_step cl m i cl' m' \<longleftrightarrow> cl' = cl \<and> m' = m \<or>
     (\<exists>x k. cl ! i = Ask x k \<and> cl' = cl[i := k (fst (spec_call x m))] \<and> m' = snd (spec_call x m))"

definition calling :: "(nat \<times> call) list \<Rightarrow> nat list \<Rightarrow> 'r user list \<Rightarrow> nat \<Rightarrow> nat \<Rightarrow> (HT_Res \<Rightarrow> 'r user) \<Rightarrow> bool" where
  "calling cs log cl i j k \<longleftrightarrow> (if j \<in> set log then cl ! i \<in> range k else cl ! i = Ask (snd (cs ! j)) k)"

text \<open>A step of one call, as its client sees it: when it takes effect and what it answers.\<close>

lemma overlap_call_step:
  assumes "overlap cs m log us h M A ph" "j < length cs" "snd ` set cs \<subseteq> X"
    "step R (fst (us ! j)) (snd (us ! j)) h = Some (p, h')"
  shows "\<exists>log' M' A' ph'. overlap cs m log' (us[j := (fst (us ! j), p)]) h' M' A' ph' \<and>
    (\<forall>j'. j' \<noteq> j \<longrightarrow> ph' j' = ph j') \<and> (going cs us h ph j \<longrightarrow> going cs (us[j := (fst (us ! j), p)]) h' ph' j) \<and>
    (log' = log \<and> (j \<in> set log \<longrightarrow> ph' j = ph j) \<or>
     log' = log @ [j] \<and> j \<notin> set log \<and> ph' j = Leaving (fst (spec_call (snd (cs ! j)) (state_after cs m log)))) \<and>
    (\<forall>r. p = Return r \<longrightarrow> j \<in> set log' \<and> ph' j = Leaving r)"
proof -
  let ?us = "us[j := (fst (us ! j), p)]"
  note o = overlapD [OF assms(1)]
  have at: "?us ! j = (fst (us ! j), p)" using assms(2) overlap_length [OF assms(1)] by simp
  obtain log1 M1 A1 ph1 where l1: "overlap cs m log1 ?us h' M1 A1 ph1" "log1 = log \<or> log1 = log @ [j]"
    "\<forall>j'. j' \<noteq> j \<longrightarrow> ph1 j' = ph j'" "going cs us h ph j \<longrightarrow> going cs ?us h' ph1 j"
    using overlap_step [OF assms] by blast
  note o1 = overlapD [OF l1(1)]
  have same: "ph1 j = ph j" if l: "log1 = log" "j \<in> set log"
  proof -
    obtain d where d: "d < length log" "log ! d = j" using l(2) by (auto simp: in_set_conv_nth)
    show ?thesis using o(9) [OF d(1)] o1(9) [of d] d l(1) by simp
  qed
  have new: "j \<notin> set log \<and> ph1 j = Leaving (fst (spec_call (snd (cs ! j)) (state_after cs m log)))" if "log1 = log @ [j]"
    using o1(6) o1(9) [of "length log"] by (simp add: that after_snoc nth_append)
  have ret: "j \<in> set log1 \<and> ph1 j = Leaving r" if r: "p = Return r" for r
  proof -
    have j: "j \<in> set log1"
    proof (rule ccontr)
      assume "j \<notin> set log1"
      from overlap_silent [OF l1(1) assms(2) this] show False unfolding at by (simp add: r answer_def)
    qed
    then obtain d where "d < length log1" "log1 ! d = j" by (auto simp: in_set_conv_nth)
    then obtain r' where r': "ph1 j = Leaving r'" using o1(9) by metis
    have "leaving r' p (A1 (Caller j))" using o1(8) [OF assms(2)] r' by (simp add: phase_ok_def at)
    then show ?thesis using j r' by (simp add: r)
  qed
  show ?thesis using l1 same new ret by blast
qed

text \<open>A client and its call change, the others stay where they are.\<close>

lemma serve_change:
  assumes "serve m ts h cl cur cs log us M A ph" "i < length ts" "cur i = Some j"
    "overlap cs m log' us' h' M' A' ph'" "length cl' = length cl" "cur' = cur \<or> cur' = cur(i := None) \<and> answer (snd (us' ! j)) \<noteq> None"
    "\<And>i'. i' \<noteq> i \<Longrightarrow> cl' ! i' = cl ! i'"
    "\<And>j'. j' \<noteq> j \<Longrightarrow> (j' \<in> set log' \<longleftrightarrow> j' \<in> set log) \<and> us' ! j' = us ! j' \<and> ph' j' = ph j'"
    "client_at cs log' us' ph' (cur' i) t (cl' ! i)"
  shows "serve m (ts[i := t]) h' cl' cur' cs log' us' M' A' ph'"
proof (rule serveI [OF assms(4)])
  note s = serveD [OF assms(1)]
  show "snd ` set cs \<subseteq> X" "length cl' = length (ts[i := t])" using s(2,3) assms(5) by simp_all
  show "client_at cs log' us' ph' (cur' i') (ts[i := t] ! i') (cl' ! i')" if i': "i' < length (ts[i := t])" for i'
  proof (cases "i' = i")
    case False
    have c: "client_at cs log us ph (cur i') (ts ! i') (cl ! i')" using s(4) i' by simp
    have "client_at cs log' us' ph' (cur i') (ts ! i') (cl ! i')"
    proof (cases "cur i'")
      case (Some j')
      have "j' \<noteq> j" using s(5) [OF _ assms(2) Some] assms(3) i' False by auto
      from assms(8) [OF this] show ?thesis using c by (simp only: client_at_def Some option.case)
    qed (use c in \<open>simp add: client_at_def\<close>)
    moreover have "cur' i' = cur i'" using assms(6) False by auto
    ultimately show ?thesis using False assms(7) by simp
  qed (use assms(2,9) in simp)
  show "a = b" if "a < length (ts[i := t])" "b < length (ts[i := t])" "cur' a = Some d" "cur' b = Some d" for a b d
    using that s(5) [of a b d] assms(6) by (auto split: if_splits)
  show "answer (snd (us' ! d)) \<noteq> None" if d: "d < length cs" "\<And>a. a < length (ts[i := t]) \<Longrightarrow> cur' a \<noteq> Some d" for d
  proof (cases "d = j")
    case True
    have "cur' \<noteq> cur" using d(2) [of i] assms(2,3) True by auto
    then show ?thesis using assms(6) True by blast
  next
    case False
    have "cur a \<noteq> Some d" if "a < length ts" for a using d(2) [of a] that False assms(3,6) by (auto split: if_splits)
    then show ?thesis using s(6) [OF d(1)] assms(8) [OF False] by simp
  qed
qed

text \<open>A client in the middle of a call makes a step.  With indivisible calls it makes its call when this one takes effect.\<close>

lemma serve_move:
  assumes "serve m ts h cl cur cs log us M A ph" "i < length ts" "cur i = Some j"
    "step R (fst (ts ! i)) (snd (ts ! i)) h = Some (q, h')"
  shows "\<exists>p cl' log' M' A' ph'. step R (fst (us ! j)) (snd (us ! j)) h = Some (p, h') \<and>
    serve m (ts[i := (fst (ts ! i), q)]) h' cl' (if answer p = None then cur else cur(i := None)) cs log'
      (us[j := (fst (us ! j), p)]) M' A' ph' \<and>
    atomic_step cl (state_after cs m log) i cl' (state_after cs m log') \<and>
    (\<forall>j'. j' \<noteq> j \<longrightarrow> ph' j' = ph j') \<and> (going cs us h ph j \<longrightarrow> going cs (us[j := (fst (us ! j), p)]) h' ph' j) \<and>
    (\<forall>k. calling cs log cl i j k \<longrightarrow> calling cs log' cl' i j k) \<and> (answer p \<noteq> None \<longrightarrow> j \<in> set log')"
proof -
  let ?self = "fst (ts ! i)"
  note s = serveD [OF assms(1)]
  obtain k where k: "j < length cs" "fst (cs ! j) = ?self" "answer (snd (us ! j)) = None" "\<And>r. asks X (k r)"
    "snd (ts ! i) = bind_prog (\<lambda>r. user_prog (begins ?self) (k r)) (snd (us ! j))"
    "if j \<in> set log then \<exists>r. ph j = Leaving r \<and> cl ! i = k r else cl ! i = Ask (snd (cs ! j)) k"
    using s(4) [OF assms(2)] by (auto simp: client_at_def assms(3))
  have len: "length us = length cs" by (rule overlap_length [OF s(1)])
  have self: "fst (us ! j) = ?self" using overlapD(5) [OF s(1)] k(1,2) len by (metis nth_map)
  obtain p where p: "step R (fst (us ! j)) (snd (us ! j)) h = Some (p, h')" "q = bind_prog (\<lambda>r. user_prog (begins ?self) (k r)) p"
    using assms(4) unfolding k(5) step_bind [OF k(3)] self by auto
  let ?us = "us[j := (fst (us ! j), p)]" and ?cur = "if answer p = None then cur else cur(i := None)"
  obtain log1 M1 A1 ph1 where l1: "overlap cs m log1 ?us h' M1 A1 ph1" "\<forall>j'. j' \<noteq> j \<longrightarrow> ph1 j' = ph j'"
    "going cs us h ph j \<longrightarrow> going cs ?us h' ph1 j"
    "log1 = log \<and> (j \<in> set log \<longrightarrow> ph1 j = ph j) \<or>
     log1 = log @ [j] \<and> j \<notin> set log \<and> ph1 j = Leaving (fst (spec_call (snd (cs ! j)) (state_after cs m log)))"
    "\<forall>r. p = Return r \<longrightarrow> j \<in> set log1 \<and> ph1 j = Leaving r"
    using overlap_call_step [OF s(1) k(1) s(2) p(1)] by (elim exE conjE)
  define cl' where "cl' = (if log1 = log then cl else cl[i := k (fst (spec_call (snd (cs ! j)) (state_after cs m log)))])"
  have atomic: "atomic_step cl (state_after cs m log) i cl' (state_after cs m log1)"
    using l1(4) k(6) by (auto simp: atomic_step_def cl'_def after_snoc)
  have call: "calling cs log1 cl' i j f" if "calling cs log cl i j f" for f
    using that l1(4) assms(2) s(3) k(6) by (auto simp: calling_def cl'_def)
  have pos: "if j \<in> set log1 then \<exists>r. ph1 j = Leaving r \<and> cl' ! i = k r else cl' ! i = Ask (snd (cs ! j)) k"
    using l1(4) k(6) assms(2) s(3) by (auto simp: cl'_def)
  have here: "client_at cs log1 ?us ph1 (?cur i) (?self, q) (cl' ! i)"
  proof (cases "answer p")
    case None
    then have c: "?cur i = Some j" using assms(3) by simp
    show ?thesis unfolding client_at_def c option.case
      using None k(1,2,4) p(2) pos len by (intro conjI exI [of _ k]) simp_all
  next
    case (Some r)
    then have r: "p = Return r" by simp
    then have "cl' ! i = k r" using l1(5) pos by simp
    then show ?thesis using k(4) p(2) by (simp add: client_at_def answer_def r)
  qed
  have "?cur = cur \<or> ?cur = cur(i := None) \<and> answer (snd (?us ! j)) \<noteq> None" using k(1) len by simp
  moreover have "length cl' = length cl" "\<And>i'. i' \<noteq> i \<Longrightarrow> cl' ! i' = cl ! i'" by (simp_all add: cl'_def)
  moreover have "(j' \<in> set log1 \<longleftrightarrow> j' \<in> set log) \<and> ?us ! j' = us ! j' \<and> ph1 j' = ph j'" if "j' \<noteq> j" for j'
    using l1(2,4) that by auto
  ultimately have "serve m (ts[i := (?self, q)]) h' cl' ?cur cs log1 ?us M1 A1 ph1"
    by (intro serve_change [OF assms(1-3) l1(1)] here)
  moreover have "answer p \<noteq> None \<longrightarrow> j \<in> set log1" using l1(5) by (cases "answer p") auto
  ultimately show ?thesis using p(1) atomic l1(2,3) call by blast
qed

text \<open>Any step of a client.\<close>

lemma serve_step:
  assumes "serve m ts h cl cur cs log us M A ph" "i < length ts" "step R (fst (ts ! i)) (snd (ts ! i)) h = Some (q, h')"
  shows "\<exists>cl' cur' cs' log' us' M' A' ph'. serve m (ts[i := (fst (ts ! i), q)]) h' cl' cur' cs' log' us' M' A' ph' \<and>
    atomic_step cl (state_after cs m log) i cl' (state_after cs' m log')"
proof (cases "cur i")
  case None
  have "cl ! i \<noteq> Done v" for v
    using serveD(4) [OF assms(1,2)] assms(3) by (auto simp: client_at_def None)
  then obtain x k where x: "cl ! i = Ask x k" by (cases "cl ! i") auto
  let ?c = "(fst (ts ! i), x)" and ?u = "(fst (ts ! i), begins (fst (ts ! i)) x)"
  obtain M1 A1 where b: "serve m ts h cl (cur(i \<mapsto> length cs)) (cs @ [?c]) log (us @ [?u]) M1 A1 (ph(length cs := Waiting))"
    "state_after (cs @ [?c]) m log = state_after cs m log"
    using serve_begin [OF assms(1,2) None x] by blast
  have "(cur(i \<mapsto> length cs)) i = Some (length cs)" by simp
  from serve_move [OF b(1) assms(2) this assms(3)] show ?thesis unfolding b(2) by blast
next
  case (Some j)
  from serve_move [OF assms(1,2) Some assms(3)] show ?thesis by blast
qed

lemma serve_schedule:
  assumes "serve m ts h cl cur cs log us M A ph" "atomically order cl0 m0 = Some (cl, state_after cs m log)"
    "schedule R is ts h = Some (ts', h')"
  shows "\<exists>cl' cur' cs' log' us' M' A' ph' order'. serve m ts' h' cl' cur' cs' log' us' M' A' ph' \<and>
    atomically order' cl0 m0 = Some (cl', state_after cs' m log')"
  using assms
proof (induction "is" arbitrary: ts h cl cur cs log us M A ph order)
  case Nil
  then have "ts' = ts" "h' = h" by simp_all
  then show ?case using Nil.prems(1,2) by blast
next
  case (Cons i "is")
  obtain q h1 where q: "i < length ts" "step R (fst (ts ! i)) (snd (ts ! i)) h = Some (q, h1)"
    "schedule R is (ts[i := (fst (ts ! i), q)]) h1 = Some (ts', h')"
    using Cons.prems(3) by (auto split: if_splits prod.splits option.splits)
  obtain cl1 cur1 cs1 log1 us1 M1 A1 ph1 where s1: "serve m (ts[i := (fst (ts ! i), q)]) h1 cl1 cur1 cs1 log1 us1 M1 A1 ph1"
    "atomic_step cl (state_after cs m log) i cl1 (state_after cs1 m log1)"
    using serve_step [OF Cons.prems(1) q(1,2)] by blast
  have "\<exists>order1. atomically order1 cl0 m0 = Some (cl1, state_after cs1 m log1)"
    using s1(2) atomically_snoc [OF Cons.prems(2), of i] Cons.prems(2) q(1) serveD(3) [OF Cons.prems(1)]
    unfolding atomic_step_def by metis
  then show ?case using Cons.IH [OF s1(1) _ q(3)] by blast
qed

text \<open>No client is stuck, and a client that is done is done with indivisible calls too.\<close>

lemma serve_moves:
  assumes "serve m ts h cl cur cs log us M A ph" "i < length ts"
  shows "step R (fst (ts ! i)) (snd (ts ! i)) h \<noteq> None \<or> answer (snd (ts ! i)) \<noteq> None \<or> snd (ts ! i) = Out_of_fuel"
proof (cases "cur i")
  case None
  show ?thesis
  proof (cases "cl ! i")
    case (Ask x k)
    let ?self = "fst (ts ! i)"
    obtain M1 A1 where b: "overlap (cs @ [(?self, x)]) m log (us @ [(?self, begins ?self x)]) h M1 A1 (ph(length cs := Waiting))"
      using serve_begin [OF assms None Ask] serveD(1) by blast
    have at: "snd (ts ! i) = user_prog (begins ?self) (Ask x k)" "x \<in> X"
      using serveD(4) [OF assms] by (simp_all add: client_at_def None Ask)
    have "length us = length cs" by (rule overlap_length [OF serveD(1) [OF assms(1)]])
    then have "(us @ [(?self, begins ?self x)]) ! length cs = (?self, begins ?self x)" by (metis nth_append_length)
    from overlap_moves [OF b, of "length cs", unfolded this] begins_fresh [OF at(2), of ?self]
    have "step R ?self (begins ?self x) h \<noteq> None" by simp
    then show ?thesis unfolding at(1) user_prog.simps step_bind [OF begins_fresh(1) [OF at(2)]] by simp
  qed (use serveD(4) [OF assms] in \<open>simp add: client_at_def None\<close>)
next
  case (Some j)
  note o = serveD(1) [OF assms(1)]
  obtain f where k: "j < length cs" "fst (cs ! j) = fst (ts ! i)" "answer (snd (us ! j)) = None"
    "snd (ts ! i) = bind_prog f (snd (us ! j))"
    using serveD(4) [OF assms] by (auto simp: client_at_def Some)
  have "fst (us ! j) = fst (ts ! i)" using overlapD(5) [OF o] k(1,2) overlap_length [OF o] by (metis nth_map)
  with overlap_moves [OF o k(1)] k(3) show ?thesis
    unfolding k(4) step_bind [OF k(3)] by (auto simp: answer_def)
qed

lemma serve_done:
  assumes "serve m ts h cl cur cs log us M A ph" "i < length ts" "snd (ts ! i) = Return v"
  shows "cur i = None" "cl ! i = Done v"
proof -
  have a: "answer (snd (ts ! i)) = Some v" using assms(3) by simp
  note c = serveD(4) [OF assms(1,2)]
  show n: "cur i = None"
  proof (rule ccontr)
    assume "cur i \<noteq> None"
    then obtain j f where "answer (snd (us ! j)) = None" "snd (ts ! i) = bind_prog f (snd (us ! j))"
      using c by (auto simp: client_at_def)
    then show False using a answer_bind by (metis option.distinct(1))
  qed
  show "cl ! i = Done v"
  proof (cases "cl ! i")
    case (Ask x k)
    then have "snd (ts ! i) = user_prog (begins (fst (ts ! i))) (Ask x k)" "x \<in> X" using c n by (simp_all add: client_at_def)
    then have "answer (snd (ts ! i)) = None" by (simp add: answer_bind begins_fresh(1))
    then show ?thesis using a by (metis option.distinct(1))
  qed (use c n a in \<open>simp add: client_at_def\<close>)
qed

lemma serve_quiet:
  assumes "serve m ts h cl cur cs log us M A ph" "list_all (\<lambda>t. answer (snd t) \<noteq> None) ts"
  shows "ready (state_after cs m log) h"
proof -
  note s = serveD [OF assms(1)]
  have "cur i = None" if i: "i < length ts" for i
  proof -
    obtain v where "snd (ts ! i) = Return v" using assms(2) i by (auto simp: list_all_length)
    then show ?thesis by (rule serve_done(1) [OF assms(1) i])
  qed
  then have "answer (snd (us ! j)) \<noteq> None" if "j < length cs" for j using s(6) [OF that] by simp
  then have "list_all (\<lambda>t. answer (snd t) \<noteq> None) us" using overlap_length [OF s(1)] by (simp add: list_all_length)
  then show ?thesis by (rule overlap_quiet(2) [OF s(1)])
qed

section \<open>Clients cannot tell\<close>

text \<open>The clients, with their nodes, before their first step.\<close>

definition users_of :: "(nat \<times> 'r user) list \<Rightarrow> ('c, 'r) thread list" where
  "users_of us = map (\<lambda>(self, u). (self, user_prog (begins self) u)) us"

lemma serve_start:
  assumes "ready m h" "\<forall>u \<in> snd ` set us. asks X u"
  shows "\<exists>M. serve m (users_of us) h (map snd us) (\<lambda>_. None) [] [] [] M (\<lambda>_. Map.empty) (\<lambda>_. Waiting)"
proof -
  obtain M where "overlap [] m [] (threads_of []) h M (\<lambda>w. Map.empty) (\<lambda>i. Waiting)"
    using overlap_start [OF assms(1), of "[]"] by auto
  then have o: "overlap [] m [] [] h M (\<lambda>w. Map.empty) (\<lambda>i. Waiting)" by (simp add: threads_of_def)
  have "serve m (users_of us) h (map snd us) (\<lambda>_. None) [] [] [] M (\<lambda>_. Map.empty) (\<lambda>_. Waiting)"
    by (rule serveI [OF o]) (use assms(2) in \<open>auto simp: users_of_def client_at_def case_prod_beta\<close>)
  then show ?thesis by blast
qed

lemma users_serializable:
  assumes "ready m h" "\<forall>u \<in> snd ` set us. asks X u" "schedule R is (users_of us) h = Some (ts', h')"
  shows "\<exists>order cl m'. atomically order (map snd us) m = Some (cl, m') \<and> length ts' = length us \<and>
    (\<forall>i < length us. (\<forall>v. snd (ts' ! i) = Return v \<longrightarrow> cl ! i = Done v) \<and>
       (step R (fst (ts' ! i)) (snd (ts' ! i)) h' \<noteq> None \<or> answer (snd (ts' ! i)) \<noteq> None \<or> snd (ts' ! i) = Out_of_fuel)) \<and>
    (list_all (\<lambda>t. answer (snd t) \<noteq> None) ts' \<longrightarrow> ready m' h')"
proof -
  obtain M where "serve m (users_of us) h (map snd us) (\<lambda>_. None) [] [] [] M (\<lambda>_. Map.empty) (\<lambda>_. Waiting)"
    using serve_start [OF assms(1,2)] by blast
  from serve_schedule [OF this _ assms(3), of "[]" "map snd us" m]
  obtain cl cur cs log vs M A ph order where s: "serve m ts' h' cl cur cs log vs M A ph"
    "atomically order (map snd us) m = Some (cl, state_after cs m log)" by auto
  have "length ts' = length us" using serveD(3) [OF s(1)] atomically_length [OF s(2)] by simp
  then show ?thesis using s(2) serve_done(2) [OF s(1)] serve_moves [OF s(1)] serve_quiet [OF s(1)]
    by (intro exI [of _ order] exI [of _ cl] exI [of _ "state_after cs m log"]) auto
qed

section \<open>Clients come to their ends\<close>

text \<open>A client whose call has its lock, or can get it, left alone, gets its answer.\<close>

lemma serve_answers:
  assumes "serve m ts h cl cur cs log us M A ph" "i < length ts" "cur i = Some j" "going cs us h ph j"
  shows "\<exists>n ts' h' cl' log' us' M' A' ph'. schedule R (replicate n i) ts h = Some (ts', h') \<and>
    serve m ts' h' cl' (cur(i := None)) cs log' us' M' A' ph' \<and> length ts' = length ts \<and>
    (\<forall>i'. i' \<noteq> i \<longrightarrow> ts' ! i' = ts ! i' \<and> cl' ! i' = cl ! i') \<and> (\<forall>j'. j' \<noteq> j \<longrightarrow> ph' j' = ph j' \<and> us' ! j' = us ! j') \<and>
    answer (snd (us' ! j)) \<noteq> None \<and> (\<forall>k. calling cs log cl i j k \<longrightarrow> cl' ! i \<in> range k)"
  using assms
proof (induction "snd (us ! j)" arbitrary: ts h cl log us M A ph rule: wf_induct_rule [OF step_wf [of R]])
  case less: (1 us)
  note s = serveD [OF less.prems(1)]
  let ?self = "fst (ts ! i)"
  obtain f where k: "j < length cs" "fst (cs ! j) = ?self" "answer (snd (us ! j)) = None" "snd (ts ! i) = bind_prog f (snd (us ! j))"
    using s(4) [OF less.prems(2)] by (auto simp: client_at_def less.prems(3))
  have len: "length us = length cs" by (rule overlap_length [OF s(1)])
  have self: "fst (us ! j) = ?self" using overlapD(5) [OF s(1)] k(1,2) len by (metis nth_map)
  obtain p0 h0 where "step R ?self (snd (us ! j)) h = Some (p0, h0)"
    by (rule going_not_stuck [OF s(1) k(1) less.prems(4) k(3), unfolded self])
  then obtain q h1 where q: "step R ?self (snd (ts ! i)) h = Some (q, h1)" by (simp add: k(4) step_bind [OF k(3)])
  obtain p cl1 log1 M1 A1 ph1 where m1: "step R ?self (snd (us ! j)) h = Some (p, h1)"
    "serve m (ts[i := (?self, q)]) h1 cl1 (if answer p = None then cur else cur(i := None)) cs log1 (us[j := (?self, p)]) M1 A1 ph1"
    "\<forall>j'. j' \<noteq> j \<longrightarrow> ph1 j' = ph j'" "going cs us h ph j \<longrightarrow> going cs (us[j := (?self, p)]) h1 ph1 j"
    "\<forall>k. calling cs log cl i j k \<longrightarrow> calling cs log1 cl1 i j k" "answer p \<noteq> None \<longrightarrow> j \<in> set log1"
    "atomic_step cl (state_after cs m log) i cl1 (state_after cs m log1)"
    using serve_move [OF less.prems(1-3) q] unfolding self by (elim exE conjE)
  have others: "cl1 ! i' = cl ! i'" if "i' \<noteq> i" for i' using m1(7) that by (auto simp: atomic_step_def)
  let ?ts = "ts[i := (?self, q)]" and ?us = "us[j := (?self, p)]"
  have once: "schedule R (replicate 1 i) ts h = Some (?ts, h1)" using q less.prems(2) by (simp add: case_prod_beta)
  show ?case
  proof (cases "answer p")
    case None
    have "(snd (?us ! j), snd (us ! j)) \<in> {(p', p). \<exists>self h h'. step R self p h = Some (p', h')}"
      using m1(1) k(1) len by auto
    moreover have "serve m ?ts h1 cl1 cur cs log1 ?us M1 A1 ph1" using m1(2) None by simp
    moreover have "i < length ?ts" using less.prems(2) by simp
    moreover have "going cs ?us h1 ph1 j" using m1(4) less.prems(4) by blast
    ultimately obtain n ts' h' cl' log' us' M' A' ph' where r: "schedule R (replicate n i) ?ts h1 = Some (ts', h')"
      "serve m ts' h' cl' (cur(i := None)) cs log' us' M' A' ph'" "length ts' = length ?ts"
      "\<forall>i'. i' \<noteq> i \<longrightarrow> ts' ! i' = ?ts ! i' \<and> cl' ! i' = cl1 ! i'" "\<forall>j'. j' \<noteq> j \<longrightarrow> ph' j' = ph1 j' \<and> us' ! j' = ?us ! j'"
      "answer (snd (us' ! j)) \<noteq> None" "\<forall>k. calling cs log1 cl1 i j k \<longrightarrow> cl' ! i \<in> range k"
      using less.hyps [of ?us ?ts h1 cl1 log1 M1 A1 ph1] less.prems(3) by blast
    have "schedule R (replicate (1 + n) i) ts h = Some (ts', h')"
      using schedule_append [OF once r(1)] by (simp add: replicate_add)
    moreover have "\<forall>i'. i' \<noteq> i \<longrightarrow> ts' ! i' = ts ! i' \<and> cl' ! i' = cl ! i'" "\<forall>j'. j' \<noteq> j \<longrightarrow> ph' j' = ph j' \<and> us' ! j' = us ! j'"
      using r(4,5) m1(3) others by simp_all
    moreover have "length ts' = length ts" using r(3) by simp
    ultimately show ?thesis using r(2,6,7) m1(5) by blast
  next
    case (Some r)
    have "answer (snd (?us ! j)) \<noteq> None" using Some k(1) len by simp
    moreover have "\<forall>i'. i' \<noteq> i \<longrightarrow> ?ts ! i' = ts ! i' \<and> cl1 ! i' = cl ! i'" "\<forall>j'. j' \<noteq> j \<longrightarrow> ph1 j' = ph j' \<and> ?us ! j' = us ! j'" "length ?ts = length ts"
      using m1(3) others by simp_all
    moreover have "\<forall>k. calling cs log cl i j k \<longrightarrow> cl1 ! i \<in> range k" using m1(5,6) Some by (simp add: calling_def)
    moreover have "serve m ?ts h1 cl1 (cur(i := None)) cs log1 ?us M1 A1 ph1" using m1(2) Some by (simp split: if_splits)
    ultimately show ?thesis using once by blast
  qed
qed

text \<open>A client in the middle of a call gets its answer; at most the client that has the lock has to finish its call first.\<close>

lemma serve_call_done:
  assumes "serve m ts h cl cur cs log us M A ph" "i < length ts" "cur i = Some j" "snd (ts ! i) \<noteq> Out_of_fuel"
  shows "\<exists>is ts' h' cl' cur' log' us' M' A' ph'. schedule R is ts h = Some (ts', h') \<and>
    serve m ts' h' cl' cur' cs log' us' M' A' ph' \<and> cur' i = None \<and> length ts' = length ts \<and>
    (\<forall>i'. ts' ! i' = ts ! i' \<or> cur i' \<noteq> None \<and> cur' i' = None) \<and> (\<forall>k. calling cs log cl i j k \<longrightarrow> cl' ! i \<in> range k)"
proof (cases "going cs us h ph j")
  case True
  from serve_answers [OF assms(1-3) True] obtain n ts' h' cl' log' us' M' A' ph' where
    r: "schedule R (replicate n i) ts h = Some (ts', h')" "serve m ts' h' cl' (cur(i := None)) cs log' us' M' A' ph'"
    "length ts' = length ts" "\<forall>i'. i' \<noteq> i \<longrightarrow> ts' ! i' = ts ! i'" "\<forall>k. calling cs log cl i j k \<longrightarrow> cl' ! i \<in> range k" by blast
  moreover have "\<forall>i'. ts' ! i' = ts ! i' \<or> cur i' \<noteq> None \<and> (cur(i := None)) i' = None" using r(4) assms(3) by auto
  ultimately show ?thesis by (intro exI [of _ "replicate n i"] exI [of _ ts'] exI [of _ h'] exI [of _ cl']
      exI [of _ "cur(i := None)"] exI [of _ log'] exI [of _ us'] exI [of _ M'] exI [of _ A'] exI [of _ ph']) simp
next
  case False
  note s = serveD [OF assms(1)]
  obtain f where k: "j < length cs" "answer (snd (us ! j)) = None" "snd (ts ! i) = bind_prog f (snd (us ! j))"
    using s(4) [OF assms(2)] by (auto simp: client_at_def assms(3))
  have fuel: "snd (us ! j) \<noteq> Out_of_fuel" using assms(4) k(3) by auto
  then have w: "ph j = Waiting" "cells h (lock_at cs j) \<noteq> Some (unl S)" using False by (auto simp: going_def)
  have "snd (cs ! j) \<in> X" using k(1) s(2) by auto
  then have l: "lock_at cs j \<in> locks S" using call_lock by (simp add: lock_at_def)
  obtain d where d: "d < length cs" "ph d = Holding" "lock_at cs d = lock_at cs j"
    using overlapD(12) [OF s(1) l] w(2) by blast
  have "answer (snd (us ! d)) = None"
    using overlapD(8) [OF s(1) d(1)] d(2) by (cases "snd (us ! d)") (auto simp: phase_ok_def answer_def)
  then obtain b where b: "b < length ts" "cur b = Some d" using s(6) [OF d(1)] by blast
  have dj: "d \<noteq> j" using d(2) w(1) by auto
  then have bi: "b \<noteq> i" using b(2) assms(3) by auto
  have "going cs us h ph d" using d(2) by (simp add: going_def)
  from serve_answers [OF assms(1) b this] obtain n ts1 h1 cl1 log1 us1 M1 A1 ph1 where
    r: "schedule R (replicate n b) ts h = Some (ts1, h1)" "serve m ts1 h1 cl1 (cur(b := None)) cs log1 us1 M1 A1 ph1"
    "length ts1 = length ts" "\<forall>i'. i' \<noteq> b \<longrightarrow> ts1 ! i' = ts ! i' \<and> cl1 ! i' = cl ! i'" "\<forall>j'. j' \<noteq> d \<longrightarrow> ph1 j' = ph j' \<and> us1 ! j' = us ! j'"
    "answer (snd (us1 ! d)) \<noteq> None" by blast
  note s1 = serveD [OF r(2)]
  have "ph1 d \<noteq> Holding"
    using overlapD(8) [OF s1(1) d(1)] r(6) by (cases "snd (us1 ! d)") (auto simp: phase_ok_def answer_def)
  then have "\<forall>x<length cs. ph1 x = Holding \<longrightarrow> lock_at cs x \<noteq> lock_at cs j"
    using r(5) overlapD(10) [OF s(1) _ d(1) _ d(2)] d(3) by metis
  then have "going cs us1 h1 ph1 j"
    using overlapD(12) [OF s1(1) l] r(5) dj fuel by (auto simp: going_def)
  then have *: "going cs us1 h1 ph1 j" .
  have i1: "i < length ts1" "(cur(b := None)) i = Some j" using assms(2,3) r(3) bi by simp_all
  from serve_answers [OF r(2) i1 *] obtain n' ts2 h2 cl2 log2 us2 M2 A2 ph2 where
    r': "schedule R (replicate n' i) ts1 h1 = Some (ts2, h2)" "serve m ts2 h2 cl2 ((cur(b := None))(i := None)) cs log2 us2 M2 A2 ph2"
    "length ts2 = length ts1" "\<forall>i'. i' \<noteq> i \<longrightarrow> ts2 ! i' = ts1 ! i'" "\<forall>k. calling cs log1 cl1 i j k \<longrightarrow> cl2 ! i \<in> range k"
    by (elim exE conjE) (metis (no_types, lifting))
  have "ph1 j = Waiting" using w(1) r(5) dj by simp
  then have "j \<notin> set log" "j \<notin> set log1"
    using overlapD(8) [OF s(1) k(1)] overlapD(8) [OF s1(1) k(1)] w(1) by (simp_all add: phase_ok_def)
  then have "\<forall>k. calling cs log cl i j k \<longrightarrow> calling cs log1 cl1 i j k" if "cl1 ! i = cl ! i" using that by (simp add: calling_def)
  moreover have "cl1 ! i = cl ! i" using r(4) bi by simp
  ultimately have "\<forall>k. calling cs log cl i j k \<longrightarrow> cl2 ! i \<in> range k" using r'(5) by blast
  moreover have "\<forall>i'. ts2 ! i' = ts ! i' \<or> cur i' \<noteq> None \<and> (cur(b := None, i := None)) i' = None"
    using r(4) r'(4) b(2) assms(3) by auto
  moreover have "length ts2 = length ts" using r(3) r'(3) by simp
  ultimately show ?thesis using schedule_append [OF r(1) r'(1)] r'(2)
    by (intro exI [of _ "replicate n b @ replicate n' i"] exI [of _ ts2] exI [of _ h2] exI [of _ cl2]
      exI [of _ "cur(b := None, i := None)"] exI [of _ log2] exI [of _ us2] exI [of _ M2] exI [of _ A2] exI [of _ ph2]) simp
qed

text \<open>Nobody loses: a thread is as it was, or has moved on without using up its fuel.\<close>

definition advanced :: "('c, 'r) thread list \<Rightarrow> ('c, 'r) thread list \<Rightarrow> bool" where
  "advanced ts ts' \<longleftrightarrow> length ts' = length ts \<and>
     (\<forall>i<length ts. ts' ! i = ts ! i \<or> answer (snd (ts ! i)) = None \<and> snd (ts' ! i) \<noteq> Out_of_fuel)"

lemma advanced_refl [simp]: "advanced ts ts"
  by (simp add: advanced_def)

lemma advanced_trans: "advanced ts1 ts2 \<Longrightarrow> advanced ts2 ts3 \<Longrightarrow> advanced ts1 ts3"
  unfolding advanced_def by metis

lemma serve_between_calls: "serve m ts h cl cur cs log us M A ph \<Longrightarrow> i < length ts \<Longrightarrow> cur i = None \<Longrightarrow> snd (ts ! i) \<noteq> Out_of_fuel"
  using serveD(4) [of m ts h cl cur cs log us M A ph i] user_not_starved [of "cl ! i" "fst (ts ! i)"] by (simp add: client_at_def)

lemma serve_in_call: "serve m ts h cl cur cs log us M A ph \<Longrightarrow> i < length ts \<Longrightarrow> cur i \<noteq> None \<Longrightarrow> answer (snd (ts ! i)) = None"
  using serve_done(1) [of m ts h cl cur cs log us M A ph i] by (cases "answer (snd (ts ! i))") auto

lemma serve_call_advances:
  assumes "serve m ts h cl cur cs log us M A ph" "i < length ts" "cur i = Some j" "snd (ts ! i) \<noteq> Out_of_fuel"
  shows "\<exists>is ts' h' cl' cur' log' us' M' A' ph'. schedule R is ts h = Some (ts', h') \<and>
    serve m ts' h' cl' cur' cs log' us' M' A' ph' \<and> cur' i = None \<and> advanced ts ts' \<and> (\<forall>k. calling cs log cl i j k \<longrightarrow> cl' ! i \<in> range k)"
proof -
  obtain "is" ts' h' cl' cur' log' us' M' A' ph' where r: "schedule R is ts h = Some (ts', h')"
    "serve m ts' h' cl' cur' cs log' us' M' A' ph'" "cur' i = None" "length ts' = length ts"
    "\<forall>i'. ts' ! i' = ts ! i' \<or> cur i' \<noteq> None \<and> cur' i' = None" "\<forall>k. calling cs log cl i j k \<longrightarrow> cl' ! i \<in> range k"
    using serve_call_done [OF assms] by blast
  have "advanced ts ts'"
    unfolding advanced_def using r(4,5) serve_in_call [OF assms(1)] serve_between_calls [OF r(2)] by metis
  then show ?thesis using r by blast
qed

text \<open>A client between two calls can be brought to its end, by induction on what it still has to do.\<close>

lemma serve_client_ends:
  assumes "serve m ts h cl cur cs log us M A ph" "i < length ts" "cur i = None"
  shows "\<exists>is ts' h' cl' cur' cs' log' us' M' A' ph'. schedule R is ts h = Some (ts', h') \<and>
    serve m ts' h' cl' cur' cs' log' us' M' A' ph' \<and> advanced ts ts' \<and> answer (snd (ts' ! i)) \<noteq> None"
  using assms
proof (induction "cl ! i" arbitrary: ts h cl cur cs log us M A ph)
  case (Done v)
  have "schedule R [] ts h = Some (ts, h)" by simp
  moreover have "answer (snd (ts ! i)) \<noteq> None"
    using serveD(4) [OF Done.prems(1,2)] Done.prems(3) Done.hyps [symmetric] by (simp add: client_at_def answer_def)
  ultimately show ?case using Done.prems(1) advanced_refl by blast
next
  case (Ask x k)
  let ?self = "fst (ts ! i)" let ?n = "length cs" let ?cs = "cs @ [(?self, x)]" and ?cur = "cur(i \<mapsto> ?n)"
  obtain M1 A1 where b: "serve m ts h cl ?cur ?cs log (us @ [(?self, begins ?self x)]) M1 A1 (ph(?n := Waiting))"
    using serve_begin [OF Ask.prems Ask.hyps(2) [symmetric]] by blast
  have cur: "?cur i = Some ?n" by simp
  have "?n \<notin> set log" using overlapD(7) [OF serveD(1) [OF Ask.prems(1)]] by auto
  then have call: "calling ?cs log cl i ?n k" using Ask.hyps(2) [symmetric] by (simp add: calling_def)
  from serve_call_advances [OF b Ask.prems(2) cur serve_between_calls [OF Ask.prems]] call
  obtain is1 ts1 h1 cl1 cur1 log1 us1 M1 A1 ph1 where r: "schedule R is1 ts h = Some (ts1, h1)"
    "serve m ts1 h1 cl1 cur1 ?cs log1 us1 M1 A1 ph1" "cur1 i = None" "advanced ts ts1" "cl1 ! i \<in> range k"
    by blast
  have i1: "i < length ts1" using Ask.prems(2) r(4) by (simp add: advanced_def)
  from Ask.hyps(1) [OF r(5) r(2) i1 r(3)] obtain is2 ts2 h2 cl2 cur2 cs2 log2 us2 M2 A2 ph2 where
    r': "schedule R is2 ts1 h1 = Some (ts2, h2)" "serve m ts2 h2 cl2 cur2 cs2 log2 us2 M2 A2 ph2"
    "advanced ts1 ts2" "answer (snd (ts2 ! i)) \<noteq> None" by blast
  show ?case using schedule_append [OF r(1) r'(1)] advanced_trans [OF r(4) r'(3)] r'(2,4) by blast
qed

lemma serve_client_finishes:
  assumes "serve m ts h cl cur cs log us M A ph" "i < length ts" "snd (ts ! i) \<noteq> Out_of_fuel"
  shows "\<exists>is ts' h' cl' cur' cs' log' us' M' A' ph'. schedule R is ts h = Some (ts', h') \<and>
    serve m ts' h' cl' cur' cs' log' us' M' A' ph' \<and> advanced ts ts' \<and> answer (snd (ts' ! i)) \<noteq> None"
proof (cases "cur i")
  case None
  then show ?thesis by (rule serve_client_ends [OF assms(1,2)])
next
  case (Some j)
  obtain is1 ts1 h1 cl1 cur1 log1 us1 M1 A1 ph1 where r: "schedule R is1 ts h = Some (ts1, h1)"
    "serve m ts1 h1 cl1 cur1 cs log1 us1 M1 A1 ph1" "cur1 i = None" "advanced ts ts1"
    using serve_call_advances [OF assms(1,2) Some assms(3)] by blast
  have "i < length ts1" using assms(2) r(4) by (simp add: advanced_def)
  from serve_client_ends [OF r(2) this r(3)] obtain is2 ts2 h2 cl2 cur2 cs2 log2 us2 M2 A2 ph2 where
    r': "schedule R is2 ts1 h1 = Some (ts2, h2)" "serve m ts2 h2 cl2 cur2 cs2 log2 us2 M2 A2 ph2"
    "advanced ts1 ts2" "answer (snd (ts2 ! i)) \<noteq> None" by blast
  show ?thesis using schedule_append [OF r(1) r'(1)] advanced_trans [OF r(4) r'(3)] r'(2,4) by blast
qed

lemma serve_all_finish:
  assumes "serve m ts h cl cur cs log us M A ph" "n \<le> length ts"
  shows "\<exists>is ts' h' cl' cur' cs' log' us' M' A' ph'. schedule R is ts h = Some (ts', h') \<and>
    serve m ts' h' cl' cur' cs' log' us' M' A' ph' \<and> advanced ts ts' \<and>
    (\<forall>i<n. snd (ts ! i) \<noteq> Out_of_fuel \<longrightarrow> answer (snd (ts' ! i)) \<noteq> None)"
  using assms(2)
proof (induction n)
  case 0
  have "schedule R [] ts h = Some (ts, h)" by simp
  then show ?case using assms(1) advanced_refl by blast
next
  case (Suc n)
  then obtain is1 ts1 h1 cl1 cur1 cs1 log1 us1 M1 A1 ph1 where r: "schedule R is1 ts h = Some (ts1, h1)"
    "serve m ts1 h1 cl1 cur1 cs1 log1 us1 M1 A1 ph1" "advanced ts ts1"
    "\<forall>i<n. snd (ts ! i) \<noteq> Out_of_fuel \<longrightarrow> answer (snd (ts1 ! i)) \<noteq> None" by (metis Suc_leD)
  have n: "n < length ts" "n < length ts1" using Suc.prems r(3) by (simp_all add: advanced_def)
  show ?case
  proof (cases "snd (ts1 ! n) = Out_of_fuel")
    case True
    then have "snd (ts ! n) = Out_of_fuel" using r(3) n(1) unfolding advanced_def by metis
    then show ?thesis using r by (metis less_Suc_eq)
  next
    case False
    from serve_client_finishes [OF r(2) n(2) False] obtain is2 ts2 h2 cl2 cur2 cs2 log2 us2 M2 A2 ph2 where
      r': "schedule R is2 ts1 h1 = Some (ts2, h2)" "serve m ts2 h2 cl2 cur2 cs2 log2 us2 M2 A2 ph2"
      "advanced ts1 ts2" "answer (snd (ts2 ! n)) \<noteq> None" by blast
    have "answer (snd (ts2 ! i)) \<noteq> None" if i: "i < Suc n" "snd (ts ! i) \<noteq> Out_of_fuel" for i
    proof (cases "i = n")
      case False
      then have "i < n" "i < length ts1" using i(1) n(2) by simp_all
      then have "answer (snd (ts1 ! i)) \<noteq> None" "ts2 ! i = ts1 ! i \<or> answer (snd (ts1 ! i)) = None"
        using r(4) i(2) r'(3) unfolding advanced_def by blast+
      then show ?thesis by metis
    qed (use r'(4) in simp)
    then show ?thesis using schedule_append [OF r(1) r'(1)] advanced_trans [OF r(3) r'(3)] r'(2) by blast
  qed
qed

lemma users_deadlock_free:
  assumes "ready m h" "\<forall>u \<in> snd ` set us. asks X u" "schedule R is (users_of us) h = Some (ts', h')"
  shows "\<exists>is' ts2 h2. schedule R is' ts' h' = Some (ts2, h2) \<and>
    (\<forall>i < length us. snd (ts' ! i) \<noteq> Out_of_fuel \<longrightarrow> answer (snd (ts2 ! i)) \<noteq> None)"
proof -
  obtain M where "serve m (users_of us) h (map snd us) (\<lambda>_. None) [] [] [] M (\<lambda>_. Map.empty) (\<lambda>_. Waiting)"
    using serve_start [OF assms(1,2)] by blast
  from serve_schedule [OF this _ assms(3), of "[]" "map snd us" m]
  obtain cl cur cs log vs M A ph order where s: "serve m ts' h' cl cur cs log vs M A ph"
    "atomically order (map snd us) m = Some (cl, state_after cs m log)" by auto
  have "length ts' = length us" using serveD(3) [OF s(1)] atomically_length [OF s(2)] by simp
  then show ?thesis using serve_all_finish [OF s(1) order_refl] by metis
qed

end

end
