(* ===== verification/Client_Calls.thy ===== *)
theory Client_Calls
  imports Client_Correct Lock_Clients
begin

text \<open>
  The client of \<^verbatim>\<open>role_client.h\<close> as a program that makes calls one after the other (\<open>user\<close> of \<open>Lock_Clients\<close>), so
  that several of them can run at once: it is the client of \<open>Client\<close> when it runs alone, it makes
  calls on the keys of its experiment only, and its assertions hold on every table that answers like a map.
\<close>

section \<open>The client as a program of calls\<close>

text \<open>One client after the other; \<^verbatim>\<open>count % progression\<close> is computed before a call.\<close>

primrec bind_user :: "('a \<Rightarrow> 'b user) \<Rightarrow> 'a user \<Rightarrow> 'b user" where
  "bind_user f (Done v) = f v"
| "bind_user f (Ask x k) = Ask x (\<lambda>r. bind_user f (k r))"

definition logged :: "Client \<Rightarrow> (client_error + Client) user \<Rightarrow> (client_error + Client) user" where
  "logged c u = (if progression c = 0 then Done (Inl Division_by_zero) else u)"

definition Apply_user :: "IHT_Op \<Rightarrow> Client \<Rightarrow> (client_error + Client) user" where
  "Apply_user op c0 =
     (if 2 ^ 31 \<le> count c0 + 1 then Done (Inl Int_overflow) else
      let c = c0\<lparr>count := count c0 + 1\<rparr> in
      if op_type op = CONTAINS then
        logged c (Ask (Contains (op_key op)) (\<lambda>res. Done (assert_key res (op_key op) (Inr c))))
      else if op_type op = INSERT then
        logged c (Ask (Insert (op_key op) (op_value op)) (\<lambda>res. Done (Inr c)))
      else if op_type op = REMOVE then
        logged c (Ask (Remove (op_key op)) (\<lambda>res. Done (assert_key res (op_key op) (Inr c))))
      else Done (Inr c))"

fun apply_user :: "IHT_Op list \<Rightarrow> Client \<Rightarrow> (client_error + Client) user" where
  "apply_user [] c = Done (Inr c)"
| "apply_user (op # ops) c =
     bind_user (\<lambda>r. case r of Inl e \<Rightarrow> Done (Inl e) | Inr c' \<Rightarrow> apply_user ops c') (Apply_user op c)"

fun populate_user :: "(real \<Rightarrow> real) \<Rightarrow> int \<Rightarrow> int \<Rightarrow> real list \<Rightarrow> 'r user \<Rightarrow> 'r user" where
  "populate_user rnd kr lb [] u = u"
| "populate_user rnd kr lb (d # ds) u =
     (let k = word_of_int (draw_key rnd kr lb d) in
      Ask (Insert k k) (\<lambda>res. populate_user rnd kr lb ds u))"

text \<open>
  The part of \<^verbatim>\<open>Run\<close> that works on the table.  \<open>vs\<close> are the draws of the operations that the driver takes from
  the stream before it is stopped.
\<close>

definition Run_user :: "(real \<Rightarrow> real) \<Rightarrow> real \<Rightarrow> real list \<Rightarrow> (real \<times> real) list \<Rightarrow> Client \<Rightarrow> (client_error + Client) user" where
  "Run_user rnd portion us vs c =
     (let ps = params c; cnt = nat (populate_count rnd ps portion) in
      if key_ub ps - key_lb ps < - (2 ^ 31) \<or> 2 ^ 31 \<le> key_ub ps - key_lb ps \<or> length us < cnt then Done (Inl Table_failed)
      else populate_user rnd (key_ub ps - key_lb ps) (key_lb ps) (take cnt us) (apply_user (map (generator rnd ps) vs) c))"

section \<open>It is the client of role\_client.h\<close>

text \<open>Alone with a table it does what \<open>Run_table\<close> does.\<close>

definition client_result :: "((client_error + Client) \<times> 's) option \<Rightarrow> client_error + Client \<times> 's" where
  "client_result r = (case r of None \<Rightarrow> Inl Table_failed | Some (Inl e, s) \<Rightarrow> Inl e | Some (Inr c, s) \<Rightarrow> Inr (c, s))"

lemma user_run_bind:
  "user_run exec self (bind_user f u) s = (case user_run exec self u s of None \<Rightarrow> None | Some (v, s') \<Rightarrow> user_run exec self (f v) s')"
  by (induction u arbitrary: s) (auto split: option.splits)

lemma Apply_user_run: "Apply exec self op c s = client_result (user_run exec self (Apply_user op c) s)"
  by (auto simp: Apply_def Apply_user_def logged_def log_progress_def client_result_def assert_key_def Let_def split: option.splits)

lemma apply_user_run: "apply_all exec self ops c s = client_result (user_run exec self (apply_user ops c) s)"
proof (induction ops arbitrary: c s)
  case (Cons op ops)
  show ?case
    by (cases "user_run exec self (Apply_user op c) s")
      (auto simp: Apply_user_run user_run_bind Cons.IH client_result_def split: sum.splits)
qed (simp add: client_result_def)

lemma populate_user_run:
  "user_run exec self (populate_user rnd kr lb ds u) s =
     (case populate_loop exec self rnd kr lb (\<lambda>key. key) ds s of None \<Rightarrow> None | Some s' \<Rightarrow> user_run exec self u s')"
  by (induction ds arbitrary: s) (auto simp: Let_def split: option.splits)

lemma Run_user_run:
  "Run_table exec self rnd portion us vs handed c s =
     client_result (user_run exec self (Run_user rnd portion us (take handed (stream_draws (params c) vs)) c) s)"
  by (simp add: Run_table_def Run_user_def populate_def populate_user_run apply_user_run workload_def take_map client_result_def Let_def
      split: option.split)

text \<open>And as a program on the memory of a table it does what it does with the calls of that table.\<close>

lemma user_prog_run:
  "finished (run R n (user_prog (tbl n) u) h) = user_run (\<lambda>n x h. finished (run R n (tbl n x) h)) n u h"
proof (induction u arbitrary: h)
  case (Ask x k)
  have "finished (run R n (user_prog (tbl n) (k r)) h') = user_run (\<lambda>n x h. finished (run R n (tbl n x) h)) n (k r) h'" for r h'
    by (rule Ask.IH) simp
  then show ?case by (cases "run R n (tbl n x) h") (simp_all add: run_bind finished_def)
qed (simp add: finished_def)

section \<open>Its calls and its assertions\<close>

text \<open>A client that stores every key with itself, and has result \<open>v\<close> if the table it works on does that.\<close>

primrec safe_user :: "'r \<Rightarrow> 'r user \<Rightarrow> bool" where
  "safe_user v (Done v') = (v' = v)"
| "safe_user v (Ask x k) = ((\<forall>i j. x = Insert i j \<longrightarrow> j = i) \<and>
     (\<forall>m. diagonal m \<longrightarrow> safe_user v (k (fst (spec_call x m)))))"

lemma safe_bind: "safe_user v u \<Longrightarrow> safe_user w (f v) \<Longrightarrow> safe_user w (bind_user f u)"
  by (induction u) auto

lemma asks_bind: "asks X u \<Longrightarrow> (\<And>v. asks X (f v)) \<Longrightarrow> asks X (bind_user f u)"
  by (induction u) auto

lemma Apply_user_safe:
  assumes "op_ok K op" "progression c \<noteq> 0" "count c + 1 < 2 ^ 31"
  shows "safe_user (Inr (c\<lparr>count := count c + 1\<rparr>)) (Apply_user op c)"
  using assms by (auto simp: Apply_user_def logged_def op_ok_def assert_key_ok Let_def)

text \<open>The calls a client makes that works on keys of \<open>K\<close> and inserts each with itself.\<close>

definition admits :: "call set \<Rightarrow> key set \<Rightarrow> bool" where
  "admits X K \<longleftrightarrow> (\<forall>k \<in> K. Contains k \<in> X \<and> Remove k \<in> X \<and> Insert k k \<in> X)"

lemma Apply_user_asks: "op_ok K op \<Longrightarrow> admits X K \<Longrightarrow> asks X (Apply_user op c)"
  by (auto simp: Apply_user_def logged_def op_ok_def admits_def Let_def)

lemma apply_user_safe:
  assumes "\<forall>op \<in> set ops. op_ok K op" "ops \<noteq> [] \<longrightarrow> progression c \<noteq> 0" "count c + int (length ops) < 2 ^ 31"
  shows "safe_user (Inr (c\<lparr>count := count c + int (length ops)\<rparr>)) (apply_user ops c)"
  using assms
proof (induction ops arbitrary: c)
  case (Cons op ops)
  have one: "safe_user (Inr (c\<lparr>count := count c + 1\<rparr>)) (Apply_user op c)"
    by (rule Apply_user_safe) (use Cons.prems in auto)
  have "safe_user (Inr (c\<lparr>count := count c + int (length (op # ops))\<rparr>)) (apply_user ops (c\<lparr>count := count c + 1\<rparr>))"
    using Cons.IH [of "c\<lparr>count := count c + 1\<rparr>"] Cons.prems by (simp add: algebra_simps)
  then show ?case unfolding apply_user.simps by (intro safe_bind [OF one]) simp
qed simp

lemma apply_user_asks: "\<forall>op \<in> set ops. op_ok K op \<Longrightarrow> admits X K \<Longrightarrow> asks X (apply_user ops c)"
  by (induction ops arbitrary: c) (auto intro!: asks_bind Apply_user_asks split: sum.split)

lemma populate_user_safe: "safe_user v u \<Longrightarrow> safe_user v (populate_user rnd kr lb ds u)"
  by (induction ds) (auto simp: Let_def)

lemma populate_user_asks:
  "\<forall>d \<in> set ds. word_of_int (draw_key rnd kr lb d) \<in> K \<Longrightarrow> admits X K \<Longrightarrow> asks X u \<Longrightarrow>
   asks X (populate_user rnd kr lb ds u)"
  by (induction ds) (auto simp: Let_def admits_def)

text \<open>
  A client of an experiment: its node, the object, the share of the keys it inserts first, and the draws of both parts.
\<close>

type_synonym client_run = "nat \<times> Client \<times> real \<times> real list \<times> (real \<times> real) list"

definition client_fits :: "(real \<Rightarrow> real) \<Rightarrow> key set \<Rightarrow> client_run \<Rightarrow> bool" where
  "client_fits rnd K = (\<lambda>(self, c, portion, us, vs). bounds_ok (params c) \<and>
     keys_between (key_lb (params c)) (key_ub (params c)) \<subseteq> K \<and>
     list_all is_draw us \<and> nat (populate_count rnd (params c) portion) \<le> length us \<and>
     list_all (\<lambda>v. is_draw (snd v)) vs \<and> count c + int (length vs) < 2 ^ 31 \<and> (vs \<noteq> [] \<longrightarrow> progression c \<noteq> 0))"

definition client_end :: "client_run \<Rightarrow> client_error + Client" where
  "client_end = (\<lambda>(self, c, portion, us, vs). Inr (c\<lparr>count := count c + int (length vs)\<rparr>))"

definition client_user :: "(real \<Rightarrow> real) \<Rightarrow> client_run \<Rightarrow> nat \<times> (client_error + Client) user" where
  "client_user rnd = (\<lambda>(self, c, portion, us, vs). (self, Run_user rnd portion us vs c))"

lemma client_fits_user:
  assumes "doubles rnd" "client_fits rnd K x"
  shows "safe_user (client_end x) (snd (client_user rnd x))" "admits X K \<Longrightarrow> asks X (snd (client_user rnd x))"
proof -
  obtain self c portion us vs where x: "x = (self, c, portion, us, vs)" by (cases x) auto
  note f = assms(2) [unfolded client_fits_def x prod.case]
  let ?ps = "params c" let ?cnt = "nat (populate_count rnd ?ps portion)"
  have ops: "\<forall>op \<in> set (map (generator rnd ?ps) vs). op_ok K op"
    using doubles.generator_ok [OF assms(1)] f by (auto simp: list_all_iff)
  have keys: "\<forall>u \<in> set (take ?cnt us). word_of_int (draw_key rnd (key_ub ?ps - key_lb ?ps) (key_lb ?ps) u) \<in> K"
  proof
    fix u assume "u \<in> set (take ?cnt us)"
    then have "is_draw u" using f by (auto simp: list_all_iff dest: in_set_takeD)
    with f show "word_of_int (draw_key rnd (key_ub ?ps - key_lb ?ps) (key_lb ?ps) u) \<in> K"
      using doubles.drawn_key [OF assms(1), of ?ps u] by blast
  qed
  have u: "Run_user rnd portion us vs c =
      populate_user rnd (key_ub ?ps - key_lb ?ps) (key_lb ?ps) (take ?cnt us) (apply_user (map (generator rnd ?ps) vs) c)"
    using f by (auto simp: Run_user_def Let_def bounds_ok_def)
  show "safe_user (client_end x) (snd (client_user rnd x))"
    using populate_user_safe [OF apply_user_safe [OF ops]] f by (simp add: client_end_def client_user_def x u)
  show "asks X (snd (client_user rnd x))" if "admits X K"
    using populate_user_asks [OF keys that apply_user_asks [OF ops that]] by (simp add: client_user_def x u)
qed

lemma atomically_diagonal:
  assumes "atomically is us m = Some (us', m')" "diagonal m" "\<And>i. i < length us \<Longrightarrow> safe_user (F i) (us ! i)"
  shows "diagonal m'" "i < length us \<Longrightarrow> safe_user (F i) (us' ! i)"
proof -
  have "diagonal m' \<and> (\<forall>i<length us. safe_user (F i) (us' ! i))"
    by (rule atomically_keeps [where P = diagonal and C = "\<lambda>i. safe_user (F i)", OF assms]) (use diagonal_call in auto)
  then show "diagonal m'" "i < length us \<Longrightarrow> safe_user (F i) (us' ! i)" by simp_all
qed

text \<open>Clients that run at once on objects behind locks.\<close>

context locked_objects
begin

lemma clients_served:
  assumes "ready m h" "diagonal m" "doubles rnd" "\<forall>x \<in> set cls. client_fits rnd K x" "admits X K"
    "schedule R is (users_of (map (client_user rnd) cls)) h = Some (ts', h')"
  shows "length ts' = length cls" "i < length cls \<Longrightarrow> snd (ts' ! i) = Return v \<Longrightarrow> v = client_end (cls ! i)"
    "i < length cls \<Longrightarrow> step R (fst (ts' ! i)) (snd (ts' ! i)) h' \<noteq> None \<or> answer (snd (ts' ! i)) \<noteq> None \<or> snd (ts' ! i) = Out_of_fuel"
    "list_all (\<lambda>t. answer (snd t) \<noteq> None) ts' \<Longrightarrow> \<exists>m'. diagonal m' \<and> ready m' h'"
proof -
  let ?us = "map (client_user rnd) cls"
  have asks: "\<forall>u \<in> snd ` set ?us. asks X u" using client_fits_user(2) [OF assms(3) _ assms(5)] assms(4) by auto
  obtain order cl m' where a: "atomically order (map snd ?us) m = Some (cl, m')" "length ts' = length ?us"
    "\<forall>i < length ?us. (\<forall>v. snd (ts' ! i) = Return v \<longrightarrow> cl ! i = Done v) \<and>
       (step R (fst (ts' ! i)) (snd (ts' ! i)) h' \<noteq> None \<or> answer (snd (ts' ! i)) \<noteq> None \<or> snd (ts' ! i) = Out_of_fuel)"
    "list_all (\<lambda>t. answer (snd t) \<noteq> None) ts' \<longrightarrow> ready m' h'"
    using users_serializable [OF assms(1) asks assms(6)] by blast
  have init: "safe_user (client_end (cls ! i)) (map snd ?us ! i)" if "i < length (map snd ?us)" for i
    using client_fits_user(1) [OF assms(3), of K "cls ! i"] assms(4) that by simp
  note d = atomically_diagonal [OF a(1) assms(2) init]
  show "length ts' = length cls" using a(2) by simp
  show "v = client_end (cls ! i)" if "i < length cls" "snd (ts' ! i) = Return v"
  proof -
    have "cl ! i = Done v" using a(3) that by simp
    then show ?thesis using d(2) [of i] that(1) by simp
  qed
  show "step R (fst (ts' ! i)) (snd (ts' ! i)) h' \<noteq> None \<or> answer (snd (ts' ! i)) \<noteq> None \<or> snd (ts' ! i) = Out_of_fuel"
    if "i < length cls" using a(3) that by simp
  show "\<exists>m'. diagonal m' \<and> ready m' h'" if "list_all (\<lambda>t. answer (snd t) \<noteq> None) ts'"
    using a(4) that d(1) by blast
qed

end

end
