(* ===== verification/Iht_Paths.thy ===== *)
theory Iht_Paths
  imports Iht_Correct "HOL-Library.Multiset"
begin

text \<open>
  Paths through an interlocked hash table: the bucket where the path of a key ends, and the cells of
  a table split into those of its inner structure (the PLists and the locks of sub-PLists) and
  those behind the lock of one bucket each.
\<close>

section \<open>The end of a path\<close>

fun bend :: "RdmaIHT \<Rightarrow> nat \<Rightarrow> itree \<Rightarrow> key \<Rightarrow> itree option"
  and nend :: "RdmaIHT \<Rightarrow> nat \<Rightarrow> itree list \<Rightarrow> nat \<Rightarrow> key \<Rightarrow> itree option" where
  "bend c d (EmptyB l) k = Some (EmptyB l)"
| "bend c d (LeafB l e x) k = Some (LeafB l e x)"
| "bend c d (SubB l p ts) k = nend c (d + 1) ts (level_hash c k (d + 1) (count_at c (d + 1))) k"
| "nend c d [] i k = None"
| "nend c d (t # ts) 0 k = bend c d t k"
| "nend c d (t # ts) (Suc i) k = nend c d ts i k"

definition pend :: "RdmaIHT \<Rightarrow> nat \<Rightarrow> itree list \<Rightarrow> key \<Rightarrow> itree option" where
  "pend c d ts k = nend c d ts (level_hash c k d (count_at c d)) k"

lemma nend_nth: "nend c d ts i k = (if i < length ts then bend c d (ts ! i) k else None)"
  by (induction ts arbitrary: i) (auto simp: less_Suc_eq_0_disj nth_Cons split: nat.splits)

lemma pend_nth:
  assumes "iht_sizes c D" "1 \<le> d" "d \<le> D" "length ts = count_at c d"
  shows "pend c d ts k = bend c d (ts ! level_hash c k d (count_at c d)) k"
  using level_hash_less [OF assms(1-3)] assms(4) by (simp add: pend_def nend_nth)

lemma bend_SubB: "bend c d (SubB l p ts) k = pend c (d + 1) ts k"
  by (simp add: pend_def)

lemma bend_self [simp]:
  "bend (c\<lparr>self_id := s\<rparr>) d t k = bend c d t k" "nend (c\<lparr>self_id := s\<rparr>) d ts i k = nend c d ts i k"
  by (induction c d t k and c d ts i k rule: bend_nend.induct) auto

lemma pend_self [simp]: "pend (c\<lparr>self_id := s\<rparr>) d ts k = pend c d ts k"
  by (simp add: pend_def)

text \<open>What a key finds in the bucket where its path ends.\<close>

fun end_find :: "itree \<Rightarrow> key \<Rightarrow> val option" where
  "end_find (LeafB l e x) k = map_of (elist_live x) k"
| "end_find t k = None"

lemma bfind_bend:
  "bfind c d t k = (case bend c d t k of Some u \<Rightarrow> end_find u k | None \<Rightarrow> None)"
  "nfind c d ts i k = (case nend c d ts i k of Some u \<Rightarrow> end_find u k | None \<Rightarrow> None)"
  by (induction c d t k and c d ts i k rule: bend_nend.induct) auto

lemma pfind_pend: "pfind c d ts k = (case pend c d ts k of Some u \<Rightarrow> end_find u k | None \<Rightarrow> None)"
  by (simp add: pfind_def pend_def bfind_bend)

text \<open>All ends of a tree.\<close>

fun bends :: "itree \<Rightarrow> itree list" and pends :: "itree list \<Rightarrow> itree list" where
  "bends (EmptyB l) = [EmptyB l]"
| "bends (LeafB l e x) = [LeafB l e x]"
| "bends (SubB l p ts) = pends ts"
| "pends [] = []"
| "pends (t # ts) = bends t @ pends ts"

lemma bend_in_bends:
  "bend c d t k = Some u \<Longrightarrow> u \<in> set (bends t)"
  "nend c d ts i k = Some u \<Longrightarrow> u \<in> set (pends ts)"
  by (induction c d t k and c d ts i k rule: bend_nend.induct) auto

lemma pend_in_pends: "pend c d ts k = Some u \<Longrightarrow> u \<in> set (pends ts)"
  unfolding pend_def by (rule bend_in_bends)

lemma pends_concat: "pends ts = concat (map bends ts)"
  by (induction ts) auto

lemma pends_nth: "b < length ts \<Longrightarrow> set (bends (ts ! b)) \<subseteq> set (pends ts)"
  unfolding pends_concat using nth_mem by fastforce

lemma ends_not_sub:
  "u \<in> set (bends t) \<Longrightarrow> u \<noteq> SubB l p us" "u \<in> set (pends ts) \<Longrightarrow> u \<noteq> SubB l p us"
  by (induction t and ts rule: bends_pends.induct) auto

text \<open>Every path ends.\<close>

lemma bend_total:
  "bucket_ok c D U d i t \<Longrightarrow> iht_sizes c D \<Longrightarrow> 1 \<le> d \<Longrightarrow> d \<le> D \<Longrightarrow> bend c d t k \<noteq> None"
  "plist_ok c D U d i ts \<Longrightarrow> iht_sizes c D \<Longrightarrow> 1 \<le> d \<Longrightarrow> d \<le> D \<Longrightarrow> j < length ts \<Longrightarrow> nend c d ts j k \<noteq> None"
proof (induction c D U d i t and c D U d i ts arbitrary: and j rule: bucket_ok_plist_ok.induct)
  case (3 c D U d i l p ts)
  then show ?case using level_hash_less [of c D "d + 1" k] by auto
next
  case (5 c D U d i t ts)
  then show ?case by (cases j) auto
qed auto

lemma pend_total:
  assumes "plist_ok c D U d 0 ts" "iht_sizes c D" "1 \<le> d" "d \<le> D" "length ts = count_at c d"
  obtains u where "pend c d ts k = Some u"
proof -
  have "nend c d ts (level_hash c k d (count_at c d)) k \<noteq> None"
    by (rule bend_total(2) [OF assms(1-4)]) (use level_hash_less [OF assms(2-4)] assms(5) in simp)
  then show ?thesis using that by (auto simp: pend_def)
qed

section \<open>The cells of a table\<close>

text \<open>The inner structure, and the cells behind the lock of an end, the lock included.\<close>

fun bfixed :: "RdmaIHT \<Rightarrow> remote_ptr \<Rightarrow> itree \<Rightarrow> (remote_ptr \<times> iht_cell) list"
  and pfixed :: "RdmaIHT \<Rightarrow> remote_ptr \<Rightarrow> itree list \<Rightarrow> (remote_ptr \<times> iht_cell) list" where
  "bfixed c a (EmptyB l) = [(a, PtrC (nullptr c)), (ptr_add a 8, PtrC l)]"
| "bfixed c a (LeafB l e x) = [(a, PtrC e), (ptr_add a 8, PtrC l)]"
| "bfixed c a (SubB l p ts) = (a, PtrC p) # (ptr_add a 8, PtrC l) # (l, LockC P_UNLOCKED) # pfixed c p ts"
| "pfixed c p [] = []"
| "pfixed c p (t # ts) = bfixed c p t @ pfixed c (ptr_add p 16) ts"

fun behind :: "itree \<Rightarrow> (remote_ptr \<times> iht_cell) list" where
  "behind (LeafB l e x) = [(l, LockC E_UNLOCKED), (e, EListC x)]"
| "behind t = [(bucket_lock t, LockC E_UNLOCKED)]"

lemma cells_split:
  "mset (bcells c a t) = mset (bfixed c a t @ concat (map behind (bends t)))"
  "mset (pcells c p ts) = mset (pfixed c p ts @ concat (map behind (pends ts)))"
  by (induction c a t and c p ts rule: bfixed_pfixed.induct) (auto simp: bucket_head_def)

lemma holds_mset:
  assumes "mset xs = mset ys"
  shows "holds m xs = holds m ys"
proof -
  have "mset (map fst xs) = mset (map fst ys)" using assms by simp
  then have "distinct (map fst xs) = distinct (map fst ys)" by (rule mset_eq_imp_distinct_iff)
  then show ?thesis using mset_eq_setD [OF assms] by (simp add: holds_def)
qed

lemma owns_mset: "mset xs = mset ys \<Longrightarrow> owns h xs = owns h ys"
  using holds_mset [of xs ys "cells h"] mset_eq_setD [of xs ys] by (simp add: owns_def)

lemma pcells_split_ends:
  "holds m (pcells c p ts) = holds m (pfixed c p ts @ concat (map behind (pends ts)))"
  "owns h (pcells c p ts) = owns h (pfixed c p ts @ concat (map behind (pends ts)))"
  by (intro holds_mset owns_mset cells_split(2))+

lemma pfixed_append:
  "pfixed c p (xs @ ys) = pfixed c p xs @ pfixed c (ptr_add p (16 * length xs)) ys"
  by (induction xs arbitrary: p) (auto simp: algebra_simps)

lemma bfixed_in_pfixed:
  assumes "b < length ts"
  shows "set (bfixed c (base_field p b) (ts ! b)) \<subseteq> set (pfixed c p ts)"
proof -
  have "ts = take b ts @ ts ! b # drop (Suc b) ts" using assms by (rule id_take_nth_drop)
  then have "pfixed c p ts = pfixed c p (take b ts @ ts ! b # drop (Suc b) ts)" by simp
  then show ?thesis using assms by (simp add: pfixed_append base_field_def add.commute) blast
qed

lemma pfixed_head:
  assumes "b < length ts"
  shows "(base_field p b, PtrC (bucket_base c (ts ! b))) \<in> set (pfixed c p ts)"
    "(lock_field p b, PtrC (bucket_lock (ts ! b))) \<in> set (pfixed c p ts)"
  using bfixed_in_pfixed [OF assms, of c p] by (cases "ts ! b"; auto simp: lock_field_base)+

lemma pfixed_no_elist:
  "(a, EListC x) \<notin> set (bfixed c a' t)" "(a, EListC x) \<notin> set (pfixed c p ts)"
  by (induction c a' t and c p ts rule: bfixed_pfixed.induct) auto

lemma pfixed_self [simp]:
  "bfixed (c\<lparr>self_id := s\<rparr>) a t = bfixed c a t" "pfixed (c\<lparr>self_id := s\<rparr>) p ts = pfixed c p ts"
  by (induction c a t and c p ts rule: bfixed_pfixed.induct) auto

section \<open>Other element lists in the same table\<close>

fun bput :: "(remote_ptr \<Rightarrow> EList \<Rightarrow> EList) \<Rightarrow> itree \<Rightarrow> itree" where
  "bput f (EmptyB l) = EmptyB l"
| "bput f (LeafB l e x) = LeafB l e (f l x)"
| "bput f (SubB l p ts) = SubB l p (map (bput f) ts)"

lemma bput_simps [simp]: "bucket_lock (bput f t) = bucket_lock t"
  by (cases t) auto

lemma put_fixed [simp]:
  "bfixed c a (bput f t) = bfixed c a t" "pfixed c p (map (bput f) ts) = pfixed c p ts"
  by (induction c a t and c p ts rule: bfixed_pfixed.induct) auto

lemma put_ends [simp]:
  "bends (bput f t) = map (bput f) (bends t)" "pends (map (bput f) ts) = map (bput f) (pends ts)"
  by (induction t and ts rule: bends_pends.induct) auto

lemma put_end [simp]:
  "bend c d (bput f t) k = map_option (bput f) (bend c d t k)"
  "nend c d (map (bput f) ts) i k = map_option (bput f) (nend c d ts i k)"
  by (induction c d t k and c d ts i k rule: bend_nend.induct) auto

lemma put_pend [simp]: "pend c d (map (bput f) ts) k = map_option (bput f) (pend c d ts k)"
  by (simp add: pend_def)

text \<open>
  The tree stays well formed when the lists are well formed and hold no keys but those they held and
  keys whose path ends there.
\<close>

lemma concat_index:
  assumes "distinct (concat xss)" "i < length xss" "j < length xss" "x \<in> set (xss ! i)" "x \<in> set (xss ! j)"
  shows "i = j"
  using assms
proof (induction xss arbitrary: i j)
  case (Cons xs xss)
  have tail: "x \<in> set (concat xss)" if "x \<in> set (xss ! n)" "n < length xss" for n
    using that by (auto intro: nth_mem)
  have "x \<in> set xs \<Longrightarrow> x \<notin> set (concat xss)" using Cons.prems(1) by auto
  then show ?case
    using Cons.IH [of "i - 1" "j - 1"] Cons.prems tail [of "i - 1"] tail [of "j - 1"] by (cases i; cases j) auto
qed simp

lemma bends_distinct:
  assumes "distinct (map bucket_lock (pends ts))" "b < length ts" "u \<in> set (bends (ts ! b))" "v \<in> set (bends (ts ! b'))" "b' < length ts"
    "bucket_lock u = bucket_lock v"
  shows "b = b' \<and> u = v"
proof -
  have "u \<in> set (pends ts)" "v \<in> set (pends ts)" using pends_nth assms(2-5) by blast+
  then have uv: "u = v" using assms(1,6) by (auto simp: distinct_map dest: inj_onD)
  have "distinct (concat (map bends ts))" using assms(1) by (simp add: distinct_map pends_concat)
  from concat_index [OF this, of b b' u] show ?thesis using assms(2-5) uv by simp
qed

lemma bends_distinct_nth:
  assumes "distinct (map bucket_lock (pends ts))" "b < length ts"
  shows "distinct (map bucket_lock (bends (ts ! b)))"
proof -
  have "ts = take b ts @ ts ! b # drop (Suc b) ts" using assms(2) by (rule id_take_nth_drop)
  then have "pends ts = pends (take b ts) @ bends (ts ! b) @ pends (drop (Suc b) ts)"
    by (metis pends_concat concat_append list.map(2) concat.simps(2) map_append)
  then show ?thesis using assms(1) by simp
qed

lemma put_ok:
  "bucket_ok c D U d i t \<Longrightarrow> distinct (map bucket_lock (bends t)) \<Longrightarrow> iht_sizes c D \<Longrightarrow> 1 \<le> d \<Longrightarrow> d \<le> D \<Longrightarrow>
   (\<And>l e x. LeafB l e x \<in> set (bends t) \<Longrightarrow> elist_ok c (f l x) \<and>
      (\<forall>k \<in> fst ` set (elist_live (f l x)). k \<in> fst ` set (elist_live x) \<or>
         (k \<in> U \<and> level_hash c k d (count_at c d) = i \<and> bend c d t k = Some (LeafB l e x)))) \<Longrightarrow>
   bucket_ok c D U d i (bput f t)"
  "plist_ok c D U d i ts \<Longrightarrow> iht_sizes c D \<Longrightarrow> 1 \<le> d \<Longrightarrow> d \<le> D \<Longrightarrow>
   (\<And>b. b < length ts \<Longrightarrow> distinct (map bucket_lock (bends (ts ! b)))) \<Longrightarrow>
   (\<And>b l e x. b < length ts \<Longrightarrow> LeafB l e x \<in> set (bends (ts ! b)) \<Longrightarrow> elist_ok c (f l x) \<and>
      (\<forall>k \<in> fst ` set (elist_live (f l x)). k \<in> fst ` set (elist_live x) \<or>
         (k \<in> U \<and> level_hash c k d (count_at c d) = i + b \<and> bend c d (ts ! b) k = Some (LeafB l e x)))) \<Longrightarrow>
   plist_ok c D U d i (map (bput f) ts)"
proof (induction c D U d i t and c D U d i ts rule: bucket_ok_plist_ok.induct)
  case (2 c D U d i l e x)
  have "fst p \<in> U \<and> level_hash c (fst p) d (count_at c d) = i" if "p \<in> set (elist_live (f l x))" for p
    using 2(6) [of l e x] 2(1) that by fastforce
  then show ?case using 2 by auto
next
  case (3 c D U d i l p ts)
  have d: "1 \<le> d + 1" "d + 1 \<le> D" and ok: "plist_ok c D U (d + 1) 0 ts" and len: "length ts = count_at c (d + 1)"
    using 3 by auto
  have dist: "distinct (map bucket_lock (pends ts))" using 3 by simp
  have "plist_ok c D U (d + 1) 0 (map (bput f) ts)"
  proof (rule "3.IH" [OF ok 3(4) d])
    fix b assume b: "b < length ts"
    show "distinct (map bucket_lock (bends (ts ! b)))" by (rule bends_distinct_nth [OF dist b])
    fix l' e' x' assume u: "LeafB l' e' x' \<in> set (bends (ts ! b))"
    then have up: "LeafB l' e' x' \<in> set (bends (SubB l p ts))" using pends_nth [OF b] by auto
    note f = "3.prems"(6) [OF up]
    have "k \<in> fst ` set (elist_live x') \<or>
        (k \<in> U \<and> level_hash c k (d + 1) (count_at c (d + 1)) = 0 + b \<and> bend c (d + 1) (ts ! b) k = Some (LeafB l' e' x'))"
      if k: "k \<in> fst ` set (elist_live (f l' x'))" for k
    proof (cases "k \<in> fst ` set (elist_live x')")
      case False
      let ?j = "level_hash c k (d + 1) (count_at c (d + 1))"
      have kU: "k \<in> U" "bend c d (SubB l p ts) k = Some (LeafB l' e' x')" using f k False by blast+
      have j: "?j < length ts" using level_hash_less [OF 3(4) d] len by simp
      have e: "bend c (d + 1) (ts ! ?j) k = Some (LeafB l' e' x')"
        using kU(2) unfolding bend_SubB pend_nth [OF 3(4) d len] .
      have "?j = b" using bends_distinct [OF dist j bend_in_bends(1) [OF e] u b refl] by blast
      then show ?thesis using e kU(1) by simp
    qed simp
    then show "elist_ok c (f l' x') \<and> (\<forall>k \<in> fst ` set (elist_live (f l' x')). k \<in> fst ` set (elist_live x') \<or>
        (k \<in> U \<and> level_hash c k (d + 1) (count_at c (d + 1)) = 0 + b \<and> bend c (d + 1) (ts ! b) k = Some (LeafB l' e' x')))"
      using f by blast
  qed
  then show ?case using 3 by auto
next
  case (5 c D U d i t ts)
  have "bucket_ok c D U d i (bput f t)"
    by (rule "5.IH"(1)) (use 5(3-6) 5(7) [of 0] 5(8) [of 0] in auto)
  moreover have "plist_ok c D U d (Suc i) (map (bput f) ts)"
  proof (rule "5.IH"(2))
    show "distinct (map bucket_lock (bends (ts ! b)))" if "b < length ts" for b using 5(7) [of "Suc b"] that by simp
    fix b l e x assume "b < length ts" "LeafB l e x \<in> set (bends (ts ! b))"
    then show "elist_ok c (f l x) \<and> (\<forall>k \<in> fst ` set (elist_live (f l x)). k \<in> fst ` set (elist_live x) \<or>
        (k \<in> U \<and> level_hash c k d (count_at c d) = Suc i + b \<and> bend c d (ts ! b) k = Some (LeafB l e x)))"
      using 5(8) [of "Suc b" l e x] by simp
  qed (use 5 in auto)
  ultimately show ?case by simp
qed auto

end
