(* ===== verification/Iht_Walk.thy ===== *)
theory Iht_Walk
  imports Lock_Protocol Iht_Paths
begin

text \<open>
  How a call of the interlocked hash table comes to its bucket, when other calls move in between: from
  the root it goes through copies of the PLists, which do not change as long as no bucket gets a new
  base, past the permanently unlocked locks, and then spins on the lock of the bucket where the path
  of its key ends.
\<close>

section \<open>Copies in the memory of a call\<close>

abbreviation mem :: "'c memory \<Rightarrow> (unit, 'c) heap" where
  "mem m \<equiv> \<lparr>cells = m, allocs = Map.empty, pool_state = ()\<rparr>"

lemma upds_restrict:
  "length as = length cs \<Longrightarrow> (\<And>a. a \<in> set as \<Longrightarrow> m a = None) \<Longrightarrow> (m(as [\<mapsto>] cs)) |` (- set as) = m"
  "set as \<inter> A = {} \<Longrightarrow> length as = length cs \<Longrightarrow> (m(as [\<mapsto>] cs)) |` (- A) = (m |` (- A))(as [\<mapsto>] cs)"
proof -
  show "(m(as [\<mapsto>] cs)) |` (- set as) = m" if "length as = length cs" "\<And>a. a \<in> set as \<Longrightarrow> m a = None"
    using that(2) by (auto simp: restrict_map_def fun_eq_iff map_upds_apply_nontin)
  assume as: "set as \<inter> A = {}" "length as = length cs"
  show "(m(as [\<mapsto>] cs)) |` (- A) = (m |` (- A))(as [\<mapsto>] cs)"
  proof
    fix a
    show "((m(as [\<mapsto>] cs)) |` (- A)) a = ((m |` (- A))(as [\<mapsto>] cs)) a"
    proof (cases "a \<in> set as")
      case True
      then have "((m(as [\<mapsto>] cs)) |` (- A)) a = (m(as [\<mapsto>] cs)) a" using as(1) by (simp add: restrict_map_def disjoint_iff)
      then show ?thesis using upds_in(1) [OF as(2) True] by simp
    next
      case False
      then show ?thesis by (simp add: map_upds_apply_nontin restrict_map_def)
    qed
  qed
qed

lemma shows_plist_mem: "shows_plist c (mem (cells h)) q us = shows_plist c h q us"
  by (simp add: shows_plist_def)

lemma copied_shows_plist:
  assumes "s * PLIST_SIZE c = length us" "\<forall>a \<in> set (block (PList_t c) s q). m a = None"
  shows "shows_plist c (mem (m(block (PList_t c) s q [\<mapsto>] plist_words c us))) q us"
proof -
  let ?B = "block (PList_t c) s q"
  let ?h = "(mem m)\<lparr>cells := m(?B [\<mapsto>] plist_words c us), allocs := [q \<mapsto> ?B]\<rparr>"
  have "allocated (mem m) ?h q ?B (plist_words c us)" using assms(2) by (simp add: allocated_def)
  then have "shows_plist c ?h q us" by (rule allocated_shows_plist [OF _ assms(1)])
  then show ?thesis by (simp add: shows_plist_def)
qed

lemma shows_plist_more:
  assumes "shows_plist c (mem m) q us" "\<And>a y. m a = Some y \<Longrightarrow> m' a = Some y"
  shows "shows_plist c (mem m') q us"
  using assms by (simp add: shows_plist_def)

section \<open>Levels\<close>

text \<open>
  The PList \<open>us\<close> at \<open>p\<close>, at depth \<open>d\<close>, is part of what does not change; \<open>cur\<close> is where a call on node
  \<open>self_id c\<close> looks at it: a copy, the only thing the call has, or the list itself.
\<close>

definition level :: "iht_cell shared \<Rightarrow> RdmaIHT \<Rightarrow> nat \<Rightarrow> key set \<Rightarrow> nat \<Rightarrow> remote_ptr \<Rightarrow> itree list \<Rightarrow> bool" where
  "level S c D U d p us \<longleftrightarrow> iht_sizes c D \<and> 1 \<le> d \<and> d \<le> D \<and> length us = count_at c d \<and> plist_ok c D U d 0 us \<and>
     (\<forall>(a, y) \<in> set (pfixed c p us). fixed S a = Some y)"

definition view :: "iht_cell shared \<Rightarrow> RdmaIHT \<Rightarrow> nat \<Rightarrow> remote_ptr \<Rightarrow> itree list \<Rightarrow> remote_ptr \<Rightarrow> bool
    \<Rightarrow> iht_cell memory \<Rightarrow> copies \<Rightarrow> bool" where
  "view S c d p us cur old m al \<longleftrightarrow>
     (if old then al = [cur \<mapsto> block (PList_t c) (2 ^ (d - 1)) cur] \<and>
        m = [block (PList_t c) (2 ^ (d - 1)) cur [\<mapsto>] plist_words c us] \<and>
        fresh_for S (self_id c) Map.empty cur (block (PList_t c) (2 ^ (d - 1)) cur)
      else cur = p \<and> ptr_id p = self_id c \<and> m = Map.empty \<and> al = Map.empty)"

lemma levelD:
  assumes "level S c D U d p us"
  shows "iht_sizes c D" "1 \<le> d" "d \<le> D" "d - 1 < 31" "d < 31 \<or> d = D" "length us = count_at c d" "plist_ok c D U d 0 us"
    "2 ^ (d - 1) * PLIST_SIZE c = length us" "0 < PLIST_SIZE c" "(a, y) \<in> set (pfixed c p us) \<Longrightarrow> fixed S a = Some y"
  using assms by (auto simp: level_def iht_sizes_def count_at_def)

lemma length_plist_words [simp]: "length (plist_words c us) = 2 * length us"
  by (simp add: plist_words_def)

lemma level_block:
  assumes "level S c D U d p us"
  shows "length (block (PList_t c) (2 ^ (d - 1)) q) = length (plist_words c us)" "q \<in> set (block (PList_t c) (2 ^ (d - 1)) q)"
    "0 < 2 ^ (d - 1) * ct_cells (PList_t c)"
proof -
  have n: "2 ^ (d - 1) * ct_cells (PList_t c) = 2 * length us" "0 < length us"
    using levelD(8,9) [OF assms] by (simp_all add: PList_t_def flip: levelD(8) [OF assms])
  then show "length (block (PList_t c) (2 ^ (d - 1)) q) = length (plist_words c us)" by simp
  show z: "0 < 2 ^ (d - 1) * ct_cells (PList_t c)" using n by linarith
  show "q \<in> set (block (PList_t c) (2 ^ (d - 1)) q)" unfolding in_set_block by (rule exI [of _ 0]) (use z in simp)
qed

lemma level_shows: "level S c D U d p us \<Longrightarrow> shows_plist c (mem (fixed S)) p us"
  using levelD(10) [OF _ pfixed_head(1)] levelD(10) [OF _ pfixed_head(2)] by (simp add: shows_plist_def)

text \<open>More memory of the call, apart from what does not change, does not disturb the view.\<close>

definition extends :: "iht_cell shared \<Rightarrow> iht_cell memory \<Rightarrow> iht_cell memory \<Rightarrow> bool" where
  "extends S m m' \<longleftrightarrow> (\<forall>a y. m a = Some y \<longrightarrow> m' a = Some y) \<and> (\<forall>a. fixed S a \<noteq> None \<longrightarrow> m' a = None)"

lemma extends_upd:
  assumes "extends S m m'" "m a = None" "fixed S a = None"
  shows "extends S m (m'(a \<mapsto> y))"
  unfolding extends_def
proof (intro conjI allI impI)
  show "(m'(a \<mapsto> y)) b = Some z" if "m b = Some z" for b z
    using assms(1,2) that by (auto simp: extends_def)
  show "(m'(a \<mapsto> y)) b = None" if "fixed S b \<noteq> None" for b
    using assms(1,3) that by (auto simp: extends_def)
qed

lemma extends_upds:
  assumes "extends S m m'" "\<And>a. a \<in> set as \<Longrightarrow> m a = None \<and> fixed S a = None"
  shows "extends S m (m'(as [\<mapsto>] cs))"
  unfolding extends_def
proof (intro conjI allI impI)
  show "(m'(as [\<mapsto>] cs)) b = Some z" if "m b = Some z" for b z
  proof -
    have "b \<notin> set as" using assms(2) [of b] that by auto
    then show ?thesis using assms(1) that by (simp add: extends_def map_upds_apply_nontin)
  qed
  show "(m'(as [\<mapsto>] cs)) b = None" if "fixed S b \<noteq> None" for b
  proof -
    have "b \<notin> set as" using assms(2) [of b] that by auto
    then show ?thesis using assms(1) that by (simp add: extends_def map_upds_apply_nontin)
  qed
qed

lemma view_self:
  assumes "level S c D U d p us" "view S c d p us cur old m al"
  shows "extends S m m" "own_blocks m al" "ptr_id cur = self_id c"
proof -
  let ?B = "block (PList_t c) (2 ^ (d - 1)) cur"
  note b = level_block(1,2) [OF assms(1), of cur]
  have dom: "dom [?B [\<mapsto>] plist_words c us] = set ?B" using upds_in(2) [OF b(1), of Map.empty] by (simp del: dom_map_upds)
  show "ptr_id cur = self_id c" using assms(2) by (auto simp: view_def fresh_for_def split: if_splits)
  show "own_blocks m al" using assms(2) dom b(2) by (auto simp: view_def own_blocks_def split: if_splits)
  have "m a = None" if "fixed S a \<noteq> None" for a
  proof (cases old)
    case True
    then have "a \<notin> set ?B" "m = [?B [\<mapsto>] plist_words c us]" using assms(2) that by (auto simp: view_def fresh_for_def)
    then show ?thesis by (simp add: map_upds_apply_nontin)
  qed (use assms(2) in \<open>simp add: view_def\<close>)
  then show "extends S m m" by (simp add: extends_def)
qed

lemma view_shows:
  assumes "level S c D U d p us" "view S c d p us cur old m al" "extends S m m'"
  shows "shows_plist c (mem (fixed S ++ m')) cur us"
proof (cases old)
  case True
  have "shows_plist c (mem m) cur us"
    using copied_shows_plist [OF levelD(8) [OF assms(1)], of cur Map.empty] assms(2) True by (simp add: view_def)
  then show ?thesis by (rule shows_plist_more) (use assms(3) in \<open>auto simp: extends_def map_add_Some_iff\<close>)
next
  case False
  have "shows_plist c (mem (fixed S)) cur us" using level_shows [OF assms(1)] assms(2) False by (simp add: view_def)
  then show ?thesis by (rule shows_plist_more) (use assms(3) in \<open>auto simp: extends_def map_add_Some_iff\<close>)
qed

lemma level_visible:
  assumes "level S c D U d p us" "extends S m m'"
  shows "shows_plist c (mem (fixed S ++ m')) p us"
  using level_shows [OF assms(1)]
  by (rule shows_plist_more) (use assms(2) in \<open>auto simp: extends_def map_add_Some_iff\<close>)

lemma level_sub:
  assumes "level S c D U d p us" "b < length us" "us ! b = SubB l' p' us'"
  shows "level S c D U (d + 1) p' us'" "fixed S l' = Some (LockC P_UNLOCKED)" "p' \<noteq> nullptr c" "d < D"
proof -
  have ok: "bucket_ok c D U d (0 + b) (us ! b)" using levelD(7) [OF assms(1)] assms(2) by (simp add: plist_ok_iff)
  then show "p' \<noteq> nullptr c" "d < D" by (simp_all add: assms(3))
  note sub = bfixed_in_pfixed [OF assms(2), of c p, unfolded assms(3)]
  have "(l', LockC P_UNLOCKED) \<in> set (pfixed c p us)" using sub by auto
  then show "fixed S l' = Some (LockC P_UNLOCKED)" by (rule levelD(10) [OF assms(1)])
  have "fixed S a = Some y" if "(a, y) \<in> set (pfixed c p' us')" for a y
    by (rule levelD(10) [OF assms(1)]) (use sub that in auto)
  then show "level S c D U (d + 1) p' us'" using ok levelD(1-3) [OF assms(1)] by (auto simp: level_def assms(3))
qed

section \<open>Reading a level and going down\<close>

lemma spinning_read_level:
  assumes "level S c D U d p us" "extends S m m"
    and "\<And>q. fresh_for S self m q (block (PList_t c) (2 ^ (d - 1)) q) \<Longrightarrow>
      spinning S l self G (k q) (m(block (PList_t c) (2 ^ (d - 1)) q [\<mapsto>] plist_words c us))
        (al(q \<mapsto> block (PList_t c) (2 ^ (d - 1)) q))"
  shows "spinning S l self G (Read (PList_t c) (2 ^ (d - 1)) p k) m al"
proof -
  have "map (cells (mem (fixed S ++ m))) (block (PList_t c) (2 ^ (d - 1)) p) = map Some (plist_words c us)"
    by (rule shows_plist_words [OF level_visible [OF assms(1,2)] levelD(8) [OF assms(1)]])
  then show ?thesis
    unfolding spinning.simps using assms(3) level_block(3) [OF assms(1)] by (intro conjI exI [of _ "plist_words c us"] allI impI) simp_all
qed

lemma spinning_free:
  assumes "al q = Some as" "spinning S l self G k (m |` (- set as)) (al(q := None))"
  shows "spinning S l self G (Deallocate T n q k) m al"
  using assms by auto

text \<open>The old copy is freed; the rest stays.\<close>

lemma spinning_free_curr:
  assumes "level S c D U d p us" "view S c d p us cur old m al" "dom m \<inter> dom E = {}" "dom al \<inter> dom A = {}"
    and "spinning S l self G k E A"
  shows "spinning S l self G (free_curr c old cur d k) (m ++ E) (al ++ A)"
proof (cases old)
  case True
  let ?B = "block (PList_t c) (2 ^ (d - 1)) cur"
  have v: "al = [cur \<mapsto> ?B]" "m = [?B [\<mapsto>] plist_words c us]" using assms(2) True by (simp_all add: view_def)
  have "dom m = set ?B" unfolding v(2) using upds_in(2) [OF level_block(1) [OF assms(1)], of Map.empty] by (simp del: dom_map_upds)
  then have "(m ++ E) |` (- set ?B) = E" using assms(3) by (fastforce simp: restrict_map_def map_add_def fun_eq_iff dom_def split: option.splits)
  moreover have "A cur = None" using assms(4) by (auto simp: v(1))
  then have "(al ++ A) cur = Some ?B" "(al ++ A)(cur := None) = A" by (auto simp: v(1) map_add_def fun_eq_iff split: option.splits)
  ultimately have "spinning S l self G (Deallocate (PList_t c) (2 ^ (d - 1)) cur k) (m ++ E) (al ++ A)"
    using assms(5) by (intro spinning_free [of _ _ ?B]) simp_all
  then show ?thesis using levelD(4) [OF assms(1)] by (simp add: free_curr_def True shl1_def del: spinning.simps)
next
  case False
  then show ?thesis using assms(2,5) by (simp add: free_curr_def view_def)
qed

lemma spinning_load_ptr:
  "ptr_id a = self \<Longrightarrow> (fixed S ++ m) a = Some (PtrC q) \<Longrightarrow> spinning S l self G (k q) m al \<Longrightarrow> spinning S l self G (load_ptr a k) m al"
  by (simp add: load_ptr_def del: map_add_Some_iff)

lemma fields_id [simp]: "ptr_id (base_field q b) = ptr_id q" "ptr_id (lock_field q b) = ptr_id q"
  by (simp_all add: base_field_def lock_field_def)

lemma spinning_descend:
  assumes L: "level S c D U d p us" "view S c d p us cur old m al" and b: "b < length us" "us ! b = SubB l' p' us'"
    and k: "\<And>q m' al'. view S c (d + 1) p' us' q (\<not> is_local c p') m' al' \<Longrightarrow>
      spinning S l (self_id c) G (k q p' (\<not> is_local c p')) m' al'"
  shows "spinning S l (self_id c) G (descend c cur p d b old k) m al"
proof -
  note V = view_self [OF L] and sub = level_sub [OF L(1) b]
  have d: "d - 1 < 31" "d < 31" using levelD(4,5) [OF L(1)] sub(4) levelD(1) [OF L(1)] by (auto simp: iht_sizes_def)
  let ?w = "plist_words c us" and ?w' = "plist_words c us'"
  let ?B = "block (PList_t c) (2 ^ (d - 1))" and ?B' = "block (PList_t c) (2 ^ d)"
  have inner: "spinning S l (self_id c) G (load_ptr (base_field t b) (\<lambda>bucket_base.
     (if is_local c bucket_base \<or> is_null c bucket_base then (\<lambda>k'. k' bucket_base)
      else (\<lambda>k'. shl1 d (\<lambda>s'. Read (PList_t c) s' bucket_base k'))) (\<lambda>base_ptr.
     Deallocate (PList_t c) (2 ^ (d - 1)) t (free_curr c old cur d (k base_ptr bucket_base (\<not> is_local c bucket_base))))))
     (m(?B t [\<mapsto>] ?w)) (al(t \<mapsto> ?B t))"
    if t: "fresh_for S (self_id c) m t (?B t)" for t
  proof -
    have tB: "\<forall>a \<in> set (?B t). m a = None" "ptr_id t = self_id c" "\<forall>a \<in> set (?B t). fixed S a = None" using t by (auto simp: fresh_for_def)
    note blk = level_block(1,2) [OF L(1), of t]
    have mt: "m t = None" using tB(1) blk(2) by blast
    have alt: "al t = None" using own_blocks_vacant [OF V(2) mt] by simp
    have m1: "(m(?B t [\<mapsto>] ?w)) |` (- set (?B t)) = m" by (rule upds_restrict(1) [OF blk(1)]) (use tB(1) in blast)
    have al1: "(al(t \<mapsto> ?B t))(t := None) = al" using alt by (auto simp: fun_eq_iff)
    have e1: "extends S m (m(?B t [\<mapsto>] ?w))" by (rule extends_upds [OF V(1)]) (use tB in auto)
    have "shows_plist c (mem (m(?B t [\<mapsto>] ?w))) t us" by (rule copied_shows_plist [OF levelD(8) [OF L(1)] tB(1)])
    then have "shows_plist c (mem (fixed S ++ m(?B t [\<mapsto>] ?w))) t us"
      by (rule shows_plist_more) (rule map_add_Some_iff [THEN iffD2], rule disjI1)
    then have at: "(fixed S ++ m(?B t [\<mapsto>] ?w)) (base_field t b) = Some (PtrC p')" using b by (simp add: shows_plist_def)
    show ?thesis
    proof (rule spinning_load_ptr [OF _ at], simp add: tB(2), cases "is_local c p'")
      case True
      have "spinning S l (self_id c) G (k p' p' (\<not> is_local c p')) Map.empty Map.empty"
        by (rule k) (use True in \<open>simp add: view_def is_local_def\<close>)
      then have "spinning S l (self_id c) G (free_curr c old cur d (k p' p' (\<not> is_local c p'))) (m ++ Map.empty) (al ++ Map.empty)"
        by (intro spinning_free_curr [OF L]) simp_all
      then show "spinning S l (self_id c) G ((if is_local c p' \<or> is_null c p' then (\<lambda>k'. k' p')
          else (\<lambda>k'. shl1 d (\<lambda>s'. Read (PList_t c) s' p' k'))) (\<lambda>base_ptr.
          Deallocate (PList_t c) (2 ^ (d - 1)) t (free_curr c old cur d (k base_ptr p' (\<not> is_local c p')))))
          (m(?B t [\<mapsto>] ?w)) (al(t \<mapsto> ?B t))"
        using True m1 al1 by (simp del: fun_upd_upd)
    next
      case False
      have "spinning S l (self_id c) G (Read (PList_t c) (2 ^ (d + 1 - 1)) p' (\<lambda>base_ptr.
          Deallocate (PList_t c) (2 ^ (d - 1)) t (free_curr c old cur d (k base_ptr p' (\<not> is_local c p')))))
          (m(?B t [\<mapsto>] ?w)) (al(t \<mapsto> ?B t))"
      proof (rule spinning_read_level [OF sub(1)])
        show "extends S (m(?B t [\<mapsto>] ?w)) (m(?B t [\<mapsto>] ?w))" using e1 by (simp add: extends_def)
        fix q
        let ?C = "block (PList_t c) (2 ^ (d + 1 - 1)) q"
        assume q: "fresh_for S (self_id c) (m(?B t [\<mapsto>] ?w)) q ?C"
        note blk' = level_block(1,2) [OF sub(1), of q]
        have dom1: "dom (m(?B t [\<mapsto>] ?w)) = set (?B t) \<union> dom m" by (rule upds_in(2) [OF blk(1)])
        have qn: "set ?C \<inter> (set (?B t) \<union> dom m) = {}" using q dom1 unfolding fresh_for_def by blast
        have qt: "q \<noteq> t" "m q = None" using qn blk(2) blk'(2) by blast+
        have alq: "al q = None" using own_blocks_vacant [OF V(2) qt(2)] by simp
        have "spinning S l (self_id c) G (k q p' (\<not> is_local c p')) [?C [\<mapsto>] ?w'] [q \<mapsto> ?C]"
          by (rule k) (use False q in \<open>auto simp: view_def fresh_for_def\<close>)
        then have "spinning S l (self_id c) G (free_curr c old cur d (k q p' (\<not> is_local c p'))) (m ++ [?C [\<mapsto>] ?w']) (al ++ [q \<mapsto> ?C])"
          by (intro spinning_free_curr [OF L]) (use qn alq upds_in(2) [OF blk'(1), of Map.empty] in \<open>auto simp del: dom_map_upds\<close>)
        moreover have "m ++ [?C [\<mapsto>] ?w'] = (m(?B t [\<mapsto>] ?w, ?C [\<mapsto>] ?w')) |` (- set (?B t))"
          by (subst upds_restrict(2)) (use qn blk'(1) m1 in \<open>auto simp: map_upds_def\<close>)
        moreover have "al ++ [q \<mapsto> ?C] = (al(t \<mapsto> ?B t, q \<mapsto> ?C))(t := None)" using qt(1) alt by (auto simp: fun_eq_iff)
        ultimately show "spinning S l (self_id c) G (Deallocate (PList_t c) (2 ^ (d - 1)) t (free_curr c old cur d (k q p' (\<not> is_local c p'))))
            (m(?B t [\<mapsto>] ?w, ?C [\<mapsto>] ?w')) (al(t \<mapsto> ?B t, q \<mapsto> ?C))"
          using qt(1) by (intro spinning_free [of _ _ "?B t"]) simp_all
      qed
      then show "spinning S l (self_id c) G ((if is_local c p' \<or> is_null c p' then (\<lambda>k'. k' p')
          else (\<lambda>k'. shl1 d (\<lambda>s'. Read (PList_t c) s' p' k'))) (\<lambda>base_ptr.
          Deallocate (PList_t c) (2 ^ (d - 1)) t (free_curr c old cur d (k base_ptr p' (\<not> is_local c p')))))
          (m(?B t [\<mapsto>] ?w)) (al(t \<mapsto> ?B t))"
        using False sub(3) d(2) by (simp add: is_null_def shl1_def del: spinning.simps)
    qed
  qed
  have "spinning S l (self_id c) G (Read (PList_t c) (2 ^ (d - 1)) p (\<lambda>t. load_ptr (base_field t b) (\<lambda>bucket_base.
     (if is_local c bucket_base \<or> is_null c bucket_base then (\<lambda>k'. k' bucket_base)
      else (\<lambda>k'. shl1 d (\<lambda>s'. Read (PList_t c) s' bucket_base k'))) (\<lambda>base_ptr.
     Deallocate (PList_t c) (2 ^ (d - 1)) t (free_curr c old cur d (k base_ptr bucket_base (\<not> is_local c bucket_base))))))) m al"
    by (rule spinning_read_level [OF L(1) V(1) inner])
  then show ?thesis using d(1) by (simp add: descend_def shl1_def del: spinning.simps)
qed

section \<open>The loop of a method\<close>

definition iht_body :: "RdmaIHT \<Rightarrow> call \<Rightarrow> remote_ptr \<Rightarrow> remote_ptr \<Rightarrow> nat \<Rightarrow> nat \<Rightarrow> nat \<Rightarrow> bool \<Rightarrow> HT_Res iht_prog \<Rightarrow> HT_Res iht_prog" where
  "iht_body c x cur p d cnt b old again = (case x of
     Contains k \<Rightarrow> contains_body c k cur d b old
   | Insert k v \<Rightarrow> insert_body c k v cur p d cnt b old again
   | Remove k \<Rightarrow> remove_body c k cur d b old)"

definition iht_loop :: "RdmaIHT \<Rightarrow> call \<Rightarrow> nat \<Rightarrow> remote_ptr \<Rightarrow> remote_ptr \<Rightarrow> nat \<Rightarrow> nat \<Rightarrow> bool \<Rightarrow> HT_Res iht_prog" where
  "iht_loop c x n cur p d cnt old = (case x of
     Contains k \<Rightarrow> contains_loop c k n cur p d cnt old
   | Insert k v \<Rightarrow> insert_loop c k v n cur p d cnt old
   | Remove k \<Rightarrow> remove_loop c k n cur p d cnt old)"

lemma iht_loop_Suc:
  "iht_loop c x (Suc n) cur p d cnt old =
     load_ptr (lock_field cur (level_hash c (call_key x) d cnt)) (\<lambda>l. acquire (Suc n) l (\<lambda>locked.
       if \<not> locked then descend c cur p d (level_hash c (call_key x) d cnt) old
         (\<lambda>cur' next_base old'. iht_loop c x n cur' next_base (d + 1) ((cnt * 2) mod 2 ^ 64) old')
       else iht_body c x cur p d cnt (level_hash c (call_key x) d cnt) old (iht_loop c x n cur p d cnt False)))"
  by (cases x) (simp_all only: iht_loop_def iht_body_def Let_def call.case call_key.simps contains_loop.simps insert_loop.simps remove_loop.simps)

lemma iht_call_loop:
  "iht_call c fuel x = Read (PList_t c) 1 (root c) (\<lambda>cur. iht_loop c x fuel cur (root c) 1 (PLIST_SIZE c) True)"
  by (cases x) (simp_all add: iht_loop_def iht_contains_def iht_insert_def iht_remove_def)

lemma spinning_acquire_lock:
  assumes "G (k True) m al" "unl S = LockC E_UNLOCKED" "lck S = LockC E_LOCKED"
  shows "spinning S l self G (acquire (Suc n) l k) m al"
  using assms by (induction n) simp_all

lemma spinning_acquire_sub:
  assumes "fixed S l' = Some (LockC P_UNLOCKED)" "l' \<noteq> l" "spinning S l self G (k False) m al"
  shows "spinning S l self G (acquire (Suc n) l' k) m al"
  using assms by simp

text \<open>From a level on the path of its key, a call comes to spin on the lock at the end of the path.\<close>

lemma loop_spins:
  assumes "level S c D U d p us" "view S c d p us cur old m al" "D - d < n" "pend c d us (call_key x) = Some t"
    and S: "unl S = LockC E_UNLOCKED" "lck S = LockC E_LOCKED" "fixed S (bucket_lock t) = None"
    and G: "\<And>d p us b cur old m al again. level S c D U d p us \<Longrightarrow> view S c d p us cur old m al \<Longrightarrow> b < length us \<Longrightarrow>
      us ! b = t \<Longrightarrow> G (iht_body c x cur p d (count_at c d) b old again) m al"
  shows "spinning S (bucket_lock t) (self_id c) G (iht_loop c x n cur p d (count_at c d) old) m al"
  using assms(1-4)
proof (induction n arbitrary: d p us cur old m al)
  case (Suc n)
  note L = Suc.prems(1,2) and D = levelD [OF Suc.prems(1)]
  let ?b = "level_hash c (call_key x) d (count_at c d)"
  have b: "?b < length us" using level_hash_less [OF D(1-3)] D(6) by simp
  have e: "bend c d (us ! ?b) (call_key x) = Some t"
    using Suc.prems(4) unfolding pend_nth [OF D(1-3,6)] .
  have lk: "(fixed S ++ m) (lock_field cur ?b) = Some (PtrC (bucket_lock (us ! ?b)))"
    using view_shows [OF L view_self(1) [OF L]] b by (simp add: shows_plist_def)
  show ?case
    unfolding iht_loop_Suc
  proof (rule spinning_load_ptr [OF _ lk])
    show "ptr_id (lock_field cur ?b) = self_id c" by (simp add: view_self(3) [OF L])
    show "spinning S (bucket_lock t) (self_id c) G (acquire (Suc n) (bucket_lock (us ! ?b)) (\<lambda>locked.
       if \<not> locked then descend c cur p d ?b old
         (\<lambda>cur' next_base old'. iht_loop c x n cur' next_base (d + 1) ((count_at c d * 2) mod 2 ^ 64) old')
       else iht_body c x cur p d (count_at c d) ?b old (iht_loop c x n cur p d (count_at c d) False))) m al"
    proof (cases "us ! ?b")
      case (SubB l' p' us')
      note sub = level_sub [OF L(1) b SubB]
      have ne: "l' \<noteq> bucket_lock t" using sub(2) S(3) by auto
      have "spinning S (bucket_lock t) (self_id c) G (descend c cur p d ?b old
         (\<lambda>cur' next_base old'. iht_loop c x n cur' next_base (d + 1) ((count_at c d * 2) mod 2 ^ 64) old')) m al"
      proof (rule spinning_descend [OF L b SubB])
        fix q m' al'
        assume v: "view S c (d + 1) p' us' q (\<not> is_local c p') m' al'"
        show "spinning S (bucket_lock t) (self_id c) G
            (iht_loop c x n q p' (d + 1) ((count_at c d * 2) mod 2 ^ 64) (\<not> is_local c p')) m' al'"
          unfolding count_at_double [OF D(1,2) sub(4)]
          by (rule Suc.IH [OF sub(1) v _ e [unfolded SubB bend_SubB]]) (use Suc.prems(3) sub(4) in simp)
      qed
      then show ?thesis by (simp add: SubB) (use sub(2) ne in simp)
    next
      case (EmptyB l')
      then have t: "us ! ?b = t" using e by simp
      show ?thesis unfolding t by (rule spinning_acquire_lock [OF _ S(1,2)]) (simp add: G [OF L b t])
    next
      case (LeafB l' a y)
      then have t: "us ! ?b = t" using e by simp
      show ?thesis unfolding t by (rule spinning_acquire_lock [OF _ S(1,2)]) (simp add: G [OF L b t])
    qed
  qed
qed simp

section \<open>Under the lock\<close>

lemma locked_load_ptr:
  "ptr_id a = self \<Longrightarrow> (fixed S ++ m) a = Some (PtrC q) \<Longrightarrow> locked S l self Q (k q) m al \<Longrightarrow> locked S l self Q (load_ptr a k) m al"
  by (simp add: load_ptr_def del: map_add_Some_iff)

lemma leaving_free_curr:
  assumes "level S c D U d p us" "view S c d p us cur old m al"
  shows "leaving r (free_curr c old cur d (Return r)) al"
  using assms(2) levelD(4) [OF assms(1)] by (simp add: free_curr_def view_def shl1_def)

text \<open>
  The lock of the bucket is given back, with the part \<open>E\<close> of the memory that is the bucket's; \<open>al'\<close> are
  the copies still to be freed.
\<close>

lemma locked_unlock_bucket:
  assumes L: "level S c D U d p us" "view S c d p us cur old m al" and b: "b < length us" "unl S = LockC E_UNLOCKED"
    and m': "extends S m m'" "own_blocks m' al'" "E \<subseteq> dom m'" "E \<inter> covered al' = {}"
    and out: "leaving r k al'" "Q r (m' |` E)"
  shows "locked S (bucket_lock (us ! b)) (self_id c) Q (unlock_bucket cur b E_UNLOCKED k) m' al'"
proof -
  have lk: "(fixed S ++ m') (lock_field cur b) = Some (PtrC (bucket_lock (us ! b)))"
    using view_shows [OF L m'(1)] b(1) by (simp add: shows_plist_def)
  note ap = own_blocks_apart [OF m'(2,4)]
  show ?thesis
    unfolding unlock_bucket_def unlock_def
  proof (rule locked_load_ptr [OF _ lk])
    show "ptr_id (lock_field cur b) = self_id c" by (simp add: view_self(3) [OF L])
    show "locked S (bucket_lock (us ! b)) (self_id c) Q (Allocate lock_t 1 (\<lambda>temp.
        Write (bucket_lock (us ! b)) (LockC E_UNLOCKED) (Some temp) (Deallocate lock_t 8 temp k))) m' al'"
      by (rule locked_give [where D = E]) (use assms ap in \<open>simp_all add: lock_t_def ctype_ok_def\<close>)
  qed
qed

text \<open>The element list at \<open>e\<close> as the call has it: in place, or a copy \<open>q\<close>.\<close>

definition at_hand :: "iht_cell shared \<Rightarrow> RdmaIHT \<Rightarrow> iht_cell memory \<Rightarrow> copies \<Rightarrow> remote_ptr \<Rightarrow> EList \<Rightarrow> remote_ptr
    \<Rightarrow> iht_cell memory \<Rightarrow> copies \<Rightarrow> bool" where
  "at_hand S c m al e y q m' al' \<longleftrightarrow> q \<noteq> nullptr c \<and> ptr_id q = self_id c \<and>
     (if is_local c e then q = e \<and> m' = m(e \<mapsto> EListC y) \<and> al' = al
      else m q = None \<and> q \<noteq> e \<and> fixed S q = None \<and> m' = m(e \<mapsto> EListC y, q \<mapsto> EListC y) \<and> al' = al(q \<mapsto> [q]))"

lemma locked_localize:
  assumes L: "level S c D U d p us" "view S c d p us cur old m al" and b: "b < length us" "us ! b = LeafB l e x"
    and e: "m e = None" "fixed S e = None" and nul: "nul S = nullptr c"
    and k: "\<And>q m' al'. at_hand S c m al e y q m' al' \<Longrightarrow> locked S l (self_id c) Q (k e q) m' al'"
  shows "locked S l (self_id c) Q (load_ptr (base_field cur b) (\<lambda>bucket_base.
    localize_elist c bucket_base (k bucket_base))) (m(e \<mapsto> EListC y)) al"
proof -
  have "extends S m (m(e \<mapsto> EListC y))" by (rule extends_upd [OF view_self(1) [OF L] e])
  then have at: "(fixed S ++ m(e \<mapsto> EListC y)) (base_field cur b) = Some (PtrC e)"
    using view_shows [OF L, of "m(e \<mapsto> EListC y)"] b by (simp add: shows_plist_def del: map_add_upd)
  have "bucket_ok c D U d (0 + b) (us ! b)" using levelD(7) [OF L(1)] b(1) by (simp add: plist_ok_iff)
  then have en: "e \<noteq> nullptr c" by (simp add: b(2))
  show ?thesis
  proof (rule locked_load_ptr [OF _ at])
    show "ptr_id (base_field cur b) = self_id c" by (simp add: view_self(3) [OF L])
    show "locked S l (self_id c) Q (localize_elist c e (k e)) (m(e \<mapsto> EListC y)) al"
    proof (cases "is_local c e")
      case True
      then have "at_hand S c m al e y e (m(e \<mapsto> EListC y)) al" using en by (simp add: at_hand_def is_local_def)
      then show ?thesis using k True by (simp add: localize_elist_def)
    next
      case False
      have "at_hand S c m al e y q (m(e \<mapsto> EListC y, q \<mapsto> EListC y)) (al(q \<mapsto> [q]))"
        if "fresh_for S (self_id c) (m(e \<mapsto> EListC y)) q [q]" for q
        using that False nul by (auto simp: at_hand_def fresh_for_def split: if_splits)
      then show ?thesis using k False en by (simp add: localize_elist_def is_null_def EList_t_def ctype_ok_def)
    qed
  qed
qed

text \<open>Giving back the list unchanged, or changed.\<close>

lemma locked_leave:
  assumes L: "level S c D U d p us" "view S c d p us cur old m al" and b: "b < length us" "us ! b = LeafB l e x" "unl S = LockC E_UNLOCKED"
    and e: "m e = None" "fixed S e = None" and h: "at_hand S c m al e y q m' al'"
    and m'': "m'' = (if is_local c e then m(e \<mapsto> EListC z) else m(e \<mapsto> EListC z, q \<mapsto> w))" and out: "Q r [e \<mapsto> EListC z]"
  shows "locked S l (self_id c) Q (unlock_bucket cur b E_UNLOCKED (free_elist c e q (free_curr c old cur d (Return r)))) m'' al'"
proof -
  note V = view_self [OF L] and own = own_blocks_vacant [OF view_self(2) [OF L]]
  have l: "l = bucket_lock (us ! b)" by (simp add: b(2))
  show ?thesis
    unfolding l
  proof (rule locked_unlock_bucket [OF L b(1,3), where E = "{e}"])
    have "extends S m (m(e \<mapsto> EListC z))" by (rule extends_upd [OF V(1) e])
    then show "extends S m m''" using h extends_upd [of S m "m(e \<mapsto> EListC z)" q w] by (auto simp: m'' at_hand_def)
    show "own_blocks m'' al'" using h V(2) by (auto simp: m'' at_hand_def intro: own_blocks_add)
    show "{e} \<subseteq> dom m''" by (simp add: m'')
    show "{e} \<inter> covered al' = {}" using h own [OF e(1)] own [of q] by (auto simp: at_hand_def domIff split: if_splits)
    show "leaving r (free_elist c e q (free_curr c old cur d (Return r))) al'"
    proof (cases "is_local c e")
      case True
      then show ?thesis using leaving_free_curr [OF L, of r] h by (simp add: free_elist_def at_hand_def)
    next
      case False
      then have q: "al' = al(q \<mapsto> [q])" "al q = None" using h own [of q] by (simp_all add: at_hand_def)
      then have "al'(q := None) = al" "q \<in> dom al'" by auto
      then show ?thesis using leaving_free_curr [OF L, of r] False by (simp only: free_elist_def leaving.simps if_True not_False_eq_True)
    qed
    have "is_local c e \<or> q \<noteq> e" using h by (cases "is_local c e") (simp_all add: at_hand_def)
    then have "m'' e = Some (EListC z)" by (auto simp: m'')
    then have "m'' |` {e} = [e \<mapsto> EListC z]" by (simp add: restrict_map_def fun_eq_iff)
    then show "Q r (m'' |` {e})" using out by simp
  qed
qed

lemma locked_change:
  assumes L: "level S c D U d p us" "view S c d p us cur old m al" and b: "b < length us" "us ! b = LeafB l e x" "unl S = LockC E_UNLOCKED"
    and e: "m e = None" "fixed S e = None" "e \<noteq> l" and h: "at_hand S c m al e y q m' al'" and out: "Q r [e \<mapsto> EListC z]"
  shows "locked S l (self_id c) Q (Store q (EListC z) (write_back c e q (unlock_bucket cur b E_UNLOCKED (
    free_elist c e q (free_curr c old cur d (Return r)))))) m' al'"
proof (cases "is_local c e")
  case True
  have "locked S l (self_id c) Q (unlock_bucket cur b E_UNLOCKED (free_elist c e q (free_curr c old cur d (Return r))))
      (m(e \<mapsto> EListC z)) al'"
    by (rule locked_leave [where Q = Q and w = undefined, OF L b e(1,2) h _ out]) (simp add: True)
  then show ?thesis using True h by (simp add: write_back_def at_hand_def is_local_def)
next
  case False
  have q: "q \<noteq> e" "ptr_id q = self_id c" "m' = m(e \<mapsto> EListC y, q \<mapsto> EListC y)" using h False by (simp_all add: at_hand_def)
  have "locked S l (self_id c) Q (unlock_bucket cur b E_UNLOCKED (free_elist c e q (free_curr c old cur d (Return r))))
      (m(e \<mapsto> EListC z, q \<mapsto> EListC z)) al'"
    by (rule locked_leave [where Q = Q and w = "EListC z", OF L b e(1,2) h _ out]) (simp add: False)
  moreover have "m(e \<mapsto> EListC z, q \<mapsto> EListC z) = m'(q \<mapsto> EListC z, e \<mapsto> EListC z)" using q(1) by (auto simp: q(3))
  ultimately show ?thesis using False q e(3) by (simp add: write_back_def)
qed

end
