(* ===== verification/Iht_Concurrent.thy ===== *)
theory Iht_Concurrent
  imports Iht_Walk
begin

text \<open>
  The calls of the interlocked hash table (\<^verbatim>\<open>structures/iht_ds.h\<close>) when they overlap: as long as no
  insertion meets an empty or a full bucket, every call follows the protocol of \<open>Lock_Protocol\<close>.
  The PLists and the permanently unlocked locks do not change, and each element list is behind
  the lock of its bucket.
\<close>

section \<open>What is shared, and what is behind each lock\<close>

definition tree_shared :: "RdmaIHT \<Rightarrow> itree list \<Rightarrow> iht_cell shared" where
  "tree_shared c ts =
     \<lparr>nul = nullptr c, locks = bucket_lock ` set (pends ts), fixed = map_of (pfixed c (root c) ts),
      kept = (\<lambda>e. if \<exists>l x. LeafB l e x \<in> set (pends ts) then Some [e] else None),
      unl = LockC E_UNLOCKED, lck = LockC E_LOCKED\<rparr>"

definition path_lock :: "RdmaIHT \<Rightarrow> itree list \<Rightarrow> key \<Rightarrow> remote_ptr" where
  "path_lock c ts k = bucket_lock (the (pend c 1 ts k))"

text \<open>
  The memory behind an end \<open>t\<close> of the tree \<open>ts\<close>, when the table stands for \<open>m\<close>: nothing, or an element
  list with the pairs of the keys whose path ends at \<open>t\<close>; its keys are those it had in \<open>ts\<close> and keys from \<open>K\<close>.
\<close>

definition end_obj :: "RdmaIHT \<Rightarrow> key set \<Rightarrow> itree list \<Rightarrow> itree \<Rightarrow> (key \<Rightarrow> val option) \<Rightarrow> iht_cell memory \<Rightarrow> bool" where
  "end_obj c K ts t m b \<longleftrightarrow> (case t of
     LeafB l e x \<Rightarrow> \<exists>y. b = [e \<mapsto> EListC y] \<and> elist_ok c y \<and>
       fst ` set (elist_live y) \<subseteq> fst ` set (elist_live x) \<union> {k \<in> K. pend c 1 ts k = Some t} \<and>
       (\<forall>k. pend c 1 ts k = Some t \<longrightarrow> map_of (elist_live y) k = m k)
   | _ \<Rightarrow> b = Map.empty \<and> (\<forall>k. pend c 1 ts k = Some t \<longrightarrow> m k = None))"

definition tree_obj :: "RdmaIHT \<Rightarrow> key set \<Rightarrow> itree list \<Rightarrow> remote_ptr \<Rightarrow> (key \<Rightarrow> val option) \<Rightarrow> iht_cell memory \<Rightarrow> bool" where
  "tree_obj c K ts l m b \<longleftrightarrow> (\<exists>t \<in> set (pends ts). bucket_lock t = l \<and> end_obj c K ts t m b)"

text \<open>
  Keys of \<open>K\<close> may be inserted: the path of each ends at an element list that has room for all keys of
  \<open>K\<close> whose path ends there, beside those it holds.  Any key may be looked up or removed.
\<close>

definition roomy :: "RdmaIHT \<Rightarrow> key set \<Rightarrow> itree list \<Rightarrow> bool" where
  "roomy c K ts \<longleftrightarrow> (\<forall>k \<in> K. \<exists>l e x. pend c 1 ts k = Some (LeafB l e x) \<and>
     card (fst ` set (elist_live x) \<union> {j \<in> K. pend c 1 ts j = pend c 1 ts k}) \<le> ELIST_SIZE c)"

definition inserts_in :: "key set \<Rightarrow> call \<Rightarrow> bool" where
  "inserts_in K x \<longleftrightarrow> (case x of Insert k v \<Rightarrow> k \<in> K | _ \<Rightarrow> True)"

lemma tree_obj_local:
  assumes "tree_obj c K ts l m b" "\<And>k. path_lock c ts k = l \<Longrightarrow> m' k = m k"
  shows "tree_obj c K ts l m' b"
proof -
  obtain t where t: "t \<in> set (pends ts)" "bucket_lock t = l" "end_obj c K ts t m b" using assms(1) by (auto simp: tree_obj_def)
  have "m' k = m k" if "pend c 1 ts k = Some t" for k using assms(2) that t(2) by (simp add: path_lock_def)
  then have "end_obj c K ts t m' b" using t(3) by (cases t) (auto simp: end_obj_def)
  then show ?thesis using t by (auto simp: tree_obj_def)
qed

lemma tree_objI: "t \<in> set (pends ts) \<Longrightarrow> end_obj c K ts t m b \<Longrightarrow> tree_obj c K ts (bucket_lock t) m b"
  by (auto simp: tree_obj_def)

lemma ends_lock_in_behind: "bucket_lock t \<in> fst ` set (behind t)"
  by (cases t) auto

lemma behind_locks: "distinct (map fst (concat (map behind us))) \<Longrightarrow> distinct (map bucket_lock us)"
proof (induction us)
  case (Cons u us)
  have d: "distinct (map fst (concat (map behind us)))" "fst ` set (behind u) \<inter> fst ` set (concat (map behind us)) = {}"
    using Cons.prems by (simp_all only: list.map concat.simps map_append distinct_append set_map)
  have "bucket_lock v \<noteq> bucket_lock u" if "v \<in> set us" for v
  proof -
    have "fst ` set (behind v) \<subseteq> fst ` set (concat (map behind us))" using that by auto
    then show ?thesis using d(2) ends_lock_in_behind [of u] ends_lock_in_behind [of v] by (metis IntI empty_iff subsetD)
  qed
  then have "bucket_lock u \<notin> bucket_lock ` set us" by (metis imageE)
  then show ?case using Cons.IH d(1) by simp
qed simp

lemma behind_apart:
  assumes "distinct (map fst (concat (map behind us)))" "t \<in> set us" "u \<in> set us" "a \<in> fst ` set (behind t)" "a \<in> fst ` set (behind u)"
  shows "t = u"
proof -
  obtain i j where ij: "i < length us" "us ! i = t" "j < length us" "us ! j = u" using assms(2,3) by (auto simp: in_set_conv_nth)
  have d: "distinct (concat (map (map fst \<circ> behind) us))" using assms(1) by (simp add: map_concat)
  have "i = j" by (rule concat_index [OF d, of i j a]) (use ij assms(4,5) in simp_all)
  then show ?thesis using ij by simp
qed

lemma elist_live_nth: "i < length (elist_live y) \<Longrightarrow> elist_live y ! i = elist_pairs y ! i"
  by (simp add: elist_live_def)

section \<open>The methods under the lock\<close>

text \<open>The list is not null; it is searched.\<close>

lemma locked_search:
  assumes "at_hand S c m al e y q m' al'" "elist_ok c y"
    and "\<And>i. linear_search k (elist_live y) = Some i \<Longrightarrow> locked S l (self_id c) Q (found y i) m' al'"
    and "linear_search k (elist_live y) = None \<Longrightarrow> locked S l (self_id c) Q (missing y) m' al'"
  shows "locked S l (self_id c) Q (if is_null c q then z else load_elist q (\<lambda>x. search_elist x k (found x) (missing x))) m' al'"
proof -
  have "q \<noteq> nullptr c" "ptr_id q = self_id c" "m' q = Some (EListC y)"
    using assms(1) by (cases "is_local c e"; simp add: at_hand_def)+
  then show ?thesis using assms(2-4) by (auto simp: is_null_def load_elist_def search_elist_def elist_ok_def split: option.splits)
qed

locale iht_shared = shared_pool R ok for R :: "('p, iht_cell) rome" and ok +
  fixes c :: RdmaIHT and D :: nat and U :: "key set" and K :: "key set" and ts :: "itree list" and fuel :: nat
  assumes null: "nullptr c = remote_nullptr R" and sizes: "iht_sizes c D"
    and tree: "length ts = PLIST_SIZE c" "plist_ok c D U 1 0 ts" "distinct (map fst (pcells c (root c) ts))"
    and keys: "K \<subseteq> U" "roomy c K ts" and fuel: "D \<le> fuel"
begin

abbreviation Sh :: "iht_cell shared" where "Sh \<equiv> tree_shared c ts"
abbreviation obj :: "remote_ptr \<Rightarrow> (key \<Rightarrow> val option) \<Rightarrow> iht_cell memory \<Rightarrow> bool" where "obj \<equiv> tree_obj c K ts"

lemma Sh_sel: "nul Sh = nullptr c" "locks Sh = bucket_lock ` set (pends ts)" "fixed Sh = map_of (pfixed c (root c) ts)"
    "unl Sh = LockC E_UNLOCKED" "lck Sh = LockC E_LOCKED"
  by (simp_all add: tree_shared_def)

lemma parts:
  "distinct (map fst (pfixed c (root c) ts))" "distinct (map fst (concat (map behind (pends ts))))"
  "fst ` set (pfixed c (root c) ts) \<inter> fst ` set (concat (map behind (pends ts))) = {}"
proof -
  have "mset (map fst (pcells c (root c) ts)) = mset (map fst (pfixed c (root c) ts @ concat (map behind (pends ts))))"
    using cells_split(2) [of c "root c" ts] by (metis mset_map)
  then have "distinct (map fst (pfixed c (root c) ts @ concat (map behind (pends ts))))"
    using tree(3) mset_eq_imp_distinct_iff by blast
  then show "distinct (map fst (pfixed c (root c) ts))" "distinct (map fst (concat (map behind (pends ts))))"
    "fst ` set (pfixed c (root c) ts) \<inter> fst ` set (concat (map behind (pends ts))) = {}"
    by (simp_all only: map_append distinct_append set_map)
qed

lemma end_lock: "t \<in> set (pends ts) \<Longrightarrow> u \<in> set (pends ts) \<Longrightarrow> bucket_lock t = bucket_lock u \<Longrightarrow> t = u"
  using behind_locks [OF parts(2)] by (auto simp: distinct_map dest: inj_onD)

lemma behind_free:
  assumes "t \<in> set (pends ts)" "a \<in> fst ` set (behind t)"
  shows "fixed Sh a = None"
proof -
  have "a \<in> fst ` set (concat (map behind (pends ts)))" using assms by auto
  then have "a \<notin> fst ` set (pfixed c (root c) ts)" using parts(3) by blast
  then show ?thesis by (simp add: Sh_sel map_of_eq_None_iff)
qed

lemma leaf_addr:
  assumes "LeafB l e x \<in> set (pends ts)"
  shows "fixed Sh e = None" "e \<notin> locks Sh"
proof -
  show "fixed Sh e = None" by (rule behind_free [OF assms]) simp
  have d: "distinct (map fst (behind (LeafB l e x)))" using parts(2) assms by (fastforce simp: map_concat distinct_concat_iff)
  show "e \<notin> locks Sh"
  proof
    assume "e \<in> locks Sh"
    then obtain u where u: "u \<in> set (pends ts)" "e = bucket_lock u" by (auto simp: Sh_sel)
    then have "u = LeafB l e x" using behind_apart [OF parts(2) u(1) assms, of e] ends_lock_in_behind [of u] by auto
    then have "e = l" using u(2) by (metis bucket_lock.simps(2))
    then show False using d by simp
  qed
qed

lemma pend_ends: obtains t where "pend c 1 ts k = Some t" "t \<in> set (pends ts)" "path_lock c ts k = bucket_lock t"
proof -
  have "1 \<le> D" "length ts = count_at c 1" using sizes tree(1) by (simp_all add: iht_sizes_def count_at_def)
  then obtain t where "pend c 1 ts k = Some t" by (rule pend_total [OF tree(2) sizes order_refl])
  then show ?thesis using that pend_in_pends by (simp add: path_lock_def)
qed

lemma root_level: "level Sh (c\<lparr>self_id := self\<rparr>) D U 1 (root c) ts"
proof -
  have "1 \<le> D" "length ts = count_at c 1" using sizes tree(1) by (simp_all add: iht_sizes_def count_at_def)
  moreover have "fixed Sh a = Some y" if "(a, y) \<in> set (pfixed c (root c) ts)" for a y
    using that parts(1) by (simp add: Sh_sel map_of_is_SomeI)
  ultimately show ?thesis using sizes tree(2) by (auto simp: level_def iht_sizes_def)
qed

text \<open>What a method has to leave behind.\<close>

lemma obj_next:
  assumes t: "LeafB l e x \<in> set (pends ts)" "pend c 1 ts (call_key call) = Some (LeafB l e x)" "inserts_in K call"
    and y: "elist_ok c y" "fst ` set (elist_live y) \<subseteq> fst ` set (elist_live x) \<union> {k \<in> K. pend c 1 ts k = Some (LeafB l e x)}"
      "\<forall>k. pend c 1 ts k = Some (LeafB l e x) \<longrightarrow> map_of (elist_live y) k = st k"
    and z: "elist_ok c z" "map_of (elist_live z) = snd (spec_call call (map_of (elist_live y)))"
      "r = fst (spec_call call (map_of (elist_live y)))"
  shows "served obj l call st r [e \<mapsto> EListC z]"
proof -
  have at: "map_of (elist_live y) (call_key call) = st (call_key call)" using y(3) t(2) by simp
  have "map_of (elist_live z) k = snd (spec_call call st) k" if "pend c 1 ts k = Some (LeafB l e x)" for k
    using z(2) y(3) that spec_call_local(2) [of "map_of (elist_live y)" call st, OF at] spec_call_local(3) [of k call] by (cases "k = call_key call") simp_all
  moreover have "dom (map_of (elist_live z)) \<subseteq> dom (map_of (elist_live y)) \<union> {k \<in> K. pend c 1 ts k = Some (LeafB l e x)}"
    using t(2,3) unfolding z(2)
    by (cases call) (auto simp: spec_insert_def spec_remove_def inserts_in_def split: option.splits if_splits)
  then have "fst ` set (elist_live z) \<subseteq> fst ` set (elist_live x) \<union> {k \<in> K. pend c 1 ts k = Some (LeafB l e x)}"
    using y(2) by (auto simp: dom_map_of_conv_image_fst)
  ultimately have "end_obj c K ts (LeafB l e x) (snd (spec_call call st)) [e \<mapsto> EListC z]"
    using z(1) by (auto simp: end_obj_def)
  from tree_objI [OF t(1) this] have "obj l (snd (spec_call call st)) [e \<mapsto> EListC z]" by simp
  moreover have "r = fst (spec_call call st)" using z(3) spec_call_local(1) [of "map_of (elist_live y)" call st, OF at] by simp
  ultimately show ?thesis by (simp add: served_def)
qed

text \<open>An element list that lacks a key of \<open>K\<close> has room for it.\<close>

lemma has_room:
  assumes "key \<in> K" "pend c 1 ts key = Some (LeafB l e x)" "elist_ok c y" "key \<notin> fst ` set (elist_live y)"
    "fst ` set (elist_live y) \<subseteq> fst ` set (elist_live x) \<union> {k \<in> K. pend c 1 ts k = Some (LeafB l e x)}"
  shows "elist_count y < ELIST_SIZE c"
proof -
  have n: "length (elist_live y) = elist_count y" using assms(3) by (simp add: elist_ok_def elist_live_def)
  have "card (insert key (fst ` set (elist_live y))) \<le> card (fst ` set (elist_live x) \<union> {j \<in> K. pend c 1 ts j = pend c 1 ts key})"
    by (rule card_mono) (use assms(1,2,5) in auto)
  also have "\<dots> \<le> ELIST_SIZE c" using keys(2) assms(1,2) by (auto simp: roomy_def)
  finally have "Suc (card (fst ` set (elist_live y))) \<le> ELIST_SIZE c" using assms(4) by simp
  moreover have "card (fst ` set (elist_live y)) = length (elist_live y)"
    using assms(3) distinct_card [of "map fst (elist_live y)"] by (simp add: elist_ok_def)
  ultimately show ?thesis using n by simp
qed

lemma empty_serves:
  assumes L: "level Sh (c\<lparr>self_id := self\<rparr>) D U d p us" "view Sh (c\<lparr>self_id := self\<rparr>) d p us cur old m al"
    and b: "b < length us" "us ! b = EmptyB l" "EmptyB l \<in> set (pends ts)" "pend c 1 ts (call_key x) = Some (EmptyB l)" "inserts_in K x"
    and st: "end_obj c K ts (EmptyB l) st bb"
  shows "locked Sh l self (served obj l x st) (iht_body (c\<lparr>self_id := self\<rparr>) x cur p d cnt b old again) (m ++ bb) al"
proof -
  let ?c = "c\<lparr>self_id := self\<rparr>"
  note V = view_self [OF L]
  have bb: "bb = Map.empty" "st (call_key x) = None" using st b(4) by (simp_all add: end_obj_def)
  have ni: "x \<noteq> Insert k v" for k v
  proof
    assume x: "x = Insert k v"
    then have "k \<in> K" "pend c 1 ts k = Some (EmptyB l)" using b(4,5) by (simp_all add: inserts_in_def)
    then show False using bspec [OF keys(2) [unfolded roomy_def], of k] by simp
  qed
  have sp: "spec_call x st = (ht_res FALSE_STATE 0, st)"
    using bb(2) ni by (cases x) (auto simp: spec_contains_def spec_remove_def)
  have "obj l st Map.empty" using tree_objI [OF b(3) st] by (simp add: bb(1))
  then have q: "served obj l x st (ht_res FALSE_STATE 0) (m |` {})" by (simp add: served_def sp)
  have at: "(fixed Sh ++ m) (base_field cur b) = Some (PtrC (nullptr c))"
    using view_shows [OF L V(1)] b(1,2) by (simp add: shows_plist_def)
  have "locked Sh (bucket_lock (us ! b)) (self_id ?c) (served obj l x st)
      (unlock_bucket cur b E_UNLOCKED (free_curr ?c old cur d (Return (ht_res FALSE_STATE 0)))) m al"
    by (rule locked_unlock_bucket [where E = "{}" and r = "ht_res FALSE_STATE 0" and Q = "served obj l x st", OF L b(1) Sh_sel(4) V(1,2) _ _ leaving_free_curr [OF L] q]) simp_all
  then have u: "locked Sh l self (served obj l x st)
      (unlock_bucket cur b E_UNLOCKED (free_curr ?c old cur d (Return (ht_res FALSE_STATE 0)))) m al"
    by (simp add: b(2))
  have enter: "locked Sh l self (served obj l x st) (load_ptr (base_field cur b) (\<lambda>bucket_base. localize_elist ?c bucket_base (\<lambda>e.
      if is_null ?c e then unlock_bucket cur b E_UNLOCKED (free_curr ?c old cur d (Return (ht_res FALSE_STATE 0))) else F bucket_base e))) m al" for F
    by (rule locked_load_ptr [OF _ at]) (use V(3) u in \<open>simp_all add: localize_elist_def is_null_def\<close>)
  have m: "m ++ bb = m" by (simp add: bb(1))
  show ?thesis
    unfolding m
  proof (cases x)
    case (Contains k)
    show "locked Sh l self (served obj l x st) (iht_body ?c x cur p d cnt b old again) m al"
      unfolding iht_body_def Contains call.case contains_body_def by (rule enter [unfolded Contains])
  next
    case (Remove k)
    show "locked Sh l self (served obj l x st) (iht_body ?c x cur p d cnt b old again) m al"
      unfolding iht_body_def Remove call.case remove_body_def by (rule enter [unfolded Remove])
  qed (use ni in simp)
qed

lemma at_hand_mem:
  "at_hand S c' m al e y q m' al' \<Longrightarrow> m' = (if is_local c' e then m(e \<mapsto> EListC y) else m(e \<mapsto> EListC y, q \<mapsto> EListC y))"
  by (simp add: at_hand_def split: if_splits)

lemma leaf_serves:
  assumes L: "level Sh (c\<lparr>self_id := self\<rparr>) D U d p us" "view Sh (c\<lparr>self_id := self\<rparr>) d p us cur old m al"
    and b: "b < length us" "us ! b = LeafB l e x" "LeafB l e x \<in> set (pends ts)" "pend c 1 ts (call_key call) = Some (LeafB l e x)"
      "inserts_in K call"
    and st: "end_obj c K ts (LeafB l e x) st bb" and ap: "apart Sh m bb"
  shows "locked Sh l self (served obj l call st) (iht_body (c\<lparr>self_id := self\<rparr>) call cur p d cnt b old again) (m ++ bb) al"
proof -
  let ?c = "c\<lparr>self_id := self\<rparr>" and ?k = "call_key call"
  obtain y where bb: "bb = [e \<mapsto> EListC y]" and y: "elist_ok c y"
    "fst ` set (elist_live y) \<subseteq> fst ` set (elist_live x) \<union> {k \<in> K. pend c 1 ts k = Some (LeafB l e x)}"
    "\<forall>k. pend c 1 ts k = Some (LeafB l e x) \<longrightarrow> map_of (elist_live y) k = st k"
    using st unfolding end_obj_def itree.case by blast
  have "l \<in> locks Sh" using b(3) by (force simp: Sh_sel)
  then have e: "m e = None" "fixed Sh e = None" "e \<noteq> l"
    using ap leaf_addr [OF b(3)] by (auto simp: apart_def bb)
  have y': "elist_ok ?c y" using y(1) by (simp add: elist_ok_def)
  have mb: "m ++ bb = m(e \<mapsto> EListC y)" by (simp add: bb)
  note next' = obj_next [OF b(3-5) y]
  have nul: "nul Sh = nullptr ?c" by (simp add: Sh_sel)
  have cnt_y: "length (elist_live y) = elist_count y" using y(1) by (simp add: elist_ok_def elist_live_def)
  have leave: "locked Sh l (self_id ?c) (served obj l call st)
      (unlock_bucket cur b E_UNLOCKED (free_elist ?c e q (free_curr ?c old cur d (Return r)))) m' al'"
    if "at_hand Sh ?c m al e y q m' al'" "snd (spec_call call (map_of (elist_live y))) = map_of (elist_live y)"
      "r = fst (spec_call call (map_of (elist_live y)))" for q m' al' r
    by (rule locked_leave [where Q = "served obj l call st", OF L b(1,2) Sh_sel(4) e(1,2) that(1) at_hand_mem [OF that(1)]])
      (rule next' [OF y(1)]; simp add: that)
  have change: "locked Sh l (self_id ?c) (served obj l call st) (Store q (EListC z) (write_back ?c e q (
      unlock_bucket cur b E_UNLOCKED (free_elist ?c e q (free_curr ?c old cur d (Return r)))))) m' al'"
    if "at_hand Sh ?c m al e y q m' al'" "elist_ok c z" "map_of (elist_live z) = snd (spec_call call (map_of (elist_live y)))"
      "r = fst (spec_call call (map_of (elist_live y)))" for q m' al' r z
    by (rule locked_change [where Q = "served obj l call st", OF L b(1,2) Sh_sel(4) e that(1)]) (rule next' [OF that(2-4)])
  have found: "map_of (elist_live y) ?k = Some (snd (elist_pairs y ! i))" "i < elist_count y"
    if "linear_search ?k (elist_live y) = Some i" for i
    using linear_search_Some [OF that] elist_live_nth [of i y] cnt_y by simp_all
  have missing: "map_of (elist_live y) ?k = None" if "linear_search ?k (elist_live y) = None"
    by (rule linear_search_map_of [OF that])
  have "locked Sh l (self_id ?c) (served obj l call st) (iht_body ?c call cur p d cnt b old again) (m(e \<mapsto> EListC y)) al"
  proof (cases call)
    case (Contains key)
    show ?thesis
      unfolding iht_body_def Contains call.case contains_body_def
    proof (rule locked_localize [OF L b(1,2) e(1,2) nul], rule locked_search [OF _ y'], assumption, goal_cases)
      case (1 q m' al' i)
      show ?case by (rule leave [unfolded Contains, OF 1(1)]) (use found [of i] 1(2) in \<open>simp_all add: Contains spec_contains_def\<close>)
    next
      case (2 q m' al')
      show ?case by (rule leave [unfolded Contains, OF 2(1)]) (use missing 2(2) in \<open>simp_all add: Contains spec_contains_def\<close>)
    qed
  next
    case (Insert key v)
    show ?thesis
      unfolding iht_body_def Insert call.case insert_body_def
    proof (rule locked_localize [OF L b(1,2) e(1,2) nul], rule locked_search [OF _ y'], assumption, goal_cases)
      case (1 q m' al' i)
      show ?case by (rule leave [unfolded Insert, OF 1(1)]) (use found [of i] 1(2) in \<open>simp_all add: Insert spec_insert_def\<close>)
    next
      case (2 q m' al')
      have no: "map_of (elist_live y) key = None" using missing 2(2) by (simp add: Insert)
      then have nk: "key \<notin> fst ` set (elist_live y)" by (simp add: map_of_eq_None_iff)
      have room: "elist_count y < ELIST_SIZE c"
        by (rule has_room [OF _ _ y(1) nk y(2)]) (use b(4,5) in \<open>simp_all add: Insert inserts_in_def\<close>)
      then obtain z where z: "elist_insert y key v = Some z" using elist_insert_Some [of y key v] y(1) by (auto simp: elist_ok_def)
      have m: "map_of (elist_live z) = (map_of (elist_live y))(key \<mapsto> v)"
        unfolding elist_insert_live(1) [OF z] by (rule map_of_snoc_new [OF nk])
      have "locked Sh l (self_id ?c) (served obj l call st) (Store q (EListC z) (write_back ?c e q (
          unlock_bucket cur b E_UNLOCKED (free_elist ?c e q (free_curr ?c old cur d (Return (ht_res TRUE_STATE 0))))))) m' al'"
        by (rule change [OF 2(1) elist_insert_ok [OF y(1) z nk]]) (simp_all add: m Insert spec_insert_def no)
      then show ?case using room by (simp add: z Insert del: locked.simps)
    qed
  next
    case (Remove key)
    show ?thesis
      unfolding iht_body_def Remove call.case remove_body_def
    proof (rule locked_localize [OF L b(1,2) e(1,2) nul], rule locked_search [OF _ y'], assumption, goal_cases)
      case (1 q m' al' i)
      note rem = elist_remove_ok [OF y(1), of key i]
      have i: "linear_search key (elist_live y) = Some i" using 1(2) .
      show ?case
        by (rule change [unfolded Remove, OF 1(1) rem(1) [OF i]]) (use found [of i] i rem(3) [OF i] in \<open>simp_all add: Remove spec_remove_def\<close>)
    next
      case (2 q m' al')
      show ?case by (rule leave [unfolded Remove, OF 2(1)]) (use missing 2(2) in \<open>simp_all add: Remove spec_remove_def\<close>)
    qed
  qed
  then show ?thesis by (simp add: mb)
qed

text \<open>The whole call.\<close>

lemma call_protocol:
  assumes "inserts_in K x"
  shows "spinning Sh (path_lock c ts (call_key x)) self (serves Sh obj (path_lock c ts (call_key x)) self x)
    (iht_call (c\<lparr>self_id := self\<rparr>) fuel x) Map.empty Map.empty"
proof -
  let ?c = "c\<lparr>self_id := self\<rparr>"
  obtain t where t: "pend c 1 ts (call_key x) = Some t" "t \<in> set (pends ts)" "path_lock c ts (call_key x) = bucket_lock t"
    by (rule pend_ends)
  note root = root_level [of self]
  have nofix: "fixed Sh (bucket_lock t) = None" by (rule behind_free [OF t(2) ends_lock_in_behind])
  have cnt: "PLIST_SIZE c = count_at ?c 1" by (simp add: count_at_def)
  have body: "serves Sh obj (bucket_lock t) self x (iht_body ?c x cur p d (count_at ?c d) b old again) m al"
    if L: "level Sh ?c D U d p us" "view Sh ?c d p us cur old m al" "b < length us" "us ! b = t" for d p us b cur old m al again
    unfolding serves_def
  proof (intro allI impI)
    fix st bb assume o: "obj (bucket_lock t) st bb" "apart Sh m bb"
    then obtain u where "u \<in> set (pends ts)" "bucket_lock u = bucket_lock t" "end_obj c K ts u st bb" by (auto simp: tree_obj_def)
    then have st: "end_obj c K ts t st bb" using end_lock t(2) by metis
    show "locked Sh (bucket_lock t) self (served obj (bucket_lock t) x st) (iht_body ?c x cur p d (count_at ?c d) b old again) (m ++ bb) al"
    proof (cases t)
      case (EmptyB l)
      show ?thesis
        using empty_serves [OF L(1-3) _ _ _ assms] L(4) t(1,2) st by (simp add: EmptyB)
    next
      case (LeafB l e y)
      show ?thesis
        using leaf_serves [OF L(1-3) _ _ _ assms _ o(2)] L(4) t(1,2) st by (simp add: LeafB)
    next
      case (SubB l q vs)
      then show ?thesis using ends_not_sub(2) t(2) by blast
    qed
  qed
  have "spinning Sh (bucket_lock t) (self_id ?c) (serves Sh obj (bucket_lock t) self x)
      (Read (PList_t ?c) (2 ^ (1 - 1)) (root c) (\<lambda>cur. iht_loop ?c x fuel cur (root c) 1 (count_at ?c 1) True)) Map.empty Map.empty"
  proof (rule spinning_read_level [OF root])
    show "extends Sh Map.empty Map.empty" by (simp add: extends_def)
    fix q
    let ?B = "block (PList_t ?c) (2 ^ (1 - 1)) q"
    assume "fresh_for Sh (self_id ?c) Map.empty q ?B"
    then have v: "view Sh ?c 1 (root c) ts q True [?B [\<mapsto>] plist_words ?c ts] [q \<mapsto> ?B]" by (simp add: view_def)
    have "1 \<le> D" using sizes by (simp add: iht_sizes_def)
    then have "D - 1 < fuel" using fuel by simp
    then show "spinning Sh (bucket_lock t) (self_id ?c) (serves Sh obj (bucket_lock t) self x)
        (iht_loop ?c x fuel q (root c) 1 (count_at ?c 1) True) [?B [\<mapsto>] plist_words ?c ts] [q \<mapsto> ?B]"
      by (rule loop_spins [OF root v _ _ Sh_sel(4,5) nofix]) (use t(1) body in simp_all)
  qed
  then show ?thesis unfolding iht_call_loop t(3) by (simp add: cnt del: spinning.simps)
qed

end

sublocale iht_shared \<subseteq> objects: locked_objects R ok "tree_shared c ts" "path_lock c ts" "tree_obj c K ts"
    "\<lambda>self. iht_call (c\<lparr>self_id := self\<rparr>) fuel" "{x. inserts_in K x}"
proof
  show "unl Sh \<noteq> lck Sh" by (simp add: Sh_sel)
  show "nul Sh = remote_nullptr R" using null by (simp add: Sh_sel)
  fix x and l :: remote_ptr and m m' :: "key \<Rightarrow> val option" and b self
  show "obj l m b \<Longrightarrow> (\<And>k. path_lock c ts k = l \<Longrightarrow> m' k = m k) \<Longrightarrow> obj l m' b"
    by (rule tree_obj_local)
  assume x: "x \<in> {x. inserts_in K x}"
  obtain t where "t \<in> set (pends ts)" "path_lock c ts (call_key x) = bucket_lock t" by (rule pend_ends)
  then show "path_lock c ts (call_key x) \<in> locks Sh" by (simp add: Sh_sel)
  show "spinning Sh (path_lock c ts (call_key x)) self (serves Sh obj (path_lock c ts (call_key x)) self x)
      (iht_call (c\<lparr>self_id := self\<rparr>) fuel x) Map.empty Map.empty"
    using x by (intro call_protocol) simp
qed

end
