(* ===== verification/Bump_Eval.thy ===== *)
theory Bump_Eval
  imports Rome
begin

text \<open>
  Rewrite rules that evaluate programs, one verb after the other, on the executable library
  \<open>bump_rome\<close> of \<open>Rome\<close>, for theorems about concrete schedules.
\<close>

lemma block_one: "ct_cells T = 1 \<Longrightarrow> block T 1 p = [p]" "ct_cells T = 1 \<Longrightarrow> block T (Suc 0) p = [p]"
  by (simp_all add: block_def)

lemma clear_cells: "fold (\<lambda>a m. m(a := None)) as m = (\<lambda>a. if a \<in> set as then None else m a)"
  by (induction as arbitrary: m) (auto simp: fun_eq_iff)

lemma bump_verbs:
  "remote_nullptr bump_rome = Remote 0 0"
  "rome_allocate bump_rome self T n h = bump_place self T n (replicate (n * ct_cells T) (ct_default T)) h"
  "rome_deallocate bump_rome self T n p h = (case allocs h p of
       None \<Rightarrow> h
     | Some as \<Rightarrow> h\<lparr>cells := fold (\<lambda>a m. m(a := None)) as (cells h), allocs := (allocs h)(p := None)\<rparr>)"
  "rome_read bump_rome self T n q h = bump_place self T n
     (map (\<lambda>a. case cells h a of Some c \<Rightarrow> c | None \<Rightarrow> ct_default T) (block T n q)) h"
  "rome_write bump_rome self p c tmp h = h\<lparr>cells := (cells h)(p \<mapsto> c)\<rparr>"
  "rome_cas bump_rome self p c c' h = (case cells h p of
       None \<Rightarrow> (c, h)
     | Some v \<Rightarrow> (v, if v = c then h\<lparr>cells := (cells h)(p \<mapsto> c')\<rparr> else h))"
  by (simp_all add: bump_rome_def clear_cells split: option.split)

lemma bump_place_eq:
  "bump_place self T n cs h =
     (Remote self (pool_state h),
      h\<lparr>cells := (cells h)(block T n (Remote self (pool_state h)) [\<mapsto>] cs),
        allocs := (allocs h)(Remote self (pool_state h) \<mapsto> block T n (Remote self (pool_state h))),
        pool_state := pool_state h + Suc (ct_stride T * (n * ct_cells T))\<rparr>)"
  by (simp add: bump_place_def Let_def)

lemmas bump_eval = block_one bump_verbs bump_place_eq

text \<open>Short schedules, written out.\<close>

lemma replicates:
  "replicate 2 x = [x, x]" "replicate 4 x = [x, x, x, x]"
  "replicate 14 x = [x, x, x, x, x, x, x, x, x, x, x, x, x, x]"
  by (simp_all add: numeral_eq_Suc)

end
