(* ===== verification/Iht_Race.thy ===== *)
theory Iht_Race
  imports Iht Bump_Eval
begin

text \<open>
  Two calls of \<^verbatim>\<open>RdmaIHT::insert\<close> (\<^verbatim>\<open>structures/iht_ds.h\<close>) whose verbs interleave.  A call reads the
  root PList before it takes the lock of its bucket, and after it has the lock it takes the base
  pointer of the bucket from that copy.  Here is what another call can do in between.
\<close>

section \<open>A small table\<close>

text \<open>A table of two buckets and two pairs per element list, as each of the nodes sees it.\<close>

definition race_table :: "nat \<Rightarrow> RdmaIHT" where
  "race_table self = \<lparr>ELIST_SIZE = 2, PLIST_SIZE = 2, pre_hash = ucast, nullptr = Remote 0 0,
     self_id = self, root = Remote 0 1\<rparr>"

text \<open>The memory after node 0 has created the table.\<close>

definition race_memory :: "(nat, iht_cell) heap" where
  "race_memory = (case run bump_rome 0 (InitAsFirst (race_table 0)) bump_empty of
      Finished c h \<Rightarrow> h | _ \<Rightarrow> bump_empty)"

lemma level_hash_race: "level_hash (race_table n) k d 2 = 0"
  by (simp add: level_hash_def)

lemma race_table_sel:
  "ELIST_SIZE (race_table n) = 2" "PLIST_SIZE (race_table n) = 2" "nullptr (race_table n) = Remote 0 0"
  "self_id (race_table n) = n" "root (race_table n) = Remote 0 1"
  by (simp_all add: race_table_def)

lemma race_types:
  "ct_cells lock_t = 1" "ct_stride lock_t = 8" "ct_default lock_t = LockC 0"
  "ct_cells baseptr_t = 1" "ct_stride baseptr_t = 8" "ct_default baseptr_t = PtrC (Remote 0 0)"
  "ct_cells (EList_t c) = 1" "ct_stride (EList_t c) = 64"
  "ct_default (EList_t c) = EListC \<lparr>elist_count = 0, elist_pairs = replicate (ELIST_SIZE c) (0, 0)\<rparr>"
  "ct_cells (PList_t (race_table n)) = 4" "ct_stride (PList_t c) = 8" "ct_default (PList_t c) = PtrC (Remote 0 0)"
  by (simp_all add: lock_t_def baseptr_t_def EList_t_def PList_t_def race_table_def)

lemma block_P:
  "block (PList_t (race_table n)) 1 (Remote i a) = [Remote i a, Remote i (a + 8), Remote i (a + 16), Remote i (a + 24)]"
  "block (PList_t (race_table n)) (Suc 0) (Remote i a) = [Remote i a, Remote i (a + 8), Remote i (a + 16), Remote i (a + 24)]"
  by (simp_all add: block_def ptr_add_def upt_rec race_types)

lemma field_sel: "base_field (Remote i a) b = Remote i (a + 16 * b)" 
  "lock_field (Remote i a) b = Remote i (a + (16 * b + 8))"
  by (simp_all add: base_field_def lock_field_def ptr_add_def)

lemmas iht_step_defs = iht_insert_def iht_contains_def insert_body_def contains_body_def load_ptr_def
  load_elist_def is_null_def is_local_def localize_elist_def elist_insert_def change_bucket_pointer_def
  unlock_bucket_def unlock_def free_curr_def shl1_def search_elist_def elist_live_def free_elist_def

lemma init_buckets_2: "init_buckets c p 0 2 k = init_buckets c p 0 (Suc (Suc 0)) k"
  by (simp add: numeral_2_eq_2)

lemmas race_eval = level_hash_race race_table_sel race_types block_P field_sel init_buckets_2 iht_step_defs replicates bump_eval

lemma race_memory:
  "race_memory = \<lparr>cells = [Remote 0 9 \<mapsto> PtrC (Remote 0 34), Remote 0 34 \<mapsto> LockC E_UNLOCKED,
       Remote 0 1 \<mapsto> PtrC (Remote 0 0), Remote 0 25 \<mapsto> PtrC (Remote 0 43),
       Remote 0 43 \<mapsto> LockC E_UNLOCKED, Remote 0 17 \<mapsto> PtrC (Remote 0 0)],
     allocs = [Remote 0 1 \<mapsto> [Remote 0 1, Remote 0 9, Remote 0 17, Remote 0 25],
       Remote 0 34 \<mapsto> [Remote 0 34], Remote 0 43 \<mapsto> [Remote 0 43]], pool_state = 52\<rparr>"
  by (simp add: race_memory_def InitAsFirst_def InitPList_def bump_empty_def race_eval)

section \<open>The lost update\<close>

text \<open>The memory two insertions leave behind: nothing points to the element list of the first.\<close>

definition lost_memory :: "key \<Rightarrow> val \<Rightarrow> key \<Rightarrow> val \<Rightarrow> (nat, iht_cell) heap" where
  "lost_memory k1 v1 k2 v2 = \<lparr>cells = [Remote 0 9 \<mapsto> PtrC (Remote 0 34), Remote 0 25 \<mapsto> PtrC (Remote 0 43),
       Remote 0 43 \<mapsto> LockC E_UNLOCKED, Remote 0 17 \<mapsto> PtrC (Remote 0 0),
       Remote 1 118 \<mapsto> EListC \<lparr>elist_count = 1, elist_pairs = [(k1, v1), (0, 0)]\<rparr>,
       Remote 2 201 \<mapsto> EListC \<lparr>elist_count = 1, elist_pairs = [(k2, v2), (0, 0)]\<rparr>,
       Remote 0 1 \<mapsto> PtrC (Remote 2 201), Remote 0 34 \<mapsto> LockC E_UNLOCKED],
     allocs = [Remote 0 1 \<mapsto> [Remote 0 1, Remote 0 9, Remote 0 17, Remote 0 25],
       Remote 0 34 \<mapsto> [Remote 0 34], Remote 0 43 \<mapsto> [Remote 0 43],
       Remote 1 118 \<mapsto> [Remote 1 118], Remote 2 201 \<mapsto> [Remote 2 201]],
     pool_state = 284\<rparr>"

lemma race_schedule:
  "schedule bump_rome ([0, 1] @ replicate 14 0 @ replicate 14 1)
     [(1, iht_insert (race_table 1) (Suc n) k1 v1), (2, iht_insert (race_table 2) (Suc n) k2 v2)] race_memory =
   Some ([(1, Return (ht_res TRUE_STATE 0)), (2, Return (ht_res TRUE_STATE 0))], lost_memory k1 v1 k2 v2)"
  by (simp add: race_memory lost_memory_def race_eval)

lemma lost_contains:
  "\<exists>h. run bump_rome 0 (iht_contains (race_table 0) (Suc n) k) (lost_memory k1 v1 k2 v2) =
     Finished (if k = k2 then ht_res TRUE_STATE v2 else ht_res FALSE_STATE 0) h"
  by (simp add: lost_memory_def race_eval)

text \<open>C13: two nodes insert into an empty table at the same time: both read the root, then the first does the
  rest of its call, then the second.  Both calls answer that they inserted their pair, whatever
  the keys and the values, but the second has overwritten the pointer to the element list of
  the first: afterwards the first key is not in the table.\<close>

theorem iht_insert_loses_update:
  "\<exists>h h1 h2.
     schedule bump_rome ([0, 1] @ replicate 14 0 @ replicate 14 1)
       [(1, iht_insert (race_table 1) (Suc n) k1 v1), (2, iht_insert (race_table 2) (Suc n) k2 v2)] race_memory =
       Some ([(1, Return (ht_res TRUE_STATE 0)), (2, Return (ht_res TRUE_STATE 0))], h) \<and>
     run bump_rome 0 (iht_contains (race_table 0) (Suc n) k2) h = Finished (ht_res TRUE_STATE v2) h2 \<and>
     run bump_rome 0 (iht_contains (race_table 0) (Suc n) k1) h =
       Finished (if k1 = k2 then ht_res TRUE_STATE v2 else ht_res FALSE_STATE 0) h1"
  using race_schedule [of n k1 v1 k2 v2] lost_contains [of n k1 k1 v1 k2 v2] lost_contains [of n k2 k1 v1 k2 v2]
  by (auto simp del: schedule.simps)

end
