(* ===== verification/Iht_Linear.thy ===== *)
theory Iht_Linear
  imports Iht_Concurrent Iht_Race
begin

text \<open>
  Overlapping calls of the interlocked hash table (\<^verbatim>\<open>structures/iht_ds.h\<close>) on a table whose lists
  have room: they are linearizable, never stuck, and keep the table well formed at every moment.  (What happens when
  two insertions meet an empty bucket is in \<open>Iht_Race\<close>.)
\<close>

section \<open>The table at rest\<close>

text \<open>
  \<open>roomy_state c D U K h m\<close>: as \<open>iht_state\<close>, and keys of \<open>K\<close> may be inserted without a new list or a rehash.
\<close>

definition roomy_state :: "RdmaIHT \<Rightarrow> nat \<Rightarrow> key set \<Rightarrow> key set \<Rightarrow> ('p, iht_cell) heap \<Rightarrow> (key \<Rightarrow> val option) \<Rightarrow> bool" where
  "roomy_state c D U K h m \<longleftrightarrow> (\<exists>ts. owns h (pcells c (root c) ts) \<and> length ts = PLIST_SIZE c \<and>
     plist_ok c D U 1 0 ts \<and> roomy c K ts \<and> pfind c 1 ts = m)"

lemma roomy_state_iht: "roomy_state c D U K h m \<Longrightarrow> iht_state c D U h m"
  by (auto simp: roomy_state_def iht_state_def)

context iht_shared
begin

text \<open>A table at rest is ready for calls.\<close>

definition leaf_mem :: "('p, iht_cell) heap \<Rightarrow> remote_ptr \<Rightarrow> iht_cell memory" where
  "leaf_mem h l a = (if \<exists>x. LeafB l a x \<in> set (pends ts) then cells h a else None)"

lemma owned:
  assumes "owns h (pcells c (root c) ts)"
  shows "fixed Sh a = Some y \<Longrightarrow> cells h a = Some y" "t \<in> set (pends ts) \<Longrightarrow> (a, y) \<in> set (behind t) \<Longrightarrow> cells h a = Some y"
    "LeafB l e x \<in> set (pends ts) \<Longrightarrow> allocs h e = Some [e]"
proof -
  have o: "owns h (pfixed c (root c) ts @ concat (map behind (pends ts)))" using assms pcells_split_ends(2) by blast
  show "fixed Sh a = Some y \<Longrightarrow> cells h a = Some y"
    by (rule ownsD [OF o]) (auto simp: Sh_sel dest: map_of_SomeD)
  show "t \<in> set (pends ts) \<Longrightarrow> (a, y) \<in> set (behind t) \<Longrightarrow> cells h a = Some y"
    by (rule ownsD [OF o]) auto
  assume "LeafB l e x \<in> set (pends ts)"
  then have "(e, EListC x) \<in> set (concat (map behind (pends ts)))" by force
  then show "allocs h e = Some [e]" using o by (auto simp: owns_def)
qed

lemma leaf_mem_cases:
  assumes "t \<in> set (pends ts)"
  shows "t = EmptyB l \<Longrightarrow> leaf_mem h l = Map.empty"
    "t = LeafB l e x \<Longrightarrow> owns h (pcells c (root c) ts) \<Longrightarrow> leaf_mem h l = [e \<mapsto> EListC x]"
proof -
  note u = end_lock [OF assms]
  show "leaf_mem h l = Map.empty" if t: "t = EmptyB l"
  proof
    fix a
    have "LeafB l a y \<notin> set (pends ts)" for y using u [of "LeafB l a y"] t by auto
    then show "leaf_mem h l a = None" by (simp add: leaf_mem_def)
  qed
  show "leaf_mem h l = [e \<mapsto> EListC x]" if t: "t = LeafB l e x" and o: "owns h (pcells c (root c) ts)"
  proof
    fix a
    have e: "cells h e = Some (EListC x)" by (rule owned(2) [OF o assms]) (simp add: t)
    show "leaf_mem h l a = [e \<mapsto> EListC x] a"
    proof (cases "a = e")
      case True
      have "\<exists>x. LeafB l a x \<in> set (pends ts)" using assms by (auto simp: t True)
      then show ?thesis using e True by (simp add: leaf_mem_def)
    next
      case False
      have "LeafB l a y \<notin> set (pends ts)" for y using u [of "LeafB l a y"] t False by auto
      then show ?thesis using False by (simp add: leaf_mem_def)
    qed
  qed
qed

lemma end_obj_initial:
  assumes "owns h (pcells c (root c) ts)" "t \<in> set (pends ts)"
  shows "end_obj c K ts t (pfind c 1 ts) (leaf_mem h (bucket_lock t))"
proof (cases t)
  case (EmptyB l)
  then show ?thesis using leaf_mem_cases(1) [OF assms(2)] by (simp add: end_obj_def pfind_pend)
next
  case (LeafB l e x)
  have "plist_ok c D U 1 0 ts" by (rule tree)
  moreover have "bucket_ok c D U d i t \<Longrightarrow> LeafB l e x \<in> set (bends t) \<Longrightarrow> elist_ok c x"
    "plist_ok c D U d i us \<Longrightarrow> LeafB l e x \<in> set (pends us) \<Longrightarrow> elist_ok c x" for d i t us
    by (induction c D U d i t and c D U d i us rule: bucket_ok_plist_ok.induct) auto
  ultimately have "elist_ok c x" using assms(2) LeafB by blast
  then show ?thesis
    unfolding end_obj_def LeafB itree.case bucket_lock.simps leaf_mem_cases(2) [OF assms(2) LeafB assms(1)]
    by (intro exI [of _ x]) (simp add: pfind_pend)
next
  case (SubB l p us)
  then show ?thesis using ends_not_sub(2) assms(2) by blast
qed

lemma rep_ready:
  assumes "ok h" "owns h (pcells c (root c) ts)"
  shows "objects.ready (pfind c 1 ts) h"
proof -
  note o = owned [OF assms(2)]
  have locks: "cells h l = Some (LockC E_UNLOCKED) \<and> fixed Sh l = None" if l: "l \<in> locks Sh" for l
  proof -
    obtain t where t: "t \<in> set (pends ts)" "l = bucket_lock t" using l by (auto simp: Sh_sel)
    have "(l, LockC E_UNLOCKED) \<in> set (behind t)" using ends_not_sub(2) [OF t(1)] by (cases t) (auto simp: t(2))
    then show ?thesis using o(2) t(1) behind_free [OF t(1), of l] ends_lock_in_behind [of t] t(2) by simp
  qed
  have "standing Sh h"
    by (rule standingI) (use locks o(1,3) in \<open>auto simp: tree_shared_def split: if_splits\<close>)
  moreover have "obj l (pfind c 1 ts) (leaf_mem h l)" if l: "l \<in> locks Sh" for l
  proof -
    obtain t where t: "t \<in> set (pends ts)" "l = bucket_lock t" using l by (auto simp: Sh_sel)
    show ?thesis unfolding t(2) by (rule tree_objI [OF t(1) end_obj_initial [OF assms(2) t(1)]])
  qed
  moreover have "divided Sh h (leaf_mem h) (\<lambda>_. Map.empty)"
  proof (rule dividedI)
    fix l l' a y
    show "leaf_mem h l a = Some y \<Longrightarrow> cells h a = Some y" by (simp add: leaf_mem_def split: if_splits)
    show "leaf_mem h l a = Some y \<Longrightarrow> a \<notin> locks Sh \<and> fixed Sh a = None"
      using leaf_addr by (auto simp: leaf_mem_def split: if_splits)
    show "leaf_mem h l' a = None" if lm: "leaf_mem h l a = Some y" and "l' \<noteq> l"
    proof (rule ccontr)
      assume "leaf_mem h l' a \<noteq> None"
      then obtain x' where x': "LeafB l' a x' \<in> set (pends ts)" by (metis leaf_mem_def)
      obtain x where x: "LeafB l a x \<in> set (pends ts)" using lm by (auto simp: leaf_mem_def split: if_splits)
      from x x' have "LeafB l a x = LeafB l' a x'" by (rule behind_apart [OF parts(2), where a = a]) simp_all
      then show False using that(2) by simp
    qed
  qed simp_all
  ultimately show ?thesis
    unfolding objects.ready_def using assms(1) locks by (auto simp: Sh_sel)
qed

text \<open>A table that is ready for calls is at rest, with other lists at its ends.\<close>

lemma ready_rep:
  assumes "objects.ready m h"
  shows "ok h \<and> roomy_state c D U K h m"
proof -
  obtain M where r: "ok h" "standing Sh h" "\<And>l. l \<in> locks Sh \<Longrightarrow> cells h l = Some (LockC E_UNLOCKED)" "\<And>l. l \<in> locks Sh \<Longrightarrow> obj l m (M l)"
    "divided Sh h M (\<lambda>_. Map.empty)"
    using assms unfolding objects.ready_def by (auto simp: Sh_sel)
  have eo: "end_obj c K ts t m (M (bucket_lock t))" if t: "t \<in> set (pends ts)" for t
  proof -
    have "obj (bucket_lock t) m (M (bucket_lock t))" using r(4) t by (simp add: Sh_sel)
    then obtain u where "u \<in> set (pends ts)" "bucket_lock u = bucket_lock t" "end_obj c K ts u m (M (bucket_lock t))"
      by (auto simp: tree_obj_def)
    then show ?thesis using end_lock t by metis
  qed
  define f where "f l x = (SOME y. \<exists>e. M l = [e \<mapsto> EListC y])" for l and x :: EList
  have f: "M l = [e \<mapsto> EListC (f l x)]" "elist_ok c (f l x)"
    "fst ` set (elist_live (f l x)) \<subseteq> fst ` set (elist_live x) \<union> {k \<in> K. pend c 1 ts k = Some (LeafB l e x)}"
    "pend c 1 ts k = Some (LeafB l e x) \<Longrightarrow> map_of (elist_live (f l x)) k = m k"
    if t: "LeafB l e x \<in> set (pends ts)" for l e x k
  proof -
    obtain y where y: "M l = [e \<mapsto> EListC y]" "elist_ok c y"
      "fst ` set (elist_live y) \<subseteq> fst ` set (elist_live x) \<union> {k \<in> K. pend c 1 ts k = Some (LeafB l e x)}"
      "\<forall>k. pend c 1 ts k = Some (LeafB l e x) \<longrightarrow> map_of (elist_live y) k = m k"
      using eo [OF t] by (auto simp: end_obj_def)
    have "f l x = y" unfolding f_def
    proof (rule some_equality)
      fix z assume "\<exists>e. M l = [e \<mapsto> EListC z]"
      then obtain a where "[a \<mapsto> EListC z] = [e \<mapsto> EListC y]" using y(1) by metis
      then show "z = y" by (metis fun_upd_same map_upd_eqD1 option.inject iht_cell.inject(3) fun_upd_apply option.distinct(1))
    qed (use y(1) in blast)
    then show "M l = [e \<mapsto> EListC (f l x)]" "elist_ok c (f l x)"
      "fst ` set (elist_live (f l x)) \<subseteq> fst ` set (elist_live x) \<union> {k \<in> K. pend c 1 ts k = Some (LeafB l e x)}"
      "pend c 1 ts k = Some (LeafB l e x) \<Longrightarrow> map_of (elist_live (f l x)) k = m k"
      using y by simp_all
  qed
  let ?ts = "map (bput f) ts"
  have addr: "map fst (behind (bput f t)) = map fst (behind t)" for t by (cases t) simp_all
  have W: "holds (cells h) (pfixed c (root c) ts @ concat (map behind (pends ?ts)))"
    unfolding holds_def
  proof (intro conjI ballI, goal_cases)
    case 1
    have "map fst (concat (map behind (pends ?ts))) = map fst (concat (map behind (pends ts)))"
      by (simp add: map_concat comp_def addr)
    then show ?case using parts by (simp only: map_append distinct_append set_map)
  next
    case (2 ay)
    obtain a y where ay: "ay = (a, y)" by fastforce
    consider "(a, y) \<in> set (pfixed c (root c) ts)" | t where "t \<in> set (pends ts)" "(a, y) \<in> set (behind (bput f t))"
      using 2 by (auto simp: ay)
    then have "cells h a = Some y"
    proof cases
      case 1
      then have "fixed Sh a = Some y" using parts(1) by (simp add: Sh_sel)
      then show ?thesis by (rule standing_fixed [OF r(2)])
    next
      case (2 t)
      have lk: "cells h (bucket_lock t) = Some (LockC E_UNLOCKED)" using r(3) 2(1) by (simp add: Sh_sel)
      show ?thesis
      proof (cases t)
        case (LeafB l e x)
        have "cells h e = Some (EListC (f l x))"
          using divided_cell [OF r(5), of l e] f(1) [of l e x] 2(1) LeafB by simp
        then show ?thesis using 2(2) lk by (auto simp: LeafB)
      qed (use 2 lk ends_not_sub(2) in \<open>auto\<close>)
    qed
    then show ?case by (simp add: ay)
  qed
  have "owns h (pfixed c (root c) ts @ concat (map behind (pends ?ts)))"
    unfolding owns_def
  proof (intro conjI W allI impI)
    fix a y assume "(a, EListC y) \<in> set (pfixed c (root c) ts @ concat (map behind (pends ?ts)))"
    then obtain t where t: "t \<in> set (pends ts)" "(a, EListC y) \<in> set (behind (bput f t))" using pfixed_no_elist(2) by auto
    obtain l x where "t = LeafB l a x" using t(2) by (cases t) auto
    then have "kept Sh a = Some [a]" using t(1) by (auto simp: tree_shared_def)
    then show "allocs h a = Some [a]" by (rule standing_kept [OF r(2)])
  qed
  then have own: "owns h (pcells c (root c) ?ts)" by (simp add: pcells_split_ends(2))
  have D: "1 \<le> D" "length ts = count_at c 1" using sizes tree(1) by (simp_all add: iht_sizes_def count_at_def)
  note dist = behind_locks [OF parts(2)]
  have ok: "plist_ok c D U 1 0 ?ts"
  proof (rule put_ok(2) [OF tree(2) sizes order_refl D(1)])
    fix b l e x assume b: "b < length ts" and t: "LeafB l e x \<in> set (bends (ts ! b))"
    have tp: "LeafB l e x \<in> set (pends ts)" using pends_nth [OF b] t by blast
    have "level_hash c k 1 (count_at c 1) = 0 + b \<and> bend c 1 (ts ! b) k = Some (LeafB l e x)"
      if p: "pend c 1 ts k = Some (LeafB l e x)" for k
    proof -
      let ?j = "level_hash c k 1 (count_at c 1)"
      have j: "?j < length ts" using level_hash_less [OF sizes order_refl D(1)] D(2) by simp
      have e: "bend c 1 (ts ! ?j) k = Some (LeafB l e x)" using p unfolding pend_nth [OF sizes order_refl D] .
      have "?j = b" using bends_distinct [OF dist j bend_in_bends(1) [OF e] t b refl] by blast
      then show ?thesis using e by simp
    qed
    then show "elist_ok c (f l x) \<and> (\<forall>k \<in> fst ` set (elist_live (f l x)). k \<in> fst ` set (elist_live x) \<or>
        (k \<in> U \<and> level_hash c k 1 (count_at c 1) = 0 + b \<and> bend c 1 (ts ! b) k = Some (LeafB l e x)))"
      using f(2,3) [OF tp] keys(1) by blast
  qed (rule bends_distinct_nth [OF dist])
  have same: "pend c 1 ?ts j = pend c 1 ?ts k \<longleftrightarrow> pend c 1 ts j = pend c 1 ts k" for j k
  proof -
    obtain t u where tu: "pend c 1 ts j = Some t" "t \<in> set (pends ts)" "pend c 1 ts k = Some u" "u \<in> set (pends ts)"
      using pend_ends by metis
    have "t = u" if "bput f t = bput f u"
    proof -
      have "bucket_lock (bput f t) = bucket_lock (bput f u)" using that by simp
      then show ?thesis using end_lock tu(2,4) by simp
    qed
    then show ?thesis using tu(1,3) by auto
  qed
  have room: "roomy c K ?ts"
    unfolding roomy_def same
  proof
    fix k assume k: "k \<in> K"
    then obtain l e x where x: "pend c 1 ts k = Some (LeafB l e x)"
      "card (fst ` set (elist_live x) \<union> {j \<in> K. pend c 1 ts j = pend c 1 ts k}) \<le> ELIST_SIZE c"
      using keys(2) by (auto simp: roomy_def)
    have "fst ` set (elist_live (f l x)) \<subseteq> fst ` set (elist_live x) \<union> {j \<in> K. pend c 1 ts j = pend c 1 ts k}"
      using f(3) [OF pend_in_pends [OF x(1)]] x(1) by simp
    then have "card (fst ` set (elist_live (f l x)) \<union> {j \<in> K. pend c 1 ts j = pend c 1 ts k}) \<le>
        card (fst ` set (elist_live x) \<union> {j \<in> K. pend c 1 ts j = pend c 1 ts k})"
      by (intro card_mono) auto
    then show "\<exists>l e x. pend c 1 ?ts k = Some (LeafB l e x) \<and>
        card (fst ` set (elist_live x) \<union> {j \<in> K. pend c 1 ts j = pend c 1 ts k}) \<le> ELIST_SIZE c"
      using x by (intro exI [of _ l] exI [of _ e] exI [of _ "f l x"]) simp
  qed
  have "pfind c 1 ?ts k = m k" for k
  proof -
    obtain t where t: "pend c 1 ts k = Some t" "t \<in> set (pends ts)" by (rule pend_ends)
    show ?thesis
    proof (cases t)
      case (EmptyB l)
      then show ?thesis using eo [OF t(2)] t(1) by (simp add: pfind_pend end_obj_def)
    next
      case (LeafB l e x)
      then show ?thesis using f(4) [of l e x k] t by (simp add: pfind_pend)
    next
      case (SubB l p us)
      then show ?thesis using ends_not_sub(2) t(2) by blast
    qed
  qed
  then have "pfind c 1 ?ts = m" by (rule ext)
  then show ?thesis unfolding roomy_state_def using r(1) own ok room tree(1) by (intro conjI exI [of _ ?ts]) simp_all
qed

lemma always_ready:
  assumes "objects.ready m h" "\<forall>x \<in> snd ` set cs. inserts_in K x" "schedule R is (objects.threads_of cs) h = Some (ts1, h1)"
  shows "ok h1 \<and> (\<forall>(a, y) \<in> set (pfixed c (root c) ts). cells h1 a = Some y) \<and>
    (\<forall>t \<in> set (pends ts). cells h1 (bucket_lock t) = Some (LockC E_LOCKED) \<or>
       cells h1 (bucket_lock t) = Some (LockC E_UNLOCKED) \<and>
       (\<forall>l e x. t = LeafB l e x \<longrightarrow> allocs h1 e = Some [e] \<and> (\<exists>y. cells h1 e = Some (EListC y) \<and> elist_ok c y)))"
proof -
  have X: "snd ` set cs \<subseteq> {x. inserts_in K x}" using assms(2) by auto
  from objects.always_typed [OF assms(1) X assms(3)]
  have a: "ok h1" "standing Sh h1" "\<And>l. l \<in> locks Sh \<Longrightarrow> cells h1 l = Some (lck Sh) \<or>
    (cells h1 l = Some (unl Sh) \<and> (\<exists>st b. obj l st b \<and> b \<subseteq>\<^sub>m cells h1))" by blast+
  have inner: "cells h1 x = Some y" if "(x, y) \<in> set (pfixed c (root c) ts)" for x y
    using standing_fixed [OF a(2)] that parts(1) by (simp add: Sh_sel)
  have "allocs h1 e = Some [e] \<and> (\<exists>y. cells h1 e = Some (EListC y) \<and> elist_ok c y)"
    if t: "LeafB l e x \<in> set (pends ts)" and o: "obj l st b" "b \<subseteq>\<^sub>m cells h1" for l e x st b
  proof -
    obtain u where u: "u \<in> set (pends ts)" "bucket_lock u = l" "end_obj c K ts u st b" using o(1) by (auto simp: tree_obj_def)
    have "u = LeafB l e x" by (rule end_lock [OF u(1) t]) (simp add: u(2))
    then obtain y where y: "b = [e \<mapsto> EListC y]" "elist_ok c y" using u(3) by (auto simp: end_obj_def)
    have "kept Sh e = Some [e]" using t by (auto simp: tree_shared_def)
    moreover have "cells h1 e = Some (EListC y)" using o(2) by (simp add: y(1) map_le_def)
    ultimately show ?thesis using standing_kept [OF a(2)] y(2) by blast
  qed
  note leaf = this
  have "cells h1 (bucket_lock t) = Some (LockC E_LOCKED) \<or> cells h1 (bucket_lock t) = Some (LockC E_UNLOCKED) \<and>
      (\<forall>l e x. t = LeafB l e x \<longrightarrow> allocs h1 e = Some [e] \<and> (\<exists>y. cells h1 e = Some (EListC y) \<and> elist_ok c y))"
    if t: "t \<in> set (pends ts)" for t
  proof -
    have "bucket_lock t \<in> locks Sh" using t by (simp add: Sh_sel)
    from a(3) [OF this, unfolded Sh_sel(4,5)] show ?thesis
    proof (elim disjE conjE exE, goal_cases)
      case (2 st b)
      then show ?case using leaf [of _ _ _ st b] t by auto
    qed simp
  qed
  then show ?thesis using a(1) inner by blast
qed

end

section \<open>Calls that overlap\<close>

definition iht_threads :: "nat \<Rightarrow> RdmaIHT \<Rightarrow> (nat \<times> call) list \<Rightarrow> (iht_cell, HT_Res) thread list" where
  "iht_threads fuel c cs = map (\<lambda>(self, x). (self, iht_call (c\<lparr>self_id := self\<rparr>) fuel x)) cs"

context iht_shared
begin

lemma threads_objects: "objects.threads_of = iht_threads fuel c"
  by (rule ext) (simp add: objects.threads_of_def iht_threads_def)

lemma calls_linearizable:
  assumes "ok h" "owns h (pcells c (root c) ts)" "\<forall>x \<in> snd ` set cs. inserts_in K x"
    "schedule R is (iht_threads fuel c cs) h = Some (ts', h')"
  shows "\<exists>log. linearization R cs (pfind c 1 ts) is (iht_threads fuel c cs) h log \<and>
    (list_all (\<lambda>t. answer (snd t) \<noteq> None) ts' \<longrightarrow> ok h' \<and> roomy_state c D U K h' (state_after cs (pfind c 1 ts) log))"
proof -
  have "snd ` set cs \<subseteq> {x. inserts_in K x}" using assms(3) by auto
  from objects.linearizable [OF rep_ready [OF assms(1,2)] this assms(4) [folded threads_objects]] show ?thesis
    using ready_rep unfolding threads_objects by blast
qed

lemma calls_deadlock_free:
  assumes "ok h" "owns h (pcells c (root c) ts)" "\<forall>x \<in> snd ` set cs. inserts_in K x"
    "schedule R is (iht_threads fuel c cs) h = Some (ts', h')"
  shows "\<exists>is' ts2 h2. schedule R is' ts' h' = Some (ts2, h2) \<and>
    (\<forall>i < length ts'. snd (ts' ! i) \<noteq> Out_of_fuel \<longrightarrow> answer (snd (ts2 ! i)) \<noteq> None)"
proof -
  have "snd ` set cs \<subseteq> {x. inserts_in K x}" using assms(3) by auto
  from objects.deadlock_free [OF rep_ready [OF assms(1,2)] this assms(4) [folded threads_objects]] show ?thesis .
qed

end

lemma roomy_shared:
  assumes "iht_pool R ok c D" "shared_pool R ok" "owns h (pcells c (root c) ts)" "length ts = PLIST_SIZE c" "plist_ok c D U 1 0 ts"
    "roomy c K ts" "K \<subseteq> U" "D \<le> fuel"
  shows "iht_shared R ok c D U K ts fuel"
proof -
  have "nullptr c = remote_nullptr R" "iht_sizes c D"
    using iht_pool.null [OF assms(1)] iht_pool.sizes [OF assms(1)] by auto
  moreover have "distinct (map fst (pcells c (root c) ts))" using assms(3) by (simp add: owns_def holds_def)
  ultimately show ?thesis
    using assms by (intro iht_shared.intro iht_shared_axioms.intro) simp_all
qed

section \<open>The executable instance\<close>

text \<open>
  The table of \<open>Iht_Race\<close> once its first bucket has an element list, here an empty one.
\<close>

definition calm_list :: EList where
  "calm_list = \<lparr>elist_count = 0, elist_pairs = [(0, 0), (0, 0)]\<rparr>"

definition calm_tree :: "itree list" where
  "calm_tree = [LeafB (Remote 0 34) (Remote 0 64) calm_list, EmptyB (Remote 0 43)]"

definition calm_heap :: "(nat, iht_cell) heap" where
  "calm_heap = \<lparr>cells = [Remote 0 1 \<mapsto> PtrC (Remote 0 64), Remote 0 9 \<mapsto> PtrC (Remote 0 34), Remote 0 17 \<mapsto> PtrC (Remote 0 0),
       Remote 0 25 \<mapsto> PtrC (Remote 0 43), Remote 0 34 \<mapsto> LockC E_UNLOCKED, Remote 0 43 \<mapsto> LockC E_UNLOCKED, Remote 0 64 \<mapsto> EListC calm_list],
     allocs = [Remote 0 1 \<mapsto> [Remote 0 1, Remote 0 9, Remote 0 17, Remote 0 25], Remote 0 34 \<mapsto> [Remote 0 34],
       Remote 0 43 \<mapsto> [Remote 0 43], Remote 0 64 \<mapsto> [Remote 0 64]], pool_state = 128\<rparr>"

lemma calm_cells: "pcells (race_table n) (Remote 0 1) calm_tree =
  [(Remote 0 1, PtrC (Remote 0 64)), (Remote 0 9, PtrC (Remote 0 34)), (Remote 0 34, LockC E_UNLOCKED), (Remote 0 64, EListC calm_list),
   (Remote 0 17, PtrC (Remote 0 0)), (Remote 0 25, PtrC (Remote 0 43)), (Remote 0 43, LockC E_UNLOCKED)]"
  by (simp add: calm_tree_def bucket_head_def ptr_add_def race_table_sel)

lemma calm_owns: "owns calm_heap (pcells (race_table n) (Remote 0 1) calm_tree)"
  unfolding calm_cells owns_def holds_def calm_heap_def by auto

lemma calm_count: "count_at (race_table n) 1 = 2" "level_hash (race_table n) k 1 (count_at (race_table n) 1) = 0"
  by (simp_all add: count_at_def race_table_sel level_hash_race)

lemma calm_pend: "pend (race_table n) 1 calm_tree k = Some (LeafB (Remote 0 34) (Remote 0 64) calm_list)"
  using calm_count(2) [of n k] by (simp add: pend_def calm_tree_def)

lemma calm_ok: "plist_ok (race_table n) 1 UNIV 1 0 calm_tree" "length calm_tree = PLIST_SIZE (race_table n)"
  by (simp_all add: calm_tree_def calm_list_def elist_ok_def elist_live_def race_table_sel)

lemma calm_roomy: "roomy (race_table n) {5, 6} calm_tree"
proof -
  have e: "{j. j = 5 \<or> j = 6} = {5, 6 :: key}" by auto
  have "card {j :: key. j = 5 \<or> j = 6} \<le> 2" unfolding e by (simp add: card_insert_if)
  then show ?thesis by (auto simp: roomy_def calm_pend calm_list_def elist_live_def race_table_sel simp del: One_nat_def)
qed

lemma calm_map: "pfind (race_table n) 1 calm_tree = Map.empty"
  by (rule ext) (simp add: pfind_pend calm_pend calm_list_def elist_live_def del: One_nat_def)

lemma calm_state: "roomy_state (race_table n) 1 UNIV {5, 6} calm_heap Map.empty"
  unfolding roomy_state_def
  using calm_owns [of n] calm_ok [of n] calm_roomy [of n] calm_map [of n]
  by (intro exI [of _ calm_tree]) (simp add: race_table_sel)

lemma calm_bump: "bump_ok calm_heap"
  by (auto simp: bump_ok_def calm_heap_def split: if_splits)

interpretation race_pool: iht_pool bump_rome bump_ok "race_table n" 1 for n
  by unfold_locales (simp_all add: race_table_sel iht_sizes_def bump_rome_def)

interpretation calm: iht_shared bump_rome bump_ok "race_table n" 1 UNIV "{5, 6}" calm_tree "Suc (Suc (Suc k))" for n k
  by (rule roomy_shared [OF race_pool.iht_pool_axioms shared_bump.shared_pool_axioms, of calm_heap])
    (use calm_owns [of n] calm_ok [of n] calm_roomy [of n] in \<open>simp_all add: race_table_sel\<close>)

section \<open>Two insertions that overlap\<close>

text \<open>
  Two nodes insert two keys at the same time, both read the root, the first takes the lock, the second finds it taken.
\<close>

abbreviation calm_calls :: "(nat \<times> call) list" where "calm_calls \<equiv> [(1, Insert 5 10), (2, Insert 6 20)]"

abbreviation calm_first :: "nat list" where "calm_first \<equiv> [0, 1, 0, 0, 1, 1, 0, 0, 0, 0, 0, 0, 0, 0, 0, 0, 0, 0]"

abbreviation calm_rest :: "nat list" where "calm_rest \<equiv> [1, 1, 1, 1, 1, 1, 1, 1, 1, 1, 1, 1, 1]"

lemma race_table_self [simp]: "race_table n\<lparr>self_id := s\<rparr> = race_table s"
  by (simp add: race_table_def)

lemma calm_run:
  "\<exists>ts1 h1 ts2 h2. schedule bump_rome calm_first (iht_threads (Suc (Suc (Suc n))) (race_table 0) calm_calls) calm_heap = Some (ts1, h1) \<and>
     schedule bump_rome calm_rest ts1 h1 = Some (ts2, h2) \<and>
     map (\<lambda>t. answer (snd t)) ts1 = [Some (ht_res TRUE_STATE 0), None] \<and>
     map (\<lambda>t. answer (snd t)) ts2 = [Some (ht_res TRUE_STATE 0), Some (ht_res TRUE_STATE 0)]"
  by (simp add: iht_threads_def calm_heap_def calm_list_def answer_def write_back_def race_eval)

lemma second_finds_taken:
  "\<exists>ts h. schedule bump_rome [0, 1, 0, 0, 1, 1] (iht_threads (Suc (Suc (Suc n))) (race_table 0) calm_calls) calm_heap = Some (ts, h) \<and>
     length ts = 2 \<and> snd (ts ! 0) \<noteq> Out_of_fuel \<and> snd (ts ! 1) \<noteq> Out_of_fuel \<and> map (\<lambda>t. answer (snd t)) ts = [None, None] \<and>
     cells h (Remote 0 34) = Some (LockC E_LOCKED)"
  by (simp add: iht_threads_def calm_heap_def calm_list_def answer_def write_back_def race_eval)

text \<open>C8: on an interlocked hash table with room for a set \<open>K\<close> of keys, overlapping calls of \<open>contains\<close> and \<open>remove\<close> of any
  keys and of \<open>insert\<close> of keys of \<open>K\<close> are linearizable. Room for \<open>K\<close> (\<open>roomy\<close>) means that at the start
  the path of every key of \<open>K\<close> ends at an element list, not at an empty bucket, and that this list could hold the pairs it has
  together with all keys of \<open>K\<close> whose paths end there; so no call makes or rehashes a list. Any number of calls, from any nodes,
  with their verbs interleaved in any way and on trees of any depth, answer as if each took effect on the map at one instant between its first
  and its last step. One order \<open>log\<close> of the calls serves the whole schedule. After every number \<open>n\<close> of steps a prefix of it has taken
  effect, a longer one the larger \<open>n\<close> is; this prefix has every call that has returned, with the answer that the map gives it at its
  place, and no call that has not begun. When all calls have returned, the table is well formed, stands for the map
  after the whole order, and has room for \<open>K\<close> as before. (Two insertions into an empty bucket, which this leaves out, do lose an update.)\<close>

theorem iht_linearizable:
  assumes "iht_pool R ok c D" "shared_pool R ok" "ok h" "roomy_state c D U K h m" "K \<subseteq> U" "D \<le> fuel" "\<forall>x \<in> snd ` set cs. inserts_in K x"
    and "schedule R is (iht_threads fuel c cs) h = Some (ts', h')"
  shows "\<exists>log. linearization R cs m is (iht_threads fuel c cs) h log \<and>
    (list_all (\<lambda>t. answer (snd t) \<noteq> None) ts' \<longrightarrow> ok h' \<and> roomy_state c D U K h' (state_after cs m log))"
proof -
  obtain ts where ts: "owns h (pcells c (root c) ts)" "length ts = PLIST_SIZE c" "plist_ok c D U 1 0 ts" "roomy c K ts" "m = pfind c 1 ts"
    using assms(4) by (auto simp: roomy_state_def)
  note s = roomy_shared [OF assms(1,2) ts(1-4) assms(5,6)]
  show ?thesis unfolding ts(5) by (rule iht_shared.calls_linearizable [OF s assms(3) ts(1) assms(7,8)])
qed

theorem iht_linearizable_witness:
  "\<exists>ts' h' log.
     schedule bump_rome (calm_first @ calm_rest) (iht_threads 3 (race_table 0) calm_calls) calm_heap = Some (ts', h') \<and>
     map (\<lambda>t. answer (snd t)) ts' = [Some (ht_res TRUE_STATE 0), Some (ht_res TRUE_STATE 0)] \<and>
     linearization bump_rome calm_calls Map.empty (calm_first @ calm_rest) (iht_threads 3 (race_table 0) calm_calls) calm_heap log \<and>
     roomy_state (race_table 0) 1 UNIV {5, 6} h' (state_after calm_calls Map.empty log)"
proof -
  note three = numeral_3_eq_3 [symmetric]
  obtain ts1 h1 ts2 h2 where r: "schedule bump_rome calm_first (iht_threads 3 (race_table 0) calm_calls) calm_heap = Some (ts1, h1)"
    "schedule bump_rome calm_rest ts1 h1 = Some (ts2, h2)"
    "map (\<lambda>t. answer (snd t)) ts2 = [Some (ht_res TRUE_STATE 0), Some (ht_res TRUE_STATE 0)]"
    using calm_run [of 0, unfolded three] by (elim exE conjE)
  note run = schedule_append [OF r(1,2)]
  have "list_all (\<lambda>x. x \<noteq> None) (map (\<lambda>t. answer (snd t)) ts2)" unfolding r(3) by simp
  then have answered: "list_all (\<lambda>t. answer (snd t) \<noteq> None) ts2" by (simp add: list.pred_map comp_def)
  have ins: "\<forall>x \<in> snd ` set calm_calls. inserts_in {5, 6} x" by (simp add: inserts_in_def)
  have "{5, 6} \<subseteq> (UNIV :: key set)" "1 \<le> (3 :: nat)" by simp_all
  from iht_linearizable [OF race_pool.iht_pool_axioms shared_bump.shared_pool_axioms calm_bump calm_state this ins run] answered
  show ?thesis using run r(3) by iprover
qed

text \<open>Overlapping calls of the interlocked hash table never block each other for good and no verb of them goes wrong,
  when the keys they insert are among those of \<open>K\<close>, whose buckets have an element list with room: in whatever state a schedule has left them, some further
  schedule brings all calls to their answers, but those that have already used up the fuel that bounds their
  attempts at the lock.\<close>

theorem iht_deadlock_free:
  assumes "iht_pool R ok c D" "shared_pool R ok" "ok h" "roomy_state c D U K h m" "K \<subseteq> U" "D \<le> fuel" "\<forall>x \<in> snd ` set cs. inserts_in K x"
    and "schedule R is (iht_threads fuel c cs) h = Some (ts', h')"
  shows "\<exists>is' ts2 h2. schedule R is' ts' h' = Some (ts2, h2) \<and>
    (\<forall>i < length ts'. snd (ts' ! i) \<noteq> Out_of_fuel \<longrightarrow> answer (snd (ts2 ! i)) \<noteq> None)"
proof -
  obtain ts where ts: "owns h (pcells c (root c) ts)" "length ts = PLIST_SIZE c" "plist_ok c D U 1 0 ts" "roomy c K ts"
    using assms(4) by (auto simp: roomy_state_def)
  note s = roomy_shared [OF assms(1,2) ts assms(5,6)]
  show ?thesis by (rule iht_shared.calls_deadlock_free [OF s assms(3) ts(1) assms(7,8)])
qed

theorem iht_deadlock_free_witness:
  "\<exists>ts h is' ts2 h2. schedule bump_rome [0, 1, 0, 0, 1, 1] (iht_threads 3 (race_table 0) calm_calls) calm_heap = Some (ts, h) \<and>
     cells h (Remote 0 34) = Some (LockC E_LOCKED) \<and> map (\<lambda>t. answer (snd t)) ts = [None, None] \<and>
     schedule bump_rome is' ts h = Some (ts2, h2) \<and> answer (snd (ts2 ! 0)) \<noteq> None \<and> answer (snd (ts2 ! 1)) \<noteq> None"
proof -
  note three = numeral_3_eq_3 [symmetric]
  obtain ts h where r: "schedule bump_rome [0, 1, 0, 0, 1, 1] (iht_threads 3 (race_table 0) calm_calls) calm_heap = Some (ts, h)"
    "length ts = 2" "snd (ts ! 0) \<noteq> Out_of_fuel" "snd (ts ! 1) \<noteq> Out_of_fuel" "map (\<lambda>t. answer (snd t)) ts = [None, None]"
    "cells h (Remote 0 34) = Some (LockC E_LOCKED)"
    using second_finds_taken [of 0, unfolded three] by (elim exE conjE)
  have ins: "\<forall>x \<in> snd ` set calm_calls. inserts_in {5, 6} x" by (simp add: inserts_in_def)
  have "{5, 6} \<subseteq> (UNIV :: key set)" "1 \<le> (3 :: nat)" by simp_all
  from iht_deadlock_free [OF race_pool.iht_pool_axioms shared_bump.shared_pool_axioms calm_bump calm_state this ins r(1)]
  obtain is' ts2 h2 where n: "schedule bump_rome is' ts h = Some (ts2, h2)"
    "\<And>i. i < length ts \<Longrightarrow> snd (ts ! i) \<noteq> Out_of_fuel \<Longrightarrow> answer (snd (ts2 ! i)) \<noteq> None" by iprover
  have two: "0 < length ts" "1 < length ts" by (simp_all add: r(2))
  note both = n(2) [OF two(1) r(3)] n(2) [OF two(2) r(4)]
  with r(1,5,6) n(1) both show ?thesis by iprover
qed

text \<open>C12: the memory of an interlocked hash table keeps its types while calls overlap, at every moment of every schedule, when the keys they insert
  are from a set \<open>K\<close> the table has room for (the path of every key of \<open>K\<close> ends at an element list that could hold the pairs it has
  with all keys of \<open>K\<close> whose paths end there, so that no insertion makes or rehashes a list): the
  pointers of all PLists and the locks of sub-PLists are as they were, the lock of every other bucket holds \<open>E_LOCKED\<close> or
  \<open>E_UNLOCKED\<close>, and behind an unlocked one there is, at the address it always had and still allocated, an
  element list with a count within its array and no key twice.\<close>

theorem iht_overlap_typed:
  assumes "iht_pool R ok c D" "shared_pool R ok" "ok h" "K \<subseteq> U" "D \<le> fuel" "\<forall>x \<in> snd ` set cs. inserts_in K x"
    and "owns h (pcells c (root c) ts)" "length ts = PLIST_SIZE c" "plist_ok c D U 1 0 ts" "roomy c K ts"
    and "schedule R is (iht_threads fuel c cs) h = Some (ts1, h1)"
  shows "ok h1 \<and> (\<forall>(a, y) \<in> set (pfixed c (root c) ts). cells h1 a = Some y) \<and>
    (\<forall>t \<in> set (pends ts). cells h1 (bucket_lock t) = Some (LockC E_LOCKED) \<or>
       cells h1 (bucket_lock t) = Some (LockC E_UNLOCKED) \<and>
       (\<forall>l e x. t = LeafB l e x \<longrightarrow> allocs h1 e = Some [e] \<and> (\<exists>y. cells h1 e = Some (EListC y) \<and> elist_ok c y)))"
proof -
  note s = roomy_shared [OF assms(1,2,7-10,4,5)]
  show ?thesis
    by (rule iht_shared.always_ready [OF s iht_shared.rep_ready [OF s assms(3,7)] assms(6)])
      (use assms(11) iht_shared.threads_objects [OF s] in simp)
qed

theorem iht_overlap_typed_witness:
  "\<exists>ts1 h1. schedule bump_rome [0, 1, 0, 0, 1, 1] (iht_threads 3 (race_table 0) calm_calls) calm_heap = Some (ts1, h1) \<and>
     bump_ok h1 \<and> cells h1 (Remote 0 1) = Some (PtrC (Remote 0 64)) \<and> cells h1 (Remote 0 34) = Some (LockC E_LOCKED) \<and>
     cells h1 (Remote 0 43) \<in> {Some (LockC E_LOCKED), Some (LockC E_UNLOCKED)}"
proof -
  note three = numeral_3_eq_3 [symmetric]
  obtain ts h where r: "schedule bump_rome [0, 1, 0, 0, 1, 1] (iht_threads 3 (race_table 0) calm_calls) calm_heap = Some (ts, h)"
    "cells h (Remote 0 34) = Some (LockC E_LOCKED)"
    using second_finds_taken [of 0, unfolded three] by (elim exE conjE)
  have ins: "\<forall>x \<in> snd ` set calm_calls. inserts_in {5, 6} x" by (simp add: inserts_in_def)
  have le: "{5, 6} \<subseteq> (UNIV :: key set)" "1 \<le> (3 :: nat)" by simp_all
  have own: "owns calm_heap (pcells (race_table 0) (root (race_table 0)) calm_tree)" using calm_owns [of 0] by (simp add: race_table_sel)
  note t = iht_overlap_typed [OF race_pool.iht_pool_axioms shared_bump.shared_pool_axioms calm_bump le ins own calm_ok(2,1) calm_roomy r(1)]
  then have "bump_ok h" by blast
  moreover have "(Remote 0 1, PtrC (Remote 0 64)) \<in> set (pfixed (race_table 0) (root (race_table 0)) calm_tree)"
    by (simp add: calm_tree_def race_table_sel)
  then have "cells h (Remote 0 1) = Some (PtrC (Remote 0 64))" using t by blast
  moreover have "EmptyB (Remote 0 43) \<in> set (pends calm_tree)" by (simp add: calm_tree_def)
  then have "cells h (bucket_lock (EmptyB (Remote 0 43))) \<in> {Some (LockC E_LOCKED), Some (LockC E_UNLOCKED)}" using t by blast
  ultimately show ?thesis using r by auto
qed

end
