(* ===== verification/Client_Overlap.thy ===== *)
theory Client_Overlap
  imports Client_Calls Iht_Linear
begin

text \<open>
  Several clients (\<^verbatim>\<open>role_client.h\<close>) at work on one interlocked hash table (\<^verbatim>\<open>structures/iht_ds.h\<close>), their remote
  operations interleaved in any way: they cannot tell it from calls that are indivisible, none is stuck,
  and none of their assertions fails.
\<close>

section \<open>Clients that overlap on the interlocked table\<close>

definition user_threads :: "nat \<Rightarrow> RdmaIHT \<Rightarrow> (nat \<times> 'r user) list \<Rightarrow> (iht_cell, 'r) thread list" where
  "user_threads fuel c us = map (\<lambda>(self, u). (self, user_prog (iht_call (c\<lparr>self_id := self\<rparr>) fuel) u)) us"

lemma inserts_admitted: "admits {x. inserts_in K x} K"
  by (simp add: admits_def inserts_in_def)

context iht_shared
begin

lemma user_threads_objects: "objects.users_of = user_threads fuel c"
  by (rule ext) (simp add: objects.users_of_def user_threads_def)

lemma users_atomic:
  assumes "ok h" "owns h (pcells c (root c) ts)" "\<forall>u \<in> snd ` set us. asks {x. inserts_in K x} u"
    "schedule R is (user_threads fuel c us) h = Some (ts', h')"
  shows "\<exists>order cl m'. atomically order (map snd us) (pfind c 1 ts) = Some (cl, m') \<and> length ts' = length us \<and>
    (\<forall>i < length us. (\<forall>v. snd (ts' ! i) = Return v \<longrightarrow> cl ! i = Done v) \<and>
       (step R (fst (ts' ! i)) (snd (ts' ! i)) h' \<noteq> None \<or> answer (snd (ts' ! i)) \<noteq> None \<or> snd (ts' ! i) = Out_of_fuel)) \<and>
    (list_all (\<lambda>t. answer (snd t) \<noteq> None) ts' \<longrightarrow> ok h' \<and> roomy_state c D U K h' m')"
  using objects.users_serializable [OF rep_ready [OF assms(1,2)] assms(3) assms(4) [folded user_threads_objects]] ready_rep
  by blast

lemma users_finish:
  assumes "ok h" "owns h (pcells c (root c) ts)" "\<forall>u \<in> snd ` set us. asks {x. inserts_in K x} u"
    "schedule R is (user_threads fuel c us) h = Some (ts', h')"
  shows "\<exists>is' ts2 h2. schedule R is' ts' h' = Some (ts2, h2) \<and>
    (\<forall>i < length us. snd (ts' ! i) \<noteq> Out_of_fuel \<longrightarrow> answer (snd (ts2 ! i)) \<noteq> None)"
  by (rule objects.users_deadlock_free [OF rep_ready [OF assms(1,2)] assms(3) assms(4) [folded user_threads_objects]])

lemma clients_roomy:
  assumes "ok h" "owns h (pcells c (root c) ts)" "diagonal (pfind c 1 ts)" "doubles rnd" "\<forall>x \<in> set cls. client_fits rnd K x"
    "schedule R is (user_threads fuel c (map (client_user rnd) cls)) h = Some (ts', h')"
  shows "length ts' = length cls" "i < length cls \<Longrightarrow> snd (ts' ! i) = Return v \<Longrightarrow> v = client_end (cls ! i)"
    "i < length cls \<Longrightarrow> step R (fst (ts' ! i)) (snd (ts' ! i)) h' \<noteq> None \<or> answer (snd (ts' ! i)) \<noteq> None \<or> snd (ts' ! i) = Out_of_fuel"
    "list_all (\<lambda>t. answer (snd t) \<noteq> None) ts' \<Longrightarrow> ok h' \<and> (\<exists>m'. diagonal m' \<and> roomy_state c D U K h' m')"
proof -
  note served = objects.clients_served [OF rep_ready [OF assms(1,2)] assms(3-5) inserts_admitted assms(6) [folded user_threads_objects]]
  show "length ts' = length cls" "i < length cls \<Longrightarrow> snd (ts' ! i) = Return v \<Longrightarrow> v = client_end (cls ! i)"
    "i < length cls \<Longrightarrow> step R (fst (ts' ! i)) (snd (ts' ! i)) h' \<noteq> None \<or> answer (snd (ts' ! i)) \<noteq> None \<or> snd (ts' ! i) = Out_of_fuel"
    by (rule served; assumption)+
  show "list_all (\<lambda>t. answer (snd t) \<noteq> None) ts' \<Longrightarrow> ok h' \<and> (\<exists>m'. diagonal m' \<and> roomy_state c D U K h' m')"
    using served(4) ready_rep by blast
qed

end

lemma clients_safe:
  assumes "iht_pool R ok c D" "shared_pool R ok" "ok h" "roomy_state c D U K h m" "K \<subseteq> U" "D \<le> fuel"
    "diagonal m" "doubles rnd" "\<forall>x \<in> set cls. client_fits rnd K x"
    "schedule R is (user_threads fuel c (map (client_user rnd) cls)) h = Some (ts', h')"
  shows "length ts' = length cls" "i < length cls \<Longrightarrow> snd (ts' ! i) = Return v \<Longrightarrow> v = client_end (cls ! i)"
    "i < length cls \<Longrightarrow> step R (fst (ts' ! i)) (snd (ts' ! i)) h' \<noteq> None \<or> answer (snd (ts' ! i)) \<noteq> None \<or> snd (ts' ! i) = Out_of_fuel"
    "list_all (\<lambda>t. answer (snd t) \<noteq> None) ts' \<Longrightarrow> ok h' \<and> (\<exists>m'. diagonal m' \<and> roomy_state c D U K h' m')"
proof -
  obtain ts where ts: "owns h (pcells c (root c) ts)" "length ts = PLIST_SIZE c" "plist_ok c D U 1 0 ts" "roomy c K ts" "m = pfind c 1 ts"
    using assms(4) by (auto simp: roomy_state_def)
  note s = roomy_shared [OF assms(1,2) ts(1-4) assms(5,6)]
  note served = iht_shared.clients_roomy [OF s assms(3) ts(1) assms(7) [unfolded ts(5)] assms(8-10)]
  show "length ts' = length cls" "i < length cls \<Longrightarrow> snd (ts' ! i) = Return v \<Longrightarrow> v = client_end (cls ! i)"
    "i < length cls \<Longrightarrow> step R (fst (ts' ! i)) (snd (ts' ! i)) h' \<noteq> None \<or> answer (snd (ts' ! i)) \<noteq> None \<or> snd (ts' ! i) = Out_of_fuel"
    "list_all (\<lambda>t. answer (snd t) \<noteq> None) ts' \<Longrightarrow> ok h' \<and> (\<exists>m'. diagonal m' \<and> roomy_state c D U K h' m')"
    by (rule served; assumption)+
qed

section \<open>Two clients\<close>

text \<open>
  Two clients on two nodes fill the table of \<open>Iht_Linear\<close> with the same key at the same time; then one looks the key up while
  the other removes it.
\<close>

definition pair_params :: ExperimentParams where
  "pair_params = \<lparr>unlimited_stream = True, op_count = 0, p_contains = 80, p_insert = 10, key_lb = 5, key_ub = 6,
     thread_count = 1, node_count = 2, qp_max = 30, node_id = 0, runtime = 1\<rparr>"

definition pair_client :: Client where
  "pair_client = Client_new (\<lambda>x. x) (node_peer 0) (EndpointContext_new 0) pair_params True True"

definition pair_clients :: "client_run list" where
  "pair_clients = [(1, pair_client, 1, [0.25], [(0.5, 0.25)]), (2, pair_client, 1, [0.25], [(0.95, 0.25)])]"

abbreviation pair_users :: "(nat \<times> (client_error + Client) user) list" where
  "pair_users \<equiv> map (client_user (\<lambda>x. x)) pair_clients"

abbreviation fill_schedule :: "nat list" where
  "fill_schedule \<equiv> calm_first @ [1, 1, 1, 1, 1, 1, 1, 1, 1, 1]"

abbreviation lookup_schedule :: "nat list" where
  "lookup_schedule \<equiv> [1, 1, 0, 0, 0, 0, 0, 0, 0, 0, 0, 0, 0, 0, 1, 1, 1, 1, 1, 1, 1, 1, 1, 1, 1, 1, 1]"

abbreviation fill_calls :: "(nat \<times> call) list" where "fill_calls \<equiv> [(1, Insert 5 5), (2, Insert 5 5)]"

abbreviation lookup_calls :: "(nat \<times> call) list" where "lookup_calls \<equiv> [(1, Contains 5), (2, Remove 5)]"

lemma pair_calls:
  "\<exists>h1 h2. schedule bump_rome fill_schedule (iht_threads (Suc (Suc (Suc n))) (race_table 0) fill_calls) calm_heap =
       Some ([(1, Return (ht_res TRUE_STATE 0)), (2, Return (ht_res FALSE_STATE 5))], h1) \<and>
     schedule bump_rome lookup_schedule (iht_threads (Suc (Suc (Suc n))) (race_table 0) lookup_calls) h1 =
       Some ([(1, Return (ht_res TRUE_STATE 5)), (2, Return (ht_res TRUE_STATE 5))], h2)"
  by (simp add: iht_threads_def calm_heap_def calm_list_def answer_def write_back_def iht_remove_def remove_loop.simps
      remove_body_def elist_remove_at_def race_eval)

lemma pair_taken:
  "\<exists>p q h. schedule bump_rome [0, 1, 0, 0, 1, 1] (iht_threads (Suc (Suc (Suc n))) (race_table 0) fill_calls) calm_heap =
       Some ([(1, p), (2, q)], h) \<and> answer p = None \<and> answer q = None \<and> p \<noteq> Out_of_fuel \<and> q \<noteq> Out_of_fuel \<and>
     cells h (Remote 0 34) = Some (LockC E_LOCKED)"
  by (simp add: iht_threads_def calm_heap_def calm_list_def answer_def write_back_def race_eval)

text \<open>A schedule of calls is one of the clients that make them.\<close>

definition bind_threads :: "('a \<Rightarrow> ('c, 'b) prog) list \<Rightarrow> ('c, 'a) thread list \<Rightarrow> ('c, 'b) thread list" where
  "bind_threads fs ts = map2 (\<lambda>f (self, p). (self, bind_prog f p)) fs ts"

lemma schedule_bind:
  "schedule R is ts h = Some (ts', h') \<Longrightarrow> length fs = length ts \<Longrightarrow>
   schedule R is (bind_threads fs ts) h = Some (bind_threads fs ts', h')"
proof (induction "is" arbitrary: ts h)
  case (Cons i "is")
  obtain self p where t: "ts ! i = (self, p)" by fastforce
  obtain p1 h1 where s: "i < length ts" "step R self p h = Some (p1, h1)" "schedule R is (ts[i := (self, p1)]) h1 = Some (ts', h')"
    using Cons.prems(1) t by (auto split: if_splits option.splits)
  have "answer p = None" by (rule step_answered [of R self p h]) (simp add: s(2))
  then have "step R self (bind_prog (fs ! i) p) h = Some (bind_prog (fs ! i) p1, h1)" by (simp add: step_bind s(2))
  moreover have "bind_threads fs ts ! i = (self, bind_prog (fs ! i) p)" using s(1) Cons.prems(2) t by (simp add: bind_threads_def)
  moreover have "(bind_threads fs ts)[i := (self, bind_prog (fs ! i) p1)] = bind_threads fs (ts[i := (self, p1)])"
    by (rule nth_equalityI) (use Cons.prems(2) s(1) in \<open>auto simp: bind_threads_def nth_list_update\<close>)
  ultimately show ?case using Cons.IH [OF s(3)] s(1) Cons.prems(2) by (simp add: bind_threads_def)
qed simp

lemmas pair_defs = Run_user_def pair_client_def pair_params_def Client_new_def populate_count_def
  draw_key_def trunc_def Let_def generator_def mk_op_def Apply_user_def logged_def pair_clients_def client_user_def

definition looked :: "HT_Res \<Rightarrow> (client_error + Client) user" where
  "looked r = (case assert_key r 5 (Inr (pair_client\<lparr>count := 1\<rparr>)) of Inl e \<Rightarrow> Done (Inl e) | Inr c \<Rightarrow> apply_user [] c)"

lemma pair_asks:
  "pair_users = [(1, Ask (Insert 5 5) (\<lambda>r. Ask (Contains 5) looked)), (2, Ask (Insert 5 5) (\<lambda>r. Ask (Remove 5) looked))]"
  by (simp add: pair_defs looked_def [abs_def])

lemma pair_ends: "looked (ht_res TRUE_STATE 5) = Done (Inr (pair_client\<lparr>count := 1\<rparr>))"
  "map client_end pair_clients = [Inr (pair_client\<lparr>count := 1\<rparr>), Inr (pair_client\<lparr>count := 1\<rparr>)]"
  by (simp_all add: looked_def assert_key_def client_end_def pair_defs)

lemma five_six: "keys_between 5 6 \<subseteq> {5, 6}"
proof
  fix k :: key
  assume "k \<in> keys_between 5 6"
  then have "sint k = sint (5 :: key) \<or> sint k = sint (6 :: key)" by (auto simp: keys_between_def)
  then have "k = 5 \<or> k = 6" by (elim disjE) (blast intro: signed_word_eqI)+
  then show "k \<in> {5, 6}" by blast
qed

lemma pair_fits: "\<forall>x \<in> set pair_clients. client_fits (\<lambda>x. x) {5, 6} x"
  using five_six by (simp add: pair_defs client_fits_def bounds_ok_def is_draw_def)

lemma pair_inserts: "\<forall>u \<in> snd ` set pair_users. asks {x. inserts_in {5, 6} x} u"
  using client_fits_user(2) [OF exact.doubles_axioms _ inserts_admitted] pair_fits by auto

lemma pair_starts:
  "user_threads n (race_table 0) pair_users =
     bind_threads [\<lambda>r. user_prog (iht_call (race_table 1) n) (Ask (Contains 5) looked), \<lambda>r. user_prog (iht_call (race_table 2) n) (Ask (Remove 5) looked)]
       (iht_threads n (race_table 0) fill_calls)"
  unfolding pair_asks by (simp add: user_threads_def bind_threads_def iht_threads_def)

lemma pair_run:
  "\<exists>h. schedule bump_rome (fill_schedule @ lookup_schedule) (user_threads 3 (race_table 0) pair_users) calm_heap =
     Some ([(1, Return (Inr (pair_client\<lparr>count := 1\<rparr>))), (2, Return (Inr (pair_client\<lparr>count := 1\<rparr>)))], h)"
proof -
  note three = numeral_3_eq_3 [symmetric]
  obtain h1 h2 where h: "schedule bump_rome fill_schedule (iht_threads 3 (race_table 0) fill_calls) calm_heap =
       Some ([(1, Return (ht_res TRUE_STATE 0)), (2, Return (ht_res FALSE_STATE 5))], h1)"
     "schedule bump_rome lookup_schedule (iht_threads 3 (race_table 0) lookup_calls) h1 =
       Some ([(1, Return (ht_res TRUE_STATE 5)), (2, Return (ht_res TRUE_STATE 5))], h2)"
    using pair_calls [of 0, unfolded three] by blast
  let ?f = "\<lambda>c r. user_prog (iht_call c 3) (looked r)"
  have "schedule bump_rome fill_schedule (user_threads 3 (race_table 0) pair_users) calm_heap =
      Some (bind_threads [?f (race_table 1), ?f (race_table 2)] (iht_threads 3 (race_table 0) lookup_calls), h1)"
    unfolding pair_starts by (subst schedule_bind [OF h(1)]) (simp_all add: iht_threads_def bind_threads_def)
  from schedule_append [OF this schedule_bind [OF h(2)]]
  show ?thesis by (simp add: iht_threads_def bind_threads_def pair_ends)
qed

text \<open>In the middle of it, one has the lock and the other has found it taken.\<close>

lemma pair_mid:
  "\<exists>ts h. schedule bump_rome [0, 1, 0, 0, 1, 1] (user_threads 3 (race_table 0) pair_users) calm_heap = Some (ts, h) \<and>
     length ts = 2 \<and> snd (ts ! 0) \<noteq> Out_of_fuel \<and> snd (ts ! 1) \<noteq> Out_of_fuel \<and> map (\<lambda>t. answer (snd t)) ts = [None, None] \<and>
     cells h (Remote 0 34) = Some (LockC E_LOCKED)"
proof -
  note three = numeral_3_eq_3 [symmetric]
  obtain p q h where h: "schedule bump_rome [0, 1, 0, 0, 1, 1] (iht_threads 3 (race_table 0) fill_calls) calm_heap =
       Some ([(1, p), (2, q)], h)" "answer p = None" "answer q = None" "p \<noteq> Out_of_fuel" "q \<noteq> Out_of_fuel"
     "cells h (Remote 0 34) = Some (LockC E_LOCKED)"
    using pair_taken [of 0, unfolded three] by (elim exE conjE)
  have "bind_prog f p \<noteq> Out_of_fuel" "bind_prog f q \<noteq> Out_of_fuel" for f :: "HT_Res \<Rightarrow> (iht_cell, client_error + Client) prog"
    using h(2-5) by (cases p; cases q; simp add: answer_def)+
  then show ?thesis unfolding pair_starts
    by (subst schedule_bind [OF h(1)])
      (simp_all add: iht_threads_def bind_threads_def h(6) answer_bind [OF h(2)] answer_bind [OF h(3)])
qed

lemma calm_assms:
  "K = {5, 6} \<Longrightarrow> K \<subseteq> (UNIV :: key set)" "1 \<le> (3 :: nat)" "diagonal Map.empty"
  by simp_all

section \<open>What overlapping clients can rely on\<close>

text \<open>C9: no assertion of any client fails and none is stuck when clients run at the same time on one interlocked hash table
  that holds every key with itself as its value and has room for the keys of their key ranges (\<open>roomy_state\<close>): before they start,
  the path of each such key ends at an element list, not at an empty bucket, and the list could hold the pairs it has with all
  keys of the ranges whose paths end there. So this is about clients on a table filled beforehand, not about
  clients that fill the empty table \<^verbatim>\<open>main\<close> starts from. Each client has valid bounds, draws below 1, enough of them, no overflow
  of its counter, and a progression other than 0 unless it has no operations. Whatever they draw and however their verbs interleave, a client that is
  done has applied all its operations and failed nowhere; one that is not done can make
  its next verb, or has used up the fuel that bounds its attempts at a lock; and when all are
  done the table is well formed, has room as before, and holds every key with itself as its value.\<close>

theorem overlapping_clients_ok:
  assumes "iht_pool R ok c D" "shared_pool R ok" "ok h" "roomy_state c D U K h m" "K \<subseteq> U" "D \<le> fuel"
    "diagonal m" "doubles rnd" "\<forall>x \<in> set cls. client_fits rnd K x"
    "schedule R is (user_threads fuel c (map (client_user rnd) cls)) h = Some (ts', h')"
  shows "length ts' = length cls \<and>
    (\<forall>i < length cls. case answer (snd (ts' ! i)) of
       Some v \<Rightarrow> v = client_end (cls ! i)
     | None \<Rightarrow> step R (fst (ts' ! i)) (snd (ts' ! i)) h' \<noteq> None \<or> snd (ts' ! i) = Out_of_fuel) \<and>
    (list_all (\<lambda>t. answer (snd t) \<noteq> None) ts' \<longrightarrow> ok h' \<and> (\<exists>m'. diagonal m' \<and> roomy_state c D U K h' m'))"
proof (intro conjI allI impI)
  fix i assume i: "i < length cls"
  note s = clients_safe(2,3) [OF assms i]
  show "case answer (snd (ts' ! i)) of Some v \<Rightarrow> v = client_end (cls ! i)
     | None \<Rightarrow> step R (fst (ts' ! i)) (snd (ts' ! i)) h' \<noteq> None \<or> snd (ts' ! i) = Out_of_fuel"
    using s by (cases "snd (ts' ! i)") (simp_all add: answer_def del: not_None_eq)
qed (use clients_safe(1,4) [OF assms] in blast)+

theorem overlapping_clients_ok_witness:
  "\<exists>ts' h' m'. schedule bump_rome (fill_schedule @ lookup_schedule) (user_threads 3 (race_table 0) pair_users) calm_heap = Some (ts', h') \<and>
     map (\<lambda>t. answer (snd t)) ts' = map (\<lambda>x. Some (client_end x)) pair_clients \<and>
     roomy_state (race_table 0) 1 UNIV {5, 6} h' m' \<and> diagonal m'"
proof -
  obtain h where r: "schedule bump_rome (fill_schedule @ lookup_schedule) (user_threads 3 (race_table 0) pair_users) calm_heap =
     Some ([(1, Return (Inr (pair_client\<lparr>count := 1\<rparr>))), (2, Return (Inr (pair_client\<lparr>count := 1\<rparr>)))], h)" (is "_ = Some (?ts, h)")
    using pair_run by blast
  note ok = overlapping_clients_ok [OF race_pool.iht_pool_axioms shared_bump.shared_pool_axioms calm_bump calm_state calm_assms(1) [OF refl]
      calm_assms(2,3) exact.doubles_axioms pair_fits r]
  have "list_all (\<lambda>t. answer (snd t) \<noteq> None) ?ts" by (simp add: answer_def)
  then obtain m' where m': "diagonal m'" "roomy_state (race_table 0) 1 UNIV {5, 6} h m'" using ok by blast
  have "map (\<lambda>x. Some (client_end x)) pair_clients = map Some (map client_end pair_clients)" by simp
  then have "map (\<lambda>t. answer (snd t)) ?ts = map (\<lambda>x. Some (client_end x)) pair_clients"
    unfolding pair_ends(2) by (simp add: answer_def)
  then show ?thesis using r m' by blast
qed

text \<open>C10: clients that overlap on the interlocked hash table cannot tell it from a table whose calls are indivisible, when the
  keys they insert are from a set \<open>K\<close> the table has room for (\<open>roomy_state\<close>: the path of every key of \<open>K\<close> ends at an element list that could hold the
  pairs it has with all keys of \<open>K\<close> whose paths end there, so that no insertion makes or rehashes a list).
  A client is any program that makes calls one after the other and chooses each
  by the answers so far.  Whatever the interleaving of the verbs of all clients, there is an order
  of whole calls on the abstract map in which every client that is done got the same answers and the same result;
  no verb of any client goes wrong; and when all are done the table is well formed, has room as before, and stands for
  the map that this order gives.\<close>

theorem iht_clients_atomic:
  assumes "iht_pool R ok c D" "shared_pool R ok" "ok h" "roomy_state c D U K h m" "K \<subseteq> U" "D \<le> fuel"
    "\<forall>u \<in> snd ` set us. asks {x. inserts_in K x} u" "schedule R is (user_threads fuel c us) h = Some (ts', h')"
  shows "\<exists>order cl m'. atomically order (map snd us) m = Some (cl, m') \<and> length ts' = length us \<and>
    (\<forall>i < length us. (\<forall>v. snd (ts' ! i) = Return v \<longrightarrow> cl ! i = Done v) \<and>
       (step R (fst (ts' ! i)) (snd (ts' ! i)) h' \<noteq> None \<or> answer (snd (ts' ! i)) \<noteq> None \<or> snd (ts' ! i) = Out_of_fuel)) \<and>
    (list_all (\<lambda>t. answer (snd t) \<noteq> None) ts' \<longrightarrow> ok h' \<and> roomy_state c D U K h' m')"
proof -
  obtain ts where ts: "owns h (pcells c (root c) ts)" "length ts = PLIST_SIZE c" "plist_ok c D U 1 0 ts" "roomy c K ts" "m = pfind c 1 ts"
    using assms(4) by (auto simp: roomy_state_def)
  note s = roomy_shared [OF assms(1,2) ts(1-4) assms(5,6)]
  show ?thesis unfolding ts(5) by (rule iht_shared.users_atomic [OF s assms(3) ts(1) assms(7,8)])
qed

theorem iht_clients_atomic_witness:
  "\<exists>ts' h' order cl m'. schedule bump_rome (fill_schedule @ lookup_schedule) (user_threads 3 (race_table 0) pair_users) calm_heap = Some (ts', h') \<and>
     atomically order (map snd pair_users) Map.empty = Some (cl, m') \<and>
     cl = [Done (Inr (pair_client\<lparr>count := 1\<rparr>)), Done (Inr (pair_client\<lparr>count := 1\<rparr>))] \<and> roomy_state (race_table 0) 1 UNIV {5, 6} h' m'"
proof -
  obtain h where r: "schedule bump_rome (fill_schedule @ lookup_schedule) (user_threads 3 (race_table 0) pair_users) calm_heap =
     Some ([(1, Return (Inr (pair_client\<lparr>count := 1\<rparr>))), (2, Return (Inr (pair_client\<lparr>count := 1\<rparr>)))], h)" (is "_ = Some (?ts, h)")
    using pair_run by blast
  from iht_clients_atomic [OF race_pool.iht_pool_axioms shared_bump.shared_pool_axioms calm_bump calm_state calm_assms(1) [OF refl] calm_assms(2) pair_inserts r]
  obtain order cl m' where a: "atomically order (map snd pair_users) Map.empty = Some (cl, m')"
    "\<And>i v. i < length pair_users \<Longrightarrow> snd (?ts ! i) = Return v \<Longrightarrow> cl ! i = Done v"
    "list_all (\<lambda>t. answer (snd t) \<noteq> None) ?ts \<Longrightarrow> roomy_state (race_table 0) 1 UNIV {5, 6} h m'" by blast
  have "length pair_users = 2" by (simp add: pair_clients_def)
  moreover have "length cl = length (map snd pair_users)" by (rule atomically_length [OF a(1)])
  ultimately have "cl = [Done (Inr (pair_client\<lparr>count := 1\<rparr>)), Done (Inr (pair_client\<lparr>count := 1\<rparr>))]"
    using a(2) [of 0] a(2) [of 1] by (intro nth_equalityI) (auto simp: less_2_cases_iff)
  moreover have "roomy_state (race_table 0) 1 UNIV {5, 6} h m'" by (rule a(3)) (simp add: answer_def)
  ultimately show ?thesis using r a(1) by blast
qed

text \<open>C11: clients that overlap on the interlocked hash table never block each other for good, when the keys they insert are from
  a set \<open>K\<close> the table has room for, so that no insertion makes or rehashes a list: in whatever state a schedule has left them, some further schedule brings all of them to the end of
  all their calls, but those that have already used up the fuel that bounds the attempts at one lock.\<close>

theorem iht_clients_finish:
  assumes "iht_pool R ok c D" "shared_pool R ok" "ok h" "roomy_state c D U K h m" "K \<subseteq> U" "D \<le> fuel"
    "\<forall>u \<in> snd ` set us. asks {x. inserts_in K x} u" "schedule R is (user_threads fuel c us) h = Some (ts', h')"
  shows "\<exists>is' ts2 h2. schedule R is' ts' h' = Some (ts2, h2) \<and>
    (\<forall>i < length us. snd (ts' ! i) \<noteq> Out_of_fuel \<longrightarrow> answer (snd (ts2 ! i)) \<noteq> None)"
proof -
  obtain ts where ts: "owns h (pcells c (root c) ts)" "length ts = PLIST_SIZE c" "plist_ok c D U 1 0 ts" "roomy c K ts" "m = pfind c 1 ts"
    using assms(4) by (auto simp: roomy_state_def)
  note s = roomy_shared [OF assms(1,2) ts(1-4) assms(5,6)]
  show ?thesis by (rule iht_shared.users_finish [OF s assms(3) ts(1) assms(7,8)])
qed

theorem iht_clients_finish_witness:
  "\<exists>ts h is' ts2 h2. schedule bump_rome [0, 1, 0, 0, 1, 1] (user_threads 3 (race_table 0) pair_users) calm_heap = Some (ts, h) \<and>
     cells h (Remote 0 34) = Some (LockC E_LOCKED) \<and> map (\<lambda>t. answer (snd t)) ts = [None, None] \<and>
     schedule bump_rome is' ts h = Some (ts2, h2) \<and> answer (snd (ts2 ! 0)) \<noteq> None \<and> answer (snd (ts2 ! 1)) \<noteq> None"
proof -
  obtain ts h where r: "schedule bump_rome [0, 1, 0, 0, 1, 1] (user_threads 3 (race_table 0) pair_users) calm_heap = Some (ts, h)"
    "snd (ts ! 0) \<noteq> Out_of_fuel" "snd (ts ! 1) \<noteq> Out_of_fuel" "map (\<lambda>t. answer (snd t)) ts = [None, None]"
    "cells h (Remote 0 34) = Some (LockC E_LOCKED)"
    using pair_mid by (elim exE conjE)
  from iht_clients_finish [OF race_pool.iht_pool_axioms shared_bump.shared_pool_axioms calm_bump calm_state calm_assms(1) [OF refl] calm_assms(2) pair_inserts r(1)]
  obtain is' ts2 h2 where n: "schedule bump_rome is' ts h = Some (ts2, h2)"
    "\<And>i. i < length pair_users \<Longrightarrow> snd (ts ! i) \<noteq> Out_of_fuel \<Longrightarrow> answer (snd (ts2 ! i)) \<noteq> None" by iprover
  have two: "0 < length pair_users" "1 < length pair_users" by (simp_all add: pair_clients_def)
  note both = n(2) [OF two(1) r(2)] n(2) [OF two(2) r(3)]
  with r(1,4,5) n(1) both show ?thesis by iprover
qed

end
