(* ===== verification/Linked_Set.thy ===== *)
theory Linked_Set
  imports Common Rome
begin

text \<open>
  \<^verbatim>\<open>structures/linked_set.h\<close>, class \<^verbatim>\<open>LinkedSet\<close>: a bucket of the chained hash table, a lock and a
  singly linked list of nodes that hold up to seven pairs each.

  The methods are programs over the memory verbs of \<open>Rome\<close>.  The memory cells are those of the
  chained hash table as a whole, which embeds \<^verbatim>\<open>LinkedSet\<close> objects in its array.
\<close>

section \<open>The class\<close>

definition NODE_BUNDLE_SIZE :: nat where "NODE_BUNDLE_SIZE = 7"

definition LOCKED :: uint64 where "LOCKED = 1"
definition UNLOCKED :: uint64 where "UNLOCKED = 2"
definition DELETED :: uint64 where "DELETED = 3"

lemma ls_lock_states_distinct [simp]:
  "LOCKED \<noteq> UNLOCKED" "LOCKED \<noteq> DELETED" "UNLOCKED \<noteq> DELETED"
  "UNLOCKED \<noteq> LOCKED" "DELETED \<noteq> LOCKED" "DELETED \<noteq> UNLOCKED"
  by (simp_all add: LOCKED_def UNLOCKED_def DELETED_def)

record Node =
  next_node :: remote_ptr
  node_length :: nat
  total_length :: int
  node_key :: "key list"
  node_value :: "val list"

record LinkedSet =
  ls_lock :: remote_ptr
  ls_first :: remote_ptr

record HashArray =
  array_count :: nat
  bucket_start :: remote_ptr

datatype ht_cell = HLock uint64 | HNode Node | HSet LinkedSet | HArray HashArray

type_synonym 'r ht_prog = "(ht_cell, 'r) prog"

text \<open>
  What the class takes from its surroundings: Rome's null pointer, and what a local variable of
  type \<^verbatim>\<open>Node\<close> contains before it is assigned to.
\<close>

record ls_env =
  null_ptr :: remote_ptr
  junk_node :: Node

definition node_ok :: "Node \<Rightarrow> bool" where
  "node_ok x \<longleftrightarrow> length (node_key x) = NODE_BUNDLE_SIZE \<and> length (node_value x) = NODE_BUNDLE_SIZE \<and>
     node_length x \<le> NODE_BUNDLE_SIZE"

definition default_node :: Node where
  "default_node = \<lparr>next_node = Remote 0 0, node_length = 0, total_length = 0,
     node_key = replicate NODE_BUNDLE_SIZE 0, node_value = replicate NODE_BUNDLE_SIZE 0\<rparr>"

definition hlock_t :: "ht_cell ctype" where
  "hlock_t = \<lparr>ct_stride = 8, ct_cells = 1,
     ct_fresh = (\<lambda>c. case c of HLock _ \<Rightarrow> True | _ \<Rightarrow> False), ct_default = HLock 0\<rparr>"

definition Node_t :: "ht_cell ctype" where
  "Node_t = \<lparr>ct_stride = 128, ct_cells = 1,
     ct_fresh = (\<lambda>c. case c of HNode _ \<Rightarrow> True | _ \<Rightarrow> False), ct_default = HNode default_node\<rparr>"

text \<open>Dereferences of pointers to a node, with the type checked.\<close>

definition load_node :: "remote_ptr \<Rightarrow> (Node \<Rightarrow> 'r ht_prog) \<Rightarrow> 'r ht_prog" where
  "load_node a k = Load a (\<lambda>y. case y of HNode x \<Rightarrow> k x | _ \<Rightarrow> Undefined)"

text \<open>\<^verbatim>\<open>pool->Read<Node>(node)\<close> and the copy \<^verbatim>\<open>node_data = *std::to_address(red_node)\<close>.\<close>

definition fetch_node :: "remote_ptr \<Rightarrow> (remote_ptr \<Rightarrow> Node \<Rightarrow> 'r ht_prog) \<Rightarrow> 'r ht_prog" where
  "fetch_node a k = Read Node_t 1 a (\<lambda>red_node. load_node red_node (k red_node))"

section \<open>Private methods\<close>

fun ls_acquire :: "nat \<Rightarrow> remote_ptr \<Rightarrow> (bool \<Rightarrow> 'r ht_prog) \<Rightarrow> 'r ht_prog" where
  "ls_acquire 0 l k = Out_of_fuel"
| "ls_acquire (Suc n) l k =
     CompareAndSwap l (HLock UNLOCKED) (HLock LOCKED) (\<lambda>y. case y of
       HLock v \<Rightarrow> (if v = UNLOCKED then k True
                   else if v = DELETED then k False
                   else ls_acquire n l k)
     | _ \<Rightarrow> Undefined)"

definition ls_unlock :: "remote_ptr \<Rightarrow> 'r ht_prog \<Rightarrow> 'r ht_prog" where
  "ls_unlock l k =
     Allocate hlock_t 1 (\<lambda>temp.
     Write l (HLock UNLOCKED) (Some temp) (
     Deallocate hlock_t 8 temp k))"

text \<open>\<^verbatim>\<open>total_length\<close> is an \<^verbatim>\<open>int\<close>: leaving its range is undefined.\<close>

definition int_range :: "int \<Rightarrow> bool" where
  "int_range i \<longleftrightarrow> - (2 ^ 31) \<le> i \<and> i < 2 ^ 31"

definition changeCount :: "LinkedSet \<Rightarrow> bool \<Rightarrow> 'r ht_prog \<Rightarrow> 'r ht_prog" where
  "changeCount s isIncrement k =
     fetch_node (ls_first s) (\<lambda>node node_pulled.
     let total = total_length node_pulled + (if isIncrement then 1 else -1) in
     if \<not> int_range total then Undefined else
     Write (ls_first s) (HNode (node_pulled\<lparr>total_length := total\<rparr>)) None (
     Deallocate Node_t 1 node k))"

section \<open>Public methods\<close>

text \<open>The constructor.\<close>

definition ls_new :: "ls_env \<Rightarrow> (LinkedSet \<Rightarrow> 'r ht_prog) \<Rightarrow> 'r ht_prog" where
  "ls_new env k =
     Allocate hlock_t 1 (\<lambda>l.
     Store l (HLock UNLOCKED) (
     Allocate Node_t 1 (\<lambda>f.
     Store f (HNode ((junk_node env)\<lparr>next_node := null_ptr env, node_length := 0, total_length := 0\<rparr>)) (
     k \<lparr>ls_lock = l, ls_first = f\<rparr>))))"

definition list_length :: "LinkedSet \<Rightarrow> (int \<Rightarrow> 'r ht_prog) \<Rightarrow> 'r ht_prog" where
  "list_length s k =
     fetch_node (ls_first s) (\<lambda>node node_pulled.
     Deallocate Node_t 1 node (k (total_length node_pulled)))"

fun freeze :: "nat \<Rightarrow> LinkedSet \<Rightarrow> 'r ht_prog \<Rightarrow> 'r ht_prog" where
  "freeze 0 s k = Out_of_fuel"
| "freeze (Suc n) s k =
     CompareAndSwap (ls_lock s) (HLock UNLOCKED) (HLock LOCKED) (\<lambda>y. case y of
       HLock v \<Rightarrow> (if v = UNLOCKED then k else freeze n s k)
     | _ \<Rightarrow> Undefined)"

definition melt :: "LinkedSet \<Rightarrow> 'r ht_prog \<Rightarrow> 'r ht_prog" where
  "melt s k =
     Allocate hlock_t 1 (\<lambda>temp.
     Write (ls_lock s) (HLock DELETED) (Some temp) (
     Deallocate hlock_t 8 temp k))"

text \<open>The pairs of a node that the loops \<^verbatim>\<open>for (i = 0; i < node_data.length; i++)\<close> visit.\<close>

definition node_pairs :: "Node \<Rightarrow> (key \<times> val) list" where
  "node_pairs x = zip (take (node_length x) (node_key x)) (take (node_length x) (node_value x))"

fun call_each :: "(key \<Rightarrow> val \<Rightarrow> 'r ht_prog \<Rightarrow> 'r ht_prog) \<Rightarrow> (key \<times> val) list \<Rightarrow> 'r ht_prog \<Rightarrow> 'r ht_prog" where
  "call_each func [] k = k"
| "call_each func (p # ps) k = func (fst p) (snd p) (call_each func ps k)"

fun foreach_loop :: "ls_env \<Rightarrow> nat \<Rightarrow> remote_ptr \<Rightarrow> (key \<Rightarrow> val \<Rightarrow> 'r ht_prog \<Rightarrow> 'r ht_prog)
    \<Rightarrow> 'r ht_prog \<Rightarrow> 'r ht_prog" where
  "foreach_loop env 0 node func k = Out_of_fuel"
| "foreach_loop env (Suc n) node func k =
     (if node = null_ptr env then k else
      fetch_node node (\<lambda>red_node node_data.
      if \<not> node_ok node_data then Undefined else
      call_each func (node_pairs node_data) (
      Deallocate Node_t 1 red_node (
      foreach_loop env n (next_node node_data) func k))))"

definition ls_foreach :: "ls_env \<Rightarrow> nat \<Rightarrow> LinkedSet \<Rightarrow> (key \<Rightarrow> val \<Rightarrow> 'r ht_prog \<Rightarrow> 'r ht_prog)
    \<Rightarrow> 'r ht_prog \<Rightarrow> 'r ht_prog" where
  "ls_foreach env fuel s func k = foreach_loop env fuel (ls_first s) func k"

fun find_index :: "key \<Rightarrow> key list \<Rightarrow> nat option" where
  "find_index k [] = None"
| "find_index k (x # xs) = (if x = k then Some 0 else map_option Suc (find_index k xs))"

text \<open>The search in one node; an index outside the arrays is undefined.\<close>

definition search_node :: "Node \<Rightarrow> key \<Rightarrow> (nat \<Rightarrow> 'r ht_prog) \<Rightarrow> 'r ht_prog \<Rightarrow> 'r ht_prog" where
  "search_node x k found missing =
     (if \<not> node_ok x then Undefined
      else case find_index k (take (node_length x) (node_key x)) of Some i \<Rightarrow> found i | None \<Rightarrow> missing)"

text \<open>The new node of \<open>insert\<close>; its other fields are what the local variable happened to contain.\<close>

definition new_node_data :: "ls_env \<Rightarrow> key \<Rightarrow> val \<Rightarrow> Node" where
  "new_node_data env key value =
     (junk_node env)\<lparr>next_node := null_ptr env, node_key := (node_key (junk_node env))[0 := key],
       node_value := (node_value (junk_node env))[0 := value], node_length := 1\<rparr>"

definition node_add :: "Node \<Rightarrow> key \<Rightarrow> val \<Rightarrow> Node" where
  "node_add x key value =
     x\<lparr>node_key := (node_key x)[node_length x := key], node_value := (node_value x)[node_length x := value],
       node_length := node_length x + 1\<rparr>"

text \<open>What follows the loop of \<open>insert\<close>.\<close>

definition insert_finish :: "LinkedSet \<Rightarrow> remote_ptr \<Rightarrow> Node \<Rightarrow> remote_ptr \<Rightarrow> (HT_Res \<Rightarrow> 'r ht_prog) \<Rightarrow> 'r ht_prog" where
  "insert_finish s node node_data red_node k =
     Write node (HNode node_data) None (
     changeCount s True (
     ls_unlock (ls_lock s) (
     Deallocate Node_t 1 red_node (
     k (ht_res TRUE_STATE 0)))))"

fun ls_insert_loop :: "ls_env \<Rightarrow> LinkedSet \<Rightarrow> key \<Rightarrow> val \<Rightarrow> nat \<Rightarrow> remote_ptr \<Rightarrow> (HT_Res \<Rightarrow> 'r ht_prog)
    \<Rightarrow> 'r ht_prog" where
  "ls_insert_loop env s key value 0 node k = Out_of_fuel"
| "ls_insert_loop env s key value (Suc n) node k =
     (if node = null_ptr env then Undefined else
      fetch_node node (\<lambda>red_node node_data.
      search_node node_data key
        (\<lambda>i. ls_unlock (ls_lock s) (
             Deallocate Node_t 1 red_node (
             k (ht_res FALSE_STATE (node_value node_data ! i)))))
        (if node_length node_data = NODE_BUNDLE_SIZE then
           (if next_node node_data = null_ptr env then
              Allocate Node_t 1 (\<lambda>new_node.
              Store new_node (HNode (new_node_data env key value)) (
              insert_finish s node (node_data\<lparr>next_node := new_node\<rparr>) red_node k))
            else
              Deallocate Node_t 1 red_node (
              ls_insert_loop env s key value n (next_node node_data) k))
         else insert_finish s node (node_add node_data key value) red_node k)))"

definition ls_insert :: "ls_env \<Rightarrow> nat \<Rightarrow> LinkedSet \<Rightarrow> key \<Rightarrow> val \<Rightarrow> (HT_Res \<Rightarrow> 'r ht_prog) \<Rightarrow> 'r ht_prog" where
  "ls_insert env fuel s key value k =
     ls_acquire fuel (ls_lock s) (\<lambda>ok.
     if \<not> ok then k (ht_res REHASH_DELETED value)
     else ls_insert_loop env s key value fuel (ls_first s) k)"

fun ls_contains_loop :: "ls_env \<Rightarrow> LinkedSet \<Rightarrow> key \<Rightarrow> nat \<Rightarrow> remote_ptr \<Rightarrow> (HT_Res \<Rightarrow> 'r ht_prog) \<Rightarrow> 'r ht_prog" where
  "ls_contains_loop env s key 0 node k = Out_of_fuel"
| "ls_contains_loop env s key (Suc n) node k =
     (if node = null_ptr env then ls_unlock (ls_lock s) (k (ht_res FALSE_STATE 0)) else
      fetch_node node (\<lambda>red_node node_data.
      search_node node_data key
        (\<lambda>i. ls_unlock (ls_lock s) (
             Deallocate Node_t 1 red_node (
             k (ht_res TRUE_STATE (node_value node_data ! i)))))
        (Deallocate Node_t 1 red_node (
         ls_contains_loop env s key n (next_node node_data) k))))"

definition ls_contains :: "ls_env \<Rightarrow> nat \<Rightarrow> LinkedSet \<Rightarrow> key \<Rightarrow> (HT_Res \<Rightarrow> 'r ht_prog) \<Rightarrow> 'r ht_prog" where
  "ls_contains env fuel s key k =
     ls_acquire fuel (ls_lock s) (\<lambda>ok.
     if \<not> ok then k (ht_res REHASH_DELETED 0)
     else ls_contains_loop env s key fuel (ls_first s) k)"

text \<open>The deletion in \<open>remove\<close>: the last pair takes the place of the removed one.\<close>

definition node_delete :: "Node \<Rightarrow> nat \<Rightarrow> Node" where
  "node_delete x i =
     x\<lparr>node_key := (node_key x)[i := node_key x ! (node_length x - 1)],
       node_value := (node_value x)[i := node_value x ! (node_length x - 1)],
       node_length := node_length x - 1\<rparr>"

fun ls_remove_loop :: "ls_env \<Rightarrow> LinkedSet \<Rightarrow> key \<Rightarrow> nat \<Rightarrow> remote_ptr \<Rightarrow> (HT_Res \<Rightarrow> 'r ht_prog) \<Rightarrow> 'r ht_prog" where
  "ls_remove_loop env s key 0 node k = Out_of_fuel"
| "ls_remove_loop env s key (Suc n) node k =
     (if node = null_ptr env then ls_unlock (ls_lock s) (k (ht_res FALSE_STATE 0)) else
      fetch_node node (\<lambda>red_node node_data.
      search_node node_data key
        (\<lambda>i. Write node (HNode (node_delete node_data i)) None (
             changeCount s False (
             ls_unlock (ls_lock s) (
             Deallocate Node_t 1 red_node (
             k (ht_res TRUE_STATE (node_value node_data ! i)))))))
        (Deallocate Node_t 1 red_node (
         ls_remove_loop env s key n (next_node node_data) k))))"

definition ls_remove :: "ls_env \<Rightarrow> nat \<Rightarrow> LinkedSet \<Rightarrow> key \<Rightarrow> (HT_Res \<Rightarrow> 'r ht_prog) \<Rightarrow> 'r ht_prog" where
  "ls_remove env fuel s key k =
     ls_acquire fuel (ls_lock s) (\<lambda>ok.
     if \<not> ok then k (ht_res REHASH_DELETED 0)
     else ls_remove_loop env s key fuel (ls_first s) k)"

lemma ctype_ok_ht [simp]: "ctype_ok hlock_t" "ctype_ok Node_t"
  by (simp_all add: ctype_ok_def hlock_t_def Node_t_def)

end
