(* ===== verification/Hashtable.thy ===== *)
theory Hashtable
  imports Linked_Set Map_Contract Workload
begin

text \<open>
  \<^verbatim>\<open>structures/hashtable.h\<close>, class \<^verbatim>\<open>Hashtable\<close>: the chained hash table, an array of
  \<^verbatim>\<open>LinkedSet\<close> buckets behind a root that is exchanged when the table grows.

  The methods are programs over the memory verbs of \<open>Rome\<close>, on the same memory cells as
  \<open>Linked_Set\<close>.  What \<^verbatim>\<open>Init\<close> sends and receives goes through channels of the library, which are
  parameters; what is sent and decoded is modelled.  \<^verbatim>\<open>print\<close> is in \<open>Hashtable_Print\<close>.
\<close>

section \<open>The class\<close>

record Hashtable =
  ht_self :: nat
  ht_root :: remote_ptr
  ht_hash :: "key \<Rightarrow> uint64"
  INITIAL_SIZE :: nat
  ht_env :: ls_env

definition LinkedKV_t :: "ht_cell ctype" where
  "LinkedKV_t = \<lparr>ct_stride = 64, ct_cells = 1,
     ct_fresh = (\<lambda>c. case c of HSet _ \<Rightarrow> True | _ \<Rightarrow> False),
     ct_default = HSet \<lparr>ls_lock = Remote 0 0, ls_first = Remote 0 0\<rparr>\<rparr>"

definition HashArray_t :: "ht_cell ctype" where
  "HashArray_t = \<lparr>ct_stride = 64, ct_cells = 1,
     ct_fresh = (\<lambda>c. case c of HArray _ \<Rightarrow> True | _ \<Rightarrow> False),
     ct_default = HArray \<lparr>array_count = 0, bucket_start = Remote 0 0\<rparr>\<rparr>"

text \<open>Dereferences, with the type checked.\<close>

definition load_set :: "remote_ptr \<Rightarrow> (LinkedSet \<Rightarrow> 'r ht_prog) \<Rightarrow> 'r ht_prog" where
  "load_set a k = Load a (\<lambda>y. case y of HSet x \<Rightarrow> k x | _ \<Rightarrow> Undefined)"

definition load_array :: "remote_ptr \<Rightarrow> (HashArray \<Rightarrow> 'r ht_prog) \<Rightarrow> 'r ht_prog" where
  "load_array a k = Load a (\<lambda>y. case y of HArray x \<Rightarrow> k x | _ \<Rightarrow> Undefined)"

definition keyhash :: "Hashtable \<Rightarrow> key \<Rightarrow> nat \<Rightarrow> nat" where
  "keyhash c key cnt = unat (ht_hash c key mod of_nat cnt)"

definition indexAt :: "remote_ptr \<Rightarrow> nat \<Rightarrow> remote_ptr" where
  "indexAt start index = ptr_add start (64 * index)"

text \<open>
  \<^verbatim>\<open>int bucket_index = keyhash(key, count)\<close> and the bucket there.  A remainder by zero is
  undefined, an index that is not an \<^verbatim>\<open>int\<close> is not a value of the model.
\<close>

definition bucket_at :: "Hashtable \<Rightarrow> key \<Rightarrow> HashArray \<Rightarrow> (remote_ptr \<Rightarrow> 'r ht_prog) \<Rightarrow> 'r ht_prog" where
  "bucket_at c key a k =
     (if array_count a = 0 \<or> 2 ^ 31 \<le> keyhash c key (array_count a) then Undefined
      else k (indexAt (bucket_start a) (keyhash c key (array_count a))))"

section \<open>Construction\<close>

text \<open>The loop that fills an array with new sets, from index \<open>i\<close>, \<open>n\<close> of them left.\<close>

fun init_sets :: "Hashtable \<Rightarrow> remote_ptr \<Rightarrow> nat \<Rightarrow> nat \<Rightarrow> 'r ht_prog \<Rightarrow> 'r ht_prog" where
  "init_sets c start i 0 k = k"
| "init_sets c start i (Suc n) k =
     ls_new (ht_env c) (\<lambda>s.
     Store (indexAt start i) (HSet s) (
     init_sets c start (Suc i) n k))"

definition InitArray :: "Hashtable \<Rightarrow> remote_ptr \<Rightarrow> 'r ht_prog \<Rightarrow> 'r ht_prog" where
  "InitArray c root_ptr k =
     Allocate LinkedKV_t (INITIAL_SIZE c) (\<lambda>start.
     init_sets c start 0 (INITIAL_SIZE c) (
     Store root_ptr (HArray \<lparr>array_count = INITIAL_SIZE c, bucket_start = start\<rparr>) k))"

text \<open>
  \<^verbatim>\<open>Init\<close>.  The host makes the table, puts its address into a \<^verbatim>\<open>RemoteObjectProto\<close> and sends this to every
  other peer; the first error of \<^verbatim>\<open>GetConnection\<close> (\<open>conn\<close>) or of \<^verbatim>\<open>Send\<close> (\<open>send\<close>) ends the loop and is returned.
  Of the message the code uses the field \<^verbatim>\<open>raddr\<close>, a \<^verbatim>\<open>uint64\<close>.
\<close>

record RemoteObjectProto =
  raddr :: uint64

definition RemoteObjectProto_new :: RemoteObjectProto where
  "RemoteObjectProto_new = \<lparr>raddr = 0\<rparr>"

text \<open>The loop over the peers: the messages sent, each with the peer it went to, and the status.\<close>

fun send_root :: "(nat \<Rightarrow> 'e option) \<Rightarrow> (nat \<Rightarrow> RemoteObjectProto \<Rightarrow> 'e option) \<Rightarrow> nat \<Rightarrow> RemoteObjectProto \<Rightarrow> nat list
    \<Rightarrow> (nat \<times> RemoteObjectProto) list \<times> 'e option" where
  "send_root conn send self proto [] = ([], None)"
| "send_root conn send self proto (p # ps) =
     (if p = self then send_root conn send self proto ps
      else case conn p of
        Some e \<Rightarrow> ([], Some e)
      | None \<Rightarrow> (case send p proto of
          Some e \<Rightarrow> ([], Some e)
        | None \<Rightarrow> (case send_root conn send self proto ps of (sent, r) \<Rightarrow> ((p, proto) # sent, r))))"

definition set_raddr :: "nat \<Rightarrow> RemoteObjectProto \<Rightarrow> RemoteObjectProto" where
  "set_raddr a proto = proto\<lparr>raddr := of_nat a\<rparr>"

text \<open>The result: the table, the messages sent, and the status.\<close>

definition Init_host :: "Hashtable \<Rightarrow> (nat \<Rightarrow> 'e option) \<Rightarrow> (nat \<Rightarrow> RemoteObjectProto \<Rightarrow> 'e option) \<Rightarrow> nat list
    \<Rightarrow> (Hashtable \<times> (nat \<times> RemoteObjectProto) list \<times> 'e option) ht_prog" where
  "Init_host c conn send peers =
     (let proto = RemoteObjectProto_new in
      Allocate HashArray_t 1 (\<lambda>hashtable_root.
      InitArray c hashtable_root (
      Return (c\<lparr>ht_root := hashtable_root\<rparr>,
        send_root conn send (ht_self c) (set_raddr (address hashtable_root) proto) peers))))"

text \<open>The others ask for the message until it is there; \<open>got i\<close> is the answer to the \<open>i\<close>-th attempt.\<close>

datatype 'e delivery = Unavailable | Failed 'e | Delivered RemoteObjectProto

fun try_deliver :: "nat \<Rightarrow> (nat \<Rightarrow> 'e delivery) \<Rightarrow> nat \<Rightarrow> ('e + RemoteObjectProto) option" where
  "try_deliver 0 got i = None"
| "try_deliver (Suc n) got i =
     (case got i of
        Unavailable \<Rightarrow> try_deliver n got (Suc i)
      | Failed e \<Rightarrow> Some (Inl e)
      | Delivered proto \<Rightarrow> Some (Inr proto))"

definition Init_peer :: "Hashtable \<Rightarrow> nat \<Rightarrow> nat \<Rightarrow> 'e option \<Rightarrow> (nat \<Rightarrow> 'e delivery) \<Rightarrow> ('e + Hashtable) option" where
  "Init_peer c fuel host_id conn got =
     (case conn of
        Some e \<Rightarrow> Some (Inl e)
      | None \<Rightarrow> map_option (map_sum id (\<lambda>proto. c\<lparr>ht_root := Remote host_id (unat (raddr proto))\<rparr>)) (try_deliver fuel got 0))"

section \<open>Operations\<close>

text \<open>
  The three operations differ in the method of the bucket they call (\<open>op\<close>); \<open>again\<close> is the
  \<^verbatim>\<open>goto start\<close> after a bucket that a rehash has retired.
\<close>

definition ht_call :: "Hashtable \<Rightarrow> key \<Rightarrow> (LinkedSet \<Rightarrow> (HT_Res \<Rightarrow> HT_Res ht_prog) \<Rightarrow> HT_Res ht_prog)
    \<Rightarrow> HT_Res ht_prog \<Rightarrow> HT_Res ht_prog" where
  "ht_call c key op again =
     Read HashArray_t 1 (ht_root c) (\<lambda>ds.
     load_array ds (\<lambda>hasharray.
     bucket_at c key hasharray (\<lambda>bucket.
     Read LinkedKV_t 1 bucket (\<lambda>bucket_red.
     load_set bucket_red (\<lambda>set.
     op set (\<lambda>state.
     Deallocate HashArray_t 1 ds (
     Deallocate LinkedKV_t 1 bucket_red (
     if status state = REHASH_DELETED then again
     else Return (ht_res (if status state = TRUE_STATE then TRUE_STATE else FALSE_STATE) (result state))))))))))"

fun ht_contains :: "Hashtable \<Rightarrow> nat \<Rightarrow> key \<Rightarrow> HT_Res ht_prog" where
  "ht_contains c 0 key = Out_of_fuel"
| "ht_contains c (Suc n) key =
     ht_call c key (\<lambda>set. ls_contains (ht_env c) (Suc n) set key) (ht_contains c n key)"

fun ht_insert :: "Hashtable \<Rightarrow> nat \<Rightarrow> key \<Rightarrow> val \<Rightarrow> HT_Res ht_prog" where
  "ht_insert c 0 key value = Out_of_fuel"
| "ht_insert c (Suc n) key value =
     ht_call c key (\<lambda>set. ls_insert (ht_env c) (Suc n) set key value) (ht_insert c n key value)"

fun ht_remove :: "Hashtable \<Rightarrow> nat \<Rightarrow> key \<Rightarrow> HT_Res ht_prog" where
  "ht_remove c 0 key = Out_of_fuel"
| "ht_remove c (Suc n) key =
     ht_call c key (\<lambda>set. ls_remove (ht_env c) (Suc n) set key) (ht_remove c n key)"

section \<open>Rehash\<close>

text \<open>The loops of \<^verbatim>\<open>try_rehash\<close> over the copies of the sets at \<open>buckets\<close>, from index \<open>i\<close>, \<open>n\<close> left.\<close>

fun sum_lengths :: "remote_ptr \<Rightarrow> nat \<Rightarrow> nat \<Rightarrow> int \<Rightarrow> (int \<Rightarrow> 'r ht_prog) \<Rightarrow> 'r ht_prog" where
  "sum_lengths buckets i 0 total_elements k = k total_elements"
| "sum_lengths buckets i (Suc n) total_elements k =
     load_set (indexAt buckets i) (\<lambda>set.
     list_length set (\<lambda>ll_length.
     sum_lengths buckets (Suc i) n (total_elements + ll_length) k))"

fun freeze_all :: "nat \<Rightarrow> remote_ptr \<Rightarrow> nat \<Rightarrow> nat \<Rightarrow> 'r ht_prog \<Rightarrow> 'r ht_prog" where
  "freeze_all fuel buckets i 0 k = k"
| "freeze_all fuel buckets i (Suc n) k =
     load_set (indexAt buckets i) (\<lambda>set.
     freeze fuel set (
     freeze_all fuel buckets (Suc i) n k))"

text \<open>The lambda that adds one pair to the new array.\<close>

definition readd :: "Hashtable \<Rightarrow> nat \<Rightarrow> HashArray \<Rightarrow> key \<Rightarrow> val \<Rightarrow> 'r ht_prog \<Rightarrow> 'r ht_prog" where
  "readd c fuel hashArrayTemp key value k =
     bucket_at c key hashArrayTemp (\<lambda>bucket.
     load_set bucket (\<lambda>ll.
     ls_insert (ht_env c) fuel ll key value (\<lambda>_. k)))"

fun readd_all :: "Hashtable \<Rightarrow> nat \<Rightarrow> HashArray \<Rightarrow> remote_ptr \<Rightarrow> nat \<Rightarrow> nat \<Rightarrow> 'r ht_prog \<Rightarrow> 'r ht_prog" where
  "readd_all c fuel hashArrayTemp buckets i 0 k = k"
| "readd_all c fuel hashArrayTemp buckets i (Suc n) k =
     load_set (indexAt buckets i) (\<lambda>set.
     ls_foreach (ht_env c) fuel set (readd c fuel hashArrayTemp) (
     readd_all c fuel hashArrayTemp buckets (Suc i) n k))"

fun melt_all :: "remote_ptr \<Rightarrow> nat \<Rightarrow> nat \<Rightarrow> 'r ht_prog \<Rightarrow> 'r ht_prog" where
  "melt_all buckets i 0 k = k"
| "melt_all buckets i (Suc n) k =
     load_set (indexAt buckets i) (\<lambda>set.
     melt set (
     melt_all buckets (Suc i) n k))"

text \<open>
  The first half: lock every bucket, make an array of twice the size, and make it the table.
  The loop counters are \<^verbatim>\<open>int\<close>s.
\<close>

definition rehash_publish :: "Hashtable \<Rightarrow> nat \<Rightarrow> HashArray \<Rightarrow> remote_ptr \<Rightarrow> (HashArray \<Rightarrow> 'r ht_prog) \<Rightarrow> 'r ht_prog" where
  "rehash_publish c fuel hashtable buckets k =
     freeze_all fuel buckets 0 (array_count hashtable) (
     if 2 ^ 31 \<le> array_count hashtable * 2 then Undefined else
     Allocate LinkedKV_t (array_count hashtable * 2) (\<lambda>start.
     init_sets c start 0 (array_count hashtable * 2) (
     Store (ht_root c) (HArray \<lparr>array_count = array_count hashtable * 2, bucket_start = start\<rparr>) (
     k \<lparr>array_count = array_count hashtable * 2, bucket_start = start\<rparr>))))"

text \<open>The second half: copy the pairs, retire the old buckets, free the copies.\<close>

definition rehash_copy :: "Hashtable \<Rightarrow> nat \<Rightarrow> HashArray \<Rightarrow> remote_ptr \<Rightarrow> remote_ptr \<Rightarrow> HashArray \<Rightarrow> 'r ht_prog \<Rightarrow> 'r ht_prog" where
  "rehash_copy c fuel hashtable ds buckets hashArrayTemp k =
     readd_all c fuel hashArrayTemp buckets 0 (array_count hashtable) (
     melt_all buckets 0 (array_count hashtable) (
     Deallocate HashArray_t 1 ds (
     Deallocate LinkedKV_t (array_count hashtable) buckets k)))"

definition try_rehash :: "Hashtable \<Rightarrow> nat \<Rightarrow> 'r ht_prog \<Rightarrow> 'r ht_prog" where
  "try_rehash c fuel k =
     (if ptr_id (ht_root c) \<noteq> ht_self c then k else
      Read HashArray_t 1 (ht_root c) (\<lambda>ds.
      load_array ds (\<lambda>hashtable.
      if 2 ^ 31 \<le> array_count hashtable then Undefined else
      Read LinkedKV_t (array_count hashtable) (bucket_start hashtable) (\<lambda>buckets.
      sum_lengths buckets 0 (array_count hashtable) 0 (\<lambda>total_elements.
      if total_elements < int (array_count hashtable * 10) then
        Deallocate HashArray_t 1 ds (
        Deallocate LinkedKV_t (array_count hashtable) buckets k)
      else
        rehash_publish c fuel hashtable buckets (\<lambda>hashArrayTemp.
        rehash_copy c fuel hashtable ds buckets hashArrayTemp k))))))"

text \<open>The table as an execution function for its callers, and \<^verbatim>\<open>populate\<close>, the same code as in the other table.\<close>

fun ht_prog_of :: "Hashtable \<Rightarrow> nat \<Rightarrow> call \<Rightarrow> HT_Res ht_prog" where
  "ht_prog_of c fuel (Contains k) = ht_contains c fuel k"
| "ht_prog_of c fuel (Insert k v) = ht_insert c fuel k v"
| "ht_prog_of c fuel (Remove k) = ht_remove c fuel k"

definition ht_exec :: "('p, ht_cell) rome \<Rightarrow> nat \<Rightarrow> Hashtable \<Rightarrow> nat \<Rightarrow> call \<Rightarrow> ('p, ht_cell) heap
    \<Rightarrow> (HT_Res \<times> ('p, ht_cell) heap) option" where
  "ht_exec R fuel c self x h = (case run R self (ht_prog_of c fuel x) h of Finished r h' \<Rightarrow> Some (r, h') | _ \<Rightarrow> None)"

definition ht_populate :: "('p, ht_cell) rome \<Rightarrow> nat \<Rightarrow> Hashtable \<Rightarrow> nat \<Rightarrow> (real \<Rightarrow> real) \<Rightarrow> int \<Rightarrow> int \<Rightarrow> int
    \<Rightarrow> (key \<Rightarrow> val) \<Rightarrow> real list \<Rightarrow> ('p, ht_cell) heap \<Rightarrow> ('p, ht_cell) heap option" where
  "ht_populate R fuel c self = populate (ht_exec R fuel c) self"

lemma ctype_ok_table [simp]: "ctype_ok LinkedKV_t" "ctype_ok HashArray_t"
  by (simp_all add: ctype_ok_def LinkedKV_t_def HashArray_t_def)

lemma table_single [simp]: "ct_cells LinkedKV_t = 1" "ct_cells HashArray_t = 1" "ct_stride LinkedKV_t = 64"
  "block HashArray_t (Suc 0) p = [p]" "block LinkedKV_t (Suc 0) p = [p]"
  by (simp_all add: LinkedKV_t_def HashArray_t_def block_def)

end
