(* ===== verification/Linked_Set_Correct.thy ===== *)
theory Linked_Set_Correct
  imports Linked_Set
begin

text \<open>
  What the memory of a \<^verbatim>\<open>LinkedSet\<close> means, and that its methods do what their comments say on
  chains whose nodes, but for the last, are full.  \<open>remove\<close> can leave a gap in an earlier node;
  the last section shows what \<open>insert\<close> does then.
\<close>

section \<open>Chains\<close>

type_synonym chain = "(remote_ptr \<times> Node) list"

definition chain_cells :: "chain \<Rightarrow> (remote_ptr \<times> ht_cell) list" where
  "chain_cells ns = map (\<lambda>(a, x). (a, HNode x)) ns"

fun linked :: "remote_ptr \<Rightarrow> remote_ptr \<Rightarrow> chain \<Rightarrow> bool" where
  "linked nul p [] \<longleftrightarrow> p = nul"
| "linked nul p ((a, x) # ns) \<longleftrightarrow> p = a \<and> a \<noteq> nul \<and> linked nul (next_node x) ns"

definition chain_pairs :: "chain \<Rightarrow> (key \<times> val) list" where
  "chain_pairs ns = concat (map (\<lambda>(a, x). node_pairs x) ns)"

definition nodes_ok :: "chain \<Rightarrow> bool" where
  "nodes_ok ns \<longleftrightarrow> (\<forall>(a, x) \<in> set ns. node_ok x)"

text \<open>Every node but the last is full.\<close>

fun packed :: "chain \<Rightarrow> bool" where
  "packed [] = True"
| "packed [n] = True"
| "packed ((a, x) # n # ns) = (node_length x = NODE_BUNDLE_SIZE \<and> packed (n # ns))"

text \<open>The counter in the first node.\<close>

definition chain_total :: "chain \<Rightarrow> int" where
  "chain_total ns = (case ns of [] \<Rightarrow> 0 | (a, x) # _ \<Rightarrow> total_length x)"

fun bump_total :: "int \<Rightarrow> chain \<Rightarrow> chain" where
  "bump_total i [] = []"
| "bump_total i ((a, x) # ns) = (a, x\<lparr>total_length := total_length x + i\<rparr>) # ns"

lemma chain_simps [simp]:
  "chain_cells [] = []" "chain_cells ((a, x) # ns) = (a, HNode x) # chain_cells ns"
  "chain_cells (xs @ ys) = chain_cells xs @ chain_cells ys"
  "chain_pairs [] = []" "chain_pairs ((a, x) # ns) = node_pairs x @ chain_pairs ns"
  "chain_pairs (xs @ ys) = chain_pairs xs @ chain_pairs ys"
  "nodes_ok []" "nodes_ok ((a, x) # ns) \<longleftrightarrow> node_ok x \<and> nodes_ok ns"
  "nodes_ok (xs @ ys) \<longleftrightarrow> nodes_ok xs \<and> nodes_ok ys"
  by (auto simp: chain_cells_def chain_pairs_def nodes_ok_def)


lemma node_pairs_total [simp]: "node_pairs (x\<lparr>total_length := t\<rparr>) = node_pairs x"
  "node_ok (x\<lparr>total_length := t\<rparr>) = node_ok x" "node_pairs (x\<lparr>next_node := q\<rparr>) = node_pairs x"
  "node_ok (x\<lparr>next_node := q\<rparr>) = node_ok x"
  by (simp_all add: node_pairs_def node_ok_def)

lemma bump_total_props [simp]:
  "chain_pairs (bump_total i ns) = chain_pairs ns" "nodes_ok (bump_total i ns) = nodes_ok ns"
  "linked nul p (bump_total i ns) = linked nul p ns" "packed (bump_total i ns) = packed ns"
  "bump_total i ns = [] \<longleftrightarrow> ns = []" "ns \<noteq> [] \<Longrightarrow> chain_total (bump_total i ns) = chain_total ns + i"
proof -
  have pk: "packed ((a, y) # ms) = packed ((a, x) # ms)" if "node_length y = node_length x" for a x y ms
    using that by (cases ms) simp_all
  show "packed (bump_total i ns) = packed ns"
    by (induction i ns rule: bump_total.induct) (simp, simp only: bump_total.simps, rule pk, simp)
  show "chain_pairs (bump_total i ns) = chain_pairs ns" "nodes_ok (bump_total i ns) = nodes_ok ns"
    "linked nul p (bump_total i ns) = linked nul p ns" "bump_total i ns = [] \<longleftrightarrow> ns = []"
    by (induction i ns rule: bump_total.induct) simp_all
  show "ns \<noteq> [] \<Longrightarrow> chain_total (bump_total i ns) = chain_total ns + i"
    by (induction i ns rule: bump_total.induct) (simp_all add: chain_total_def)
qed

text \<open>
  \<open>ls_rep nul m s ns st\<close>: in memory \<open>m\<close> the set \<open>s\<close> has lock state \<open>st\<close> and the nodes \<open>ns\<close>, and
  its counter is the number of its pairs.
\<close>

definition ls_rep :: "remote_ptr \<Rightarrow> (remote_ptr \<Rightarrow> ht_cell option) \<Rightarrow> LinkedSet \<Rightarrow> chain \<Rightarrow> uint64 \<Rightarrow> bool" where
  "ls_rep nul m s ns st \<longleftrightarrow> holds m ((ls_lock s, HLock st) # chain_cells ns) \<and>
     linked nul (ls_first s) ns \<and> nodes_ok ns \<and> ns \<noteq> [] \<and> chain_total ns = int (length (chain_pairs ns))"

section \<open>Nodes\<close>

lemma find_index_Some:
  "find_index k ks = Some i \<Longrightarrow> i < length ks \<and> ks ! i = k \<and> length vs = length ks \<Longrightarrow>
   map_of (zip ks vs) k = Some (vs ! i)"
  by (induction ks arbitrary: i vs) (auto split: if_splits simp: length_Suc_conv)

lemma find_index_bound: "find_index k ks = Some i \<Longrightarrow> i < length ks \<and> ks ! i = k"
  by (induction ks arbitrary: i) (auto split: if_splits)

lemma find_index_None: "find_index k ks = None \<longleftrightarrow> k \<notin> set ks"
  by (induction ks) auto

lemma node_pairs_keys:
  assumes "node_ok x"
  shows "map fst (node_pairs x) = take (node_length x) (node_key x)"
    "length (node_pairs x) = node_length x"
  using assms by (auto simp: node_pairs_def node_ok_def)

lemma node_found:
  assumes "node_ok x" "find_index k (take (node_length x) (node_key x)) = Some i"
  shows "i < node_length x" "map_of (node_pairs x) k = Some (node_value x ! i)"
    "node_pairs x ! i = (k, node_value x ! i)"
proof -
  note b = find_index_bound [OF assms(2)]
  show i: "i < node_length x" using b assms(1) by (auto simp: node_ok_def)
  have "map_of (node_pairs x) k = Some (take (node_length x) (node_value x) ! i)"
    unfolding node_pairs_def using b assms(1) by (intro find_index_Some [OF assms(2)]) (auto simp: node_ok_def)
  then show "map_of (node_pairs x) k = Some (node_value x ! i)" using i by simp
  show "node_pairs x ! i = (k, node_value x ! i)"
    using b i assms(1) by (auto simp: node_pairs_def node_ok_def)
qed

lemma node_missing:
  assumes "node_ok x" "find_index k (take (node_length x) (node_key x)) = None"
  shows "k \<notin> fst ` set (node_pairs x)"
  using assms node_pairs_keys(1) [OF assms(1)] by (metis find_index_None list.set_map)

lemma node_add_pairs:
  assumes "node_ok x" "node_length x \<noteq> NODE_BUNDLE_SIZE"
  shows "node_pairs (node_add x k v) = node_pairs x @ [(k, v)]" "node_ok (node_add x k v)"
proof -
  have l: "node_length x < length (node_key x)" "node_length x < length (node_value x)"
    using assms by (auto simp: node_ok_def)
  show "node_pairs (node_add x k v) = node_pairs x @ [(k, v)]"
    using l by (simp add: node_pairs_def node_add_def take_Suc_conv_app_nth)
  show "node_ok (node_add x k v)" using assms by (auto simp: node_ok_def node_add_def)
qed

lemma node_delete_pairs:
  assumes "node_ok x" "i < node_length x"
  shows "node_pairs (node_delete x i) = butlast ((node_pairs x)[i := last (node_pairs x)])"
    "node_ok (node_delete x i)" "node_length (node_delete x i) = node_length x - 1"
proof -
  let ?n = "node_length x"
  have l: "?n \<le> length (node_key x)" "?n \<le> length (node_value x)" "0 < ?n"
    using assms by (auto simp: node_ok_def)
  have len: "length (node_pairs x) = ?n" by (rule node_pairs_keys(2) [OF assms(1)])
  have "last (node_pairs x) = (node_key x ! (?n - 1), node_value x ! (?n - 1))"
    using l len by (subst last_conv_nth) (auto simp: node_pairs_def)
  moreover have "node_pairs (node_delete x i) = butlast ((node_pairs x)[i :=
      (node_key x ! (?n - 1), node_value x ! (?n - 1))])"
    using l assms(2) len
    by (intro nth_equalityI) (auto simp: node_pairs_def node_delete_def nth_butlast nth_list_update)
  ultimately show "node_pairs (node_delete x i) = butlast ((node_pairs x)[i := last (node_pairs x)])" by simp
  show "node_ok (node_delete x i)" using assms by (auto simp: node_ok_def node_delete_def)
qed (simp add: node_delete_def)

section \<open>The verbs on chains\<close>

text \<open>The memory as a pair of maps; every rule below says how the pair changes.\<close>

lemma ht_single [simp]:
  "block hlock_t (Suc 0) p = [p]" "block Node_t (Suc 0) p = [p]" "ct_cells hlock_t = 1" "ct_cells Node_t = 1"
  by (simp_all add: block_def hlock_t_def Node_t_def)

locale ls_pool = memory_pool R ok
  for R :: "('p, ht_cell) rome" and ok +
  fixes env :: ls_env and self :: nat
  assumes nul: "null_ptr env = remote_nullptr R"
    and junk: "length (node_key (junk_node env)) = NODE_BUNDLE_SIZE"
      "length (node_value (junk_node env)) = NODE_BUNDLE_SIZE"
begin

definition heap_is :: "('p, ht_cell) heap \<Rightarrow> (remote_ptr \<Rightarrow> ht_cell option)
    \<Rightarrow> (remote_ptr \<Rightarrow> remote_ptr list option) \<Rightarrow> bool" where
  "heap_is h m al \<longleftrightarrow> ok h \<and> cells h = m \<and> allocs h = al"

lemma wp_fetch_node:
  assumes "heap_is h m al" "m a = Some (HNode x)"
    and "\<And>q h'. m q = None \<Longrightarrow> al q = None \<Longrightarrow> heap_is h' (m(q \<mapsto> HNode x)) (al(q \<mapsto> [q])) \<Longrightarrow>
      wp R self (k q x) h' Q"
  shows "wp R self (fetch_node a k) h Q"
  unfolding fetch_node_def
proof (rule wp_Read [where cs = "[HNode x]"])
  fix q h'
  assume h': "ok h'" "ptr_id q = self" "allocated h h' q (block Node_t 1 q) [HNode x]"
  then have "cells h q = None" "allocs h q = None" "heap_is h' (m(q \<mapsto> HNode x)) (al(q \<mapsto> [q]))"
    using assms(1) by (auto simp: allocated_single heap_is_def)
  then show "wp R self (load_node q (k q)) h' Q"
    unfolding load_node_def using h'(2) assms(1) assms(3) [of q h']
    by (intro wp_Load [of q self h' "HNode x"]) (auto simp: heap_is_def)
qed (use assms in \<open>auto simp: heap_is_def\<close>)

lemma wp_free_copy:
  assumes "heap_is h m al" "al q = Some [q]"
    and "\<And>h'. heap_is h' (m(q := None)) (al(q := None)) \<Longrightarrow> wp R self k h' Q"
  shows "wp R self (Deallocate Node_t 1 q k) h Q"
proof (rule wp_Deallocate [of h q "[q]"])
  fix h' assume h': "ok h'" "cells h' = cells h |` (- set [q])" "allocs h' = (allocs h)(q := None)"
  have "cells h |` (- set [q]) = (cells h)(q := None)" by (auto simp: restrict_map_def fun_eq_iff)
  then show "wp R self k h' Q" using assms(1) h' by (intro assms(3)) (simp add: heap_is_def)
qed (use assms in \<open>simp_all add: heap_is_def\<close>)

lemma wp_set_lock:
  assumes "heap_is h m al" "m l \<noteq> None"
    and "\<And>h'. heap_is h' (m(l \<mapsto> HLock v)) al \<Longrightarrow> wp R self k h' Q"
  shows "wp R self (Allocate hlock_t 1 (\<lambda>temp. Write l (HLock v) (Some temp) (Deallocate hlock_t n temp k))) h Q"
  by (rule wp_staged_write) (use assms in \<open>auto simp: heap_is_def intro!: assms(3)\<close>)

lemma wp_ls_unlock:
  assumes "heap_is h m al" "m l \<noteq> None"
    and "\<And>h'. heap_is h' (m(l \<mapsto> HLock UNLOCKED)) al \<Longrightarrow> wp R self k h' Q"
  shows "wp R self (ls_unlock l k) h Q"
  unfolding ls_unlock_def by (rule wp_set_lock [OF assms])

lemma wp_ls_acquire:
  assumes "heap_is h m al" "m l = Some (HLock v)" "v = UNLOCKED \<or> v = DELETED"
    and "\<And>h'. heap_is h' (if v = UNLOCKED then m(l \<mapsto> HLock LOCKED) else m) al \<Longrightarrow>
      wp R self (k (v = UNLOCKED)) h' Q"
  shows "wp R self (ls_acquire (Suc n) l k) h Q"
  unfolding ls_acquire.simps
  by (rule wp_CompareAndSwap) (use assms in \<open>auto simp: heap_is_def\<close>)

lemma wp_write_node:
  assumes "heap_is h m al" "m a \<noteq> None"
    and "\<And>h'. heap_is h' (m(a \<mapsto> y)) al \<Longrightarrow> wp R self k h' Q"
  shows "wp R self (Write a y None k) h Q"
proof (rule wp_Write)
  fix h' assume "ok h'" "cells h' a = Some y" "\<And>b. b \<noteq> a \<Longrightarrow> None \<noteq> Some b \<Longrightarrow> cells h' b = cells h b"
    "allocs h' = allocs h"
  then show "wp R self k h' Q" using assms(1) by (intro assms(3)) (auto simp: heap_is_def)
qed (use assms in \<open>auto simp: heap_is_def\<close>)

lemma wp_changeCount:
  assumes "heap_is h m al" "m (ls_first s) = Some (HNode x)"
    and "int_range (total_length x + (if inc then 1 else -1))"
    and "\<And>h'. heap_is h' (m(ls_first s \<mapsto> HNode (x\<lparr>total_length := total_length x + (if inc then 1 else -1)\<rparr>))) al \<Longrightarrow>
      wp R self k h' Q"
  shows "wp R self (changeCount s inc k) h Q"
  unfolding changeCount_def Let_def
proof (rule wp_fetch_node [OF assms(1,2)])
  let ?x = "x\<lparr>total_length := total_length x + (if inc then 1 else -1)\<rparr>"
  fix q h1
  assume h1: "m q = None" "al q = None" "heap_is h1 (m(q \<mapsto> HNode x)) (al(q \<mapsto> [q]))"
  have ne: "q \<noteq> ls_first s" using h1(1) assms(2) by auto
  have m: "(m(q \<mapsto> HNode x, ls_first s \<mapsto> HNode ?x))(q := None) = m(ls_first s \<mapsto> HNode ?x)"
    "(al(q \<mapsto> [q]))(q := None) = al"
    using ne h1(1,2) by auto
  have "wp R self (Write (ls_first s) (HNode ?x) None (Deallocate Node_t 1 q k)) h1 Q"
  proof (rule wp_write_node [OF h1(3)])
    fix h2 assume h2: "heap_is h2 (m(q \<mapsto> HNode x, ls_first s \<mapsto> HNode ?x)) (al(q \<mapsto> [q]))"
    show "wp R self (Deallocate Node_t 1 q k) h2 Q"
      by (rule wp_free_copy [OF h2]) (simp, rule assms(4), simp only: m)
  qed (use assms(2) ne in simp)
  then show "wp R self (if \<not> int_range (total_length x + (if inc then 1 else -1)) then Undefined else
      Write (ls_first s) (HNode ?x) None (Deallocate Node_t 1 q k)) h1 Q"
    using assms(3) by simp
qed

lemma wp_search_node:
  assumes "node_ok x"
    and "\<And>i. find_index k (take (node_length x) (node_key x)) = Some i \<Longrightarrow> wp R self (found i) h Q"
    and "find_index k (take (node_length x) (node_key x)) = None \<Longrightarrow> wp R self missing h Q"
  shows "wp R self (search_node x k found missing) h Q"
  using assms by (auto simp: search_node_def split: option.splits)

text \<open>One step along a chain: the node is copied, searched, and the copy freed again.\<close>

lemma wp_contains_loop:
  assumes "heap_is h m al" "holds m (chain_cells ns)" "linked (null_ptr env) p ns" "nodes_ok ns" "length ns < n"
    "m (ls_lock s) = Some (HLock v)"
    and "\<And>h'. heap_is h' (m(ls_lock s \<mapsto> HLock UNLOCKED)) al \<Longrightarrow>
      wp R self (k (spec_contains (map_of (chain_pairs ns)) key)) h' Q"
  shows "wp R self (ls_contains_loop env s key n p k) h Q"
  using assms
proof (induction ns arbitrary: n p h)
  case Nil
  obtain n' where n: "n = Suc n'" using Nil.prems(5) by (cases n) auto
  have S: "spec_contains (map_of (chain_pairs [])) key = ht_res FALSE_STATE 0"
    by (simp add: spec_contains_def)
  have "wp R self (ls_unlock (ls_lock s) (k (ht_res FALSE_STATE 0))) h Q"
    by (rule wp_ls_unlock [OF Nil.prems(1)], use Nil.prems(6) in simp, drule Nil.prems(7), simp only: S)
  then show ?case unfolding n using Nil.prems(3) by simp
next
  case (Cons y ns)
  obtain a x where y: "y = (a, x)" by fastforce
  obtain n' where n: "n = Suc n'" using Cons.prems(5) by (cases n) auto
  have ax: "m a = Some (HNode x)" "p = a" "a \<noteq> null_ptr env" "node_ok x"
    using Cons.prems(2,3,4) by (auto simp: y holds_Cons)
  have "wp R self (fetch_node a (\<lambda>red_node node_data. search_node node_data key
        (\<lambda>i. ls_unlock (ls_lock s) (Deallocate Node_t 1 red_node (k (ht_res TRUE_STATE (node_value node_data ! i)))))
        (Deallocate Node_t 1 red_node (ls_contains_loop env s key n' (next_node node_data) k)))) h Q"
  proof (rule wp_fetch_node [OF Cons.prems(1) ax(1)], rule wp_search_node [OF ax(4)], goal_cases)
    case (1 q h' i)
    have S: "spec_contains (map_of (chain_pairs (y # ns))) key = ht_res TRUE_STATE (node_value x ! i)"
      using node_found(2) [OF ax(4) 1(4)] by (simp add: y map_add_def spec_contains_def)
    have ne: "q \<noteq> ls_lock s" using 1(1) Cons.prems(6) by auto
    have m: "(m(q \<mapsto> HNode x, ls_lock s \<mapsto> HLock UNLOCKED))(q := None) = m(ls_lock s \<mapsto> HLock UNLOCKED)"
      "(al(q \<mapsto> [q]))(q := None) = al"
      using ne 1(1,2) by auto
    show ?case
      by (rule wp_ls_unlock [OF 1(3)], use Cons.prems(6) ne in simp, rule wp_free_copy, assumption, simp)
        (unfold m, drule Cons.prems(7), simp only: S)
  next
    case (2 q h')
    have "map_of (node_pairs x) key = None"
      using node_missing [OF ax(4) 2(4)] by (simp add: map_of_eq_None_iff)
    then have S: "spec_contains (map_of (chain_pairs (y # ns))) key = spec_contains (map_of (chain_pairs ns)) key"
      by (simp add: y map_add_def spec_contains_def split: option.splits)
    have m: "(m(q \<mapsto> HNode x))(q := None) = m" "(al(q \<mapsto> [q]))(q := None) = al"
      using 2(1,2) by auto
    show ?case
    proof (rule wp_free_copy [OF 2(3)], simp, unfold m)
      fix h'' assume h'': "heap_is h'' m al"
      show "wp R self (ls_contains_loop env s key n' (next_node x) k) h'' Q"
      proof (rule Cons.IH [OF h''])
        show "m (ls_lock s) = Some (HLock v)" by (fact Cons.prems(6))
        fix h3 assume "heap_is h3 (m(ls_lock s \<mapsto> HLock UNLOCKED)) al"
        from Cons.prems(7) [OF this] show "wp R self (k (spec_contains (map_of (chain_pairs ns)) key)) h3 Q"
          by (simp only: S)
      qed (use Cons.prems(2-5) n in \<open>auto simp: y holds_Cons\<close>)
    qed
  qed
  then show ?case unfolding n using ax by simp
qed

text \<open>
  How \<open>insert\<close> and \<open>remove\<close> end: the changed node is written back, the counter in the first node
  updated, the lock released and the copy freed.
\<close>

definition counter_step :: "bool \<Rightarrow> int" where
  "counter_step inc = (if inc then 1 else -1)"

lemma holds_bump:
  assumes "holds m (chain_cells ((f, x) # ns))"
  shows "holds (m(f \<mapsto> HNode (x\<lparr>total_length := total_length x + i\<rparr>))) (chain_cells (bump_total i ((f, x) # ns)))"
  using holds_change [of m "[]" f "HNode x" "chain_cells ns"] assms by simp

lemma wp_finish:
  assumes h: "heap_is h (m(q \<mapsto> y)) (al(q \<mapsto> [q]))" "m q = None" "al q = None"
    and c: "holds m (chain_cells (xs @ (a, x) # ys))" "fst (hd (xs @ (a, x) # ys)) = ls_first s"
    and x': "total_length x' = total_length x" "int_range (chain_total (xs @ (a, x) # ys) + counter_step inc)"
    and l: "m (ls_lock s) = Some (HLock v)"
    and k: "\<And>h' m'. heap_is h' m' al \<Longrightarrow>
      holds m' ((ls_lock s, HLock UNLOCKED) # chain_cells (bump_total (counter_step inc) (xs @ (a, x') # ys))) \<Longrightarrow>
      (\<And>b. b \<notin> insert (ls_lock s) (fst ` set (xs @ (a, x) # ys)) \<Longrightarrow> m' b = m b) \<Longrightarrow> wp R self k h' Q"
  shows "wp R self (Write a (HNode x') None (changeCount s inc (ls_unlock (ls_lock s) (Deallocate Node_t 1 q k)))) h Q"
proof -
  let ?m1 = "m(a \<mapsto> HNode x')"
  let ?ns = "xs @ (a, x') # ys"
  have m1: "holds ?m1 (chain_cells ?ns)"
    using holds_change [of m "chain_cells xs" a "HNode x" "chain_cells ys" "HNode x'"] c(1) by simp
  have am: "m a = Some (HNode x)" using c(1) by (auto simp: holds_append holds_Cons)
  obtain f x0 ns' where ns: "?ns = (f, x0) # ns'" by (cases ?ns) auto
  have f: "f = ls_first s" using c(2) ns by (cases xs) auto
  have tot: "total_length x0 = chain_total (xs @ (a, x) # ys)"
    using ns x'(1) by (cases xs) (auto simp: chain_total_def)
  have m1f: "?m1 (ls_first s) = Some (HNode x0)" using m1 unfolding ns f by (auto simp: holds_Cons)
  have ne: "q \<noteq> a" "q \<noteq> ls_lock s" "ls_lock s \<noteq> a" using h(2) am l by auto
  have nf: "q \<noteq> ls_first s" "ls_lock s \<noteq> ls_first s"
    using m1f h(2) l ne by (auto split: if_splits)
  let ?x0 = "x0\<lparr>total_length := total_length x0 + counter_step inc\<rparr>"
  let ?m2 = "?m1(ls_first s \<mapsto> HNode ?x0)"
  let ?m3 = "?m2(ls_lock s \<mapsto> HLock UNLOCKED)"
  have m2: "holds ?m2 (chain_cells (bump_total (counter_step inc) ?ns))"
    using holds_bump [of ?m1 f x0 ns' "counter_step inc"] m1 unfolding ns f by simp
  have "ls_lock s \<notin> fst ` set (chain_cells (bump_total (counter_step inc) ?ns))"
  proof
    assume "ls_lock s \<in> fst ` set (chain_cells (bump_total (counter_step inc) ?ns))"
    then obtain z where "(ls_lock s, HNode z) \<in> set (chain_cells (bump_total (counter_step inc) ?ns))"
      by (force simp: chain_cells_def)
    from holdsD [OF m2 this] show False using l ne nf by simp
  qed
  then have m3: "holds ?m3 ((ls_lock s, HLock UNLOCKED) # chain_cells (bump_total (counter_step inc) ?ns))"
    using m2 by (simp add: holds_Cons holds_update_other)
  have e: "m(q \<mapsto> y, a \<mapsto> HNode x') = ?m1(q \<mapsto> y)"
    "(?m1(q \<mapsto> y))(ls_first s \<mapsto> HNode ?x0) = ?m2(q \<mapsto> y)"
    "(?m2(q \<mapsto> y))(ls_lock s \<mapsto> HLock UNLOCKED) = ?m3(q \<mapsto> y)" "(?m3(q \<mapsto> y))(q := None) = ?m3" "(al(q \<mapsto> [q]))(q := None) = al"
    using ne nf h(2,3) by (auto simp: fun_eq_iff)
  have i: "(if inc then 1 else -1) = counter_step inc" by (simp add: counter_step_def)
  have fin: "wp R self (Deallocate Node_t 1 q k) h3 Q" if "heap_is h3 (?m3(q \<mapsto> y)) (al(q \<mapsto> [q]))" for h3
  proof (rule wp_free_copy [OF that], simp, unfold e)
    fix h4 assume h4: "heap_is h4 ?m3 al"
    show "wp R self k h4 Q"
    proof (rule k [OF h4 m3])
      fix b assume b: "b \<notin> insert (ls_lock s) (fst ` set (xs @ (a, x) # ys))"
      have "ls_first s \<in> fst ` set (xs @ (a, x) # ys)" using c(2) by (cases xs) auto
      then have "b \<noteq> ls_lock s" "b \<noteq> ls_first s" "b \<noteq> a" using b by auto
      then show "?m3 b = m b" by simp
    qed
  qed
  show ?thesis
  proof (rule wp_write_node [OF h(1)])
    fix h1 assume h1: "heap_is h1 (m(q \<mapsto> y, a \<mapsto> HNode x')) (al(q \<mapsto> [q]))"
    show "wp R self (changeCount s inc (ls_unlock (ls_lock s) (Deallocate Node_t 1 q k))) h1 Q"
    proof (rule wp_changeCount [OF h1 [unfolded e]])
      show "(?m1(q \<mapsto> y)) (ls_first s) = Some (HNode x0)" using m1f nf by simp
      show "int_range (total_length x0 + (if inc then 1 else - 1))" using x'(2) by (simp only: tot i)
      fix h2 assume "heap_is h2 (?m1(q \<mapsto> y, ls_first s \<mapsto> HNode (x0\<lparr>total_length := total_length x0 +
          (if inc then 1 else - 1)\<rparr>))) (al(q \<mapsto> [q]))"
      then have h2: "heap_is h2 (?m2(q \<mapsto> y)) (al(q \<mapsto> [q]))" by (simp only: i e)
      show "wp R self (ls_unlock (ls_lock s) (Deallocate Node_t 1 q k)) h2 Q"
        by (rule wp_ls_unlock [OF h2], use l ne nf in simp, rule fin, simp only: e)
    qed
  qed (use am ne in simp)
qed

lemma wp_remove_loop:
  assumes "heap_is h m al" "holds m (chain_cells (pre @ ns))" "linked (null_ptr env) p ns" "nodes_ok ns"
    "length ns < n" "m (ls_lock s) = Some (HLock v)"
    "pre @ ns \<noteq> []" "fst (hd (pre @ ns)) = ls_first s" "int_range (chain_total (pre @ ns) - 1)"
    and found: "\<And>h' m' pre' a x post i. heap_is h' m' al \<Longrightarrow> ns = pre' @ (a, x) # post \<Longrightarrow>
      key \<notin> fst ` set (chain_pairs pre') \<Longrightarrow> find_index key (take (node_length x) (node_key x)) = Some i \<Longrightarrow>
      holds m' ((ls_lock s, HLock UNLOCKED) # chain_cells (bump_total (-1) (pre @ pre' @ (a, node_delete x i) # post))) \<Longrightarrow>
      (\<And>b. b \<notin> insert (ls_lock s) (fst ` set (pre @ ns)) \<Longrightarrow> m' b = m b) \<Longrightarrow>
      wp R self (k (ht_res TRUE_STATE (node_value x ! i))) h' Q"
    and missing: "\<And>h'. heap_is h' (m(ls_lock s \<mapsto> HLock UNLOCKED)) al \<Longrightarrow> key \<notin> fst ` set (chain_pairs ns) \<Longrightarrow>
      wp R self (k (ht_res FALSE_STATE 0)) h' Q"
  shows "wp R self (ls_remove_loop env s key n p k) h Q"
  using assms
proof (induction ns arbitrary: n p h pre)
  case Nil
  obtain n' where n: "n = Suc n'" using Nil.prems(5) by (cases n) auto
  have "wp R self (ls_unlock (ls_lock s) (k (ht_res FALSE_STATE 0))) h Q"
    by (rule wp_ls_unlock [OF Nil.prems(1)], use Nil.prems(6) in simp, erule Nil.prems(11), simp)
  then show ?case unfolding n using Nil.prems(3) by simp
next
  case (Cons y ns)
  obtain a x where y: "y = (a, x)" by fastforce
  obtain n' where n: "n = Suc n'" using Cons.prems(5) by (cases n) auto
  have ax: "m a = Some (HNode x)" "p = a" "a \<noteq> null_ptr env" "node_ok x"
    using Cons.prems(2,3,4) by (auto simp: y holds_Cons holds_append)
  have "wp R self (fetch_node a (\<lambda>red_node node_data. search_node node_data key
        (\<lambda>i. Write a (HNode (node_delete node_data i)) None (changeCount s False (ls_unlock (ls_lock s) (
             Deallocate Node_t 1 red_node (k (ht_res TRUE_STATE (node_value node_data ! i)))))))
        (Deallocate Node_t 1 red_node (ls_remove_loop env s key n' (next_node node_data) k)))) h Q"
  proof (rule wp_fetch_node [OF Cons.prems(1) ax(1)], rule wp_search_node [OF ax(4)], goal_cases)
    case (1 q h' i)
    have d: "total_length (node_delete x i) = total_length x" by (simp add: node_delete_def)
    show ?case
    proof (rule wp_finish [OF 1(3,1,2), where xs = pre and x = x and ys = ns, OF _ _ d], goal_cases)
      case (5 h'' m')
      show ?case
        by (rule Cons.prems(10) [OF 5(1), of "[]" a x ns i])
          (use 5(2,3) 1(4) in \<open>simp_all add: y counter_step_def\<close>)
    qed (use Cons.prems(2,6,8,9) in \<open>simp_all add: y counter_step_def\<close>)
  next
    case (2 q h')
    note miss = node_missing [OF ax(4) 2(4)]
    have m: "(m(q \<mapsto> HNode x))(q := None) = m" "(al(q \<mapsto> [q]))(q := None) = al"
      using 2(1,2) by auto
    show ?case
    proof (rule wp_free_copy [OF 2(3)], simp, unfold m)
      fix h'' assume h'': "heap_is h'' m al"
      show "wp R self (ls_remove_loop env s key n' (next_node x) k) h'' Q"
      proof (rule Cons.IH [OF h'', where pre = "pre @ [y]"], goal_cases)
        case (9 h3 m' pre' b z post i)
        show ?case
          by (rule Cons.prems(10) [OF 9(1), of "y # pre'" b z post i])
            (use 9 miss in \<open>auto simp: y\<close>)
      next
        case (10 h3)
        show ?case by (rule Cons.prems(11) [OF 10(1)]) (use 10(2) miss in \<open>auto simp: y\<close>)
      qed (use Cons.prems(2-9) n in \<open>auto simp: y\<close>)
    qed
  qed
  then show ?case unfolding n using ax by simp
qed

lemma new_node:
  "node_pairs (new_node_data env key v) = [(key, v)]" "node_ok (new_node_data env key v)"
  "next_node (new_node_data env key v) = null_ptr env"
  using junk by (auto simp: node_pairs_def new_node_data_def node_ok_def NODE_BUNDLE_SIZE_def take_Suc_conv_app_nth)

text \<open>The chain after a successful \<open>insert\<close> that ended at node \<open>a\<close>.\<close>

definition inserted :: "key \<Rightarrow> val \<Rightarrow> chain \<Rightarrow> remote_ptr \<Rightarrow> Node \<Rightarrow> chain \<Rightarrow> bool" where
  "inserted key v ns' a x post \<longleftrightarrow>
     (if node_length x = NODE_BUNDLE_SIZE
      then post = [] \<and> (\<exists>b. b \<noteq> null_ptr env \<and> ns' = [(a, x\<lparr>next_node := b\<rparr>), (b, new_node_data env key v)])
      else ns' = (a, node_add x key v) # post)"

lemma wp_insert_loop:
  assumes "heap_is h m al" "holds m (chain_cells (pre @ ns))" "linked (null_ptr env) p ns" "nodes_ok ns" "ns \<noteq> []"
    "length ns \<le> n" "m (ls_lock s) = Some (HLock v)"
    "fst (hd (pre @ ns)) = ls_first s" "int_range (chain_total (pre @ ns) + 1)"
    and found: "\<And>h' w. heap_is h' (m(ls_lock s \<mapsto> HLock UNLOCKED)) al \<Longrightarrow> map_of (chain_pairs ns) key = Some w \<Longrightarrow>
      (\<exists>pre' b y post. ns = pre' @ (b, y) # post \<and> (\<forall>(c, z) \<in> set pre'. node_length z = NODE_BUNDLE_SIZE) \<and>
        key \<in> fst ` set (node_pairs y)) \<Longrightarrow>
      wp R self (k (ht_res FALSE_STATE w)) h' Q"
    and missing: "\<And>h' m' al' pre' a x post ns'. heap_is h' m' al' \<Longrightarrow> ns = pre' @ (a, x) # post \<Longrightarrow>
      key \<notin> fst ` set (chain_pairs (pre' @ [(a, x)])) \<Longrightarrow>
      (\<forall>(b, y) \<in> set pre'. node_length y = NODE_BUNDLE_SIZE) \<Longrightarrow> inserted key w ns' a x post \<Longrightarrow>
      holds m' ((ls_lock s, HLock UNLOCKED) # chain_cells (bump_total 1 (pre @ pre' @ ns'))) \<Longrightarrow>
      (\<And>b. b \<notin> insert (ls_lock s) (fst ` set (pre @ ns)) \<Longrightarrow> m b \<noteq> None \<Longrightarrow> m' b = m b) \<Longrightarrow>
      (\<And>b. al b \<noteq> None \<Longrightarrow> al' b = al b) \<Longrightarrow> (\<forall>b \<in> fst ` set ns'. b \<in> fst ` set ns \<or> m b = None) \<Longrightarrow>
      wp R self (k (ht_res TRUE_STATE 0)) h' Q"
  shows "wp R self (ls_insert_loop env s key w n p k) h Q"
  using assms
proof (induction ns arbitrary: n p h pre)
  case (Cons y ns)
  obtain a x where y: "y = (a, x)" by fastforce
  obtain n' where n: "n = Suc n'" using Cons.prems(6) by (cases n) auto
  have ax: "m a = Some (HNode x)" "p = a" "a \<noteq> null_ptr env" "node_ok x" "linked (null_ptr env) (next_node x) ns"
    using Cons.prems(2,3,4) by (auto simp: y holds_Cons holds_append)
  have "wp R self (fetch_node a (\<lambda>red_node node_data. search_node node_data key
      (\<lambda>i. ls_unlock (ls_lock s) (Deallocate Node_t 1 red_node (k (ht_res FALSE_STATE (node_value node_data ! i)))))
      (if node_length node_data = NODE_BUNDLE_SIZE then
         (if next_node node_data = null_ptr env then
            Allocate Node_t 1 (\<lambda>new_node. Store new_node (HNode (new_node_data env key w)) (
              insert_finish s a (node_data\<lparr>next_node := new_node\<rparr>) red_node k))
          else Deallocate Node_t 1 red_node (ls_insert_loop env s key w n' (next_node node_data) k))
       else insert_finish s a (node_add node_data key w) red_node k))) h Q"
  proof (rule wp_fetch_node [OF Cons.prems(1) ax(1)], rule wp_search_node [OF ax(4)], goal_cases)
    case (1 q h' i)
    have f: "map_of (chain_pairs (y # ns)) key = Some (node_value x ! i)"
      using node_found(2) [OF ax(4) 1(4)] by (simp add: y map_add_def)
    have "key \<in> fst ` set (node_pairs x)"
      using map_of_SomeD [OF node_found(2) [OF ax(4) 1(4)]] by force
    then have vis: "\<exists>pre' b z post. y # ns = pre' @ (b, z) # post \<and>
        (\<forall>(c, z) \<in> set pre'. node_length z = NODE_BUNDLE_SIZE) \<and> key \<in> fst ` set (node_pairs z)"
      by (intro exI [of _ "[]"]) (simp add: y)
    have ne: "q \<noteq> ls_lock s" using 1(1) Cons.prems(7) by auto
    have m: "(m(q \<mapsto> HNode x, ls_lock s \<mapsto> HLock UNLOCKED))(q := None) = m(ls_lock s \<mapsto> HLock UNLOCKED)"
      "(al(q \<mapsto> [q]))(q := None) = al"
      using ne 1(1,2) by auto
    show ?case
      by (rule wp_ls_unlock [OF 1(3)], use Cons.prems(7) ne in simp, rule wp_free_copy, assumption, simp)
        (unfold m, erule Cons.prems(10) [OF _ f vis])
  next
    case (2 q h')
    note miss = node_missing [OF ax(4) 2(4)]
    have no: "map_of (node_pairs x) key = None" using miss by (simp add: map_of_eq_None_iff)
    show ?case
    proof (cases "node_length x = NODE_BUNDLE_SIZE")
      case False
      have "wp R self (insert_finish s a (node_add x key w) q k) h' Q"
        unfolding insert_finish_def
      proof (rule wp_finish [OF 2(3,1,2), where xs = pre and x = x and ys = ns], goal_cases)
        case (6 h'' m')
        show ?case
          by (rule Cons.prems(11) [OF 6(1), of "[]" a x ns "(a, node_add x key w) # ns"])
            (use 6(2,3) miss False in \<open>simp_all add: y counter_step_def inserted_def\<close>)
      qed (use Cons.prems(2,7,8,9) in \<open>simp_all add: y counter_step_def node_add_def\<close>)
      then show ?thesis using False by simp
    next
      case full: True
      show ?thesis
      proof (cases "next_node x = null_ptr env")
        case False
        have m: "(m(q \<mapsto> HNode x))(q := None) = m" "(al(q \<mapsto> [q]))(q := None) = al"
          using 2(1,2) by auto
        have ns: "ns \<noteq> []" using ax(5) False by auto
        have "wp R self (Deallocate Node_t 1 q (ls_insert_loop env s key w n' (next_node x) k)) h' Q"
        proof (rule wp_free_copy [OF 2(3)], simp, unfold m)
          fix h'' assume h'': "heap_is h'' m al"
          show "wp R self (ls_insert_loop env s key w n' (next_node x) k) h'' Q"
          proof (rule Cons.IH [OF h'', where pre = "pre @ [y]"], goal_cases)
            case (9 h3 u)
            obtain pre' b z post where v: "ns = pre' @ (b, z) # post"
              "\<forall>(c, z) \<in> set pre'. node_length z = NODE_BUNDLE_SIZE" "key \<in> fst ` set (node_pairs z)"
              using 9(3) by blast
            show ?case
            proof (rule Cons.prems(10) [OF 9(1)])
              show "map_of (chain_pairs (y # ns)) key = Some u" using 9(2) no by (simp add: y map_add_def)
              show "\<exists>pre' b z post. y # ns = pre' @ (b, z) # post \<and>
                  (\<forall>(c, z) \<in> set pre'. node_length z = NODE_BUNDLE_SIZE) \<and> key \<in> fst ` set (node_pairs z)"
                using v full by (intro exI [of _ "y # pre'"] exI [of _ b] exI [of _ z] exI [of _ post]) (simp add: y)
            qed
          next
            case (10 h3 m' al' pre' b z post ns')
            show ?case
              by (rule Cons.prems(11) [OF 10(1), of "y # pre'" b z post ns'])
                (use 10 miss full in \<open>auto simp: y\<close>)
          qed (use Cons.prems(2-9) n ns in \<open>auto simp: y\<close>)
        qed
        then show ?thesis using full False by simp
      next
        case True
        have ns: "ns = []" using ax(5) True by (cases ns) (auto split: prod.splits)
        have "wp R self (Allocate Node_t 1 (\<lambda>new_node. Store new_node (HNode (new_node_data env key w)) (
            insert_finish s a (x\<lparr>next_node := new_node\<rparr>) q k))) h' Q"
        proof (rule wp_Allocate [of h'])
          fix b h2 cs
          assume h2: "ok h2" "b \<noteq> remote_nullptr R" "ptr_id b = self" "length cs = 1 * ct_cells Node_t"
            "allocated h' h2 b (block Node_t 1 b) cs"
          obtain z where z: "cs = [z]" using h2(4) by (cases cs) auto
          have b: "m b = None" "al b = None" "b \<noteq> q"
            and c2: "cells h2 = m(q \<mapsto> HNode x, b \<mapsto> z)" "allocs h2 = al(q \<mapsto> [q], b \<mapsto> [b])"
            using h2(5) 2(3) by (auto simp: z allocated_single heap_is_def split: if_splits)
          let ?nd = "new_node_data env key w"
          let ?m = "m(b \<mapsto> HNode ?nd)" and ?al = "al(b \<mapsto> [b])"
          show "wp R self (Store b (HNode ?nd) (insert_finish s a (x\<lparr>next_node := b\<rparr>) q k)) h2 Q"
          proof (rule wp_Store_ok [OF h2(1,3)])
            show "cells h2 b \<noteq> None" by (simp add: c2)
            fix h3 assume h3: "ok h3" "cells h3 = (cells h2)(b \<mapsto> HNode ?nd)" "allocs h3 = allocs h2"
            have h3': "heap_is h3 (?m(q \<mapsto> HNode x)) (?al(q \<mapsto> [q]))"
              using h3 b(3) by (auto simp: heap_is_def c2)
            have hold: "holds ?m (chain_cells (pre @ (a, x) # [(b, ?nd)]))"
              using holds_extend [OF Cons.prems(2) b(1)] by (simp add: y ns)
            have bl: "b \<noteq> ls_lock s" using b(1) Cons.prems(7) by auto
            have ct: "chain_total (pre @ [(a, x), (b, ?nd)]) = chain_total (pre @ [(a, x)])"
              by (cases pre) (auto simp: chain_total_def)
            show "wp R self (insert_finish s a (x\<lparr>next_node := b\<rparr>) q k) h3 Q"
              unfolding insert_finish_def
            proof (rule wp_finish [OF h3' _ _ hold], goal_cases)
              case (7 h4 m')
              have fr: "m' d = m d" if "d \<notin> insert (ls_lock s) (fst ` set (pre @ y # ns))" "m d \<noteq> None" for d
              proof -
                have "d \<noteq> b" using that(2) b(1) by auto
                then show ?thesis using 7(3) [of d] that(1) by (simp add: y ns)
              qed
              show ?case
                by (rule Cons.prems(11) [OF 7(1), of "[]" a x "[]" "[(a, x\<lparr>next_node := b\<rparr>), (b, ?nd)]", OF _ _ _ _ _ fr])
                  (use 7(2) miss full b h2(2) in \<open>auto simp: y ns counter_step_def inserted_def nul\<close>)
            qed (use Cons.prems(7,8,9) b 2(1,2) bl in \<open>auto simp: y ns counter_step_def ct hd_append\<close>)
          qed
        qed (use 2(3) in \<open>simp_all add: heap_is_def\<close>)
        then show ?thesis using full True by simp
      qed
    qed
  qed
  then show ?case unfolding n using ax by simp
qed simp

end

section \<open>The methods\<close>

lemma linked_replace:
  "next_node x' = next_node x \<Longrightarrow> linked nul p (pre @ (a, x') # post) = linked nul p (pre @ (a, x) # post)"
  by (induction pre arbitrary: p) (auto split: prod.splits)

lemma linked_extend:
  "linked nul p (pre @ [(a, x)]) \<Longrightarrow> b \<noteq> nul \<Longrightarrow> next_node y = nul \<Longrightarrow>
   linked nul p (pre @ [(a, x\<lparr>next_node := b\<rparr>), (b, y)])"
  by (induction pre arbitrary: p) (auto split: prod.splits)

lemma packed_full:
  "packed (pre @ (a, x) # post) \<Longrightarrow> node_length x \<noteq> NODE_BUNDLE_SIZE \<Longrightarrow> post = []"
proof (induction pre rule: packed.induct)
  case 1
  then show ?case by (cases post) auto
next
  case (2 n)
  then show ?case by (cases n; cases post) auto
qed auto

lemma packed_snoc: "\<forall>(b, y) \<in> set pre. node_length y = NODE_BUNDLE_SIZE \<Longrightarrow> packed (pre @ [n])"
proof (induction pre)
  case (Cons p pre)
  then show ?case by (cases p; cases pre) auto
qed simp

lemma linked_first: "linked nul p ns \<Longrightarrow> ns \<noteq> [] \<Longrightarrow> fst (hd ns) = p"
  by (cases ns) (auto split: prod.splits)

lemma chain_total_replace:
  "total_length x' = total_length x \<Longrightarrow> chain_total (pre @ (a, x') # post) = chain_total (pre @ (a, x) # post)"
  by (cases pre) (auto simp: chain_total_def)

text \<open>The three effects on the pairs of a chain.\<close>

lemma chain_delete:
  assumes "distinct (map fst (chain_pairs (pre @ (a, x) # post)))" "node_ok x"
    "find_index key (take (node_length x) (node_key x)) = Some i"
  shows "distinct (map fst (chain_pairs (pre @ (a, node_delete x i) # post)))"
    "map_of (chain_pairs (pre @ (a, node_delete x i) # post)) = (map_of (chain_pairs (pre @ (a, x) # post)))(key := None)"
    "map_of (chain_pairs (pre @ (a, x) # post)) key = Some (node_value x ! i)"
    "length (chain_pairs (pre @ (a, node_delete x i) # post)) = length (chain_pairs (pre @ (a, x) # post)) - 1"
    "1 \<le> length (chain_pairs (pre @ (a, x) # post))"
proof -
  let ?A = "chain_pairs pre" and ?B = "chain_pairs post" and ?p = "(key, node_value x ! i)"
  have i: "i < node_length x" "i < length (node_pairs x)" "node_pairs x ! i = ?p"
    using node_found [OF assms(2,3)] node_pairs_keys(2) [OF assms(2)] by auto
  note nd = node_delete_pairs [OF assms(2) i(1)]
  have dx: "distinct (map fst (node_pairs x))" using assms(1) by simp
  note sw = set_butlast_swap [OF dx i(2)]
  have mem: "?p \<in> set (node_pairs x)" using nth_mem [OF i(2)] i(3) by simp
  have out: "?p \<notin> set ?A" "?p \<notin> set ?B" using assms(1) mem by force+
  have set': "set (chain_pairs (pre @ (a, node_delete x i) # post)) = set (chain_pairs (pre @ (a, x) # post)) - {?p}"
    using out by (auto simp: nd(1) sw(1) i(3))
  show d': "distinct (map fst (chain_pairs (pre @ (a, node_delete x i) # post)))"
    using assms(1) sw(2) by (auto simp: nd(1) sw(1))
  have mem': "?p \<in> set (chain_pairs (pre @ (a, x) # post))" using mem by simp
  show "map_of (chain_pairs (pre @ (a, node_delete x i) # post)) = (map_of (chain_pairs (pre @ (a, x) # post)))(key := None)"
    by (rule map_of_remove [OF assms(1) d' set' mem'])
  show "map_of (chain_pairs (pre @ (a, x) # post)) key = Some (node_value x ! i)"
    using map_of_eq_Some_iff [OF assms(1)] mem' by simp
  show "length (chain_pairs (pre @ (a, node_delete x i) # post)) = length (chain_pairs (pre @ (a, x) # post)) - 1"
    "1 \<le> length (chain_pairs (pre @ (a, x) # post))"
    using i(2) by (auto simp: nd(1))
qed

context ls_pool
begin

lemma chain_insert:
  assumes "inserted key w ns' a x post" "nodes_ok (pre @ (a, x) # post)" "packed (pre @ (a, x) # post)"
    "linked (null_ptr env) p (pre @ (a, x) # post)" "key \<notin> fst ` set (chain_pairs (pre @ [(a, x)]))"
    "\<forall>(b, y) \<in> set pre. node_length y = NODE_BUNDLE_SIZE"
  shows "chain_pairs (pre @ ns') = chain_pairs (pre @ (a, x) # post) @ [(key, w)]" "packed (pre @ ns')"
    "nodes_ok (pre @ ns')" "linked (null_ptr env) p (pre @ ns')" "chain_total (pre @ ns') = chain_total (pre @ (a, x) # post)"
    "key \<notin> fst ` set (chain_pairs (pre @ (a, x) # post))" "pre @ ns' \<noteq> []"
proof -
  have "chain_pairs (pre @ ns') = chain_pairs (pre @ (a, x) # post) @ [(key, w)] \<and> packed (pre @ ns') \<and>
    nodes_ok (pre @ ns') \<and> linked (null_ptr env) p (pre @ ns') \<and>
    chain_total (pre @ ns') = chain_total (pre @ (a, x) # post) \<and> post = [] \<and> pre @ ns' \<noteq> []"
  proof (cases "node_length x = NODE_BUNDLE_SIZE")
    case True
    then obtain b where b: "post = []" "b \<noteq> null_ptr env" "ns' = [(a, x\<lparr>next_node := b\<rparr>), (b, new_node_data env key w)]"
      using assms(1) by (auto simp: inserted_def)
    have "packed ((pre @ [(a, x\<lparr>next_node := b\<rparr>)]) @ [(b, new_node_data env key w)])"
      by (rule packed_snoc) (use assms(6) True in auto)
    moreover have "chain_total (pre @ ns') = chain_total (pre @ (a, x) # post)"
      by (cases pre) (auto simp: chain_total_def b)
    moreover have "linked (null_ptr env) p (pre @ ns')"
      unfolding b(3) by (rule linked_extend) (use assms(4) b new_node in auto)
    ultimately show ?thesis using assms(2) by (auto simp: b new_node)
  next
    case False
    have post: "post = []" by (rule packed_full [OF assms(3) False])
    have ns': "ns' = [(a, node_add x key w)]" using assms(1) False post by (simp add: inserted_def)
    have x: "node_ok x" using assms(2) by simp
    have t: "total_length (node_add x key w) = total_length x" "next_node (node_add x key w) = next_node x"
      by (simp_all add: node_add_def)
    have "linked (null_ptr env) p (pre @ ns')"
      using assms(4) linked_replace [OF t(2)] by (simp add: ns' post)
    moreover have "chain_total (pre @ ns') = chain_total (pre @ (a, x) # post)"
      using chain_total_replace [OF t(1)] by (simp add: ns' post)
    moreover have "packed (pre @ ns')" unfolding ns' by (rule packed_snoc [OF assms(6)])
    ultimately show ?thesis
      using assms(2) node_add_pairs [OF x False] by (simp add: ns' post)
  qed
  then show "chain_pairs (pre @ ns') = chain_pairs (pre @ (a, x) # post) @ [(key, w)]" "packed (pre @ ns')"
    "nodes_ok (pre @ ns')" "linked (null_ptr env) p (pre @ ns')" "chain_total (pre @ ns') = chain_total (pre @ (a, x) # post)"
    "key \<notin> fst ` set (chain_pairs (pre @ (a, x) # post))" "pre @ ns' \<noteq> []"
    using assms(5) by blast+
qed

lemma full_pairs:
  "\<forall>(b, y) \<in> set pre. node_length y = NODE_BUNDLE_SIZE \<Longrightarrow> nodes_ok pre \<Longrightarrow>
   length (chain_pairs pre) = NODE_BUNDLE_SIZE * length pre"
  by (induction pre) (auto simp: node_pairs_keys)

lemma inserted_length:
  assumes "inserted key w ns' a x post" "\<forall>(b, y) \<in> set pre. node_length y = NODE_BUNDLE_SIZE"
    "nodes_ok (pre @ (a, x) # post)"
  shows "length (pre @ ns') = length (pre @ (a, x) # post) \<or>
    length (chain_pairs (pre @ (a, x) # post) @ [(key, w)]) = Suc (NODE_BUNDLE_SIZE * length (pre @ (a, x) # post))"
  using assms full_pairs [OF assms(2)] by (auto simp: inserted_def node_pairs_keys split: if_splits)

lemma ls_repD:
  assumes "ls_rep (null_ptr env) m s ns st"
  shows "m (ls_lock s) = Some (HLock st)" "holds m (chain_cells ns)" "linked (null_ptr env) (ls_first s) ns"
    "nodes_ok ns" "ns \<noteq> []" "chain_total ns = int (length (chain_pairs ns))" "ls_lock s \<notin> fst ` set (chain_cells ns)"
  using assms by (auto simp: ls_rep_def holds_Cons)

text \<open>The lock is taken: the chain is still there.\<close>

lemma locked_chain:
  assumes "ls_rep (null_ptr env) m s ns st"
  shows "holds (m(ls_lock s \<mapsto> HLock v)) (chain_cells ns)"
  using ls_repD [OF assms] by (auto intro: holds_update_other)

lemma contains_rep:
  assumes "ok h" "ls_rep (null_ptr env) (cells h) s ns UNLOCKED" "length ns < fuel"
    and "\<And>h'. ok h' \<Longrightarrow> cells h' = cells h \<Longrightarrow> allocs h' = allocs h \<Longrightarrow>
      wp R self (k (spec_contains (map_of (chain_pairs ns)) key)) h' Q"
  shows "wp R self (ls_contains env fuel s key k) h Q"
proof -
  note rep = ls_repD [OF assms(2)]
  obtain n where n: "fuel = Suc n" using assms(3) by (cases fuel) auto
  have h: "heap_is h (cells h) (allocs h)" using assms(1) by (simp add: heap_is_def)
  show ?thesis unfolding ls_contains_def n
  proof (rule wp_ls_acquire [OF h rep(1)], simp)
    fix h1
    assume "heap_is h1 (if UNLOCKED = UNLOCKED then (cells h)(ls_lock s \<mapsto> HLock LOCKED) else cells h) (allocs h)"
    then have h1: "heap_is h1 ((cells h)(ls_lock s \<mapsto> HLock LOCKED)) (allocs h)" by simp
    have "wp R self (ls_contains_loop env s key (Suc n) (ls_first s) k) h1 Q"
    proof (rule wp_contains_loop [OF h1 locked_chain [OF assms(2)] rep(3,4)])
      fix h2 assume "heap_is h2 ((cells h)(ls_lock s \<mapsto> HLock LOCKED, ls_lock s \<mapsto> HLock UNLOCKED)) (allocs h)"
      then show "wp R self (k (spec_contains (map_of (chain_pairs ns)) key)) h2 Q"
        using rep(1) by (intro assms(4)) (auto simp: heap_is_def fun_upd_idem)
    qed (use assms(3) n in auto)
    then show "wp R self (if \<not> UNLOCKED = UNLOCKED then k (ht_res REHASH_DELETED 0)
        else ls_contains_loop env s key (Suc n) (ls_first s) k) h1 Q" by simp
  qed
qed

lemma remove_rep:
  assumes "ok h" "ls_rep (null_ptr env) (cells h) s ns UNLOCKED" "length ns < fuel"
    "distinct (map fst (chain_pairs ns))" "length (chain_pairs ns) < 2 ^ 31"
    and k: "\<And>h' ns'. ok h' \<Longrightarrow> ls_rep (null_ptr env) (cells h') s ns' UNLOCKED \<Longrightarrow>
      distinct (map fst (chain_pairs ns')) \<Longrightarrow>
      map_of (chain_pairs ns') = snd (spec_remove (map_of (chain_pairs ns)) key) \<Longrightarrow> allocs h' = allocs h \<Longrightarrow>
      (\<And>b. b \<notin> insert (ls_lock s) (fst ` set ns) \<Longrightarrow> cells h' b = cells h b) \<Longrightarrow> map fst ns' = map fst ns \<Longrightarrow>
      length (chain_pairs ns') \<le> length (chain_pairs ns) \<Longrightarrow>
      wp R self (k (fst (spec_remove (map_of (chain_pairs ns)) key))) h' Q"
  shows "wp R self (ls_remove env fuel s key k) h Q"
proof -
  note rep = ls_repD [OF assms(2)]
  obtain n where n: "fuel = Suc n" using assms(3) by (cases fuel) auto
  have h: "heap_is h (cells h) (allocs h)" using assms(1) by (simp add: heap_is_def)
  have rng: "int_range (chain_total ns - 1)" using assms(5) by (simp add: int_range_def rep(6))
  show ?thesis unfolding ls_remove_def n
  proof (rule wp_ls_acquire [OF h rep(1)], simp)
    fix h1
    assume "heap_is h1 (if UNLOCKED = UNLOCKED then (cells h)(ls_lock s \<mapsto> HLock LOCKED) else cells h) (allocs h)"
    then have h1: "heap_is h1 ((cells h)(ls_lock s \<mapsto> HLock LOCKED)) (allocs h)" by simp
    have "wp R self (ls_remove_loop env s key (Suc n) (ls_first s) k) h1 Q"
    proof (rule wp_remove_loop [OF h1, where pre = "[]" and ns = ns], goal_cases)
      case (9 h2 m' pre a x post i)
      have ns: "ns = pre @ (a, x) # post" using 9(2) by simp
      have x: "node_ok x" using rep(4) by (simp add: ns)
      note del = chain_delete [OF assms(4) [unfolded ns] x 9(4)]
      have nd: "node_ok (node_delete x i)" "next_node (node_delete x i) = next_node x"
        "total_length (node_delete x i) = total_length x"
        using node_delete_pairs(2) [OF x node_found(1) [OF x 9(4)]] by (simp_all add: node_delete_def)
      let ?ns = "bump_total (-1) (pre @ (a, node_delete x i) # post)"
      have "ls_rep (null_ptr env) m' s ?ns UNLOCKED"
        unfolding ls_rep_def using 9(5) rep(3,4,6) nd(1) linked_replace [OF nd(2)] del(4,5) chain_total_replace [OF nd(3)]
        by (auto simp: ns)
      moreover have "(ht_res TRUE_STATE (node_value x ! i), map_of (chain_pairs ?ns)) =
          spec_remove (map_of (chain_pairs ns)) key"
        using del(2,3) unfolding ns spec_remove_def bump_total_props by simp
      moreover have "map fst ?ns = map fst ns" by (cases pre) (auto simp: ns)
      moreover have "length (chain_pairs ?ns) \<le> length (chain_pairs ns)" using del(4) by (simp add: ns)
      ultimately show ?case
        using k [of h2 ?ns] 9(1,6) del(1) by (cases "spec_remove (map_of (chain_pairs ns)) key") (auto simp: heap_is_def)
    next
      case (10 h2)
      have "map_of (chain_pairs ns) key = None" using 10(2) by (simp add: map_of_eq_None_iff)
      then show ?case
        using k [of h2 ns] 10(1) assms(2,4) rep(1) by (auto simp: heap_is_def spec_remove_def fun_upd_idem)
    qed (use assms(3) n rep(3-5) linked_first [OF rep(3,5)] rng locked_chain [OF assms(2)] in auto)
    then show "wp R self (if \<not> UNLOCKED = UNLOCKED then k (ht_res REHASH_DELETED 0)
        else ls_remove_loop env s key (Suc n) (ls_first s) k) h1 Q" by simp
  qed
qed

lemma insert_rep:
  assumes "ok h" "ls_rep (null_ptr env) (cells h) s ns UNLOCKED" "length ns \<le> fuel"
    "packed ns" "length (chain_pairs ns) < 2 ^ 31 - 1"
    and k: "\<And>h' ns'. ok h' \<Longrightarrow> ls_rep (null_ptr env) (cells h') s ns' UNLOCKED \<Longrightarrow> packed ns' \<Longrightarrow>
      (distinct (map fst (chain_pairs ns)) \<longrightarrow> distinct (map fst (chain_pairs ns'))) \<Longrightarrow>
      map_of (chain_pairs ns') = snd (spec_insert (map_of (chain_pairs ns)) key w) \<Longrightarrow>
      (\<And>b. b \<notin> insert (ls_lock s) (fst ` set ns) \<Longrightarrow> cells h b \<noteq> None \<Longrightarrow> cells h' b = cells h b) \<Longrightarrow>
      (\<And>b. allocs h b \<noteq> None \<Longrightarrow> allocs h' b = allocs h b) \<Longrightarrow>
      (\<forall>b \<in> fst ` set ns'. b \<in> fst ` set ns \<or> cells h b = None) \<Longrightarrow>
      chain_pairs ns' = (if key \<in> fst ` set (chain_pairs ns) then chain_pairs ns else chain_pairs ns @ [(key, w)]) \<Longrightarrow>
      (length ns' = length ns \<or> length (chain_pairs ns') = Suc (NODE_BUNDLE_SIZE * length ns)) \<Longrightarrow>
      wp R self (k (fst (spec_insert (map_of (chain_pairs ns)) key w))) h' Q"
  shows "wp R self (ls_insert env fuel s key w k) h Q"
proof -
  note rep = ls_repD [OF assms(2)]
  obtain n where n: "fuel = Suc n" using assms(3) rep(5) by (cases fuel) auto
  have h: "heap_is h (cells h) (allocs h)" using assms(1) by (simp add: heap_is_def)
  have rng: "int_range (chain_total ns + 1)" using assms(5) by (simp add: int_range_def rep(6))
  show ?thesis unfolding ls_insert_def n
  proof (rule wp_ls_acquire [OF h rep(1)], simp)
    fix h1
    assume "heap_is h1 (if UNLOCKED = UNLOCKED then (cells h)(ls_lock s \<mapsto> HLock LOCKED) else cells h) (allocs h)"
    then have h1: "heap_is h1 ((cells h)(ls_lock s \<mapsto> HLock LOCKED)) (allocs h)" by simp
    have "wp R self (ls_insert_loop env s key w (Suc n) (ls_first s) k) h1 Q"
    proof (rule wp_insert_loop [OF h1, where pre = "[]" and ns = ns], goal_cases)
      case (9 h2 u)
      then have "key \<in> fst ` set (chain_pairs ns)" by (force dest: map_of_SomeD)
      then show ?case
        using k [of h2 ns] 9(1,2) assms(2,4) rep(1) by (auto simp: heap_is_def spec_insert_def fun_upd_idem)
    next
      case (10 h2 m' al' pre a x post ns')
      have ns: "ns = pre @ (a, x) # post" using 10(2) by simp
      note ins = chain_insert [OF 10(5) rep(4) [unfolded ns] assms(4) [unfolded ns] rep(3) [unfolded ns] 10(3,4)]
      let ?ns = "bump_total 1 (pre @ ns')"
      have h2: "ok h2" "cells h2 = m'" "allocs h2 = al'" using 10(1) by (simp_all add: heap_is_def)
      have r2: "ls_rep (null_ptr env) (cells h2) s ?ns UNLOCKED"
        unfolding ls_rep_def h2 using 10(6) rep(6) ins by (simp add: ns)
      have sp: "(ht_res TRUE_STATE 0, map_of (chain_pairs ?ns)) = spec_insert (map_of (chain_pairs ns)) key w"
      proof -
        have "map_of (chain_pairs ns) key = None"
          using ins(6) unfolding ns by (rule map_of_eq_None_iff [THEN iffD2])
        moreover have "map_of (chain_pairs ?ns) = (map_of (chain_pairs ns))(key \<mapsto> w)"
          unfolding bump_total_props ins(1) ns [symmetric] using calculation
          by (auto simp: fun_eq_iff map_add_def split: option.splits)
        ultimately show ?thesis by (simp add: spec_insert_def)
      qed
      have dist: "distinct (map fst (chain_pairs ns)) \<longrightarrow> distinct (map fst (chain_pairs ?ns))"
        using ins(1,6) unfolding bump_total_props ns [symmetric] by auto
      have pk: "packed ?ns" using ins(2) by simp
      have old: "map fst (bump_total i xs) = map fst xs" for i xs by (cases xs) auto
      have fresh: "\<forall>b \<in> fst ` set ?ns. b \<in> fst ` set ns \<or> cells h b = None"
      proof
        fix b assume "b \<in> fst ` set ?ns"
        then have "b \<in> fst ` set pre \<or> b \<in> fst ` set ns'"
          using arg_cong [OF old [of 1 "pre @ ns'"], of set] by (auto simp: image_Un)
        then show "b \<in> fst ` set ns \<or> cells h b = None" using 10(9) by (fastforce simp: ns split: if_splits)
      qed
      have prs: "chain_pairs ?ns = (if key \<in> fst ` set (chain_pairs ns) then chain_pairs ns else chain_pairs ns @ [(key, w)])"
        using ins(1,6) unfolding bump_total_props ns [symmetric] by simp
      have len: "length ?ns = length ns \<or> length (chain_pairs ?ns) = Suc (NODE_BUNDLE_SIZE * length ns)"
        using inserted_length [OF 10(5,4) rep(4) [unfolded ns]] arg_cong [OF old [of 1 "pre @ ns'"], of length] ins(1)
        unfolding bump_total_props by (auto simp: ns)
      have "wp R self (k (fst (spec_insert (map_of (chain_pairs ns)) key w))) h2 Q"
        by (rule k [OF h2(1) r2 pk dist]) (use 10(7,8) fresh prs len in \<open>simp_all add: sp [symmetric] h2\<close>)
      then show ?case by (simp add: sp [symmetric])
    qed (use assms(3) n rep(3-5) linked_first [OF rep(3,5)] rng locked_chain [OF assms(2)] in auto)
    then show "wp R self (if \<not> UNLOCKED = UNLOCKED then k (ht_res REHASH_DELETED w)
        else ls_insert_loop env s key w (Suc n) (ls_first s) k) h1 Q" by simp
  qed
qed

lemma new_rep:
  assumes "ok h"
    and "\<And>s h' ns. ok h' \<Longrightarrow> ls_rep (null_ptr env) (cells h') s ns UNLOCKED \<Longrightarrow> length ns = 1 \<Longrightarrow>
      chain_pairs ns = [] \<Longrightarrow> (\<And>b. cells h b \<noteq> None \<Longrightarrow> cells h' b = cells h b) \<Longrightarrow>
      (\<And>b. b \<in> insert (ls_lock s) (fst ` set ns) \<Longrightarrow> cells h b = None) \<Longrightarrow>
      (\<And>b. allocs h b \<noteq> None \<Longrightarrow> allocs h' b = allocs h b) \<Longrightarrow> wp R self (k s) h' Q"
  shows "wp R self (ls_new env k) h Q"
  unfolding ls_new_def
proof (rule wp_Allocate [OF assms(1)])
  fix l h1 cs
  assume h1: "ok h1" "ptr_id l = self" "length cs = 1 * ct_cells hlock_t" "allocated h h1 l (block hlock_t 1 l) cs"
  obtain z where "cs = [z]" using h1(3) by (cases cs) auto
  then have c1: "cells h l = None" "cells h1 = (cells h)(l \<mapsto> z)" "allocs h l = None" "allocs h1 = (allocs h)(l \<mapsto> [l])"
    using h1(4) by (auto simp: allocated_single)
  let ?x = "(junk_node env)\<lparr>next_node := null_ptr env, node_length := 0, total_length := 0\<rparr>"
  show "wp R self (Store l (HLock UNLOCKED) (Allocate Node_t 1 (\<lambda>f. Store f (HNode ?x)
      (k \<lparr>ls_lock = l, ls_first = f\<rparr>)))) h1 Q"
  proof (rule wp_Store_ok [OF h1(1,2)], simp add: c1, rule wp_Allocate)
    fix h2 f h3 cs
    assume h2: "cells h2 = (cells h1)(l \<mapsto> HLock UNLOCKED)" "allocs h2 = allocs h1" and h3: "ok h3" "f \<noteq> remote_nullptr R" "ptr_id f = self"
      "length cs = 1 * ct_cells Node_t" "allocated h2 h3 f (block Node_t 1 f) cs"
    obtain y where "cs = [y]" using h3(4) by (cases cs) auto
    then have c3: "cells h2 f = None" "cells h3 = (cells h2)(f \<mapsto> y)" "allocs h2 f = None" "allocs h3 = (allocs h2)(f \<mapsto> [f])"
      using h3(5) by (auto simp: allocated_single)
    have ne: "f \<noteq> l" using c3(1) by (auto simp: h2)
    show "wp R self (Store f (HNode ?x) (k \<lparr>ls_lock = l, ls_first = f\<rparr>)) h3 Q"
    proof (rule wp_Store_ok [OF h3(1,3)], simp add: c3)
      fix h4 assume h4: "ok h4" "cells h4 = (cells h3)(f \<mapsto> HNode ?x)" "allocs h4 = allocs h3"
      have c4: "cells h4 = (cells h)(l \<mapsto> HLock UNLOCKED, f \<mapsto> HNode ?x)" using ne by (auto simp: h4 c3 h2 c1)
      have fh: "cells h f = None" using c3(1) ne by (auto simp: h2 c1)
      show "wp R self (k \<lparr>ls_lock = l, ls_first = f\<rparr>) h4 Q"
        by (rule assms(2) [of _ _ "[(f, ?x)]"])
          (use h4(1,3) ne junk h3(2) c1 c3(3,4) h2(2) fh in \<open>auto simp: ls_rep_def c4 holds_def node_ok_def node_pairs_def
            chain_total_def nul split: if_splits\<close>)
    qed
  qed simp_all
qed simp

text \<open>A set that a rehash has detached answers \<open>REHASH_DELETED\<close> and is left alone.\<close>

lemma wp_deleted:
  assumes "ok h" "cells h (ls_lock s) = Some (HLock DELETED)"
    and "\<And>h'. ok h' \<Longrightarrow> cells h' = cells h \<Longrightarrow> allocs h' = allocs h \<Longrightarrow> wp R self (k False) h' Q"
  shows "wp R self (ls_acquire (Suc n) (ls_lock s) k) h Q"
  by (rule wp_ls_acquire [of h "cells h" "allocs h" _ DELETED]) (use assms in \<open>auto simp: heap_is_def\<close>)

lemma wp_melt:
  assumes "ok h" "cells h (ls_lock s) \<noteq> None"
    and "\<And>h'. ok h' \<Longrightarrow> cells h' = (cells h)(ls_lock s \<mapsto> HLock DELETED) \<Longrightarrow> allocs h' = allocs h \<Longrightarrow> wp R self k h' Q"
  shows "wp R self (melt s k) h Q"
  unfolding melt_def
  by (rule wp_set_lock [of h "cells h" "allocs h"]) (use assms in \<open>auto simp: heap_is_def\<close>)

end

section \<open>The executable instance\<close>

definition bump_env :: ls_env where
  "bump_env = \<lparr>null_ptr = Remote 0 0, junk_node = default_node\<rparr>"

interpretation bump_ls: ls_pool bump_rome bump_ok bump_env self for self
  by unfold_locales (simp_all add: bump_env_def bump_rome_def default_node_def)

definition fresh_set :: "LinkedSet \<times> (nat, ht_cell) heap" where
  "fresh_set = (case run bump_rome 1 (ls_new bump_env Return) bump_empty of
     Finished s h \<Rightarrow> (s, h) | _ \<Rightarrow> undefined)"

lemma fresh_set:
  obtains s h ns where "fresh_set = (s, h)" "bump_ok h" "ls_rep (Remote 0 0) (cells h) s ns UNLOCKED"
    "length ns = 1" "chain_pairs ns = []"
proof -
  have "wp bump_rome 1 (ls_new bump_env Return) bump_empty (\<lambda>s h. bump_ok h \<and>
      (\<exists>ns. ls_rep (Remote 0 0) (cells h) s ns UNLOCKED \<and> length ns = 1 \<and> chain_pairs ns = []))"
    by (rule bump_ls.new_rep) (auto simp: bump_env_def intro!: wp_Return)
  then show ?thesis using that by (auto simp: wp_def fresh_set_def)
qed

section \<open>Correctness\<close>

text \<open>\<open>LinkedSet::contains\<close> on an unlocked set returns the value of the first pair with the key, and
  leaves all memory as it was.\<close>

theorem ls_contains_correct:
  assumes "ls_pool R ok env" "ok h" "ls_rep (null_ptr env) (cells h) s ns UNLOCKED" "length ns < fuel"
  shows "\<exists>h'. run R self (ls_contains env fuel s key Return) h =
      Finished (spec_contains (map_of (chain_pairs ns)) key) h' \<and>
    ok h' \<and> cells h' = cells h \<and> allocs h' = allocs h"
  using ls_pool.contains_rep [OF assms, of self Return key
      "\<lambda>r h'. r = spec_contains (map_of (chain_pairs ns)) key \<and> ok h' \<and> cells h' = cells h \<and> allocs h' = allocs h"]
  by (auto simp: wp_def intro: wp_Return)

theorem ls_contains_correct_witness:
  "\<exists>h'. run bump_rome 1 (ls_contains bump_env 2 (fst fresh_set) 5 Return) (snd fresh_set) =
    Finished (ht_res FALSE_STATE 0) h' \<and> cells h' = cells (snd fresh_set)"
proof -
  obtain s h ns where f: "fresh_set = (s, h)" "bump_ok h" "ls_rep (Remote 0 0) (cells h) s ns UNLOCKED"
    "length ns = 1" "chain_pairs ns = []"
    by (rule fresh_set)
  show ?thesis
    using ls_contains_correct [OF bump_ls.ls_pool_axioms f(2), of s ns 2 1 5] f(3-5)
    by (auto simp: f(1) bump_env_def spec_contains_def)
qed

text \<open>C18: \<open>LinkedSet::insert\<close> on an unlocked set whose nodes but the last are full acts as insertion into a
  map: it adds a pair for an absent key (to the last node, or to a new node when that is full)
  and reports the present value otherwise.  The set stays packed, its counter stays the number
  of its pairs, and distinct keys stay distinct.\<close>

theorem ls_insert_correct:
  assumes "ls_pool R ok env" "ok h" "ls_rep (null_ptr env) (cells h) s ns UNLOCKED" "length ns \<le> fuel"
    "packed ns" "distinct (map fst (chain_pairs ns))" "length (chain_pairs ns) < 2 ^ 31 - 1"
  shows "\<exists>h' ns'. run R self (ls_insert env fuel s key w Return) h =
      Finished (fst (spec_insert (map_of (chain_pairs ns)) key w)) h' \<and>
    ok h' \<and> ls_rep (null_ptr env) (cells h') s ns' UNLOCKED \<and> packed ns' \<and>
    distinct (map fst (chain_pairs ns')) \<and>
    map_of (chain_pairs ns') = snd (spec_insert (map_of (chain_pairs ns)) key w)"
proof -
  let ?Q = "\<lambda>r h'. r = fst (spec_insert (map_of (chain_pairs ns)) key w) \<and> ok h' \<and>
    (\<exists>ns'. ls_rep (null_ptr env) (cells h') s ns' UNLOCKED \<and> packed ns' \<and> distinct (map fst (chain_pairs ns')) \<and>
      map_of (chain_pairs ns') = snd (spec_insert (map_of (chain_pairs ns)) key w))"
  have "wp R self (ls_insert env fuel s key w Return) h ?Q"
    by (rule ls_pool.insert_rep [OF assms(1-5,7)], rule wp_Return) (use assms(6) in blast)
  then show ?thesis by (auto simp: wp_def)
qed

theorem ls_insert_correct_witness:
  "\<exists>h' ns'. run bump_rome 1 (ls_insert bump_env 2 (fst fresh_set) 5 10 Return) (snd fresh_set) =
      Finished (ht_res TRUE_STATE 0) h' \<and>
    ls_rep (Remote 0 0) (cells h') (fst fresh_set) ns' UNLOCKED \<and> map_of (chain_pairs ns') = [5 \<mapsto> 10]"
proof -
  obtain s h ns where f: "fresh_set = (s, h)" "bump_ok h" "ls_rep (Remote 0 0) (cells h) s ns UNLOCKED"
    "length ns = 1" "chain_pairs ns = []"
    by (rule fresh_set)
  have "packed ns" using f(4) by (cases ns) auto
  then show ?thesis
    using ls_insert_correct [OF bump_ls.ls_pool_axioms f(2), of s ns 2 1 5 10] f(3-5)
    by (auto simp: f(1) bump_env_def spec_insert_def)
qed

text \<open>C19: \<open>LinkedSet::remove\<close> on an unlocked set with distinct keys deletes the key and returns its value,
  or reports that it is absent; the counter stays the number of pairs.\<close>

theorem ls_remove_correct:
  assumes "ls_pool R ok env" "ok h" "ls_rep (null_ptr env) (cells h) s ns UNLOCKED" "length ns < fuel"
    "distinct (map fst (chain_pairs ns))" "length (chain_pairs ns) < 2 ^ 31"
  shows "\<exists>h' ns'. run R self (ls_remove env fuel s key Return) h =
      Finished (fst (spec_remove (map_of (chain_pairs ns)) key)) h' \<and>
    ok h' \<and> ls_rep (null_ptr env) (cells h') s ns' UNLOCKED \<and> distinct (map fst (chain_pairs ns')) \<and>
    map_of (chain_pairs ns') = snd (spec_remove (map_of (chain_pairs ns)) key) \<and> allocs h' = allocs h"
  using ls_pool.remove_rep [OF assms, of key self Return
      "\<lambda>r h'. r = fst (spec_remove (map_of (chain_pairs ns)) key) \<and> ok h' \<and> allocs h' = allocs h \<and>
        (\<exists>ns'. ls_rep (null_ptr env) (cells h') s ns' UNLOCKED \<and> distinct (map fst (chain_pairs ns')) \<and>
          map_of (chain_pairs ns') = snd (spec_remove (map_of (chain_pairs ns)) key))"]
  by (auto simp: wp_def intro!: wp_Return)

theorem ls_remove_correct_witness:
  "\<exists>h' ns'. run bump_rome 1 (ls_remove bump_env 2 (fst fresh_set) 5 Return) (snd fresh_set) =
      Finished (ht_res FALSE_STATE 0) h' \<and>
    ls_rep (Remote 0 0) (cells h') (fst fresh_set) ns' UNLOCKED \<and> map_of (chain_pairs ns') = Map.empty"
proof -
  obtain s h ns where f: "fresh_set = (s, h)" "bump_ok h" "ls_rep (Remote 0 0) (cells h) s ns UNLOCKED"
    "length ns = 1" "chain_pairs ns = []"
    by (rule fresh_set)
  show ?thesis
    using ls_remove_correct [OF bump_ls.ls_pool_axioms f(2), of s ns 2 1 5] f(3-5)
    by (auto simp: f(1) bump_env_def spec_remove_def)
qed

section \<open>What a gap does\<close>

text \<open>
  \<open>remove\<close> takes a pair out of any node, so a node before the last need not be full.  The loop of
  \<open>insert\<close> stops at the first node with room, without looking at the nodes behind it.
\<close>

definition key_count :: "key \<Rightarrow> chain \<Rightarrow> nat" where
  "key_count k ns = length (filter (\<lambda>p. fst p = k) (chain_pairs ns))"

context ls_pool
begin

lemma insert_gap:
  assumes "ok h" "ls_rep (null_ptr env) (cells h) s ((a, x) # ns) UNLOCKED" "length ns < fuel"
    "node_length x < NODE_BUNDLE_SIZE" "length (chain_pairs ((a, x) # ns)) < 2 ^ 31 - 1"
    "key \<notin> fst ` set (node_pairs x)"
    and k: "\<And>h'. ok h' \<Longrightarrow>
      ls_rep (null_ptr env) (cells h') s (bump_total 1 ((a, node_add x key w) # ns)) UNLOCKED \<Longrightarrow>
      wp R self (k (ht_res TRUE_STATE 0)) h' Q"
  shows "wp R self (ls_insert env fuel s key w k) h Q"
proof -
  note rep = ls_repD [OF assms(2)]
  obtain n where n: "fuel = Suc n" using assms(3) by (cases fuel) auto
  have h: "heap_is h (cells h) (allocs h)" using assms(1) by (simp add: heap_is_def)
  have rng: "int_range (chain_total ((a, x) # ns) + 1)" using assms(5) by (simp add: int_range_def rep(6))
  have x: "node_ok x" "node_length x \<noteq> NODE_BUNDLE_SIZE" using rep(4) assms(4) by auto
  have full: "pre' = []" if "(a, x) # ns = pre' @ (b, y) # post"
    "\<forall>(c, z) \<in> set pre'. node_length z = NODE_BUNDLE_SIZE" for pre' b y post
    using that x(2) by (cases pre') auto
  show ?thesis unfolding ls_insert_def n
  proof (rule wp_ls_acquire [OF h rep(1)], simp)
    fix h1
    assume "heap_is h1 (if UNLOCKED = UNLOCKED then (cells h)(ls_lock s \<mapsto> HLock LOCKED) else cells h) (allocs h)"
    then have h1: "heap_is h1 ((cells h)(ls_lock s \<mapsto> HLock LOCKED)) (allocs h)" by simp
    have "wp R self (ls_insert_loop env s key w (Suc n) (ls_first s) k) h1 Q"
    proof (rule wp_insert_loop [OF h1, where pre = "[]" and ns = "(a, x) # ns"], goal_cases)
      case (9 h2 u)
      obtain pre' b y post where f: "(a, x) # ns = pre' @ (b, y) # post"
        "\<forall>(c, z) \<in> set pre'. node_length z = NODE_BUNDLE_SIZE" "key \<in> fst ` set (node_pairs y)"
        using 9(3) by blast
      have "y = x" using full [OF f(1,2)] f(1) by simp
      then show ?case using f(3) assms(6) by simp
    next
      case (10 h2 m' al' pre' b y post ns')
      have e: "pre' = []" "b = a" "y = x" "post = ns" using full [OF 10(2,4)] 10(2) by auto
      have ns': "ns' = (a, node_add x key w) # ns" using 10(5) x(2) by (simp add: e inserted_def)
      have "linked (null_ptr env) (ls_first s) ((a, node_add x key w) # ns)"
        using rep(3) by (simp add: node_add_def)
      moreover have "chain_total ((a, node_add x key w) # ns) = chain_total ((a, x) # ns)"
        by (simp add: chain_total_def node_add_def)
      ultimately have "ls_rep (null_ptr env) m' s (bump_total 1 ((a, node_add x key w) # ns)) UNLOCKED"
        using 10(6) rep(4,6) node_add_pairs [OF x] unfolding ls_rep_def bump_total_props by (simp add: e ns' chain_total_def)
      then show ?case using 10(1) by (intro k) (auto simp: heap_is_def)
    qed (use assms(3) n rep(3,4) linked_first [OF rep(3,5)] rng locked_chain [OF assms(2)] in auto)
    then show "wp R self (if \<not> UNLOCKED = UNLOCKED then k (ht_res REHASH_DELETED w)
        else ls_insert_loop env s key w (Suc n) (ls_first s) k) h1 Q" by simp
  qed
qed

end

text \<open>C21: when the first node has room and the key sits in a later node, \<open>LinkedSet::insert\<close> reports success and
  stores the key a second time, so a later \<open>remove\<close> of the key leaves it in the set.\<close>

theorem ls_insert_duplicates:
  assumes "ls_pool R ok env" "ok h" "ls_rep (null_ptr env) (cells h) s ((a, x) # ns) UNLOCKED"
    "length ns < fuel" "node_length x < NODE_BUNDLE_SIZE" "length (chain_pairs ((a, x) # ns)) < 2 ^ 31 - 1"
    "key \<notin> fst ` set (node_pairs x)" "key \<in> fst ` set (chain_pairs ns)"
  shows "\<exists>h' ns'. run R self (ls_insert env fuel s key w Return) h = Finished (ht_res TRUE_STATE 0) h' \<and>
    ls_rep (null_ptr env) (cells h') s ns' UNLOCKED \<and>
    key_count key ns' = Suc (key_count key ((a, x) # ns)) \<and> 2 \<le> key_count key ns'"
proof -
  let ?ns = "bump_total 1 ((a, node_add x key w) # ns)"
  have x: "node_ok x" "node_length x \<noteq> NODE_BUNDLE_SIZE" using assms(3,5) by (auto simp: ls_rep_def)
  have "filter (\<lambda>p. fst p = key) (chain_pairs ns) \<noteq> []" using assms(8) by (auto simp: filter_empty_conv)
  then have c: "key_count key ?ns = Suc (key_count key ((a, x) # ns))" "2 \<le> key_count key ?ns"
    using node_add_pairs [OF x] by (auto simp: key_count_def Suc_le_eq)
  have "wp R self (ls_insert env fuel s key w Return) h
      (\<lambda>r h'. r = ht_res TRUE_STATE 0 \<and> ls_rep (null_ptr env) (cells h') s ?ns UNLOCKED)"
    by (rule ls_pool.insert_gap [OF assms(1-7)]) (auto intro!: wp_Return)
  then obtain h' where "run R self (ls_insert env fuel s key w Return) h = Finished (ht_res TRUE_STATE 0) h'"
    "ls_rep (null_ptr env) (cells h') s ?ns UNLOCKED"
    unfolding wp_def by blast
  then show ?thesis using c by (intro exI [of _ h'] exI [of _ ?ns] conjI)
qed

definition gap_heap :: "(nat, ht_cell) heap" where
  "gap_heap = \<lparr>cells = [Remote 1 8 \<mapsto> HLock UNLOCKED,
      Remote 1 16 \<mapsto> HNode (default_node\<lparr>next_node := Remote 1 32, total_length := 1\<rparr>),
      Remote 1 32 \<mapsto> HNode (node_add default_node 5 10)],
    allocs = Map.empty, pool_state = 64\<rparr>"

theorem ls_insert_duplicates_witness:
  "\<exists>h' ns'. run bump_rome 1 (ls_insert bump_env 2 \<lparr>ls_lock = Remote 1 8, ls_first = Remote 1 16\<rparr> 5 20 Return) gap_heap =
      Finished (ht_res TRUE_STATE 0) h' \<and>
    ls_rep (Remote 0 0) (cells h') \<lparr>ls_lock = Remote 1 8, ls_first = Remote 1 16\<rparr> ns' UNLOCKED \<and>
    key_count 5 ns' = 2"
proof -
  let ?x = "default_node\<lparr>next_node := Remote 1 32, total_length := 1\<rparr>"
  let ?ns = "[(Remote 1 32, node_add default_node 5 10)]"
  have d: "node_ok default_node" "node_length default_node \<noteq> NODE_BUNDLE_SIZE"
    by (simp_all add: node_ok_def default_node_def NODE_BUNDLE_SIZE_def)
  have p: "node_pairs default_node = []" "next_node default_node = Remote 0 0"
    by (simp_all add: node_pairs_def default_node_def)
  have n: "next_node (node_add default_node 5 10) = Remote 0 0" by (simp add: node_add_def default_node_def)
  have x: "node_ok ?x" "node_pairs ?x = []" "node_length ?x < NODE_BUNDLE_SIZE"
    by (simp_all add: node_ok_def node_pairs_def default_node_def NODE_BUNDLE_SIZE_def)
  have ok: "bump_ok gap_heap" by (simp add: bump_ok_def gap_heap_def)
  have rep: "ls_rep (null_ptr bump_env) (cells gap_heap) \<lparr>ls_lock = Remote 1 8, ls_first = Remote 1 16\<rparr>
      ((Remote 1 16, ?x) # ?ns) UNLOCKED"
    using x d p n node_add_pairs [OF d]
    by (simp add: ls_rep_def gap_heap_def holds_def bump_env_def chain_total_def)
  have c: "key_count 5 ((Remote 1 16, ?x) # ?ns) = 1"
    using x p node_add_pairs(1) [OF d] by (simp add: key_count_def)
  have pr: "chain_pairs ?ns = [(5, 10)]" "chain_pairs ((Remote 1 16, ?x) # ?ns) = [(5, 10)]"
    using x p node_add_pairs(1) [OF d] by simp_all
  show ?thesis
    using ls_insert_duplicates [OF bump_ls.ls_pool_axioms ok rep, of 2 5 1 20] x(3)
    unfolding c pr x(2) Suc_1 by (force simp: bump_env_def)
qed

end
