(* ===== verification/Hashtable_Correct.thy ===== *)
theory Hashtable_Correct
  imports Hashtable Linked_Set_Correct
begin

text \<open>
  What the memory of a chained hash table means, and that its operations act as those of a map,
  from the facts about its buckets.  The last sections treat \<open>try_rehash\<close>: it leaves the map, but
  between its two halves other nodes see an empty table.
\<close>

section \<open>Memory that is kept\<close>

text \<open>\<open>leaves F m m'\<close>: what \<open>m\<close> holds outside \<open>F\<close> is still there in \<open>m'\<close>.\<close>

definition leaves :: "'a set \<Rightarrow> ('a \<Rightarrow> 'c option) \<Rightarrow> ('a \<Rightarrow> 'c option) \<Rightarrow> bool" where
  "leaves F m m' \<longleftrightarrow> (\<forall>b. m b \<noteq> None \<longrightarrow> b \<notin> F \<longrightarrow> m' b = m b)"

lemma leaves_refl [simp]: "leaves F m m"
  by (simp add: leaves_def)

lemma leavesD: "leaves F m m' \<Longrightarrow> m b \<noteq> None \<Longrightarrow> b \<notin> F \<Longrightarrow> m' b = m b"
  by (simp add: leaves_def)

lemma leavesI: "(\<And>b. m b \<noteq> None \<Longrightarrow> b \<notin> F \<Longrightarrow> m' b = m b) \<Longrightarrow> leaves F m m'"
  by (simp add: leaves_def)

text \<open>The second step may also change what was not there before the first.\<close>

lemma leaves_trans:
  assumes "leaves F m m1" "leaves G m1 m2" "\<And>b. b \<in> G \<Longrightarrow> b \<in> F \<or> m b = None"
  shows "leaves F m m2"
proof (rule leavesI)
  fix b assume b: "m b \<noteq> None" "b \<notin> F"
  then have "b \<notin> G" using assms(3) [of b] by auto
  moreover have "m1 b = m b" using b by (rule leavesD [OF assms(1)])
  ultimately show "m2 b = m b" using leavesD [OF assms(2), of b] b(1) by simp
qed

lemma leaves_mono: "leaves F m m' \<Longrightarrow> F \<subseteq> G \<Longrightarrow> leaves G m m'"
  by (auto simp: leaves_def)

section \<open>Buckets\<close>

type_synonym bucket = "LinkedSet \<times> chain"

definition foot :: "bucket \<Rightarrow> remote_ptr set" where
  "foot b = insert (ls_lock (fst b)) (fst ` set (snd b))"

lemma ls_rep_cong:
  assumes "ls_rep nul m s ns st" "\<And>b. b \<in> foot (s, ns) \<Longrightarrow> m' b = m b"
  shows "ls_rep nul m' s ns st"
proof -
  have "fst ` set (chain_cells ns) = fst ` set ns" by (force simp: chain_cells_def)
  then have "holds m' ((ls_lock s, HLock st) # chain_cells ns)"
    using assms by (intro holds_cong [where m = m and m' = m']) (auto simp: ls_rep_def foot_def)
  then show ?thesis using assms(1) by (simp add: ls_rep_def)
qed

text \<open>The cells of a bucket are locks and nodes.\<close>

lemma ls_rep_cell:
  assumes "ls_rep nul m s ns st" "b \<in> foot (s, ns)"
  shows "(\<exists>v. m b = Some (HLock v)) \<or> (\<exists>x. m b = Some (HNode x))"
proof -
  have h: "holds m ((ls_lock s, HLock st) # chain_cells ns)" using assms(1) by (simp add: ls_rep_def)
  consider "b = ls_lock s" | x where "(b, x) \<in> set ns" using assms(2) by (auto simp: foot_def)
  then show ?thesis
  proof cases
    case 2
    then have "(b, HNode x) \<in> set (chain_cells ns)" by (force simp: chain_cells_def)
    then show ?thesis using h by (auto simp: holds_Cons dest: holdsD)
  qed (use h in \<open>simp add: holds_Cons\<close>)
qed

lemma ls_rep_live: "ls_rep nul m s ns st \<Longrightarrow> b \<in> foot (s, ns) \<Longrightarrow> m b \<noteq> None"
  using ls_rep_cell by fastforce

text \<open>Buckets in memory, each with a state of its lock; different buckets share no cell.\<close>

definition sets_ok :: "remote_ptr \<Rightarrow> (remote_ptr \<Rightarrow> ht_cell option) \<Rightarrow> (nat \<Rightarrow> uint64) \<Rightarrow> bucket list \<Rightarrow> bool" where
  "sets_ok nul m st bs \<longleftrightarrow> (\<forall>i < length bs. ls_rep nul m (fst (bs ! i)) (snd (bs ! i)) (st i)) \<and>
     (\<forall>i < length bs. \<forall>j < length bs. i \<noteq> j \<longrightarrow> foot (bs ! i) \<inter> foot (bs ! j) = {})"

abbreviation feet :: "bucket list \<Rightarrow> remote_ptr set" where
  "feet bs \<equiv> \<Union> (foot ` set bs)"

lemma sets_okD:
  assumes "sets_ok nul m st bs" "i < length bs" "bs ! i = (s, ns)"
  shows "ls_rep nul m s ns (st i)"
  using assms by (auto simp: sets_ok_def)

lemma sets_ok_live: "sets_ok nul m st bs \<Longrightarrow> b \<in> feet bs \<Longrightarrow> (\<exists>v. m b = Some (HLock v)) \<or> (\<exists>x. m b = Some (HNode x))"
proof -
  assume a: "sets_ok nul m st bs" "b \<in> feet bs"
  then obtain i where i: "i < length bs" "b \<in> foot (fst (bs ! i), snd (bs ! i))" by (auto simp: in_set_conv_nth)
  then have "ls_rep nul m (fst (bs ! i)) (snd (bs ! i)) (st i)" using a(1) by (simp add: sets_ok_def)
  then show ?thesis using i(2) by (rule ls_rep_cell)
qed

lemma sets_ok_keep:
  assumes "sets_ok nul m st bs" "leaves F m m'" "F \<inter> feet bs = {}"
  shows "sets_ok nul m' st bs"
proof -
  have "ls_rep nul m' (fst (bs ! i)) (snd (bs ! i)) (st i)" if "i < length bs" for i
  proof (rule ls_rep_cong)
    show r: "ls_rep nul m (fst (bs ! i)) (snd (bs ! i)) (st i)" using assms(1) that by (simp add: sets_ok_def)
    fix b assume b: "b \<in> foot (fst (bs ! i), snd (bs ! i))"
    then have "b \<in> feet bs" using that by (auto intro: bexI [of _ "bs ! i"])
    then show "m' b = m b" using leavesD [OF assms(2), of b] ls_rep_live [OF r b] assms(3) by blast
  qed
  then show ?thesis using assms(1) by (simp add: sets_ok_def)
qed

text \<open>One bucket changes: its chain may grow into memory that was free.\<close>

lemma sets_ok_update:
  assumes "sets_ok nul m st bs" "i < length bs" "bs ! i = (s, ns)" "ls_rep nul m' s ns' v"
    "leaves (foot (s, ns)) m m'" "\<And>b. b \<in> foot (s, ns') \<Longrightarrow> b \<in> foot (s, ns) \<or> m b = None"
  shows "sets_ok nul m' (st(i := v)) (bs[i := (s, ns')])"
proof -
  have dis: "foot (bs ! j) \<inter> foot (s, ns) = {}" if "j < length bs" "j \<noteq> i" for j
    using assms(1-3) that unfolding sets_ok_def by metis
  have live: "m b \<noteq> None" if "j < length bs" "b \<in> foot (bs ! j)" for j b
  proof -
    have "ls_rep nul m (fst (bs ! j)) (snd (bs ! j)) (st j)" using assms(1) that(1) by (simp add: sets_ok_def)
    from ls_rep_live [OF this] show ?thesis using that(2) by simp
  qed
  have apart: "foot (bs ! j) \<inter> foot (s, ns') = {}" if "j < length bs" "j \<noteq> i" for j
    using dis [OF that] live [OF that(1)] assms(6) by blast
  have rep: "ls_rep nul m' (fst (bs ! j)) (snd (bs ! j)) (st j)" if "j < length bs" "j \<noteq> i" for j
  proof (rule ls_rep_cong)
    show "ls_rep nul m (fst (bs ! j)) (snd (bs ! j)) (st j)" using assms(1) that(1) by (simp add: sets_ok_def)
    fix b assume "b \<in> foot (fst (bs ! j), snd (bs ! j))"
    then have "b \<in> foot (bs ! j)" by simp
    then show "m' b = m b" using leavesD [OF assms(5), of b] live [OF that(1)] dis [OF that] by blast
  qed
  have "foot ((bs[i := (s, ns')]) ! j) \<inter> foot ((bs[i := (s, ns')]) ! l) = {}"
    if "j < length bs" "l < length bs" "j \<noteq> l" for j l
    using that apart [of j] apart [of l] assms(1) unfolding sets_ok_def
    by (cases "j = i"; cases "l = i") (simp_all add: Int_commute)
  moreover have "ls_rep nul m' (fst ((bs[i := (s, ns')]) ! j)) (snd ((bs[i := (s, ns')]) ! j)) ((st(i := v)) j)"
    if "j < length bs" for j
    using rep [OF that] assms(2,4) by (cases "j = i") simp_all
  ultimately show ?thesis by (simp add: sets_ok_def)
qed

section \<open>Tables\<close>

definition slots_ok :: "(remote_ptr \<Rightarrow> ht_cell option) \<Rightarrow> remote_ptr \<Rightarrow> bucket list \<Rightarrow> bool" where
  "slots_ok m start bs \<longleftrightarrow> (\<forall>i < length bs. m (indexAt start i) = Some (HSet (fst (bs ! i))))"

definition table :: "Hashtable \<Rightarrow> (remote_ptr \<Rightarrow> ht_cell option) \<Rightarrow> remote_ptr \<Rightarrow> bucket list \<Rightarrow> bool" where
  "table c m start bs \<longleftrightarrow> 0 < length bs \<and> length bs < 2 ^ 31 \<and>
     m (ht_root c) = Some (HArray \<lparr>array_count = length bs, bucket_start = start\<rparr>) \<and> slots_ok m start bs \<and>
     sets_ok (null_ptr (ht_env c)) m (\<lambda>_. UNLOCKED) bs"

text \<open>Every key is in the bucket it hashes to, once.\<close>

definition filed :: "Hashtable \<Rightarrow> bucket list \<Rightarrow> bool" where
  "filed c bs \<longleftrightarrow> (\<forall>i < length bs. distinct (map fst (chain_pairs (snd (bs ! i)))) \<and>
     (\<forall>k \<in> fst ` set (chain_pairs (snd (bs ! i))). keyhash c k (length bs) = i))"

definition ht_map_of :: "Hashtable \<Rightarrow> bucket list \<Rightarrow> key \<Rightarrow> val option" where
  "ht_map_of c bs k = map_of (chain_pairs (snd (bs ! keyhash c k (length bs)))) k"

lemma keyhash_less: "0 < n \<Longrightarrow> n < 2 ^ 31 \<Longrightarrow> keyhash c k n < n"
proof -
  assume n: "0 < n" "n < 2 ^ 31"
  have "unat (of_nat n :: uint64) = n" using n(2) by (simp add: unsigned_of_nat take_bit_nat_eq_self)
  then show ?thesis using n(1) by (simp add: keyhash_def unat_mod)
qed

text \<open>A slot or the root is no cell of a bucket.\<close>

lemma table_other:
  assumes "table c m start bs" "b \<in> feet bs"
  shows "b \<noteq> ht_root c" "\<forall>i < length bs. b \<noteq> indexAt start i"
  using sets_ok_live [of _ m _ bs b] assms by (auto simp: table_def slots_ok_def)

lemma table_update:
  assumes "table c m start bs" "i < length bs" "bs ! i = (s, ns)" "ls_rep (null_ptr (ht_env c)) m' s ns' UNLOCKED"
    "leaves (foot (s, ns)) m m'" "\<And>b. b \<in> foot (s, ns') \<Longrightarrow> b \<in> foot (s, ns) \<or> m b = None"
  shows "table c m' start (bs[i := (s, ns')])"
proof -
  have in_feet: "foot (s, ns) \<subseteq> feet bs" using assms(2,3) by (metis UN_upper nth_mem)
  have "sets_ok (null_ptr (ht_env c)) m' ((\<lambda>_. UNLOCKED)(i := UNLOCKED)) (bs[i := (s, ns')])"
    by (rule sets_ok_update [OF _ assms(2-6)]) (use assms(1) in \<open>simp add: table_def\<close>)
  then have "sets_ok (null_ptr (ht_env c)) m' (\<lambda>_. UNLOCKED) (bs[i := (s, ns')])" by (simp add: fun_upd_idem)
  moreover have "m' (ht_root c) = m (ht_root c)"
  proof (rule leavesD [OF assms(5)])
    show "m (ht_root c) \<noteq> None" using assms(1) by (simp add: table_def)
    show "ht_root c \<notin> foot (s, ns)" using table_other(1) [OF assms(1)] in_feet by blast
  qed
  moreover have "m' (indexAt start j) = m (indexAt start j)" if "j < length bs" for j
  proof (rule leavesD [OF assms(5)])
    show "m (indexAt start j) \<noteq> None" using assms(1) that by (simp add: table_def slots_ok_def)
    show "indexAt start j \<notin> foot (s, ns)" using table_other(2) [OF assms(1)] in_feet that by blast
  qed
  ultimately show ?thesis using assms(1-3) by (auto simp: table_def slots_ok_def nth_list_update)
qed

lemma filed_update:
  assumes "filed c bs" "i < length bs" "distinct (map fst (chain_pairs ns'))"
    "\<And>k. k \<in> fst ` set (chain_pairs ns') \<Longrightarrow> keyhash c k (length bs) = i"
  shows "filed c (bs[i := (s, ns')])"
  using assms by (auto simp: filed_def nth_list_update)

text \<open>The map changes at the key the bucket changes at.\<close>

lemma ht_map_update:
  assumes "filed c bs" "i < length bs" "keyhash c key (length bs) = i" "bs ! i = (s, ns)"
    "map_of (chain_pairs ns') = (map_of (chain_pairs ns))(key := v)"
  shows "ht_map_of c (bs[i := (s, ns')]) = (ht_map_of c bs)(key := v)"
  using assms by (auto simp: ht_map_of_def fun_eq_iff nth_list_update)

section \<open>The operations\<close>

text \<open>What a successful \<open>insert\<close> or \<open>remove\<close> does to the chain of its bucket.\<close>

definition inserted_into :: "key \<Rightarrow> val \<Rightarrow> chain \<Rightarrow> chain \<Rightarrow> bool" where
  "inserted_into key w ns ns' \<longleftrightarrow> packed ns' \<and>
     map_of (chain_pairs ns') = snd (spec_insert (map_of (chain_pairs ns)) key w) \<and>
     chain_pairs ns' = (if key \<in> fst ` set (chain_pairs ns) then chain_pairs ns else chain_pairs ns @ [(key, w)]) \<and>
     (length ns' = length ns \<or> length (chain_pairs ns') = Suc (NODE_BUNDLE_SIZE * length ns))"

definition removed_from :: "key \<Rightarrow> chain \<Rightarrow> chain \<Rightarrow> bool" where
  "removed_from key ns ns' \<longleftrightarrow> distinct (map fst (chain_pairs ns')) \<and>
     map_of (chain_pairs ns') = snd (spec_remove (map_of (chain_pairs ns)) key) \<and> map fst ns' = map fst ns \<and>
     length (chain_pairs ns') \<le> length (chain_pairs ns)"

context ls_pool
begin

lemma wp_read_one:
  assumes "ok h" "cells h a = Some y" "ctype_ok T" "\<And>p. block T (Suc 0) p = [p]"
    and "\<And>q h'. ok h' \<Longrightarrow> ptr_id q = self \<Longrightarrow> cells h q = None \<Longrightarrow> allocs h q = None \<Longrightarrow>
      cells h' = (cells h)(q \<mapsto> y) \<Longrightarrow> allocs h' = (allocs h)(q \<mapsto> [q]) \<Longrightarrow> wp R self (k q) h' Q"
  shows "wp R self (Read T 1 a k) h Q"
proof (rule wp_Read [OF assms(1,3), where cs = "[y]"])
  show "map (cells h) (block T 1 a) = map Some [y]" by (simp add: assms(2,4))
  fix p h'
  assume h': "ok h'" "ptr_id p = self" "allocated h h' p (block T 1 p) [y]"
  then show "wp R self (k p) h' Q" using assms(5) by (simp add: assms(4) allocated_single)
qed

lemma wp_free_one:
  assumes "ok h" "allocs h q = Some [q]"
    and "\<And>h'. ok h' \<Longrightarrow> cells h' = (cells h)(q := None) \<Longrightarrow> allocs h' = (allocs h)(q := None) \<Longrightarrow> wp R self k h' Q"
  shows "wp R self (Deallocate T n q k) h Q"
proof (rule wp_Deallocate [OF assms(1,2)])
  fix h' assume "ok h'" "cells h' = cells h |` (- set [q])" "allocs h' = (allocs h)(q := None)"
  moreover have "cells h |` (- set [q]) = (cells h)(q := None)" by (auto simp: restrict_map_def fun_eq_iff)
  ultimately show "wp R self k h' Q" using assms(3) by simp
qed

lemma wp_load_set:
  "ptr_id a = self \<Longrightarrow> cells h a = Some (HSet s) \<Longrightarrow> wp R self (k s) h Q \<Longrightarrow> wp R self (load_set a k) h Q"
  by (simp add: load_set_def wp_def)

lemma wp_load_array:
  "ptr_id a = self \<Longrightarrow> cells h a = Some (HArray s) \<Longrightarrow> wp R self (k s) h Q \<Longrightarrow> wp R self (load_array a k) h Q"
  by (simp add: load_array_def wp_def)

lemma wp_bucket_at:
  assumes "array_count a = n" "0 < n" "n < 2 ^ 31" "wp R self (k (indexAt (bucket_start a) (keyhash c key n))) h Q"
  shows "wp R self (bucket_at c key a k) h Q"
  using assms keyhash_less [OF assms(2,3), of c key] by (simp add: bucket_at_def)

text \<open>
  A call that finds its bucket in use: the copies are made and freed, and what the method of the
  bucket does to its chain (\<open>P\<close>) is all that happens.
\<close>

lemma wp_ht_call:
  assumes h: "ok h" "table c (cells h) start bs" and i: "keyhash c key (length bs) = i" "bs ! i = (s, ns)"
    and e: "ht_env c = env"
    and op: "\<And>h1 K. ok h1 \<Longrightarrow> ls_rep (null_ptr env) (cells h1) s ns UNLOCKED \<Longrightarrow>
      (\<And>h2 ns'. ok h2 \<Longrightarrow> ls_rep (null_ptr env) (cells h2) s ns' UNLOCKED \<Longrightarrow> P ns' \<Longrightarrow>
        leaves (foot (s, ns)) (cells h1) (cells h2) \<Longrightarrow>
        (\<forall>b \<in> fst ` set ns'. b \<in> fst ` set ns \<or> cells h1 b = None) \<Longrightarrow>
        (\<And>b. allocs h1 b \<noteq> None \<Longrightarrow> allocs h2 b = allocs h1 b) \<Longrightarrow> wp R self (K res) h2 Q) \<Longrightarrow>
      wp R self (op s K) h1 Q"
    and res: "status res = TRUE_STATE \<or> status res = FALSE_STATE"
    and k: "\<And>h' ns'. ok h' \<Longrightarrow> P ns' \<Longrightarrow> table c (cells h') start (bs[i := (s, ns')]) \<Longrightarrow>
      leaves (foot (s, ns)) (cells h) (cells h') \<Longrightarrow> Q res h'"
  shows "wp R self (ht_call c key op again) h Q"
proof -
  let ?A = "\<lparr>array_count = length bs, bucket_start = start\<rparr>"
  have t: "0 < length bs" "length bs < 2 ^ 31" "cells h (ht_root c) = Some (HArray ?A)" "slots_ok (cells h) start bs"
    "sets_ok (null_ptr env) (cells h) (\<lambda>_. UNLOCKED) bs"
    using h(2) by (simp_all add: table_def e)
  have il: "i < length bs" using keyhash_less [OF t(1,2)] i(1) by blast
  have slot: "cells h (indexAt start i) = Some (HSet s)" using t(4) il i(2) by (simp add: slots_ok_def)
  have rep: "ls_rep (null_ptr env) (cells h) s ns UNLOCKED" using sets_okD [OF t(5) il i(2)] by simp
  show ?thesis
    unfolding ht_call_def
  proof (rule wp_read_one [OF h(1) t(3)], simp, simp)
    fix ds h1
    assume h1: "ok h1" "ptr_id ds = self" "cells h ds = None" "allocs h ds = None"
      "cells h1 = (cells h)(ds \<mapsto> HArray ?A)" "allocs h1 = (allocs h)(ds \<mapsto> [ds])"
    show "wp R self (load_array ds (\<lambda>hasharray. bucket_at c key hasharray (\<lambda>bucket. Read LinkedKV_t 1 bucket (\<lambda>bucket_red.
        load_set bucket_red (\<lambda>set. op set (\<lambda>state. Deallocate HashArray_t 1 ds (Deallocate LinkedKV_t 1 bucket_red (
        if status state = REHASH_DELETED then again
        else Return (ht_res (if status state = TRUE_STATE then TRUE_STATE else FALSE_STATE) (result state)))))))))) h1 Q"
    proof (rule wp_load_array [OF h1(2)], simp add: h1(5), rule wp_bucket_at [OF _ t(1,2)], simp, simp only: i(1) HashArray.simps,
        rule wp_read_one [OF h1(1)])
      show "cells h1 (indexAt start i) = Some (HSet s)" using slot h1(3) by (auto simp: h1(5))
      fix red h2
      assume h2: "ok h2" "ptr_id red = self" "cells h1 red = None" "allocs h1 red = None"
        "cells h2 = (cells h1)(red \<mapsto> HSet s)" "allocs h2 = (allocs h1)(red \<mapsto> [red])"
      have old: "cells h2 b = cells h b" if "cells h b \<noteq> None" for b
        using that h1(3,5) h2(3,5) by (auto split: if_splits)
      have ne: "ds \<noteq> red" using h2(3) h1(5) by auto
      have rep2: "ls_rep (null_ptr env) (cells h2) s ns UNLOCKED"
        by (rule ls_rep_cong [OF rep]) (use old ls_rep_live [OF rep] in blast)
      show "wp R self (load_set red (\<lambda>set. op set (\<lambda>state. Deallocate HashArray_t 1 ds (Deallocate LinkedKV_t 1 red (
        if status state = REHASH_DELETED then again
        else Return (ht_res (if status state = TRUE_STATE then TRUE_STATE else FALSE_STATE) (result state))))))) h2 Q"
      proof (rule wp_load_set [OF h2(2)], simp add: h2(5), rule op [OF h2(1) rep2])
        fix h3 ns'
        assume h3: "ok h3" "ls_rep (null_ptr env) (cells h3) s ns' UNLOCKED" "P ns'"
          "leaves (foot (s, ns)) (cells h2) (cells h3)" "\<forall>b \<in> fst ` set ns'. b \<in> fst ` set ns \<or> cells h2 b = None"
          "\<And>b. allocs h2 b \<noteq> None \<Longrightarrow> allocs h3 b = allocs h2 b"
        have al: "allocs h3 ds = Some [ds]" "allocs h3 red = Some [red]"
          using h3(6) [of ds] h3(6) [of red] ne by (simp_all add: h2(6) h1(6))
        have used: "cells h2 ds \<noteq> None" "cells h2 red \<noteq> None" using ne by (simp_all add: h2(5) h1(5))
        have unused: "cells h ds = None" "cells h red = None"
          using h1(3) h2(3) by (auto simp: h1(5) split: if_splits)
        have foot': "b \<in> foot (s, ns) \<or> cells h2 b = None" if "b \<in> foot (s, ns')" for b
          using that h3(5) by (auto simp: foot_def)
        have apart: "b \<noteq> ds \<and> b \<noteq> red" if "b \<in> foot (s, ns')" for b
          using foot' [OF that] used unused ls_rep_live [OF rep, of b] by blast
        have fresh: "b \<in> foot (s, ns) \<or> cells h b = None" if "b \<in> foot (s, ns')" for b
          using foot' [OF that] old [of b] by fastforce
        show "wp R self (Deallocate HashArray_t 1 ds (Deallocate LinkedKV_t 1 red (
            if status res = REHASH_DELETED then again
            else Return (ht_res (if status res = TRUE_STATE then TRUE_STATE else FALSE_STATE) (result res))))) h3 Q"
        proof (rule wp_free_one [OF h3(1) al(1)], rule wp_free_one, assumption, simp add: al(2) ne [symmetric])
          fix h4 h5
          assume h4: "cells h4 = (cells h3)(ds := None)" and h5: "ok h5" "cells h5 = (cells h4)(red := None)"
          have rep5: "ls_rep (null_ptr env) (cells h5) s ns' UNLOCKED"
            by (rule ls_rep_cong [OF h3(2)]) (use apart in \<open>simp add: h5(2) h4\<close>)
          have kp: "leaves (foot (s, ns)) (cells h) (cells h5)"
          proof (rule leavesI)
            fix b assume b: "cells h b \<noteq> None" "b \<notin> foot (s, ns)"
            have "b \<noteq> ds" "b \<noteq> red" using b(1) unused by auto
            then show "cells h5 b = cells h b"
              using leavesD [OF h3(4), of b] old [OF b(1)] b by (simp add: h5(2) h4)
          qed
          have "table c (cells h5) start (bs[i := (s, ns')])"
            by (rule table_update [OF h(2) il i(2) _ kp fresh]) (use rep5 e in simp_all)
          then have "Q res h5" using k [OF h5(1) h3(3) _ kp] by blast
          moreover have "ht_res (if status res = TRUE_STATE then TRUE_STATE else FALSE_STATE) (result res) = res"
            using res by (cases res) (auto simp: ht_res_def)
          ultimately show "wp R self (if status res = REHASH_DELETED then again
              else Return (ht_res (if status res = TRUE_STATE then TRUE_STATE else FALSE_STATE) (result res))) h5 Q"
            using res by (auto intro: wp_Return)
        qed
      qed
    qed simp_all
  qed
qed

text \<open>The methods of the bucket, in the form \<open>wp_ht_call\<close> asks for.\<close>

lemma op_contains:
  assumes "length ns < fuel" "ok h1" "ls_rep (null_ptr env) (cells h1) s ns UNLOCKED"
    and "\<And>h2 ns'. ok h2 \<Longrightarrow> ls_rep (null_ptr env) (cells h2) s ns' UNLOCKED \<Longrightarrow> ns' = ns \<Longrightarrow>
      leaves (foot (s, ns)) (cells h1) (cells h2) \<Longrightarrow> (\<forall>b \<in> fst ` set ns'. b \<in> fst ` set ns \<or> cells h1 b = None) \<Longrightarrow>
      (\<And>b. allocs h1 b \<noteq> None \<Longrightarrow> allocs h2 b = allocs h1 b) \<Longrightarrow>
      wp R self (K (spec_contains (map_of (chain_pairs ns)) key)) h2 Q"
  shows "wp R self (ls_contains env fuel s key K) h1 Q"
  by (rule contains_rep [OF assms(2,3,1)]) (use assms in auto)

lemma op_insert:
  assumes "length ns \<le> fuel" "packed ns" "length (chain_pairs ns) < 2 ^ 31 - 1"
    "ok h1" "ls_rep (null_ptr env) (cells h1) s ns UNLOCKED"
    and k: "\<And>h2 ns'. ok h2 \<Longrightarrow> ls_rep (null_ptr env) (cells h2) s ns' UNLOCKED \<Longrightarrow> inserted_into key w ns ns' \<Longrightarrow>
      leaves (foot (s, ns)) (cells h1) (cells h2) \<Longrightarrow> (\<forall>b \<in> fst ` set ns'. b \<in> fst ` set ns \<or> cells h1 b = None) \<Longrightarrow>
      (\<And>b. allocs h1 b \<noteq> None \<Longrightarrow> allocs h2 b = allocs h1 b) \<Longrightarrow>
      wp R self (K (fst (spec_insert (map_of (chain_pairs ns)) key w))) h2 Q"
  shows "wp R self (ls_insert env fuel s key w K) h1 Q"
proof (rule insert_rep [OF assms(4,5,1-3)], goal_cases)
  case (1 h2 ns')
  have "inserted_into key w ns ns'" unfolding inserted_into_def using 1(3,5,9,10) by blast
  moreover have "leaves (foot (s, ns)) (cells h1) (cells h2)" by (rule leavesI) (use 1(6) in \<open>simp add: foot_def\<close>)
  ultimately show ?case using k [OF 1(1,2)] 1(7,8) by blast
qed

lemma op_remove:
  assumes "length ns < fuel" "distinct (map fst (chain_pairs ns))" "length (chain_pairs ns) < 2 ^ 31"
    "ok h1" "ls_rep (null_ptr env) (cells h1) s ns UNLOCKED"
    and k: "\<And>h2 ns'. ok h2 \<Longrightarrow> ls_rep (null_ptr env) (cells h2) s ns' UNLOCKED \<Longrightarrow> removed_from key ns ns' \<Longrightarrow>
      leaves (foot (s, ns)) (cells h1) (cells h2) \<Longrightarrow> (\<forall>b \<in> fst ` set ns'. b \<in> fst ` set ns \<or> cells h1 b = None) \<Longrightarrow>
      (\<And>b. allocs h1 b \<noteq> None \<Longrightarrow> allocs h2 b = allocs h1 b) \<Longrightarrow>
      wp R self (K (fst (spec_remove (map_of (chain_pairs ns)) key))) h2 Q"
  shows "wp R self (ls_remove env fuel s key K) h1 Q"
proof (rule remove_rep [OF assms(4,5,1-3)], goal_cases)
  case (1 h2 ns')
  have "removed_from key ns ns'" unfolding removed_from_def using 1(3,4,7,8) by blast
  moreover have "leaves (foot (s, ns)) (cells h1) (cells h2)" by (rule leavesI) (use 1(6) in \<open>simp add: foot_def\<close>)
  moreover have "fst ` set ns' = fst ` set ns" using arg_cong [OF 1(7), of set] by simp
  ultimately show ?case using k [OF 1(1,2)] 1(5) by simp
qed

end

text \<open>The answers of a bucket are those of the whole map.\<close>

lemma spec_local:
  assumes "keyhash c key (length bs) = i" "bs ! i = (s, ns)"
  shows "spec_contains (map_of (chain_pairs ns)) key = spec_contains (ht_map_of c bs) key"
    "fst (spec_insert (map_of (chain_pairs ns)) key w) = fst (spec_insert (ht_map_of c bs) key w)"
    "fst (spec_remove (map_of (chain_pairs ns)) key) = fst (spec_remove (ht_map_of c bs) key)"
proof -
  have "map_of (chain_pairs ns) key = ht_map_of c bs key" using assms by (simp add: ht_map_of_def)
  then show "spec_contains (map_of (chain_pairs ns)) key = spec_contains (ht_map_of c bs) key"
    "fst (spec_insert (map_of (chain_pairs ns)) key w) = fst (spec_insert (ht_map_of c bs) key w)"
    "fst (spec_remove (map_of (chain_pairs ns)) key) = fst (spec_remove (ht_map_of c bs) key)"
    by (simp_all add: spec_contains_def spec_insert_def spec_remove_def split: option.splits)
qed

lemma spec_status:
  "status (spec_contains m k) = TRUE_STATE \<or> status (spec_contains m k) = FALSE_STATE"
  "status (fst (spec_insert m k v)) = TRUE_STATE \<or> status (fst (spec_insert m k v)) = FALSE_STATE"
  "status (fst (spec_remove m k)) = TRUE_STATE \<or> status (fst (spec_remove m k)) = FALSE_STATE"
  by (simp_all add: spec_contains_def spec_insert_def spec_remove_def split: option.splits)

lemma map_insert_local:
  assumes "filed c bs" "i < length bs" "keyhash c key (length bs) = i" "bs ! i = (s, ns)"
    "map_of (chain_pairs ns') = snd (spec_insert (map_of (chain_pairs ns)) key w)"
  shows "ht_map_of c (bs[i := (s, ns')]) = snd (spec_insert (ht_map_of c bs) key w)"
proof (cases "map_of (chain_pairs ns) key")
  case None
  then have "map_of (chain_pairs ns') = (map_of (chain_pairs ns))(key := Some w)" "ht_map_of c bs key = None"
    using assms by (simp_all add: spec_insert_def ht_map_of_def)
  then show ?thesis using ht_map_update [OF assms(1-4)] by (simp add: spec_insert_def)
next
  case (Some v)
  then have "map_of (chain_pairs ns') = (map_of (chain_pairs ns))(key := Some v)" "ht_map_of c bs key = Some v"
    using assms by (auto simp: spec_insert_def ht_map_of_def)
  then show ?thesis using ht_map_update [OF assms(1-4)] by (simp add: spec_insert_def fun_upd_idem)
qed

lemma map_remove_local:
  assumes "filed c bs" "i < length bs" "keyhash c key (length bs) = i" "bs ! i = (s, ns)"
    "map_of (chain_pairs ns') = snd (spec_remove (map_of (chain_pairs ns)) key)"
  shows "ht_map_of c (bs[i := (s, ns')]) = snd (spec_remove (ht_map_of c bs) key)"
proof -
  have "map_of (chain_pairs ns') = (map_of (chain_pairs ns))(key := None)"
    using assms(5) by (auto simp: spec_remove_def fun_eq_iff split: option.splits)
  from ht_map_update [OF assms(1-4) this] show ?thesis
    by (auto simp: spec_remove_def fun_eq_iff split: option.splits)
qed

context ls_pool
begin

text \<open>The three operations on a table; \<open>b\<close> is the bucket of the key.\<close>

lemma ht_contains_rep:
  assumes "ok h" "table c (cells h) start bs" "ht_env c = env"
    "keyhash c key (length bs) = i" "bs ! i = (s, ns)" "length ns < fuel"
  shows "wp R self (ht_contains c fuel key) h (\<lambda>r h'. r = spec_contains (ht_map_of c bs) key \<and> ok h' \<and>
    table c (cells h') start bs \<and> leaves (foot (s, ns)) (cells h) (cells h'))"
proof -
  obtain n where n: "fuel = Suc n" using assms(6) by (cases fuel) auto
  have i: "i < length bs" using keyhash_less [of "length bs"] assms(2,4) by (auto simp: table_def)
  show ?thesis
    unfolding n ht_contains.simps assms(3) spec_local(1) [OF assms(4,5), symmetric]
  proof (rule wp_ht_call [OF assms(1,2,4,5,3), where P = "\<lambda>ns'. ns' = ns"
      and res = "spec_contains (map_of (chain_pairs ns)) key"], goal_cases)
    case (1 h1 K)
    show ?case by (rule op_contains [OF assms(6) [unfolded n] 1(1,2)], rule 1(3))
  next
    case (3 h' ns')
    then show ?case using list_update_id [of bs i] assms(5) by simp
  qed (rule spec_status)
qed

lemma ht_insert_rep:
  assumes "ok h" "table c (cells h) start bs" "ht_env c = env"
    "keyhash c key (length bs) = i" "bs ! i = (s, ns)" "length ns \<le> fuel" "packed ns" "length (chain_pairs ns) < 2 ^ 31 - 1"
    and Q: "\<And>h' ns'. ok h' \<Longrightarrow> inserted_into key w ns ns' \<Longrightarrow> table c (cells h') start (bs[i := (s, ns')]) \<Longrightarrow>
      leaves (foot (s, ns)) (cells h) (cells h') \<Longrightarrow> Q (fst (spec_insert (ht_map_of c bs) key w)) h'"
  shows "wp R self (ht_insert c fuel key w) h Q"
proof -
  have i: "i < length bs" using keyhash_less [of "length bs"] assms(2,4) by (auto simp: table_def)
  have "ls_rep (null_ptr (ht_env c)) (cells h) s ns UNLOCKED"
    using sets_okD [of _ "cells h" "\<lambda>_. UNLOCKED" bs i s ns] assms(2,5) i by (simp add: table_def)
  then have "ns \<noteq> []" by (simp add: ls_rep_def)
  then obtain n where n: "fuel = Suc n" using assms(6) by (cases fuel) auto
  note Q' = Q [unfolded spec_local(2) [OF assms(4,5), symmetric]]
  show ?thesis
    unfolding n ht_insert.simps assms(3)
  proof (rule wp_ht_call [OF assms(1,2,4,5,3), where P = "inserted_into key w ns"
      and res = "fst (spec_insert (map_of (chain_pairs ns)) key w)"], goal_cases)
    case (1 h1 K)
    show ?case by (rule op_insert [OF assms(6) [unfolded n] assms(7,8) 1(1,2)], rule 1(3))
  qed (rule spec_status, rule Q')
qed

lemma ht_remove_rep:
  assumes "ok h" "table c (cells h) start bs" "ht_env c = env"
    "keyhash c key (length bs) = i" "bs ! i = (s, ns)" "length ns < fuel" "distinct (map fst (chain_pairs ns))"
    "length (chain_pairs ns) < 2 ^ 31"
    and Q: "\<And>h' ns'. ok h' \<Longrightarrow> removed_from key ns ns' \<Longrightarrow> table c (cells h') start (bs[i := (s, ns')]) \<Longrightarrow>
      leaves (foot (s, ns)) (cells h) (cells h') \<Longrightarrow> Q (fst (spec_remove (ht_map_of c bs) key)) h'"
  shows "wp R self (ht_remove c fuel key) h Q"
proof -
  obtain n where n: "fuel = Suc n" using assms(6) by (cases fuel) auto
  note Q' = Q [unfolded spec_local(3) [OF assms(4,5), symmetric]]
  show ?thesis
    unfolding n ht_remove.simps assms(3)
  proof (rule wp_ht_call [OF assms(1,2,4,5,3), where P = "removed_from key ns"
      and res = "fst (spec_remove (map_of (chain_pairs ns)) key)"], goal_cases)
    case (1 h1 K)
    show ?case by (rule op_remove [OF assms(6) [unfolded n] assms(7,8) 1(1,2)], rule 1(3))
  qed (rule spec_status, rule Q')
qed

end

section \<open>Construction\<close>

lemma sets_ok_append:
  assumes "sets_ok nul m (\<lambda>_. v) bs" "ls_rep nul m s ns v" "foot (s, ns) \<inter> feet bs = {}"
  shows "sets_ok nul m (\<lambda>_. v) (bs @ [(s, ns)])"
proof -
  have "foot (bs ! i) \<inter> foot (s, ns) = {}" if "i < length bs" for i using assms(3) nth_mem [OF that] by blast
  then have "foot ((bs @ [(s, ns)]) ! i) \<inter> foot ((bs @ [(s, ns)]) ! j) = {}"
    if "i < Suc (length bs)" "j < Suc (length bs)" "i \<noteq> j" for i j
    using that assms(1) by (fastforce simp: sets_ok_def nth_append less_Suc_eq Int_commute)
  then show ?thesis using assms(1,2) by (simp add: sets_ok_def nth_append less_Suc_eq)
qed

definition all_new :: "bucket list \<Rightarrow> bool" where
  "all_new bs \<longleftrightarrow> (\<forall>b \<in> set bs. length (snd b) = 1 \<and> chain_pairs (snd b) = [])"

context ls_pool
begin

lemma wp_init_sets:
  assumes "ok h" "ht_env c = env" "ptr_id start = self" "length bs = i" "slots_ok (cells h) start bs"
    "sets_ok (null_ptr env) (cells h) (\<lambda>_. UNLOCKED) bs" "all_new bs"
    "\<forall>j. i \<le> j \<and> j < i + n \<longrightarrow> (\<exists>y. cells h (indexAt start j) = Some (HSet y))"
    and k: "\<And>h' bs'. ok h' \<Longrightarrow> length bs' = i + n \<Longrightarrow> slots_ok (cells h') start bs' \<Longrightarrow>
      sets_ok (null_ptr env) (cells h') (\<lambda>_. UNLOCKED) bs' \<Longrightarrow> all_new bs' \<Longrightarrow>
      leaves (indexAt start ` {i..<i + n}) (cells h) (cells h') \<Longrightarrow>
      (\<And>b. b \<in> feet bs' \<Longrightarrow> b \<in> feet bs \<or> cells h b = None) \<Longrightarrow>
      (\<And>b. allocs h b \<noteq> None \<Longrightarrow> allocs h' b = allocs h b) \<Longrightarrow> wp R self k h' Q"
  shows "wp R self (init_sets c start i n k) h Q"
  using assms
proof (induction n arbitrary: i bs h)
  case 0
  show ?case using 0(9) [OF 0(1) _ 0(5-7)] 0(4) by simp
next
  case (Suc n)
  obtain y where y: "cells h (indexAt start i) = Some (HSet y)" using Suc.prems(8) by auto
  have "wp R self (ls_new env (\<lambda>s. Store (indexAt start i) (HSet s) (init_sets c start (Suc i) n k))) h Q"
  proof (rule new_rep [OF Suc.prems(1)])
    fix s h1 ns
    assume h1: "ok h1" "ls_rep (null_ptr env) (cells h1) s ns UNLOCKED" "length ns = 1" "chain_pairs ns = []"
      "\<And>b. cells h b \<noteq> None \<Longrightarrow> cells h1 b = cells h b" "\<And>b. b \<in> insert (ls_lock s) (fst ` set ns) \<Longrightarrow> cells h b = None"
      "\<And>b. allocs h b \<noteq> None \<Longrightarrow> allocs h1 b = allocs h b"
    have fr: "cells h b = None" if "b \<in> foot (s, ns)" for b using h1(6) that by (simp add: foot_def)
    have at: "cells h1 (indexAt start i) = Some (HSet y)" using h1(5) y by simp
    show "wp R self (Store (indexAt start i) (HSet s) (init_sets c start (Suc i) n k)) h1 Q"
    proof (rule wp_Store_ok [OF h1(1)])
      show "ptr_id (indexAt start i) = self" using Suc.prems(3) by (simp add: indexAt_def)
      show "cells h1 (indexAt start i) \<noteq> None" using at by simp
      fix h2
      assume h2: "ok h2" "cells h2 = (cells h1)(indexAt start i \<mapsto> HSet s)" "allocs h2 = allocs h1"
      have kp: "leaves {indexAt start i} (cells h) (cells h2)" by (rule leavesI) (use h1(5) h2(2) in auto)
      have ix: "indexAt start i \<noteq> indexAt start j" if "i \<noteq> j" for j using that by (simp add: indexAt_def)
      have out: "indexAt start i \<notin> feet bs"
        using sets_ok_live [OF Suc.prems(6), of "indexAt start i"] y by auto
      have apart: "foot (s, ns) \<inter> feet bs = {}"
        using sets_ok_live [OF Suc.prems(6)] fr by fastforce
      have s1: "sets_ok (null_ptr env) (cells h2) (\<lambda>_. UNLOCKED) bs"
        by (rule sets_ok_keep [OF Suc.prems(6) kp]) (use out in simp)
      have "indexAt start i \<notin> foot (s, ns)" using fr y by fastforce
      then have "ls_rep (null_ptr env) (cells h2) s ns UNLOCKED"
        by (intro ls_rep_cong [OF h1(2)]) (auto simp: h2(2))
      note s2 = sets_ok_append [OF s1 this apart]
      have sl: "slots_ok (cells h2) start (bs @ [(s, ns)])"
        unfolding slots_ok_def
      proof (intro allI impI)
        fix j assume j: "j < length (bs @ [(s, ns)])"
        show "cells h2 (indexAt start j) = Some (HSet (fst ((bs @ [(s, ns)]) ! j)))"
        proof (cases "j < i")
          case True
          then have "cells h (indexAt start j) = Some (HSet (fst (bs ! j)))" using Suc.prems(4,5) by (simp add: slots_ok_def)
          then show ?thesis using leavesD [OF kp, of "indexAt start j"] ix [of j] True Suc.prems(4) by (auto simp: nth_append)
        next
          case False
          then have "j = i" using j Suc.prems(4) by simp
          then show ?thesis using Suc.prems(4) by (simp add: h2(2) nth_append)
        qed
      qed
      show "wp R self (init_sets c start (Suc i) n k) h2 Q"
      proof (rule Suc.IH [OF h2(1) Suc.prems(2,3) _ sl s2], goal_cases)
        case 1
        then show ?case using Suc.prems(4) by simp
      next
        case 2
        then show ?case using Suc.prems(7) h1(3,4) by (simp add: all_new_def)
      next
        case 3
        show ?case
        proof (intro allI impI)
          fix j assume j: "Suc i \<le> j \<and> j < Suc i + n"
          then obtain z where "cells h (indexAt start j) = Some (HSet z)"
            using Suc.prems(8) [rule_format, of j] by auto
          then show "\<exists>y. cells h2 (indexAt start j) = Some (HSet y)"
            using leavesD [OF kp, of "indexAt start j"] ix [of j] j by auto
        qed
      next
        case (4 h' bs')
        show ?case
        proof (rule Suc.prems(9) [OF 4(1)])
          show "length bs' = i + Suc n" using 4(2) by simp
          show "slots_ok (cells h') start bs'" "sets_ok (null_ptr env) (cells h') (\<lambda>_. UNLOCKED) bs'" "all_new bs'"
            by (fact 4)+
          have sub: "{indexAt start i} \<subseteq> indexAt start ` {i..<i + Suc n}" by simp
          show "leaves (indexAt start ` {i..<i + Suc n}) (cells h) (cells h')"
            by (rule leaves_trans [OF leaves_mono [OF kp sub] 4(6)]) auto
          fix b
          show "allocs h b \<noteq> None \<Longrightarrow> allocs h' b = allocs h b"
            using h1(7) [of b] 4(8) [of b] h2(3) by simp
          assume "b \<in> feet bs'"
          then have "b \<in> feet bs \<or> b \<in> foot (s, ns) \<or> cells h2 b = None" using 4(7) [of b] by auto
          moreover have "cells h b = None" if "cells h2 b = None"
            using that h1(5) [of b] by (cases "cells h b"; cases "b = indexAt start i") (auto simp: h2(2))
          ultimately show "b \<in> feet bs \<or> cells h b = None" using fr [of b] by argo
        qed
      qed
    qed
  qed
  then show ?case by (simp add: Suc.prems(2))
qed

text \<open>A new array of new sets; it uses memory that was free only.\<close>

lemma wp_new_array:
  assumes "ok h" "ht_env c = env"
    and k: "\<And>h' start bs. ok h' \<Longrightarrow> length bs = n \<Longrightarrow> slots_ok (cells h') start bs \<Longrightarrow>
      sets_ok (null_ptr env) (cells h') (\<lambda>_. UNLOCKED) bs \<Longrightarrow> all_new bs \<Longrightarrow> leaves {} (cells h) (cells h') \<Longrightarrow>
      ptr_id start = self \<Longrightarrow> (\<And>b. b \<in> feet bs \<or> b \<in> indexAt start ` {..<n} \<Longrightarrow> cells h b = None) \<Longrightarrow>
      (\<And>b. allocs h b \<noteq> None \<Longrightarrow> allocs h' b = allocs h b) \<Longrightarrow> wp R self (k start) h' Q"
  shows "wp R self (Allocate LinkedKV_t n (\<lambda>start. init_sets c start 0 n (k start))) h Q"
proof (rule wp_Allocate [OF assms(1)], simp)
  fix start h1 cs
  assume h1: "ok h1" "ptr_id start = self" "length cs = n * ct_cells LinkedKV_t" "list_all (ct_fresh LinkedKV_t) cs"
    "allocated h h1 start (block LinkedKV_t n start) cs"
  let ?as = "block LinkedKV_t n start"
  have as: "?as = map (indexAt start) [0..<n]" by (simp add: block_def indexAt_def fun_eq_iff)
  have free: "\<And>a. a \<in> set ?as \<Longrightarrow> cells h a = None" and cells: "cells h1 = (cells h)(?as [\<mapsto>] cs)"
    and al: "allocs h start = None" "allocs h1 = (allocs h)(start \<mapsto> ?as)"
    using h1(5) by (auto simp: allocated_def)
  have lc: "length cs = n" using h1(3) by simp
  have at: "\<exists>y. cells h1 (indexAt start j) = Some (HSet y)" if j: "j < n" for j
  proof -
    have d: "distinct ?as" by (rule distinct_block) simp
    have "cells h1 (indexAt start j) = Some (cs ! j)"
      using map_upds_nth [OF d, of cs j "cells h"] j lc by (simp add: cells as)
    moreover have "ct_fresh LinkedKV_t (cs ! j)" using h1(4) j lc by (simp add: list_all_length)
    ultimately show ?thesis by (auto simp: LinkedKV_t_def split: ht_cell.splits)
  qed
  have same: "cells h1 b = cells h b" if "cells h b \<noteq> None" for b
    using that free unfolding cells by (auto intro: map_upds_apply_nontin)
  show "wp R self (init_sets c start 0 n (k start)) h1 Q"
  proof (rule wp_init_sets [OF h1(1) assms(2) h1(2), where bs = "[]"], goal_cases)
    case (6 h' bs')
    show ?case
    proof (rule k [OF 6(1) _ 6(3,4,5) _ h1(2)])
      show "length bs' = n" using 6(2) by simp
      show "leaves {} (cells h) (cells h')"
      proof (rule leavesI)
        fix b assume b: "cells h b \<noteq> None"
        then have "b \<notin> indexAt start ` {0..<0 + n}" using free [of b] by (auto simp: as)
        then show "cells h' b = cells h b" using leavesD [OF 6(6), of b] same [OF b] b by simp
      qed
      fix b
      show "allocs h b \<noteq> None \<Longrightarrow> allocs h' b = allocs h b"
        using 6(8) [of b] al by (auto split: if_splits)
      assume "b \<in> feet bs' \<or> b \<in> indexAt start ` {..<n}"
      then show "cells h b = None"
      proof
        assume "b \<in> feet bs'"
        then have "cells h1 b = None" using 6(7) [of b] by simp
        then show ?thesis using same [of b] by fastforce
      next
        assume "b \<in> indexAt start ` {..<n}"
        then show ?thesis using free [of b] by (auto simp: as)
      qed
    qed
  qed (use at in \<open>simp_all add: slots_ok_def sets_ok_def all_new_def\<close>)
qed

lemma Init_host_rep:
  assumes "ok h" "ht_env c = env" "0 < INITIAL_SIZE c" "INITIAL_SIZE c < 2 ^ 31"
  shows "wp R self (Init_host c conn send peers) h (\<lambda>r h'. \<exists>a start bs. ok h' \<and> ptr_id a = self \<and>
    r = (c\<lparr>ht_root := a\<rparr>, send_root conn send (ht_self c) (set_raddr (address a) RemoteObjectProto_new) peers) \<and> length bs = INITIAL_SIZE c \<and>
    table (c\<lparr>ht_root := a\<rparr>) (cells h') start bs \<and> all_new bs \<and> leaves {} (cells h) (cells h'))"
  (is "wp R self _ h ?Q")
  unfolding Init_host_def Let_def
proof (rule wp_Allocate [OF assms(1)], simp)
  fix a h1 cs
  assume h1: "ok h1" "ptr_id a = self" "length cs = 1 * ct_cells HashArray_t" "list_all (ct_fresh HashArray_t) cs"
    "allocated h h1 a (block HashArray_t 1 a) cs"
  obtain z where "cs = [HArray z]"
    using h1(3,4) by (cases cs) (auto simp: HashArray_t_def split: ht_cell.splits)
  then have c1: "cells h a = None" "cells h1 = (cells h)(a \<mapsto> HArray z)" using h1(5) by (auto simp: allocated_single)
  show "wp R self (InitArray c a (Return (c\<lparr>ht_root := a\<rparr>, send_root conn send (ht_self c) (set_raddr (address a) RemoteObjectProto_new) peers))) h1 ?Q"
    unfolding InitArray_def
  proof (rule wp_new_array [OF h1(1) assms(2)])
    fix h2 start bs
    assume h2: "ok h2" "length bs = INITIAL_SIZE c" "slots_ok (cells h2) start bs"
      "sets_ok (null_ptr env) (cells h2) (\<lambda>_. UNLOCKED) bs" "all_new bs" "leaves {} (cells h1) (cells h2)"
    let ?A = "HArray \<lparr>array_count = INITIAL_SIZE c, bucket_start = start\<rparr>"
    have a2: "cells h2 a = Some (HArray z)" using leavesD [OF h2(6), of a] by (simp add: c1)
    show "wp R self (Store a ?A (Return (c\<lparr>ht_root := a\<rparr>, send_root conn send (ht_self c) (set_raddr (address a) RemoteObjectProto_new) peers))) h2 ?Q"
    proof (rule wp_Store_ok [OF h2(1) h1(2)], simp add: a2, rule wp_Return)
      fix h3 assume h3: "ok h3" "cells h3 = (cells h2)(a \<mapsto> ?A)"
      have kp: "leaves {a} (cells h2) (cells h3)" by (simp add: leaves_def h3(2))
      have "a \<notin> feet bs" using sets_ok_live [OF h2(4), of a] a2 by auto
      then have "sets_ok (null_ptr env) (cells h3) (\<lambda>_. UNLOCKED) bs" by (intro sets_ok_keep [OF h2(4) kp]) simp
      moreover have "slots_ok (cells h3) start bs" using h2(3) a2 by (auto simp: slots_ok_def h3(2))
      ultimately have "table (c\<lparr>ht_root := a\<rparr>) (cells h3) start bs"
        using assms h2(2) by (simp add: table_def h3(2))
      moreover have "leaves {} (cells h) (cells h3)"
      proof (rule leavesI)
        fix b assume b: "cells h b \<noteq> None"
        then have "b \<noteq> a" using c1(1) by auto
        then show "cells h3 b = cells h b" using leavesD [OF h2(6), of b] b by (simp add: h3(2) c1(2))
      qed
      ultimately show "?Q (c\<lparr>ht_root := a\<rparr>, send_root conn send (ht_self c) (set_raddr (address a) RemoteObjectProto_new) peers) h3"
        using h1(2) h2(2,5) h3(1) by blast
    qed
  qed
qed

end

lemma all_new_filed: "all_new bs \<Longrightarrow> filed c bs"
  by (simp add: all_new_def filed_def)

lemma all_new_map: "all_new bs \<Longrightarrow> 0 < length bs \<Longrightarrow> length bs < 2 ^ 31 \<Longrightarrow> ht_map_of c bs = Map.empty"
  using keyhash_less by (auto simp: all_new_def ht_map_of_def fun_eq_iff)

section \<open>Refinement of a map\<close>

text \<open>
  \<open>remove\<close> leaves gaps that \<open>insert\<close> does not see past (\<open>Linked_Set_Correct\<close>), so a table acts as a map
  under all sequences of calls only while no bucket grows beyond its first node.  It cannot
  when the keys in use hash to at most seven per bucket.
\<close>

definition sparse_rep :: "(('p, ht_cell) heap \<Rightarrow> bool) \<Rightarrow> Hashtable \<Rightarrow> nat \<Rightarrow> key set \<Rightarrow> ('p, ht_cell) heap
    \<Rightarrow> (key \<Rightarrow> val option) \<Rightarrow> bool" where
  "sparse_rep ok c cnt K h m \<longleftrightarrow> ok h \<and> (\<exists>start bs. length bs = cnt \<and> table c (cells h) start bs \<and> filed c bs \<and>
     (\<forall>b \<in> set bs. length (snd b) = 1 \<and> fst ` set (chain_pairs (snd b)) \<subseteq> K) \<and> m = ht_map_of c bs)"

locale ht_sparse =
  fixes R :: "('p, ht_cell) rome" and ok and c :: Hashtable and cnt :: nat and K :: "key set" and fuel :: nat
  assumes pool: "ls_pool R ok (ht_env c)" and cnt: "0 < cnt" "cnt < 2 ^ 31" and fuel: "1 < fuel"
    and finite_keys: "finite K"
    and sparse: "i < cnt \<Longrightarrow> card {k \<in> K. keyhash c k cnt = i} \<le> NODE_BUNDLE_SIZE"
begin

abbreviation rep :: "('p, ht_cell) heap \<Rightarrow> (key \<Rightarrow> val option) \<Rightarrow> bool" where
  "rep \<equiv> sparse_rep ok c cnt K"

text \<open>A bucket never has more than seven pairs.\<close>

lemma few_pairs:
  assumes "i < cnt" "distinct (map fst ps)" "fst ` set ps \<subseteq> K" "\<And>k. k \<in> fst ` set ps \<Longrightarrow> keyhash c k cnt = i"
  shows "length ps \<le> NODE_BUNDLE_SIZE"
proof -
  have "length ps = card (fst ` set ps)" using distinct_card [OF assms(2)] by simp
  also have "\<dots> \<le> card {k \<in> K. keyhash c k cnt = i}"
    using assms(3,4) finite_keys by (intro card_mono) auto
  finally show ?thesis using sparse [OF assms(1)] by linarith
qed

lemma exec_rep:
  assumes "rep h m" "call_key x \<in> K"
  shows "\<exists>h'. ht_exec R fuel c n x h = Some (fst (spec_call x m), h') \<and> rep h' (snd (spec_call x m))"
proof -
  obtain start bs where r: "ok h" "length bs = cnt" "table c (cells h) start bs" "filed c bs"
    "\<forall>b \<in> set bs. length (snd b) = 1 \<and> fst ` set (chain_pairs (snd b)) \<subseteq> K" "m = ht_map_of c bs"
    using assms(1) by (auto simp: sparse_rep_def)
  let ?i = "keyhash c (call_key x) (length bs)"
  have i: "?i < length bs" using keyhash_less cnt r(2) by simp
  obtain s ns where b: "bs ! ?i = (s, ns)" by fastforce
  have ns: "length ns = 1" "fst ` set (chain_pairs ns) \<subseteq> K" using bspec [OF r(5) nth_mem [OF i]] by (simp_all add: b)
  have fl: "distinct (map fst (chain_pairs ns))" "\<And>k. k \<in> fst ` set (chain_pairs ns) \<Longrightarrow> keyhash c k cnt = ?i"
    using r(2,4) i by (auto simp: filed_def b dest!: spec [of _ ?i])
  have few: "length (chain_pairs ns) \<le> NODE_BUNDLE_SIZE" using few_pairs [OF _ fl(1) ns(2) fl(2)] i r(2) by simp
  have small: "length (chain_pairs ns) < 2 ^ 31 - 1" using few by (simp add: NODE_BUNDLE_SIZE_def)
  have kept: "rep h' (ht_map_of c (bs[?i := (s, ns')]))"
    if "ok h'" "table c (cells h') start (bs[?i := (s, ns')])" "length ns' = 1" "distinct (map fst (chain_pairs ns'))"
      "fst ` set (chain_pairs ns') \<subseteq> insert (call_key x) (fst ` set (chain_pairs ns))" for h' ns'
  proof -
    have "keyhash c k (length bs) = ?i" if "k \<in> fst ` set (chain_pairs ns')" for k
      using subsetD [OF \<open>fst ` set (chain_pairs ns') \<subseteq> _\<close> that] fl(2) [of k] r(2) by auto
    then have "filed c (bs[?i := (s, ns')])" by (rule filed_update [OF r(4) i that(4)])
    moreover have "\<forall>b \<in> set (bs[?i := (s, ns')]). length (snd b) = 1 \<and> fst ` set (chain_pairs (snd b)) \<subseteq> K"
    proof
      fix b assume "b \<in> set (bs[?i := (s, ns')])"
      then consider "b \<in> set bs" | "b = (s, ns')" using set_update_subset_insert by fastforce
      then show "length (snd b) = 1 \<and> fst ` set (chain_pairs (snd b)) \<subseteq> K"
      proof cases
        case 2
        have "fst ` set (chain_pairs ns') \<subseteq> K"
          by (rule subset_trans [OF that(5)]) (simp add: ns(2) assms(2))
        then show ?thesis using 2 that(3) by simp
      qed (use r(5) in blast)
    qed
    ultimately show ?thesis using that(1,2) r(2) unfolding sparse_rep_def
      by (intro conjI exI [of _ start] exI [of _ "bs[?i := (s, ns')]"]) simp_all
  qed
  have "wp R n (ht_prog_of c fuel x) h (\<lambda>r h'. r = fst (spec_call x m) \<and> rep h' (snd (spec_call x m)))"
  proof (cases x)
    case (Contains k)
    show ?thesis
      unfolding Contains ht_prog_of.simps spec_call.simps fst_conv snd_conv
      by (rule wp_conseq [OF ls_pool.ht_contains_rep [OF pool r(1,3) refl _ b]])
        (use Contains ns(1) fuel r in \<open>auto simp: sparse_rep_def\<close>)
  next
    case (Insert k v)
    show ?thesis
      unfolding Insert ht_prog_of.simps spec_call.simps
    proof (rule ls_pool.ht_insert_rep [OF pool r(1,3) refl _ b], goal_cases)
      case (5 h' ns')
      have ins: "packed ns'" "map_of (chain_pairs ns') = snd (spec_insert (map_of (chain_pairs ns)) k v)"
        "chain_pairs ns' = (if k \<in> fst ` set (chain_pairs ns) then chain_pairs ns else chain_pairs ns @ [(k, v)])"
        "length ns' = length ns \<or> length (chain_pairs ns') = Suc (NODE_BUNDLE_SIZE * length ns)"
        using 5(2) unfolding inserted_into_def by blast+
      have d: "distinct (map fst (chain_pairs ns'))" using ins(3) fl(1) by auto
      have sub: "fst ` set (chain_pairs ns') \<subseteq> insert k (fst ` set (chain_pairs ns))" using ins(3) by auto
      have "length (chain_pairs ns') \<le> NODE_BUNDLE_SIZE"
        by (rule few_pairs [of ?i]) (use i r(2) d sub ns(2) fl(2) assms(2) Insert in auto)
      then have "length ns' = 1" using ins(4) ns(1) by auto
      then show ?case
        using kept [OF 5(1,3)] d sub map_insert_local [OF r(4) i _ b ins(2)] Insert r(6) by simp
    qed (use Insert ns(1) fuel small in \<open>auto simp: length_Suc_conv\<close>)
  next
    case (Remove k)
    show ?thesis
      unfolding Remove ht_prog_of.simps spec_call.simps
    proof (rule ls_pool.ht_remove_rep [OF pool r(1,3) refl _ b], goal_cases)
      case (5 h' ns')
      have rem: "distinct (map fst (chain_pairs ns'))"
        "map_of (chain_pairs ns') = snd (spec_remove (map_of (chain_pairs ns)) k)" "map fst ns' = map fst ns"
        using 5(2) unfolding removed_from_def by blast+
      have "dom (map_of (chain_pairs ns')) \<subseteq> dom (map_of (chain_pairs ns))"
        unfolding rem(2) by (auto simp: spec_remove_def split: option.splits if_splits)
      then have "fst ` set (chain_pairs ns') \<subseteq> fst ` set (chain_pairs ns)" by (simp add: dom_map_of_conv_image_fst)
      moreover have "length ns' = 1" using arg_cong [OF rem(3), of length] ns(1) by simp
      ultimately show ?case
        using kept [OF 5(1,3)] rem(1) map_remove_local [OF r(4) i _ b rem(2)] Remove r(6) by auto
    qed (use Remove ns(1) fuel small fl(1) in auto)
  qed
  then show ?thesis by (auto simp: wp_def ht_exec_def)
qed

end

sublocale ht_sparse \<subseteq> chained: ht_map "ht_exec R fuel c" rep K
  by unfold_locales (rule exec_rep)

section \<open>The executable instance\<close>

text \<open>The size the sources use, and the hash of the standard library on keys that are not negative.\<close>

definition sample_ht :: "remote_ptr \<Rightarrow> Hashtable" where
  "sample_ht r = \<lparr>ht_self = 1, ht_root = r, ht_hash = (\<lambda>k. ucast k), INITIAL_SIZE = CNF_PLIST_SIZE, ht_env = bump_env\<rparr>"

definition small_keys :: "key set" where "small_keys = of_nat ` {..<896}"

lemma sample_keyhash: "j < 896 \<Longrightarrow> keyhash (sample_ht r) (of_nat j) 128 = j mod 128"
proof -
  assume j: "j < 896"
  have "unat (ucast (of_nat j :: key) :: uint64) = j" using j by (simp add: unsigned_ucast_eq unsigned_of_nat take_bit_nat_eq_self)
  then show ?thesis by (simp add: keyhash_def sample_ht_def unat_mod)
qed

interpretation spread: ht_sparse bump_rome bump_ok "sample_ht r" 128 small_keys 2 for r
proof (rule ht_sparse.intro)
  show "ls_pool bump_rome bump_ok (ht_env (sample_ht r))"
    using bump_ls.ls_pool_axioms by (simp add: sample_ht_def)
  fix i :: nat
  assume "i < 128"
  have "{k \<in> small_keys. keyhash (sample_ht r) k 128 = i} \<subseteq> (\<lambda>q. of_nat (128 * q + i)) ` {..<7}"
  proof
    fix k assume "k \<in> {k \<in> small_keys. keyhash (sample_ht r) k 128 = i}"
    then obtain j where j: "j < 896" "k = of_nat j" "j mod 128 = i" by (auto simp: small_keys_def sample_keyhash)
    have d: "128 * (j div 128) + i = j" using j(3) mult_div_mod_eq [of 128 j] by simp
    have "j div 128 < 7" using j(1) by (intro less_mult_imp_div_less) simp
    then show "k \<in> (\<lambda>q. of_nat (128 * q + i)) ` {..<7}" by (intro image_eqI [of _ _ "j div 128"]) (simp_all only: d j(2) lessThan_iff)
  qed
  then have "card {k \<in> small_keys. keyhash (sample_ht r) k 128 = i} \<le> card ((\<lambda>q. of_nat (128 * q + i) :: key) ` {..<7})"
    by (intro card_mono) auto
  also have "\<dots> \<le> 7" using card_image_le [of "{..<7 :: nat}" "\<lambda>q. of_nat (128 * q + i) :: key"] by simp
  finally show "card {k \<in> small_keys. keyhash (sample_ht r) k 128 = i} \<le> NODE_BUNDLE_SIZE"
    by (simp add: NODE_BUNDLE_SIZE_def)
qed (simp_all add: small_keys_def)

section \<open>Correctness\<close>

text \<open>What the status of the connection and of the message to a peer is, and what the loop of the host gives.\<close>

definition send_status :: "(nat \<Rightarrow> 'e option) \<Rightarrow> (nat \<Rightarrow> RemoteObjectProto \<Rightarrow> 'e option) \<Rightarrow> RemoteObjectProto \<Rightarrow> nat \<Rightarrow> 'e option" where
  "send_status conn send proto p = (case conn p of Some e \<Rightarrow> Some e | None \<Rightarrow> send p proto)"

lemma send_root_spec:
  "send_root conn send self proto peers =
    (map (\<lambda>p. (p, proto)) (takeWhile (\<lambda>p. send_status conn send proto p = None) (filter (\<lambda>p. p \<noteq> self) peers)),
     case dropWhile (\<lambda>p. send_status conn send proto p = None) (filter (\<lambda>p. p \<noteq> self) peers) of
       [] \<Rightarrow> None | p # _ \<Rightarrow> send_status conn send proto p)"
  by (induction peers) (auto simp: send_status_def split: option.splits)

lemma try_deliver_waits:
  assumes "\<forall>j < n. got (i + j) = Unavailable" "got (i + n) = Delivered proto" "n < fuel"
  shows "try_deliver fuel got i = Some (Inr proto)"
  using assms
proof (induction n arbitrary: i fuel)
  case (Suc n)
  obtain f where f: "fuel = Suc f" using Suc.prems(3) by (cases fuel) auto
  have "got i = Unavailable" using Suc.prems(1) by (metis add_0_right zero_less_Suc)
  moreover have "try_deliver f got (Suc i) = Some (Inr proto)"
    using Suc.prems f by (intro Suc.IH) (auto simp: add_Suc_right [symmetric] simp del: add_Suc_right)
  ultimately show ?case by (simp add: f)
qed (auto simp: gr0_conv_Suc)

text \<open>C17: \<open>Init\<close> on the host makes an empty well-formed table on the host and touches no other memory.  It
  sends one message, with the address of the root, to every peer but itself, in the order of the list, up to the first connection or message that
  fails, and returns that error, or no error when none fails.  A peer whose channel delivers only what the host has
  sent to it, nothing for a number of attempts and a message then, ends \<open>Init\<close> with the very root of the host, provided the
  root's address fits into 64 bits.\<close>

theorem ht_init_agrees:
  fixes c :: Hashtable and conn :: "nat \<Rightarrow> 'e option"
  assumes "ls_pool R ok (ht_env c)" "ok h" "0 < INITIAL_SIZE c" "INITIAL_SIZE c < 2 ^ 31"
  shows "\<exists>h' a start bs sent st. run R (ht_self c) (Init_host c conn send peers) h = Finished (c\<lparr>ht_root := a\<rparr>, sent, st) h' \<and>
    ok h' \<and> table (c\<lparr>ht_root := a\<rparr>) (cells h') start bs \<and> filed c bs \<and> ht_map_of c bs = Map.empty \<and>
    leaves {} (cells h) (cells h') \<and>
    sent = map (\<lambda>p. (p, \<lparr>raddr = of_nat (address a)\<rparr>))
      (takeWhile (\<lambda>p. send_status conn send \<lparr>raddr = of_nat (address a)\<rparr> p = None) (filter (\<lambda>p. p \<noteq> ht_self c) peers)) \<and>
    st = (case dropWhile (\<lambda>p. send_status conn send \<lparr>raddr = of_nat (address a)\<rparr> p = None) (filter (\<lambda>p. p \<noteq> ht_self c) peers) of
            [] \<Rightarrow> None | p # _ \<Rightarrow> send_status conn send \<lparr>raddr = of_nat (address a)\<rparr> p) \<and>
    (\<forall>(peer :: Hashtable) (got :: nat \<Rightarrow> 'e delivery) n fuel m. address a < 2 ^ 64 \<and>
       (\<forall>j x. got j = Delivered x \<longrightarrow> (ht_self peer, x) \<in> set sent) \<and>
       (\<forall>j < n. got j = Unavailable) \<and> got n = Delivered m \<and> n < fuel \<longrightarrow>
       Init_peer peer fuel (ht_self c) None got = Some (Inr (peer\<lparr>ht_root := a\<rparr>)))"
proof -
  obtain r h' where r: "run R (ht_self c) (Init_host c conn send peers) h = Finished r h'"
    "\<exists>a start bs. ok h' \<and> ptr_id a = ht_self c \<and>
      r = (c\<lparr>ht_root := a\<rparr>, send_root conn send (ht_self c) (set_raddr (address a) RemoteObjectProto_new) peers) \<and>
      length bs = INITIAL_SIZE c \<and> table (c\<lparr>ht_root := a\<rparr>) (cells h') start bs \<and> all_new bs \<and> leaves {} (cells h) (cells h')"
    using ls_pool.Init_host_rep [OF assms(1,2) refl assms(3,4), of "ht_self c" conn send peers] unfolding wp_def by blast
  then obtain a start bs where b: "ok h'" "ptr_id a = ht_self c"
    "r = (c\<lparr>ht_root := a\<rparr>, send_root conn send (ht_self c) (set_raddr (address a) RemoteObjectProto_new) peers)"
    "length bs = INITIAL_SIZE c" "table (c\<lparr>ht_root := a\<rparr>) (cells h') start bs" "all_new bs" "leaves {} (cells h) (cells h')"
    by blast
  let ?m = "\<lparr>raddr = of_nat (address a)\<rparr> :: RemoteObjectProto"
  let ?others = "filter (\<lambda>p. p \<noteq> ht_self c) peers" and ?ok = "\<lambda>p. send_status conn send ?m p = None"
  let ?sent = "map (\<lambda>p. (p, ?m)) (takeWhile ?ok ?others)"
  let ?st = "case dropWhile ?ok ?others of [] \<Rightarrow> None | p # _ \<Rightarrow> send_status conn send ?m p"
  have m: "set_raddr (address a) RemoteObjectProto_new = ?m" by (simp add: set_raddr_def RemoteObjectProto_new_def)
  have run: "run R (ht_self c) (Init_host c conn send peers) h = Finished (c\<lparr>ht_root := a\<rparr>, ?sent, ?st) h'"
    using r(1) unfolding b(3) send_root_spec m .
  have empty: "ht_map_of c bs = Map.empty" using all_new_map [OF b(6)] b(4) assms(3,4) by simp
  have "Init_peer peer fuel (ht_self c) None got = Some (Inr (peer\<lparr>ht_root := a\<rparr>))"
    if "address a < 2 ^ 64 \<and> (\<forall>j x. got j = Delivered x \<longrightarrow> (ht_self peer, x) \<in> set ?sent) \<and>
       (\<forall>j < n. got j = Unavailable) \<and> got n = Delivered m \<and> n < fuel"
    for peer and got :: "nat \<Rightarrow> 'e delivery" and n fuel m
  proof -
    have "m = ?m" using that by force
    then have "unat (raddr m) = address a" using that by (simp add: unsigned_of_nat take_bit_nat_eq_self)
    then have "Remote (ht_self c) (unat (raddr m)) = a" using b(2) by (cases a) simp
    then show ?thesis using try_deliver_waits [of n got 0 m fuel] that by (simp add: Init_peer_def)
  qed
  then show ?thesis
    by (intro exI [of _ h'] exI [of _ a] exI [of _ start] exI [of _ bs] exI [of _ ?sent] exI [of _ ?st]
        conjI run b(1,5,7) empty refl all_new_filed [OF b(6)] allI impI)
qed

text \<open>In the executable library the root is at address 1 of the host.\<close>

lemma init_sets_ends: "run R n (init_sets c start i m k) h = Finished v h' \<Longrightarrow> \<exists>h1. run R n k h1 = Finished v h'"
proof (induction m arbitrary: i h)
  case (Suc m)
  then show ?case by (auto simp: ls_new_def split: prod.splits if_splits option.splits)
qed auto

lemma first_root:
  assumes "run bump_rome n (Init_host c conn send peers) bump_empty = Finished r h'"
  shows "ht_root (fst r) = Remote n 1"
proof -
  obtain p h where p: "rome_allocate bump_rome n HashArray_t 1 bump_empty = (p, h)" by fastforce
  then have "p = Remote n 1" by (simp add: bump_rome_def bump_place_def bump_empty_def Let_def)
  moreover have "ht_root (fst r) = p"
    using assms p by (auto simp: Init_host_def InitArray_def Let_def split: prod.splits if_splits option.splits dest!: init_sets_ends)
  ultimately show ?thesis by simp
qed

theorem ht_init_agrees_witness:
  "\<exists>h' start bs. run bump_rome 1 (Init_host (sample_ht (Remote 0 0)) (\<lambda>_. None :: unit option) (\<lambda>_ _. None) [0, 1, 2]) bump_empty =
      Finished ((sample_ht (Remote 0 0))\<lparr>ht_root := Remote 1 1\<rparr>, [(0, \<lparr>raddr = 1\<rparr>), (2, \<lparr>raddr = 1\<rparr>)], None) h' \<and>
    table ((sample_ht (Remote 0 0))\<lparr>ht_root := Remote 1 1\<rparr>) (cells h') start bs \<and>
    Init_peer ((sample_ht (Remote 0 0))\<lparr>ht_self := 2\<rparr>) 5 1 None (\<lambda>i. if i < 3 then Unavailable else Delivered \<lparr>raddr = 1\<rparr>) =
      Some (Inr (((sample_ht (Remote 0 0))\<lparr>ht_self := 2\<rparr>)\<lparr>ht_root := Remote 1 1\<rparr>) :: unit + Hashtable)"
proof -
  let ?c = "sample_ht (Remote 0 0)" and ?got = "\<lambda>i :: nat. if i < 3 then Unavailable else Delivered \<lparr>raddr = 1\<rparr> :: unit delivery"
  have c: "ht_self ?c = 1" "0 < INITIAL_SIZE ?c" "INITIAL_SIZE ?c < 2 ^ 31" by (simp_all add: sample_ht_def CNF_PLIST_SIZE_def)
  let ?sent = "\<lambda>a. [(0 :: nat, \<lparr>raddr = of_nat (address a)\<rparr> :: RemoteObjectProto), (2, \<lparr>raddr = of_nat (address a)\<rparr>)]"
  have f: "filter (\<lambda>p. p \<noteq> ht_self ?c) [0, 1, 2] = [0, 2]" by (simp add: c(1))
  have none: "send_status (\<lambda>_. None :: unit option) (\<lambda>_ _. None) m p = None" for m p by (simp add: send_status_def)
  obtain h' a start bs where i: "run bump_rome 1 (Init_host ?c (\<lambda>_. None :: unit option) (\<lambda>_ _. None) [0, 1, 2]) bump_empty =
      Finished (?c\<lparr>ht_root := a\<rparr>, ?sent a, None) h'" "table (?c\<lparr>ht_root := a\<rparr>) (cells h') start bs"
    "\<forall>(peer :: Hashtable) (got :: nat \<Rightarrow> unit delivery) n fuel m. address a < 2 ^ 64 \<and>
       (\<forall>j x. got j = Delivered x \<longrightarrow> (ht_self peer, x) \<in> set (?sent a)) \<and>
       (\<forall>j < n. got j = Unavailable) \<and> got n = Delivered m \<and> n < fuel \<longrightarrow>
       Init_peer peer fuel 1 None got = Some (Inr (peer\<lparr>ht_root := a\<rparr>))"
    using ht_init_agrees [OF spread.pool bump_ok_empty c(2,3), of "\<lambda>_. None :: unit option" "\<lambda>_ _. None" "[0, 1, 2]",
        unfolded f, unfolded none c(1), simplified takeWhile.simps dropWhile.simps list.map list.case simp_thms if_True]
    by blast
  have a: "a = Remote 1 1" using first_root [OF i(1)] by simp
  have "Init_peer (?c\<lparr>ht_self := 2\<rparr>) 5 1 None ?got = Some (Inr ((?c\<lparr>ht_self := 2\<rparr>)\<lparr>ht_root := a\<rparr>))"
    by (rule i(3) [rule_format, where n = 3 and m = "\<lparr>raddr = 1\<rparr>"]) (simp add: a)
  then show ?thesis using i(1,2) unfolding a by auto
qed

definition fresh_ht :: "Hashtable \<times> (nat, ht_cell) heap" where
  "fresh_ht = (case run bump_rome 1 (Init_host (sample_ht (Remote 0 0)) (\<lambda>_. None :: unit option) (\<lambda>_ _. None) [0, 1, 2]) bump_empty of
     Finished r h \<Rightarrow> (fst r, h) | _ \<Rightarrow> undefined)"

lemma fresh_ht:
  obtains a h where "fresh_ht = (sample_ht a, h)" "sparse_rep bump_ok (sample_ht a) 128 small_keys h Map.empty"
proof -
  let ?c = "sample_ht (Remote 0 0)"
  have sz: "INITIAL_SIZE ?c = 128" "(?c)\<lparr>ht_root := a\<rparr> = sample_ht a" for a by (simp_all add: sample_ht_def CNF_PLIST_SIZE_def)
  obtain r h where w0: "run bump_rome 1 (Init_host ?c (\<lambda>_. None :: unit option) (\<lambda>_ _. None) [0, 1, 2]) bump_empty = Finished r h"
    "\<exists>a start bs. bump_ok h \<and> ptr_id a = 1 \<and>
      r = (?c\<lparr>ht_root := a\<rparr>, send_root (\<lambda>_. None) (\<lambda>_ _. None) (ht_self ?c) (set_raddr (address a) RemoteObjectProto_new) [0, 1, 2]) \<and> length bs = INITIAL_SIZE ?c \<and>
      table (?c\<lparr>ht_root := a\<rparr>) (cells h) start bs \<and> all_new bs \<and> leaves {} (cells bump_empty) (cells h)"
    using ls_pool.Init_host_rep [OF spread.pool bump_ok_empty refl, of "Remote 0 0" 1 "\<lambda>_. None :: unit option" "\<lambda>_ _. None" "[0, 1, 2]"]
    unfolding wp_def sz by fastforce
  then obtain a start bs where w: "run bump_rome 1 (Init_host ?c (\<lambda>_. None :: unit option) (\<lambda>_ _. None) [0, 1, 2]) bump_empty = Finished r h"
    "bump_ok h" "fst r = sample_ht a" "length bs = 128" "table (sample_ht a) (cells h) start bs" "all_new bs"
    unfolding sz by auto
  have "sparse_rep bump_ok (sample_ht a) 128 small_keys h Map.empty"
    unfolding sparse_rep_def
    using w(2,4-6) all_new_filed [OF w(6)] all_new_map [OF w(6), of "sample_ht a"] by (auto simp: all_new_def intro!: exI [of _ start] exI [of _ bs])
  moreover have "fresh_ht = (sample_ht a, h)" using w(1,3) by (simp add: fresh_ht_def)
  ultimately show ?thesis using that by blast
qed

text \<open>C5: as long as the keys in use hash to at most seven per bucket, any sequence of calls of \<open>contains\<close>, \<open>insert\<close> and
  \<open>remove\<close>, by whichever nodes, answers as the map the table stands for, and every call returns.\<close>

theorem ht_calls_refine_map:
  assumes "ht_sparse R ok c cnt K fuel" "sparse_rep ok c cnt K h m" "call_key ` snd ` set xs \<subseteq> K"
  shows "\<exists>h'. exec_calls (ht_exec R fuel c) xs h = Some (fst (spec_calls (map snd xs) m), h') \<and>
    sparse_rep ok c cnt K h' (snd (spec_calls (map snd xs) m))"
proof -
  have "ht_map (ht_exec R fuel c) (sparse_rep ok c cnt K) K"
    by (rule ht_map.intro) (rule ht_sparse.exec_rep [OF assms(1)])
  then show ?thesis using assms(2,3) by (rule ht_map.exec_calls_ok)
qed

theorem ht_calls_refine_map_witness:
  "\<exists>h'. exec_calls (ht_exec bump_rome 2 (fst fresh_ht)) [(1, Insert 5 10), (2, Contains 5), (3, Remove 5), (1, Contains 5)]
      (snd fresh_ht) =
    Some ([ht_res TRUE_STATE 0, ht_res TRUE_STATE 10, ht_res TRUE_STATE 10, ht_res FALSE_STATE 0], h')"
proof -
  obtain a h where f: "fresh_ht = (sample_ht a, h)" "sparse_rep bump_ok (sample_ht a) 128 small_keys h Map.empty" by (rule fresh_ht)
  have "(5 :: key) \<in> small_keys" unfolding small_keys_def by (rule image_eqI [of _ _ 5]) simp_all
  then show ?thesis
    using ht_calls_refine_map [OF spread.ht_sparse_axioms f(2), of "[(1, Insert 5 10), (2, Contains 5), (3, Remove 5), (1, Contains 5)]"]
    by (auto simp: f(1) spec_insert_def spec_contains_def spec_remove_def)
qed

end
