(* ===== verification/Structures_Agree.thy ===== *)
theory Structures_Agree
  imports Iht_Correct Hashtable_Correct
begin

text \<open>
  The experiment runs the same clients on either of two structures, the interlocked table
  (\<^verbatim>\<open>structures/iht_ds.h\<close>) and the chained table (\<^verbatim>\<open>structures/hashtable.h\<close>), behind one map
  interface.  Here the two are compared with each other.
\<close>

text \<open>C14: the two structures are interchangeable for clients that take turns, as long as the keys in use hash to at most seven
  per bucket of the chained table and are among those the interlocked table is declared for: started on the same contents,
  both give the same answers to the same sequence of calls, and every call returns.\<close>

theorem structures_agree:
  assumes "iht_fuelled R ok c D U fuel" "ok h" "iht_state c D U h m"
    and "ht_sparse R' ok' c' cnt K fuel'" "sparse_rep ok' c' cnt K h' m"
    and "call_key ` snd ` set xs \<subseteq> U \<inter> K"
  shows "\<exists>rs g g'. exec_calls (iht_exec R c fuel) xs h = Some (rs, g) \<and>
    exec_calls (ht_exec R' fuel' c') xs h' = Some (rs, g') \<and> length rs = length xs"
proof -
  have "ht_map (ht_exec R' fuel' c') (sparse_rep ok' c' cnt K) K"
    by (rule ht_map.intro) (rule ht_sparse.exec_rep [OF assms(4)])
  from ht_map.exec_calls_ok [OF this assms(5), of xs] obtain g'
    where "exec_calls (ht_exec R' fuel' c') xs h' = Some (fst (spec_calls (map snd xs) m), g')"
    using assms(6) by auto
  moreover obtain g where "exec_calls (iht_exec R c fuel) xs h = Some (fst (spec_calls (map snd xs) m), g)"
    using iht_fuelled.calls_state [OF assms(1-3), of xs] assms(6) by auto
  ultimately show ?thesis using spec_calls_length [of "map snd xs" m] by auto
qed

theorem structures_agree_witness:
  "\<exists>rs g g'. exec_calls (iht_exec bump_rome (fst fresh_table) 48) [(1, Insert 5 10), (2, Insert 5 20), (3, Contains 5)]
       (snd fresh_table) = Some (rs, g) \<and>
     exec_calls (ht_exec bump_rome 2 (fst fresh_ht)) [(1, Insert 5 10), (2, Insert 5 20), (3, Contains 5)]
       (snd fresh_ht) = Some (rs, g') \<and> length rs = 3"
proof -
  obtain r h where t: "fresh_table = (deployed (Remote 0 0) 1 r, h)" "bump_ok h"
    "iht_state (deployed (Remote 0 0) 1 r) 24 key_range h Map.empty"
    by (rule fresh_table)
  obtain a h' where f: "fresh_ht = (sample_ht a, h')" "sparse_rep bump_ok (sample_ht a) 128 small_keys h' Map.empty"
    by (rule fresh_ht)
  have "(5 :: key) \<in> small_keys" unfolding small_keys_def by (rule image_eqI [of _ _ 5]) simp_all
  moreover have "(5 :: key) \<in> key_range" by (simp add: key_range_def)
  ultimately show ?thesis
    using structures_agree [OF deployed.iht_fuelled_axioms t(2,3) spread.ht_sparse_axioms f(2),
      of "[(1, Insert 5 10), (2, Insert 5 20), (3, Contains 5)]"]
    by (simp add: t(1) f(1) eval_nat_numeral del: exec_calls.simps)
qed

end
