(* ===== verification/Hashtable_Concurrent.thy ===== *)
theory Hashtable_Concurrent
  imports Lock_Protocol Hashtable_Correct Bump_Eval
begin

text \<open>
  The calls of the chained table (\<^verbatim>\<open>structures/hashtable.h\<close> on \<^verbatim>\<open>structures/linked_set.h\<close>) when they
  overlap: every one of them follows the protocol of \<open>Lock_Protocol\<close>.  The array and the sets do
  not change between rehashes, a bucket's nodes are behind the lock of the bucket.
\<close>

section \<open>The methods of a bucket, under its lock\<close>

lemma locked_fetch_node:
  assumes "m a = Some (HNode x)"
    and "\<And>q. fresh_for S self m q [q] \<Longrightarrow> locked S l self Q (k q x) (m(q \<mapsto> HNode x)) (al(q \<mapsto> [q]))"
  shows "locked S l self Q (fetch_node a k) m al"
  using assms by (auto simp: fetch_node_def load_node_def fresh_for_def)

lemma locked_search_node:
  assumes "node_ok x"
    and "\<And>i. find_index k (take (node_length x) (node_key x)) = Some i \<Longrightarrow> locked S l self Q (found i) m al"
    and "find_index k (take (node_length x) (node_key x)) = None \<Longrightarrow> locked S l self Q missing m al"
  shows "locked S l self Q (search_node x k found missing) m al"
  using assms by (auto simp: search_node_def split: option.splits)

lemma locked_ls_unlock:
  assumes "unl S = HLock UNLOCKED" "own_blocks m al" "D \<subseteq> dom m" "leaving r k (al |` (- D))" "splits_off al D" "Q r (m |` D)"
  shows "locked S l self Q (ls_unlock l k) m al"
  unfolding ls_unlock_def by (rule locked_give [where D = D and Q = Q, OF _ _ _ assms(2-6)]) (simp_all add: assms(1) hlock_t_def ctype_ok_def)

lemma locked_changeCount:
  assumes "m (ls_first s) = Some (HNode x)" "int_range (total_length x + (if inc then 1 else -1))"
    "ls_first s \<noteq> l" "own_blocks m al"
    and "locked S l self Q k (m(ls_first s \<mapsto> HNode (x\<lparr>total_length := total_length x + (if inc then 1 else -1)\<rparr>))) al"
  shows "locked S l self Q (changeCount s inc k) m al"
  unfolding changeCount_def Let_def
proof (rule locked_fetch_node [where x = x], rule assms(1))
  let ?x = "x\<lparr>total_length := total_length x + (if inc then 1 else -1)\<rparr>"
  let ?m = "m(ls_first s \<mapsto> HNode ?x)"
  fix q assume q: "fresh_for S self m q [q]"
  then have n: "m q = None" "q \<noteq> ls_first s" using assms(1) by (auto simp: fresh_for_def)
  have "locked S l self Q (Deallocate Node_t 1 q k) (?m(q \<mapsto> HNode x)) (al(q \<mapsto> [q]))"
    by (rule locked_free [OF _ _ assms(5)]) (use n assms(4) in auto)
  moreover have "?m(q \<mapsto> HNode x) = m(q \<mapsto> HNode x, ls_first s \<mapsto> HNode ?x)" using n(2) [symmetric] by (rule fun_upd_twist)
  ultimately show "locked S l self Q (if \<not> int_range (total_length x + (if inc then 1 else - 1)) then Undefined
      else Write (ls_first s) (HNode ?x) None (Deallocate Node_t 1 q k)) (m(q \<mapsto> HNode x)) (al(q \<mapsto> [q]))"
    using assms(1-3) n(2) by simp
qed

text \<open>
  A bucket of one node: what the three methods do with it.  \<open>K\<close> is what the caller does with the
  answer.
\<close>

definition one_node :: "ht_cell shared \<Rightarrow> ls_env \<Rightarrow> LinkedSet \<Rightarrow> Node \<Rightarrow> ht_cell memory \<Rightarrow> copies \<Rightarrow> bool" where
  "one_node S env s x m al \<longleftrightarrow>
     nul S = null_ptr env \<and> unl S = HLock UNLOCKED \<and> m (ls_first s) = Some (HNode x) \<and> node_ok x \<and>
     next_node x = null_ptr env \<and> ls_first s \<noteq> null_ptr env \<and> ls_first s \<noteq> ls_lock s \<and> ls_first s \<notin> covered al \<and> own_blocks m al"

lemma one_nodeD:
  assumes "one_node S env s x m al"
  shows "nul S = null_ptr env" "unl S = HLock UNLOCKED" "m (ls_first s) = Some (HNode x)" "node_ok x"
    "next_node x = null_ptr env" "ls_first s \<noteq> null_ptr env" "ls_first s \<noteq> ls_lock s" "ls_first s \<notin> covered al" "own_blocks m al"
  using assms by (simp_all add: one_node_def)

lemma give_back:
  assumes one: "one_node S env s x m al" and out: "leaving r k al" "Q r [ls_first s \<mapsto> HNode x']" "m' (ls_first s) = Some (HNode x')" "own_blocks m' al"
  shows "locked S (ls_lock s) self Q (ls_unlock (ls_lock s) k) m' al"
proof (rule locked_ls_unlock [OF one_nodeD(2) [OF one]])
  note shared = one_nodeD(1,2) [OF one] and node = one_nodeD(3-5) [OF one] and first = one_nodeD(6-9) [OF one]
  show "leaving r k (al |` (- {ls_first s}))" "splits_off al {ls_first s}"
    using own_blocks_apart [OF first(4), of "{ls_first s}"] out(1) first(3) by simp_all
  have "m' |` {ls_first s} = [ls_first s \<mapsto> HNode x']" using assms(4) by (auto simp: restrict_map_def fun_eq_iff)
  then show "Q r (m' |` {ls_first s})" using assms(3) by simp
qed (use assms(4,5) in auto)

lemma give_back_free:
  assumes one: "one_node S env s x m al" and out: "leaving r k al" "Q r [ls_first s \<mapsto> HNode x']" "m' (ls_first s) = Some (HNode x')" "own_blocks m' al"
    "m q = None" "m' q \<noteq> None"
  shows "locked S (ls_lock s) self Q (ls_unlock (ls_lock s) (Deallocate T n q k)) m' (al(q \<mapsto> [q]))"
proof (rule locked_ls_unlock [OF one_nodeD(2) [OF one]])
  note shared = one_nodeD(1,2) [OF one] and node = one_nodeD(3-5) [OF one] and first = one_nodeD(6-9) [OF one]
  have q: "q \<noteq> ls_first s" "al q = None" using assms(6) node(1) own_blocks_vacant [OF first(4)] by auto
  have "{ls_first s} \<inter> covered (al(q \<mapsto> [q])) = {}" using first(3) q by (simp add: domIff)
  note ap = own_blocks_apart [OF own_blocks_add [OF first(4)] this]
  have "(al(q \<mapsto> [q]))(q := None) = al" using q(2) by auto
  then have "leaving r (Deallocate T n q k) (al(q \<mapsto> [q]))" using out(1) by (simp del: fun_upd_upd)
  then show "leaving r (Deallocate T n q k) ((al(q \<mapsto> [q])) |` (- {ls_first s}))" "splits_off (al(q \<mapsto> [q])) {ls_first s}"
    by (simp_all only: ap)
  show "own_blocks m' (al(q \<mapsto> [q]))" using assms(5,7) by (auto simp: own_blocks_def)
  have "m' |` {ls_first s} = [ls_first s \<mapsto> HNode x']" using assms(4) by (auto simp: restrict_map_def fun_eq_iff)
  then show "Q r (m' |` {ls_first s})" using assms(3) by simp
qed (use assms(4,5,7) in auto)

lemma locked_contains:
  assumes one: "one_node S env s x m al" and out: "leaving (spec_contains (map_of (node_pairs x)) key) (K (spec_contains (map_of (node_pairs x)) key)) al"
    "Q (spec_contains (map_of (node_pairs x)) key) [ls_first s \<mapsto> HNode x]"
  shows "locked S (ls_lock s) self Q (ls_contains_loop env s key (Suc (Suc n)) (ls_first s) K) m al"
proof -
  note shared = one_nodeD(1,2) [OF one] and node = one_nodeD(3-5) [OF one] and first = one_nodeD(6-9) [OF one]
  have "locked S (ls_lock s) self Q (fetch_node (ls_first s) (\<lambda>red_node node_data. search_node node_data key
      (\<lambda>i. ls_unlock (ls_lock s) (Deallocate Node_t 1 red_node (K (ht_res TRUE_STATE (node_value node_data ! i)))))
      (Deallocate Node_t 1 red_node (ls_contains_loop env s key (Suc n) (next_node node_data) K)))) m al"
  proof (rule locked_fetch_node [where x = x], rule node, rule locked_search_node [OF node(2)], goal_cases)
    case (1 q i)
    then have q: "m q = None" "q \<noteq> ls_first s" using node(1) by (auto simp: fresh_for_def)
    have r: "spec_contains (map_of (node_pairs x)) key = ht_res TRUE_STATE (node_value x ! i)"
      using node_found(2) [OF node(2) 1(2)] by (simp add: spec_contains_def)
    show ?case
      by (rule give_back_free [OF one, where x' = x], fold r, rule out, rule assms(3)) (use q node(1) first(4) in auto)
  next
    case (2 q)
    then have q: "m q = None" by (simp add: fresh_for_def)
    have "map_of (node_pairs x) key = None" using node_missing [OF node(2) 2(2)] by (simp add: map_of_eq_None_iff)
    then have r: "spec_contains (map_of (node_pairs x)) key = ht_res FALSE_STATE 0" by (simp add: spec_contains_def)
    have "locked S (ls_lock s) self Q (ls_unlock (ls_lock s) (K (ht_res FALSE_STATE 0))) m al"
      by (rule give_back [OF one, where x' = x], fold r, rule out, rule assms(3)) (use node(1) first(4) in auto)
    then show ?case by (intro locked_free [OF q first(4)]) (simp add: node(3))
  qed
  then show ?thesis using first(1) by simp
qed

lemma locked_insert:
  assumes one: "one_node S env s x m al" and out: "leaving (fst (spec_insert (map_of (node_pairs x)) key w)) (K (fst (spec_insert (map_of (node_pairs x)) key w))) al"
    and room: "key \<notin> fst ` set (node_pairs x) \<Longrightarrow> node_length x < NODE_BUNDLE_SIZE"
    and found: "\<And>v. map_of (node_pairs x) key = Some v \<Longrightarrow> Q (ht_res FALSE_STATE v) [ls_first s \<mapsto> HNode x]"
    and missing: "key \<notin> fst ` set (node_pairs x) \<Longrightarrow> Q (ht_res TRUE_STATE 0)
      [ls_first s \<mapsto> HNode ((node_add x key w)\<lparr>total_length := total_length x + 1\<rparr>)]"
    and rng: "int_range (total_length x + 1)"
  shows "locked S (ls_lock s) self Q (ls_insert_loop env s key w (Suc n) (ls_first s) K) m al"
proof -
  note shared = one_nodeD(1,2) [OF one] and node = one_nodeD(3-5) [OF one] and first = one_nodeD(6-9) [OF one]
  have "locked S (ls_lock s) self Q (fetch_node (ls_first s) (\<lambda>red_node node_data. search_node node_data key
        (\<lambda>i. ls_unlock (ls_lock s) (Deallocate Node_t 1 red_node (K (ht_res FALSE_STATE (node_value node_data ! i)))))
        (if node_length node_data = NODE_BUNDLE_SIZE then
           (if next_node node_data = null_ptr env then
              Allocate Node_t 1 (\<lambda>new_node. Store new_node (HNode (new_node_data env key w)) (
              insert_finish s (ls_first s) (node_data\<lparr>next_node := new_node\<rparr>) red_node K))
            else Deallocate Node_t 1 red_node (ls_insert_loop env s key w n (next_node node_data) K))
         else insert_finish s (ls_first s) (node_add node_data key w) red_node K))) m al"
  proof (rule locked_fetch_node [where x = x], rule node, rule locked_search_node [OF node(2)], goal_cases)
    case (1 q i)
    then have q: "m q = None" "q \<noteq> ls_first s" using node(1) by (auto simp: fresh_for_def)
    note f = node_found(2) [OF node(2) 1(2)]
    have r: "fst (spec_insert (map_of (node_pairs x)) key w) = ht_res FALSE_STATE (node_value x ! i)"
      using f by (simp add: spec_insert_def)
    show ?case
      by (rule give_back_free [OF one, where x' = x], fold r, rule out, unfold r, rule found [OF f])
        (use q node(1) first(4) in auto)
  next
    case (2 q)
    then have q: "m q = None" "q \<noteq> ls_first s" using node(1) by (auto simp: fresh_for_def)
    note no = node_missing [OF node(2) 2(2)]
    have "map_of (node_pairs x) key = None" using no by (simp add: map_of_eq_None_iff)
    then have r: "fst (spec_insert (map_of (node_pairs x)) key w) = ht_res TRUE_STATE 0" by (simp add: spec_insert_def)
    let ?y = "node_add x key w"
    let ?m = "m(q \<mapsto> HNode x, ls_first s \<mapsto> HNode ?y)"
    have t: "total_length ?y = total_length x" by (simp add: node_add_def)
    have "locked S (ls_lock s) self Q (changeCount s True (ls_unlock (ls_lock s) (Deallocate Node_t 1 q (K (ht_res TRUE_STATE 0))))) ?m
        (al(q \<mapsto> [q]))"
    proof (rule locked_changeCount [where x = ?y])
      show "locked S (ls_lock s) self Q (ls_unlock (ls_lock s) (Deallocate Node_t 1 q (K (ht_res TRUE_STATE 0))))
        (?m(ls_first s \<mapsto> HNode (?y\<lparr>total_length := total_length ?y + (if True then 1 else - 1)\<rparr>))) (al(q \<mapsto> [q]))"
        by (rule give_back_free [OF one, where x' = "?y\<lparr>total_length := total_length x + 1\<rparr>"], fold r, rule out, unfold r,
            rule missing [OF no])
          (use q first(4) t in auto)
    qed (use rng first(2,4) t in auto)
    then show ?case using room [OF no] node(1) first(2) q by (simp add: insert_finish_def)
  qed
  then show ?thesis using first(1) by simp
qed

lemma locked_remove:
  assumes one: "one_node S env s x m al" and out: "leaving (fst (spec_remove (map_of (node_pairs x)) key)) (K (fst (spec_remove (map_of (node_pairs x)) key))) al"
    and found: "\<And>i. find_index key (take (node_length x) (node_key x)) = Some i \<Longrightarrow> Q (ht_res TRUE_STATE (node_value x ! i))
      [ls_first s \<mapsto> HNode ((node_delete x i)\<lparr>total_length := total_length x - 1\<rparr>)]"
    and missing: "key \<notin> fst ` set (node_pairs x) \<Longrightarrow> Q (ht_res FALSE_STATE 0) [ls_first s \<mapsto> HNode x]"
    and rng: "int_range (total_length x - 1)"
  shows "locked S (ls_lock s) self Q (ls_remove_loop env s key (Suc (Suc n)) (ls_first s) K) m al"
proof -
  note shared = one_nodeD(1,2) [OF one] and node = one_nodeD(3-5) [OF one] and first = one_nodeD(6-9) [OF one]
  have "locked S (ls_lock s) self Q (fetch_node (ls_first s) (\<lambda>red_node node_data. search_node node_data key
        (\<lambda>i. Write (ls_first s) (HNode (node_delete node_data i)) None (changeCount s False (ls_unlock (ls_lock s) (
             Deallocate Node_t 1 red_node (K (ht_res TRUE_STATE (node_value node_data ! i)))))))
        (Deallocate Node_t 1 red_node (ls_remove_loop env s key (Suc n) (next_node node_data) K)))) m al"
  proof (rule locked_fetch_node [where x = x], rule node, rule locked_search_node [OF node(2)], goal_cases)
    case (1 q i)
    then have q: "m q = None" "q \<noteq> ls_first s" using node(1) by (auto simp: fresh_for_def)
    note f = node_found(2) [OF node(2) 1(2)]
    have r: "fst (spec_remove (map_of (node_pairs x)) key) = ht_res TRUE_STATE (node_value x ! i)"
      using f by (simp add: spec_remove_def)
    let ?y = "node_delete x i"
    let ?m = "m(q \<mapsto> HNode x, ls_first s \<mapsto> HNode ?y)"
    have t: "total_length ?y = total_length x" by (simp add: node_delete_def)
    have "locked S (ls_lock s) self Q (changeCount s False (ls_unlock (ls_lock s) (Deallocate Node_t 1 q
        (K (ht_res TRUE_STATE (node_value x ! i)))))) ?m (al(q \<mapsto> [q]))"
    proof (rule locked_changeCount [where x = ?y])
      show "locked S (ls_lock s) self Q (ls_unlock (ls_lock s) (Deallocate Node_t 1 q (K (ht_res TRUE_STATE (node_value x ! i)))))
        (?m(ls_first s \<mapsto> HNode (?y\<lparr>total_length := total_length ?y + (if False then 1 else - 1)\<rparr>))) (al(q \<mapsto> [q]))"
        by (rule give_back_free [OF one, where x' = "?y\<lparr>total_length := total_length x - 1\<rparr>"], fold r, rule out, unfold r,
            rule found [OF 1(2)])
          (use q first(4) t in auto)
    qed (use rng first(2,4) t in auto)
    then show ?case using node(1) first(2) q by simp
  next
    case (2 q)
    then have q: "m q = None" by (simp add: fresh_for_def)
    note no = node_missing [OF node(2) 2(2)]
    have "map_of (node_pairs x) key = None" using no by (simp add: map_of_eq_None_iff)
    then have r: "fst (spec_remove (map_of (node_pairs x)) key) = ht_res FALSE_STATE 0" by (simp add: spec_remove_def)
    have "locked S (ls_lock s) self Q (ls_unlock (ls_lock s) (K (ht_res FALSE_STATE 0))) m al"
      by (rule give_back [OF one, where x' = x], fold r, rule out, unfold r, rule missing [OF no]) (use node(1) first(4) in auto)
    then show ?case by (intro locked_free [OF q first(4)]) (simp add: node(3))
  qed
  then show ?thesis using first(1) by simp
qed

section \<open>The table\<close>

text \<open>What does not change between rehashes: the array with the sets \<open>ss\<close>, at \<open>start\<close>.\<close>

definition table_shared :: "Hashtable \<Rightarrow> remote_ptr \<Rightarrow> LinkedSet list \<Rightarrow> ht_cell shared" where
  "table_shared c start ss =
     \<lparr>nul = null_ptr (ht_env c), locks = ls_lock ` set ss,
      fixed = (map_of (map (\<lambda>i. (indexAt start i, HSet (ss ! i))) [0..<length ss]))
        (ht_root c \<mapsto> HArray \<lparr>array_count = length ss, bucket_start = start\<rparr>),
      kept = Map.empty, unl = HLock UNLOCKED, lck = HLock LOCKED\<rparr>"

definition key_lock :: "Hashtable \<Rightarrow> LinkedSet list \<Rightarrow> key \<Rightarrow> remote_ptr" where
  "key_lock c ss k = ls_lock (ss ! keyhash c k (length ss))"

text \<open>
  The memory behind the lock \<open>l\<close> of a bucket, when the table stands for \<open>m\<close>: its one node, with the
  pairs of \<open>m\<close> whose keys hash to the bucket.
\<close>

definition bucket_obj :: "Hashtable \<Rightarrow> LinkedSet list \<Rightarrow> key set \<Rightarrow> remote_ptr \<Rightarrow> (key \<Rightarrow> val option) \<Rightarrow> ht_cell memory \<Rightarrow> bool" where
  "bucket_obj c ss K l m b \<longleftrightarrow> (\<exists>i x. i < length ss \<and> ls_lock (ss ! i) = l \<and> b = [ls_first (ss ! i) \<mapsto> HNode x] \<and>
     node_ok x \<and> next_node x = null_ptr (ht_env c) \<and> total_length x = int (length (node_pairs x)) \<and>
     distinct (map fst (node_pairs x)) \<and> fst ` set (node_pairs x) \<subseteq> {k \<in> K. keyhash c k (length ss) = i} \<and>
     (\<forall>k. keyhash c k (length ss) = i \<longrightarrow> map_of (node_pairs x) k = m k))"

lemma bucket_obj_local:
  assumes "bucket_obj c ss K l m b" "\<And>k. key_lock c ss k = l \<Longrightarrow> m' k = m k"
  shows "bucket_obj c ss K l m' b"
proof -
  obtain i x where b: "i < length ss" "ls_lock (ss ! i) = l" "b = [ls_first (ss ! i) \<mapsto> HNode x]" "node_ok x"
    "next_node x = null_ptr (ht_env c)" "total_length x = int (length (node_pairs x))" "distinct (map fst (node_pairs x))"
    "fst ` set (node_pairs x) \<subseteq> {k \<in> K. keyhash c k (length ss) = i}"
    "\<forall>k. keyhash c k (length ss) = i \<longrightarrow> map_of (node_pairs x) k = m k"
    using assms(1) unfolding bucket_obj_def by blast
  have "\<forall>k. keyhash c k (length ss) = i \<longrightarrow> map_of (node_pairs x) k = m' k"
    using b(2,9) assms(2) by (simp add: key_lock_def)
  then show ?thesis unfolding bucket_obj_def using b(1-8) by blast
qed

locale ht_shared = ht_sparse R ok c cnt K fuel + shared_pool R ok
  for R :: "('p, ht_cell) rome" and ok and c :: Hashtable and cnt :: nat and K :: "key set" and fuel :: nat +
  fixes start :: remote_ptr and ss :: "LinkedSet list"
  assumes sets: "length ss = cnt" "distinct (map ls_lock ss)"
    and sets_first: "s \<in> set ss \<Longrightarrow> ls_first s \<noteq> null_ptr (ht_env c)"
    and slots: "inj_on (indexAt start) {..<cnt}" "ht_root c \<notin> indexAt start ` {..<cnt}"
begin

abbreviation Sh :: "ht_cell shared" where "Sh \<equiv> table_shared c start ss"
abbreviation obj :: "remote_ptr \<Rightarrow> (key \<Rightarrow> val option) \<Rightarrow> ht_cell memory \<Rightarrow> bool" where "obj \<equiv> bucket_obj c ss K"

lemma Sh_sel: "nul Sh = null_ptr (ht_env c)" "locks Sh = ls_lock ` set ss" "unl Sh = HLock UNLOCKED" "lck Sh = HLock LOCKED"
    "kept Sh = Map.empty"
  by (simp_all add: table_shared_def)

lemma fixed_root: "fixed Sh (ht_root c) = Some (HArray \<lparr>array_count = cnt, bucket_start = start\<rparr>)"
  by (simp add: table_shared_def sets)

lemma fixed_slot:
  assumes "i < cnt"
  shows "fixed Sh (indexAt start i) = Some (HSet (ss ! i))"
proof -
  have d: "distinct (map fst (map (\<lambda>i. (indexAt start i, HSet (ss ! i))) [0..<length ss]))"
    using slots(1) by (simp add: distinct_map sets(1) comp_def lessThan_atLeast0)
  have "map_of (map (\<lambda>i. (indexAt start i, HSet (ss ! i))) [0..<length ss]) (indexAt start i) = Some (HSet (ss ! i))"
    by (rule map_of_is_SomeI [OF d]) (use assms sets(1) in auto)
  moreover have "indexAt start i \<noteq> ht_root c" using slots(2) assms by (metis imageI lessThan_iff)
  ultimately show ?thesis by (simp add: table_shared_def)
qed

text \<open>The bucket of a lock.\<close>

lemma lock_index: "i < cnt \<Longrightarrow> j < cnt \<Longrightarrow> ls_lock (ss ! i) = ls_lock (ss ! j) \<Longrightarrow> i = j"
  using sets by (metis distinct_conv_nth length_map nth_map)

text \<open>
  What happens under the lock, for every method: from the bucket's node and the map restricted to
  it to the next.
\<close>

definition method_loop :: "nat \<Rightarrow> call \<Rightarrow> LinkedSet \<Rightarrow> (HT_Res \<Rightarrow> HT_Res ht_prog) \<Rightarrow> HT_Res ht_prog" where
  "method_loop n x s k = (case x of
     Contains key \<Rightarrow> ls_contains_loop (ht_env c) s key n (ls_first s) k
   | Insert key v \<Rightarrow> ls_insert_loop (ht_env c) s key v n (ls_first s) k
   | Remove key \<Rightarrow> ls_remove_loop (ht_env c) s key n (ls_first s) k)"

lemma method_serves:
  assumes "call_key x \<in> K" "i = keyhash c (call_key x) cnt" "own_blocks m al"
    and out: "\<And>st. leaving (fst (spec_call x st)) (k (fst (spec_call x st))) al"
  shows "serves Sh obj (ls_lock (ss ! i)) self x (method_loop (Suc (Suc n)) x (ss ! i) k) m al"
  unfolding serves_def
proof (intro allI impI)
  fix st b
  assume b: "obj (ls_lock (ss ! i)) st b" and ap: "apart Sh m b"
  let ?s = "ss ! i"
  have i: "i < cnt" using keyhash_less [OF cnt] assms(2) by simp
  obtain j y where j: "j < length ss" "ls_lock (ss ! j) = ls_lock ?s" "b = [ls_first (ss ! j) \<mapsto> HNode y]" "node_ok y"
    "next_node y = null_ptr (ht_env c)" "total_length y = int (length (node_pairs y))" "distinct (map fst (node_pairs y))"
    "fst ` set (node_pairs y) \<subseteq> {k \<in> K. keyhash c k (length ss) = j}"
    "\<forall>k. keyhash c k (length ss) = j \<longrightarrow> map_of (node_pairs y) k = st k"
    using b unfolding bucket_obj_def by blast
  have "j = i" using lock_index [of j i] j(1,2) i sets(1) by simp
  note y = j(3-9) [unfolded this sets(1)]
  have "b (ls_first ?s) \<noteq> None" by (simp add: y(1))
  then have f: "ls_first ?s \<noteq> null_ptr (ht_env c)" "m (ls_first ?s) = None" "ls_first ?s \<notin> locks Sh"
    using sets_first [OF nth_mem, of i] i sets(1) ap by (simp_all add: apart_def)
  have "ls_lock ?s \<in> locks Sh" using i sets(1) by (simp add: Sh_sel)
  then have fl: "ls_first ?s \<noteq> ls_lock ?s" using f(3) by metis
  have one: "one_node Sh (ht_env c) ?s y (m ++ b) al"
    unfolding one_node_def using y f fl own_blocks_vacant [OF assms(3) f(2)] own_blocks_mono [OF assms(3), of "m ++ b"]
    by (auto simp: Sh_sel)
  have few: "length (node_pairs y) \<le> NODE_BUNDLE_SIZE"
    by (rule few_pairs [OF i y(5)]) (use y(6) in auto)
  then have rng: "int_range (total_length y + 1)" "int_range (total_length y - 1)"
    by (simp_all add: y(4) int_range_def NODE_BUNDLE_SIZE_def)
  have e: "map_of (node_pairs y) (call_key x) = st (call_key x)" using y(7) assms(2) by simp
  have res: "fst (spec_call x (map_of (node_pairs y))) = fst (spec_call x st)" by (rule spec_call_local(1)) (rule e)
  have next': "obj (ls_lock ?s) (snd (spec_call x st)) [ls_first ?s \<mapsto> HNode z]"
    if "node_ok z" "next_node z = null_ptr (ht_env c)" "total_length z = int (length (node_pairs z))"
      "distinct (map fst (node_pairs z))" "fst ` set (node_pairs z) \<subseteq> insert (call_key x) (fst ` set (node_pairs y))"
      "map_of (node_pairs z) = snd (spec_call x (map_of (node_pairs y)))" for z
  proof -
    have "map_of (node_pairs z) k = snd (spec_call x st) k" if "keyhash c k cnt = i" for k
      using y(7) that spec_call_local(2) [of "map_of (node_pairs y)" x st, OF e] spec_call_local(3) [of k x] \<open>map_of (node_pairs z) = _\<close>
      by (cases "k = call_key x") simp_all
    moreover have "fst ` set (node_pairs z) \<subseteq> {k \<in> K. keyhash c k cnt = i}"
      by (rule subset_trans [OF that(5)]) (use y(6) assms(1,2) in auto)
    ultimately show ?thesis
      unfolding bucket_obj_def sets(1) using i that(1-4) by (intro exI [of _ i] exI [of _ z]) simp
  qed
  have same: "obj (ls_lock ?s) (snd (spec_call x st)) [ls_first ?s \<mapsto> HNode y]"
    if "snd (spec_call x (map_of (node_pairs y))) = map_of (node_pairs y)"
    by (rule next') (use y that in auto)
  show "locked Sh (ls_lock ?s) self (served obj (ls_lock ?s) x st) (method_loop (Suc (Suc n)) x ?s k) (m ++ b) al"
  proof (cases x)
    case (Contains key)
    have "served obj (ls_lock ?s) x st (spec_contains (map_of (node_pairs y)) key) [ls_first ?s \<mapsto> HNode y]"
      using same res by (simp add: served_def Contains)
    then show ?thesis
      using locked_contains [OF one] out [of "map_of (node_pairs y)"] by (simp add: method_loop_def Contains)
  next
    case (Insert key v)
    have sp: "snd (spec_insert (map_of (node_pairs y)) key v) = map_of (node_pairs y)"
      "fst (spec_insert (map_of (node_pairs y)) key v) = ht_res FALSE_STATE w"
      if "map_of (node_pairs y) key = Some w" for w using that by (simp_all add: spec_insert_def)
    have new: "snd (spec_insert (map_of (node_pairs y)) key v) = (map_of (node_pairs y))(key \<mapsto> v)"
      "fst (spec_insert (map_of (node_pairs y)) key v) = ht_res TRUE_STATE 0" if "key \<notin> fst ` set (node_pairs y)"
      using that by (simp_all add: spec_insert_def map_of_eq_None_iff [symmetric] del: map_of_eq_None_iff)
    have room: "node_length y < NODE_BUNDLE_SIZE" if no: "key \<notin> fst ` set (node_pairs y)"
    proof -
      have "length (node_pairs y @ [(key, v)]) \<le> NODE_BUNDLE_SIZE"
        by (rule few_pairs [OF i]) (use y(5,6) no assms(1,2) Insert in auto)
      then show ?thesis using node_pairs_keys(2) [OF y(2)] by simp
    qed
    show ?thesis
      unfolding method_loop_def Insert call.case
    proof (rule locked_insert [OF one _ room _ _ rng(1)], goal_cases)
      case 1
      then show ?case using out [of "map_of (node_pairs y)"] by (simp add: Insert)
    next
      case (3 w)
      then show ?case using sp same res by (simp add: served_def Insert)
    next
      case 4
      let ?z = "(node_add y key v)\<lparr>total_length := total_length y + 1\<rparr>"
      have a: "node_pairs ?z = node_pairs y @ [(key, v)]" "node_ok ?z"
        using node_add_pairs [OF y(2), of key v] room [OF 4] by simp_all
      have "obj (ls_lock ?s) (snd (spec_call x st)) [ls_first ?s \<mapsto> HNode ?z]"
      proof (rule next')
        show "map_of (node_pairs ?z) = snd (spec_call x (map_of (node_pairs y)))"
          unfolding a(1) Insert spec_call.simps new(1) [OF 4] by (rule map_of_snoc_new [OF 4])
      qed (use a y(3,4,5) 4 in \<open>auto simp: node_add_def Insert\<close>)
      then show ?case using res new(2) [OF 4] by (simp add: served_def Insert)
    qed
  next
    case (Remove key)
    show ?thesis
      unfolding method_loop_def Remove call.case
    proof (rule locked_remove [OF one _ _ _ rng(2)], goal_cases)
      case 1
      then show ?case using out [of "map_of (node_pairs y)"] by (simp add: Remove)
    next
      case (2 j)
      let ?z = "(node_delete y j)\<lparr>total_length := total_length y - 1\<rparr>"
      have d: "distinct (map fst (chain_pairs ([] @ (a, y) # [])))" for a using y(5) by simp
      note del = chain_delete [OF d y(2) 2, simplified]
      have jl: "j < node_length y" by (rule node_found(1) [OF y(2) 2])
      have ok: "node_ok ?z" using node_delete_pairs(2) [OF y(2) jl] by simp
      have "dom (map_of (node_pairs (node_delete y j))) \<subseteq> dom (map_of (node_pairs y))" unfolding del(2) by auto
      then have sub: "fst ` set (node_pairs (node_delete y j)) \<subseteq> fst ` set (node_pairs y)"
        by (simp add: dom_map_of_conv_image_fst)
      have nx: "next_node (node_delete y j) = next_node y" by (simp add: node_delete_def)
      have "obj (ls_lock ?s) (snd (spec_call x st)) [ls_first ?s \<mapsto> HNode ?z]"
        by (rule next') (use ok del sub nx y(3,4) in \<open>auto simp: Remove spec_remove_def\<close>)
      then show ?case using res del(3) by (simp add: served_def Remove spec_remove_def)
    next
      case 3
      then have "map_of (node_pairs y) key = None" by (simp add: map_of_eq_None_iff)
      then show ?case using res same by (simp add: served_def Remove spec_remove_def)
    qed
  qed
qed

lemma spec_call_answer:
  "status (fst (spec_call x m)) \<noteq> REHASH_DELETED"
  "ht_res (if status (fst (spec_call x m)) = TRUE_STATE then TRUE_STATE else FALSE_STATE) (result (fst (spec_call x m))) =
     fst (spec_call x m)"
  by (cases x; simp add: spec_contains_def spec_insert_def spec_remove_def split: option.splits)+

lemma spinning_acquire:
  assumes "G (k True) m al" "unl S = HLock UNLOCKED" "lck S = HLock LOCKED"
  shows "spinning S l self G (ls_acquire (Suc n) l k) m al"
  using assms by (induction n) simp_all

text \<open>The call up to its lock: it reads the root, then the set of its bucket.\<close>

lemma call_spinning:
  assumes i: "i = keyhash c key cnt"
    and op: "\<And>k. op (ss ! i) k = ls_acquire (Suc n) (ls_lock (ss ! i)) (\<lambda>got. if \<not> got then k (ht_res REHASH_DELETED v) else loop k)"
    and G: "\<And>m al ds red. al = [ds \<mapsto> [ds], red \<mapsto> [red]] \<Longrightarrow> own_blocks m al \<Longrightarrow> ds \<noteq> red \<Longrightarrow> G (loop (\<lambda>state. Deallocate HashArray_t (Suc 0) ds (
       Deallocate LinkedKV_t (Suc 0) red (if status state = REHASH_DELETED then again
       else Return (ht_res (if status state = TRUE_STATE then TRUE_STATE else FALSE_STATE) (result state)))))) m al"
  shows "spinning Sh (ls_lock (ss ! i)) self G (ht_call c key op again) Map.empty Map.empty"
proof -
  have il: "i < cnt" "i < 2 ^ 31" using keyhash_less [OF cnt, of c key] cnt i by simp_all
  have ne: "ds \<noteq> indexAt start i" if "fixed Sh ds = None" for ds using that fixed_slot [OF il(1)] by auto
  show ?thesis
    unfolding ht_call_def
  proof (rule spinning_read_one [where c = "HArray \<lparr>array_count = cnt, bucket_start = start\<rparr>"], goal_cases)
    case (4 red)
    then show ?case
      using il cnt fixed_slot [OF il(1)] ne
      by (auto simp: load_array_def load_set_def bucket_at_def i [symmetric] op fresh_for_def Sh_sel map_add_def
          simp del: ls_acquire.simps spinning.simps(6) intro!: spinning_acquire G fun_upd_twist spinning_read_one [where c = "HSet (ss ! i)"])
  qed (simp_all add: fixed_root)
qed

lemma call_protocol:
  assumes "call_key x \<in> K"
  shows "spinning Sh (key_lock c ss (call_key x)) self (serves Sh obj (key_lock c ss (call_key x)) self x)
    (ht_prog_of c fuel x) Map.empty Map.empty"
proof -
  let ?i = "keyhash c (call_key x) cnt"
  obtain n where n: "fuel = Suc (Suc n)" using fuel by (intro that [of "fuel - 2"]) simp
  have l: "key_lock c ss (call_key x) = ls_lock (ss ! ?i)" by (simp add: key_lock_def sets)
  have G: "serves Sh obj (ls_lock (ss ! ?i)) self x (method_loop (Suc (Suc n)) x (ss ! ?i) (\<lambda>state. Deallocate HashArray_t (Suc 0) ds (
       Deallocate LinkedKV_t (Suc 0) red (if status state = REHASH_DELETED then again
       else Return (ht_res (if status state = TRUE_STATE then TRUE_STATE else FALSE_STATE) (result state)))))) m al"
    if "al = [ds \<mapsto> [ds], red \<mapsto> [red]]" "own_blocks m al" "ds \<noteq> red" for m al ds red again
    by (rule method_serves [OF assms refl that(2)]) (use that(1,3) spec_call_answer in auto)
  show ?thesis
    unfolding l n
  proof (cases x)
    case (Contains key)
    show "spinning Sh (ls_lock (ss ! ?i)) self (serves Sh obj (ls_lock (ss ! ?i)) self x) (ht_prog_of c (Suc (Suc n)) x) Map.empty Map.empty"
      unfolding Contains ht_prog_of.simps ht_contains.simps(2) call_key.simps
      by (rule call_spinning [OF refl], rule ls_contains_def)
        (use G in \<open>simp add: Contains method_loop_def\<close>)
  next
    case (Insert key v)
    show "spinning Sh (ls_lock (ss ! ?i)) self (serves Sh obj (ls_lock (ss ! ?i)) self x) (ht_prog_of c (Suc (Suc n)) x) Map.empty Map.empty"
      unfolding Insert ht_prog_of.simps ht_insert.simps(2) call_key.simps
      by (rule call_spinning [OF refl], rule ls_insert_def)
        (use G in \<open>simp add: Insert method_loop_def\<close>)
  next
    case (Remove key)
    show "spinning Sh (ls_lock (ss ! ?i)) self (serves Sh obj (ls_lock (ss ! ?i)) self x) (ht_prog_of c (Suc (Suc n)) x) Map.empty Map.empty"
      unfolding Remove ht_prog_of.simps ht_remove.simps(2) call_key.simps
      by (rule call_spinning [OF refl], rule ls_remove_def)
        (use G in \<open>simp add: Remove method_loop_def\<close>)
  qed
qed

end

sublocale ht_shared \<subseteq> objects: locked_objects R ok "table_shared c start ss" "key_lock c ss" "bucket_obj c ss K" "\<lambda>_. ht_prog_of c fuel"
    "{x. call_key x \<in> K}"
proof
  show "unl Sh \<noteq> lck Sh" by (simp add: Sh_sel)
  show "nul Sh = remote_nullptr R" using ls_pool.nul [OF pool] by (simp add: Sh_sel)
  fix x and l :: remote_ptr and m m' :: "key \<Rightarrow> val option" and b self
  show "obj l m b \<Longrightarrow> (\<And>k. key_lock c ss k = l \<Longrightarrow> m' k = m k) \<Longrightarrow> obj l m' b"
    by (rule bucket_obj_local)
  assume x: "x \<in> {x. call_key x \<in> K}"
  have "keyhash c (call_key x) cnt < cnt" using keyhash_less [OF cnt] by simp
  then show "key_lock c ss (call_key x) \<in> locks Sh" using sets by (simp add: key_lock_def Sh_sel)
  show "spinning Sh (key_lock c ss (call_key x)) self (serves Sh obj (key_lock c ss (call_key x)) self x)
      (ht_prog_of c fuel x) Map.empty Map.empty"
    using x by (intro call_protocol) simp
qed

section \<open>The table at rest\<close>

lemma ls_rep_one:
  assumes "ls_rep z m s ns UNLOCKED" "length ns = 1"
  obtains x where "ns = [(ls_first s, x)]" "m (ls_lock s) = Some (HLock UNLOCKED)" "m (ls_first s) = Some (HNode x)"
    "ls_first s \<noteq> z" "node_ok x" "next_node x = z" "total_length x = int (length (node_pairs x))"
proof -
  obtain a x where ns: "ns = [(a, x)]" using assms(2) by (cases ns) (auto simp: length_Suc_conv)
  show ?thesis by (rule that [of x]) (use assms(1) in \<open>auto simp: ns ls_rep_def holds_Cons chain_total_def\<close>)
qed

lemma one_ls_rep:
  assumes "m (ls_lock s) = Some (HLock UNLOCKED)" "m (ls_first s) = Some (HNode x)" "ls_first s \<noteq> z" "node_ok x"
    "next_node x = z" "total_length x = int (length (node_pairs x))"
  shows "ls_rep z m s [(ls_first s, x)] UNLOCKED"
proof -
  have "ls_lock s \<noteq> ls_first s" using assms(1,2) by auto
  then show ?thesis using assms by (simp add: ls_rep_def holds_Cons chain_total_def)
qed

text \<open>The buckets of a table at rest follow the protocol.\<close>

lemma table_ht_shared:
  assumes "ht_sparse R ok c cnt K fuel" "shared_pool R ok" "length bs = cnt" "table c (cells h) start bs"
    "\<forall>b \<in> set bs. length (snd b) = 1"
  shows "ht_shared R ok c cnt K fuel start (map fst bs)"
proof (rule ht_shared.intro [OF assms(1,2)], unfold_locales)
  have t: "slots_ok (cells h) start bs" "sets_ok (null_ptr (ht_env c)) (cells h) (\<lambda>_. UNLOCKED) bs"
    "cells h (ht_root c) = Some (HArray \<lparr>array_count = length bs, bucket_start = start\<rparr>)"
    using assms(4) by (simp_all add: table_def)
  show "length (map fst bs) = cnt" using assms(3) by simp
  have "ls_lock (fst (bs ! i)) \<noteq> ls_lock (fst (bs ! j))" if "i < length bs" "j < length bs" "i \<noteq> j" for i j
    using t(2) that by (force simp: sets_ok_def foot_def)
  then show "distinct (map ls_lock (map fst bs))" by (simp add: distinct_conv_nth)
  show "inj_on (indexAt start) {..<cnt}" by (simp add: inj_on_def indexAt_def)
  show "ht_root c \<notin> indexAt start ` {..<cnt}" using t(1,3) assms(3) by (auto simp: slots_ok_def)
  fix s assume "s \<in> set (map fst bs)"
  then obtain i where i: "i < length bs" "s = fst (bs ! i)" by (auto simp: in_set_conv_nth)
  have "ls_rep (null_ptr (ht_env c)) (cells h) s (snd (bs ! i)) UNLOCKED" "length (snd (bs ! i)) = 1"
    using t(2) assms(5) i by (simp_all add: sets_ok_def)
  then show "ls_first s \<noteq> null_ptr (ht_env c)" by (rule ls_rep_one)
qed

context ht_shared
begin

lemma fixed_cases:
  assumes "fixed Sh a = Some y"
  obtains "a = ht_root c" "y = HArray \<lparr>array_count = cnt, bucket_start = start\<rparr>"
    | i where "i < cnt" "a = indexAt start i" "y = HSet (ss ! i)"
proof (cases "a = ht_root c")
  case True
  then show ?thesis using assms that(1) fixed_root by simp
next
  case False
  then have "map_of (map (\<lambda>i. (indexAt start i, HSet (ss ! i))) [0..<length ss]) a = Some y"
    using assms by (simp add: table_shared_def)
  then show ?thesis using map_of_SomeD [of _ a y] that(2) sets(1) by fastforce
qed

lemma rep_ready:
  assumes "ok h" "length bs = cnt" "table c (cells h) start bs" "filed c bs"
    "\<forall>b \<in> set bs. length (snd b) = 1 \<and> fst ` set (chain_pairs (snd b)) \<subseteq> K" "ss = map fst bs"
  shows "objects.ready (ht_map_of c bs) h"
proof -
  have t: "slots_ok (cells h) start bs" "sets_ok (null_ptr (ht_env c)) (cells h) (\<lambda>_. UNLOCKED) bs"
    "cells h (ht_root c) = Some (HArray \<lparr>array_count = cnt, bucket_start = start\<rparr>)"
    using assms(2,3) by (simp_all add: table_def)
  have s: "ss ! i = fst (bs ! i)" if "i < cnt" for i using that assms(2,6) by simp
  define node where "node i = snd (hd (snd (bs ! i)))" for i
  have b: "snd (bs ! i) = [(ls_first (ss ! i), node i)] \<and> cells h (ls_lock (ss ! i)) = Some (HLock UNLOCKED) \<and>
      cells h (ls_first (ss ! i)) = Some (HNode (node i)) \<and> node_ok (node i) \<and> next_node (node i) = null_ptr (ht_env c) \<and>
      total_length (node i) = int (length (node_pairs (node i)))" if i: "i < cnt" for i
  proof -
    have r: "ls_rep (null_ptr (ht_env c)) (cells h) (fst (bs ! i)) (snd (bs ! i)) UNLOCKED"
      using t(2) i assms(2) by (simp add: sets_ok_def)
    have "length (snd (bs ! i)) = 1" using assms(2,5) i by simp
    then show ?thesis by (rule ls_rep_one [OF r]) (simp add: node_def s [OF i])
  qed
  have feet: "foot (bs ! i) \<inter> foot (bs ! j) = {}" if "i < cnt" "j < cnt" "i \<noteq> j" for i j
    using t(2) that assms(2) by (simp add: sets_ok_def)
  have locks: "\<forall>l \<in> locks Sh. cells h l = Some (HLock UNLOCKED)"
    using b sets(1) by (auto simp: Sh_sel in_set_conv_nth)
  have fixed: "cells h a = Some y" "\<nexists>v. y = HLock v" "\<nexists>x. y = HNode x" if "fixed Sh a = Some y" for a y
    using that t(1,3) assms(2) s by (auto elim!: fixed_cases simp: slots_ok_def)
  have standing: "standing Sh h"
    unfolding standing_def
  proof (intro conjI ballI)
    fix l assume "l \<in> locks Sh"
    then have l: "cells h l = Some (HLock UNLOCKED)" using locks by blast
    then show "cells h l \<noteq> None" by simp
    show "fixed Sh l = None" using fixed(1,2) [of l] l by (cases "fixed Sh l") auto
  qed (use fixed(1) in \<open>auto simp: map_le_def Sh_sel\<close>)
  define idx where "idx l = (THE i. i < cnt \<and> ls_lock (ss ! i) = l)" for l
  have idx: "idx (ls_lock (ss ! i)) = i" if "i < cnt" for i
    unfolding idx_def using that lock_index by (intro the_equality) auto
  define M where "M l = (if l \<in> locks Sh then [ls_first (ss ! idx l) \<mapsto> HNode (node (idx l))] else Map.empty)" for l
  have M: "M (ls_lock (ss ! i)) = [ls_first (ss ! i) \<mapsto> HNode (node i)]" if "i < cnt" for i
    using that sets(1) by (simp add: M_def idx Sh_sel)
  have in_locks: "l \<in> locks Sh \<Longrightarrow> \<exists>i < cnt. l = ls_lock (ss ! i)" for l using sets(1) by (auto simp: Sh_sel in_set_conv_nth)
  have "obj l (ht_map_of c bs) (M l)" if "l \<in> locks Sh" for l
  proof -
    obtain i where i: "i < cnt" "l = ls_lock (ss ! i)" using in_locks [OF \<open>l \<in> locks Sh\<close>] by blast
    have ps: "chain_pairs (snd (bs ! i)) = node_pairs (node i)" using b [OF i(1)] by simp
    have f: "distinct (map fst (node_pairs (node i)))" "\<forall>k \<in> fst ` set (node_pairs (node i)). keyhash c k cnt = i"
      using assms(2,4) i(1) ps unfolding filed_def by metis+
    have "fst ` set (node_pairs (node i)) \<subseteq> K" using bspec [OF assms(5) nth_mem, of i] i(1) assms(2) ps by simp
    then have "distinct (map fst (node_pairs (node i)))" "fst ` set (node_pairs (node i)) \<subseteq> {k \<in> K. keyhash c k cnt = i}"
      using f by blast+
    moreover have "\<forall>k. keyhash c k cnt = i \<longrightarrow> map_of (node_pairs (node i)) k = ht_map_of c bs k"
      using assms(2) ps by (auto simp: ht_map_of_def)
    ultimately show ?thesis
      unfolding bucket_obj_def using i b [OF i(1)] M [OF i(1)] sets(1) by (intro exI [of _ i] exI [of _ "node i"]) simp
  qed
  moreover have "divided Sh h M (\<lambda>_. Map.empty)"
  proof (rule dividedI)
    have cell: "\<exists>i < cnt. x = ls_lock (ss ! i) \<and> a = ls_first (ss ! i) \<and> y = HNode (node i)" if "M x a = Some y" for x a y
      using that in_locks [of x] M by (auto simp: M_def idx split: if_splits)
    fix x z a y
    show "M x a = Some y \<Longrightarrow> cells h a = Some y" using cell [of x a y] b by auto
    show "M x a = Some y \<Longrightarrow> a \<notin> locks Sh \<and> fixed Sh a = None"
    proof -
      assume "M x a = Some y"
      then obtain i where "cells h a = Some (HNode (node i))" using cell [of x a y] b by auto
      then show ?thesis using locks fixed(1,3) [of a] by (cases "fixed Sh a") auto
    qed
    show "M x a = Some y \<Longrightarrow> z \<noteq> x \<Longrightarrow> M z a = None"
    proof (rule ccontr)
      assume a: "M x a = Some y" "z \<noteq> x" "M z a \<noteq> None"
      then obtain w where w: "M z a = Some w" by blast
      obtain i j where i: "i < cnt" "x = ls_lock (ss ! i)" "a = ls_first (ss ! i)" and j: "j < cnt" "z = ls_lock (ss ! j)" "a = ls_first (ss ! j)"
        using cell [OF a(1)] cell [OF w] by blast
      have "a \<in> foot (bs ! i)" "a \<in> foot (bs ! j)" using b [OF i(1)] b [OF j(1)] i(3) j(3) by (simp_all add: foot_def)
      moreover have "foot (bs ! i) \<inter> foot (bs ! j) = {}" 
        by (rule feet) (use i(1,2) j(1,2) a(2) in auto)
      ultimately show False by blast
    qed
  qed auto
  ultimately show ?thesis
    unfolding objects.ready_def using assms(1) standing locks by (auto simp: Sh_sel)
qed

lemma ready_rep:
  assumes "objects.ready m h"
  shows "sparse_rep ok c cnt K h m"
proof -
  obtain M where r: "ok h" "standing Sh h" "\<forall>l \<in> locks Sh. cells h l = Some (unl Sh)" "\<forall>l \<in> locks Sh. obj l m (M l)"
    "divided Sh h M (\<lambda>_. Map.empty)"
    using assms unfolding objects.ready_def by blast
  have lk: "ls_lock (ss ! i) \<in> locks Sh" if "i < cnt" for i using that sets(1) by (simp add: Sh_sel)
  have "\<exists>x. M (ls_lock (ss ! i)) = [ls_first (ss ! i) \<mapsto> HNode x] \<and> node_ok x \<and> next_node x = null_ptr (ht_env c) \<and>
      total_length x = int (length (node_pairs x)) \<and> distinct (map fst (node_pairs x)) \<and>
      fst ` set (node_pairs x) \<subseteq> {k \<in> K. keyhash c k cnt = i} \<and> (\<forall>k. keyhash c k cnt = i \<longrightarrow> map_of (node_pairs x) k = m k)"
    if i: "i < cnt" for i
  proof -
    have "obj (ls_lock (ss ! i)) m (M (ls_lock (ss ! i)))" using r(4) lk [OF i] by blast
    then obtain j x where j: "j < length ss" "ls_lock (ss ! j) = ls_lock (ss ! i)"
      and x: "M (ls_lock (ss ! i)) = [ls_first (ss ! j) \<mapsto> HNode x] \<and> node_ok x \<and> next_node x = null_ptr (ht_env c) \<and>
      total_length x = int (length (node_pairs x)) \<and> distinct (map fst (node_pairs x)) \<and>
      fst ` set (node_pairs x) \<subseteq> {k \<in> K. keyhash c k (length ss) = j} \<and>
      (\<forall>k. keyhash c k (length ss) = j \<longrightarrow> map_of (node_pairs x) k = m k)"
      unfolding bucket_obj_def by blast
    have "j = i" using lock_index [of j i] j i sets(1) by simp
    then show ?thesis using x sets(1) by auto
  qed
  then have "\<forall>i. \<exists>x. i < cnt \<longrightarrow> M (ls_lock (ss ! i)) = [ls_first (ss ! i) \<mapsto> HNode x] \<and> node_ok x \<and> next_node x = null_ptr (ht_env c) \<and>
      total_length x = int (length (node_pairs x)) \<and> distinct (map fst (node_pairs x)) \<and>
      fst ` set (node_pairs x) \<subseteq> {k \<in> K. keyhash c k cnt = i} \<and> (\<forall>k. keyhash c k cnt = i \<longrightarrow> map_of (node_pairs x) k = m k)"
    by (simp only: HOL.all_simps HOL.ex_simps) blast
  from choice [OF this] obtain node where n: "\<And>i. i < cnt \<Longrightarrow> M (ls_lock (ss ! i)) = [ls_first (ss ! i) \<mapsto> HNode (node i)] \<and> node_ok (node i) \<and>
      next_node (node i) = null_ptr (ht_env c) \<and> total_length (node i) = int (length (node_pairs (node i))) \<and>
      distinct (map fst (node_pairs (node i))) \<and> fst ` set (node_pairs (node i)) \<subseteq> {k \<in> K. keyhash c k cnt = i} \<and>
      (\<forall>k. keyhash c k cnt = i \<longrightarrow> map_of (node_pairs (node i)) k = m k)"
    by blast
  define bs where "bs = map (\<lambda>i. (ss ! i, [(ls_first (ss ! i), node i)])) [0..<cnt]"
  have bs: "length bs = cnt" "\<And>i. i < cnt \<Longrightarrow> bs ! i = (ss ! i, [(ls_first (ss ! i), node i)])"
    by (simp_all add: bs_def)
  have cell: "cells h (ls_first (ss ! i)) = Some (HNode (node i))" "ls_first (ss ! i) \<notin> locks Sh" if "i < cnt" for i
    using divided_cell [OF r(5), of "ls_lock (ss ! i)" "ls_first (ss ! i)" "HNode (node i)"] n [OF that] by simp_all
  have ls: "ls_rep (null_ptr (ht_env c)) (cells h) (ss ! i) [(ls_first (ss ! i), node i)] UNLOCKED" if i: "i < cnt" for i
    using r(3) lk [OF i] n [OF i] cell(1) [OF i] sets_first [OF nth_mem, of i] i sets(1)
    by (intro one_ls_rep) (simp_all add: Sh_sel)
  have apart_feet: "foot (bs ! i) \<inter> foot (bs ! j) = {}" if ij: "i < cnt" "j < cnt" "i \<noteq> j" for i j
  proof -
    have "ls_lock (ss ! i) \<noteq> ls_lock (ss ! j)" using lock_index [OF ij(1,2)] ij(3) by blast
    moreover have "ls_first (ss ! i) \<noteq> ls_first (ss ! j)"
    proof
      assume e: "ls_first (ss ! i) = ls_first (ss ! j)"
      have "M (ls_lock (ss ! j)) (ls_first (ss ! i)) = None"
        using divided_other [OF r(5), of "ls_lock (ss ! i)" "ls_first (ss ! i)" "HNode (node i)"] n [OF ij(1)] calculation by simp
      then show False using n [OF ij(2)] e by simp
    qed
    ultimately show ?thesis
      using cell(2) [OF ij(1)] cell(2) [OF ij(2)] lk [OF ij(1)] lk [OF ij(2)] bs(2) ij by (auto simp: foot_def)
  qed
  have "sets_ok (null_ptr (ht_env c)) (cells h) (\<lambda>_. UNLOCKED) bs"
    using ls apart_feet by (simp add: sets_ok_def bs)
  moreover have "slots_ok (cells h) start bs"
    using standing_fixed [OF r(2) fixed_slot] bs by (simp add: slots_ok_def)
  moreover have "cells h (ht_root c) = Some (HArray \<lparr>array_count = length bs, bucket_start = start\<rparr>)"
    using standing_fixed [OF r(2) fixed_root] bs(1) by simp
  ultimately have tab: "table c (cells h) start bs" using cnt bs(1) by (simp add: table_def)
  have fl: "filed c bs" using n bs by (fastforce simp: filed_def)
  have "m = ht_map_of c bs"
  proof
    fix k
    have "keyhash c k cnt < cnt" using keyhash_less [OF cnt] .
    then show "m k = ht_map_of c bs k" using n bs by (simp add: ht_map_of_def)
  qed
  moreover have "\<forall>b \<in> set bs. length (snd b) = 1 \<and> fst ` set (chain_pairs (snd b)) \<subseteq> K"
    using n by (fastforce simp: bs_def)
  ultimately show ?thesis unfolding sparse_rep_def using r(1) tab fl bs(1) by blast
qed

end

section \<open>Calls that overlap\<close>

definition ht_threads :: "nat \<Rightarrow> Hashtable \<Rightarrow> (nat \<times> call) list \<Rightarrow> (ht_cell, HT_Res) thread list" where
  "ht_threads fuel c cs = map (\<lambda>(self, x). (self, ht_prog_of c fuel x)) cs"

context ht_shared
begin

lemma threads_objects: "objects.threads_of = ht_threads fuel c"
  by (rule ext) (simp add: objects.threads_of_def ht_threads_def)

lemma calls_linearizable:
  assumes "objects.ready m h" "call_key ` snd ` set cs \<subseteq> K" "schedule R is (ht_threads fuel c cs) h = Some (ts', h')"
  shows "\<exists>log. linearization R cs m is (ht_threads fuel c cs) h log \<and>
    (list_all (\<lambda>t. answer (snd t) \<noteq> None) ts' \<longrightarrow> sparse_rep ok c cnt K h' (state_after cs m log))"
proof -
  have "snd ` set cs \<subseteq> {x. call_key x \<in> K}" using assms(2) by auto
  from objects.linearizable [OF assms(1) this assms(3) [folded threads_objects]] show ?thesis
    using ready_rep unfolding threads_objects by blast
qed

lemma calls_deadlock_free:
  assumes "objects.ready m h" "call_key ` snd ` set cs \<subseteq> K" "schedule R is (ht_threads fuel c cs) h = Some (ts', h')"
  shows "\<exists>is' ts2 h2. schedule R is' ts' h' = Some (ts2, h2) \<and>
    (\<forall>i < length ts'. snd (ts' ! i) \<noteq> Out_of_fuel \<longrightarrow> answer (snd (ts2 ! i)) \<noteq> None)"
proof -
  have "snd ` set cs \<subseteq> {x. call_key x \<in> K}" using assms(2) by auto
  from objects.deadlock_free [OF assms(1) this assms(3) [folded threads_objects]] show ?thesis .
qed

end

lemma sparse_shared:
  assumes "ht_sparse R ok c cnt K fuel" "shared_pool R ok" "sparse_rep ok c cnt K h m"
  obtains start ss where "ht_shared R ok c cnt K fuel start ss"
    "locked_objects.ready ok (table_shared c start ss) (bucket_obj c ss K) m h"
proof -
  obtain start bs where r: "ok h" "length bs = cnt" "table c (cells h) start bs" "filed c bs"
    "\<forall>b \<in> set bs. length (snd b) = 1 \<and> fst ` set (chain_pairs (snd b)) \<subseteq> K" "m = ht_map_of c bs"
    using assms(3) by (auto simp: sparse_rep_def)
  have s: "ht_shared R ok c cnt K fuel start (map fst bs)"
    by (rule table_ht_shared [OF assms(1,2) r(2,3)]) (use r(5) in blast)
  show ?thesis
    using that [OF s] ht_shared.rep_ready [OF s r(1-5) refl] r(6) by simp
qed

section \<open>The executable instance\<close>

text \<open>A table of the size the sources use: 128 sets after the array of the root.\<close>

definition sample_sets :: "LinkedSet list" where
  "sample_sets = map (\<lambda>i. \<lparr>ls_lock = Remote 1 (4096 + 16 * i), ls_first = Remote 1 (4104 + 16 * i)\<rparr>) [0..<128]"

interpretation shared_table: ht_shared bump_rome bump_ok "sample_ht (Remote 1 8)" 128 small_keys 48 "Remote 1 64" sample_sets
proof (rule ht_shared.intro)
  show "ht_sparse bump_rome bump_ok (sample_ht (Remote 1 8)) 128 small_keys 48"
    using spread.ht_sparse_axioms [of "Remote 1 8"] by (simp add: ht_sparse_def)
  show "ht_shared_axioms (sample_ht (Remote 1 8)) 128 (Remote 1 64) sample_sets"
    by unfold_locales
      (auto simp: sample_sets_def distinct_map inj_on_def indexAt_def ptr_add_def sample_ht_def bump_env_def)
qed (rule shared_bump.shared_pool_axioms)

section \<open>Two insertions of one key\<close>

text \<open>A table of one bucket, and two nodes that insert the same key: the second finds the lock taken.\<close>

definition lone_node :: Node where
  "lone_node = \<lparr>next_node = Remote 0 0, node_length = 0, total_length = 0, node_key = [0, 0, 0, 0, 0, 0, 0], node_value = [0, 0, 0, 0, 0, 0, 0]\<rparr>"

definition lone_bucket :: bucket where
  "lone_bucket = (\<lparr>ls_lock = Remote 1 128, ls_first = Remote 1 192\<rparr>, [(Remote 1 192, lone_node)])"

definition lone_heap :: "(nat, ht_cell) heap" where
  "lone_heap = \<lparr>cells = [Remote 1 8 \<mapsto> HArray \<lparr>array_count = 1, bucket_start = Remote 1 64\<rparr>, Remote 1 64 \<mapsto> HSet (fst lone_bucket),
      Remote 1 128 \<mapsto> HLock UNLOCKED, Remote 1 192 \<mapsto> HNode lone_node],
    allocs = Map.empty, pool_state = 1024\<rparr>"

abbreviation lone_ht :: Hashtable where "lone_ht \<equiv> sample_ht (Remote 1 8)"

lemma lone_sel: "null_ptr (ht_env (sample_ht r)) = Remote 0 0" "ht_root (sample_ht r) = r" "keyhash c k 1 = 0" "keyhash c k (Suc 0) = 0"
  by (simp_all add: sample_ht_def bump_env_def keyhash_def)

lemma lone_types: "ct_cells hlock_t = 1" "ct_cells Node_t = 1" "ct_cells HashArray_t = 1" "ct_cells LinkedKV_t = 1"
  by (simp_all add: hlock_t_def Node_t_def HashArray_t_def LinkedKV_t_def)

lemma lone_sparse: "ht_sparse bump_rome bump_ok lone_ht 1 {5} (Suc (Suc (Suc n)))"
proof (rule ht_sparse.intro)
  show "ls_pool bump_rome bump_ok (ht_env lone_ht)" by (rule spread.pool)
  fix i :: nat
  have "card {k \<in> {5}. keyhash lone_ht k 1 = i} \<le> card {5 :: key}" by (rule card_mono) auto
  then show "card {k \<in> {5}. keyhash lone_ht k 1 = i} \<le> NODE_BUNDLE_SIZE" by (simp add: NODE_BUNDLE_SIZE_def)
qed simp_all

lemma lone_rep: "sparse_rep bump_ok lone_ht 1 {5} lone_heap Map.empty"
proof -
  have n: "node_pairs lone_node = []" "node_ok lone_node"
    by (simp_all add: node_pairs_def lone_node_def node_ok_def NODE_BUNDLE_SIZE_def)
  have "ls_rep (Remote 0 0) (cells lone_heap) (fst lone_bucket) (snd lone_bucket) UNLOCKED"
    unfolding ls_rep_def
    by (simp add: lone_bucket_def lone_heap_def holds_Cons n chain_total_def) (simp add: lone_node_def)
  then have "table lone_ht (cells lone_heap) (Remote 1 64) [lone_bucket]"
    by (simp add: table_def slots_ok_def sets_ok_def lone_sel indexAt_def lone_heap_def)
  moreover have "bump_ok lone_heap" by (auto simp: bump_ok_def lone_heap_def split: if_splits)
  moreover have "filed lone_ht [lone_bucket]" "ht_map_of lone_ht [lone_bucket] = Map.empty"
    by (auto simp: filed_def ht_map_of_def lone_bucket_def n lone_sel)
  ultimately show ?thesis
    unfolding sparse_rep_def by (intro conjI exI [of _ "Remote 1 64"] exI [of _ "[lone_bucket]"]) (auto simp: lone_bucket_def n)
qed

lemmas lone_eval = lone_sel lone_types ht_threads_def ht_call_def load_array_def load_set_def bucket_at_def fetch_node_def load_node_def
   search_node_def insert_finish_def ls_insert_def ls_unlock_def changeCount_def int_range_def lone_heap_def lone_bucket_def lone_node_def
   indexAt_def ptr_add_def replicates bump_eval node_add_def node_ok_def NODE_BUNDLE_SIZE_def

abbreviation two_inserts :: "(nat \<times> call) list" where "two_inserts \<equiv> [(1, Insert 5 10), (2, Insert 5 20)]"

abbreviation first_part :: "nat list" where "first_part \<equiv> [0, 0, 0, 0, 0, 1, 1, 1, 1, 1, 0, 0, 0, 0, 0, 0, 0, 0, 0, 0, 0, 0, 0]"

abbreviation second_part :: "nat list" where "second_part \<equiv> [1, 1, 1, 1, 1, 1, 1, 1, 1]"

lemma two_inserts_run:
  "\<exists>ts1 h1 ts2 h2. schedule bump_rome first_part (ht_threads (Suc (Suc (Suc n))) lone_ht two_inserts) lone_heap = Some (ts1, h1) \<and>
     schedule bump_rome second_part ts1 h1 = Some (ts2, h2) \<and>
     map (\<lambda>t. answer (snd t)) ts1 = [Some (ht_res TRUE_STATE 0), None] \<and>
     map (\<lambda>t. answer (snd t)) ts2 = [Some (ht_res TRUE_STATE 0), Some (ht_res FALSE_STATE 10)]"
  by (simp add: lone_eval answer_def)

lemma second_waits:
  "\<exists>ts h. schedule bump_rome [0, 0, 0, 0, 0, 1, 1, 1, 1, 1] (ht_threads (Suc (Suc (Suc n))) lone_ht two_inserts) lone_heap = Some (ts, h) \<and>
     length ts = 2 \<and> snd (ts ! 0) \<noteq> Out_of_fuel \<and> snd (ts ! 1) \<noteq> Out_of_fuel \<and> answer (snd (ts ! 1)) = None \<and> cells h (Remote 1 128) = Some (HLock LOCKED)"
  by (simp add: lone_eval answer_def)

text \<open>C6: on a chained table, as long as the keys in use hash to at most seven per bucket and no rehash runs meanwhile, calls of
  \<open>contains\<close>, \<open>insert\<close> and \<open>remove\<close> are linearizable: any number of them, from any nodes, with their verbs
  interleaved in any way, answer as if each took effect on the map at one instant between its first and its last step.
  One order \<open>log\<close> of the calls serves the whole schedule. After every number \<open>n\<close> of steps a
  prefix of it has taken effect, a longer one the larger \<open>n\<close> is; this prefix has every call that has returned, with the answer that the
  map gives it at its place, and no call that has not begun.  When all calls have returned the table stands for
  the map after the whole order.  (With more keys per bucket an insertion can store a key twice, and a rehash publishes an empty table.)\<close>

theorem ht_linearizable:
  assumes "ht_sparse R ok c cnt K fuel" "shared_pool R ok" "sparse_rep ok c cnt K h m" "call_key ` snd ` set cs \<subseteq> K"
    and "schedule R is (ht_threads fuel c cs) h = Some (ts', h')"
  shows "\<exists>log. linearization R cs m is (ht_threads fuel c cs) h log \<and>
    (list_all (\<lambda>t. answer (snd t) \<noteq> None) ts' \<longrightarrow> sparse_rep ok c cnt K h' (state_after cs m log))"
proof -
  obtain start ss where s: "ht_shared R ok c cnt K fuel start ss"
    "locked_objects.ready ok (table_shared c start ss) (bucket_obj c ss K) m h"
    using sparse_shared [OF assms(1-3)] .
  show ?thesis by (rule ht_shared.calls_linearizable [OF s assms(4,5)])
qed

theorem ht_linearizable_witness:
  "\<exists>ts' h' log.
     schedule bump_rome (first_part @ second_part) (ht_threads 3 lone_ht two_inserts) lone_heap = Some (ts', h') \<and>
     map (\<lambda>t. answer (snd t)) ts' = [Some (ht_res TRUE_STATE 0), Some (ht_res FALSE_STATE 10)] \<and>
     linearization bump_rome two_inserts Map.empty (first_part @ second_part) (ht_threads 3 lone_ht two_inserts) lone_heap log \<and>
     sparse_rep bump_ok lone_ht 1 {5} h' (state_after two_inserts Map.empty log)"
proof -
  note three = numeral_3_eq_3 [symmetric]
  obtain ts1 h1 ts2 h2 where r: "schedule bump_rome first_part (ht_threads 3 lone_ht two_inserts) lone_heap = Some (ts1, h1)"
    "schedule bump_rome second_part ts1 h1 = Some (ts2, h2)"
    "map (\<lambda>t. answer (snd t)) ts1 = [Some (ht_res TRUE_STATE 0), None]"
    "map (\<lambda>t. answer (snd t)) ts2 = [Some (ht_res TRUE_STATE 0), Some (ht_res FALSE_STATE 10)]"
    using two_inserts_run [of 0, unfolded three] by (elim exE conjE)
  note run = schedule_append [OF r(1,2)]
  have "list_all (\<lambda>x. x \<noteq> None) (map (\<lambda>t. answer (snd t)) ts2)" unfolding r(4) by simp
  then have answered: "list_all (\<lambda>t. answer (snd t) \<noteq> None) ts2" by (simp add: list.pred_map comp_def)
  have "call_key ` snd ` set two_inserts \<subseteq> {5}" by simp
  from ht_linearizable [OF lone_sparse [of 0, unfolded three] shared_bump.shared_pool_axioms lone_rep this run] answered
  show ?thesis using run r(4) by iprover
qed

text \<open>C7: on a chained table, as long as the keys in use hash to at most seven per bucket and no rehash runs meanwhile,
  overlapping calls never block each other for good and no verb of them goes wrong: in whatever
  state a schedule has left them, some further schedule brings all calls to their answers, but those that have already used
  up the fuel that bounds their attempts at the lock.\<close>

theorem ht_deadlock_free:
  assumes "ht_sparse R ok c cnt K fuel" "shared_pool R ok" "sparse_rep ok c cnt K h m" "call_key ` snd ` set cs \<subseteq> K"
    and "schedule R is (ht_threads fuel c cs) h = Some (ts', h')"
  shows "\<exists>is' ts2 h2. schedule R is' ts' h' = Some (ts2, h2) \<and>
    (\<forall>i < length ts'. snd (ts' ! i) \<noteq> Out_of_fuel \<longrightarrow> answer (snd (ts2 ! i)) \<noteq> None)"
proof -
  obtain start ss where s: "ht_shared R ok c cnt K fuel start ss"
    "locked_objects.ready ok (table_shared c start ss) (bucket_obj c ss K) m h"
    using sparse_shared [OF assms(1-3)] .
  show ?thesis by (rule ht_shared.calls_deadlock_free [OF s assms(4,5)])
qed

theorem ht_deadlock_free_witness:
  "\<exists>ts h is' ts2 h2. schedule bump_rome [0, 0, 0, 0, 0, 1, 1, 1, 1, 1] (ht_threads 3 lone_ht two_inserts) lone_heap = Some (ts, h) \<and>
     cells h (Remote 1 128) = Some (HLock LOCKED) \<and> answer (snd (ts ! 1)) = None \<and>
     schedule bump_rome is' ts h = Some (ts2, h2) \<and> answer (snd (ts2 ! 0)) \<noteq> None \<and> answer (snd (ts2 ! 1)) \<noteq> None"
proof -
  note three = numeral_3_eq_3 [symmetric]
  obtain ts h where r: "schedule bump_rome [0, 0, 0, 0, 0, 1, 1, 1, 1, 1] (ht_threads 3 lone_ht two_inserts) lone_heap = Some (ts, h)"
    "length ts = 2" "snd (ts ! 0) \<noteq> Out_of_fuel" "snd (ts ! 1) \<noteq> Out_of_fuel" "answer (snd (ts ! 1)) = None" "cells h (Remote 1 128) = Some (HLock LOCKED)"
    using second_waits [of 0, unfolded three] by (elim exE conjE)
  have "call_key ` snd ` set two_inserts \<subseteq> {5}" by simp
  from ht_deadlock_free [OF lone_sparse [of 0, unfolded three] shared_bump.shared_pool_axioms lone_rep this r(1)]
  obtain is' ts2 h2 where n: "schedule bump_rome is' ts h = Some (ts2, h2)"
    "\<And>i. i < length ts \<Longrightarrow> snd (ts ! i) \<noteq> Out_of_fuel \<Longrightarrow> answer (snd (ts2 ! i)) \<noteq> None" by iprover
  have two: "0 < length ts" "1 < length ts" by (simp_all add: r(2))
  note both = n(2) [OF two(1) r(3)] n(2) [OF two(2) r(4)]
  with r(1,5,6) n(1) both show ?thesis by iprover
qed

end
