(* ===== verification/Hashtable_Clients.thy ===== *)
theory Hashtable_Clients
  imports Client_Calls Hashtable_Concurrent
begin

text \<open>
  Several clients (\<^verbatim>\<open>role_client.h\<close>) at work on one chained table (\<^verbatim>\<open>structures/hashtable.h\<close>): the other table keeps the same
  promise to them as the interlocked one, by the same argument.
\<close>

definition ht_user_threads :: "nat \<Rightarrow> Hashtable \<Rightarrow> (nat \<times> 'r user) list \<Rightarrow> (ht_cell, 'r) thread list" where
  "ht_user_threads fuel c us = map (\<lambda>(self, u). (self, user_prog (ht_prog_of c fuel) u)) us"

lemma calls_admitted: "admits {x. call_key x \<in> K} K"
  by (simp add: admits_def)

context ht_shared
begin

lemma user_threads_objects: "objects.users_of = ht_user_threads fuel c"
  by (rule ext) (simp add: objects.users_of_def ht_user_threads_def)

lemma clients_sparse:
  assumes "objects.ready m h" "diagonal m" "doubles rnd" "\<forall>x \<in> set cls. client_fits rnd K x"
    "schedule R is (ht_user_threads fuel c (map (client_user rnd) cls)) h = Some (ts', h')"
  shows "length ts' = length cls" "i < length cls \<Longrightarrow> snd (ts' ! i) = Return v \<Longrightarrow> v = client_end (cls ! i)"
    "i < length cls \<Longrightarrow> step R (fst (ts' ! i)) (snd (ts' ! i)) h' \<noteq> None \<or> answer (snd (ts' ! i)) \<noteq> None \<or> snd (ts' ! i) = Out_of_fuel"
    "list_all (\<lambda>t. answer (snd t) \<noteq> None) ts' \<Longrightarrow> \<exists>m'. diagonal m' \<and> sparse_rep ok c cnt K h' m'"
proof -
  note served = objects.clients_served [OF assms(1-4) calls_admitted assms(5) [folded user_threads_objects]]
  show "length ts' = length cls" "i < length cls \<Longrightarrow> snd (ts' ! i) = Return v \<Longrightarrow> v = client_end (cls ! i)"
    "i < length cls \<Longrightarrow> step R (fst (ts' ! i)) (snd (ts' ! i)) h' \<noteq> None \<or> answer (snd (ts' ! i)) \<noteq> None \<or> snd (ts' ! i) = Out_of_fuel"
    by (rule served; assumption)+
  show "list_all (\<lambda>t. answer (snd t) \<noteq> None) ts' \<Longrightarrow> \<exists>m'. diagonal m' \<and> sparse_rep ok c cnt K h' m'"
    using served(4) ready_rep by blast
qed

end

text \<open>
  No assertion of a client fails, no client is stuck, and the table stands in the end for a map with every key stored with itself.
\<close>

lemma ht_overlapping_clients:
  assumes "ht_sparse R ok c cnt K fuel" "shared_pool R ok" "sparse_rep ok c cnt K h m" "diagonal m" "doubles rnd"
    "\<forall>x \<in> set cls. client_fits rnd K x" "schedule R is (ht_user_threads fuel c (map (client_user rnd) cls)) h = Some (ts', h')"
  shows "length ts' = length cls" "i < length cls \<Longrightarrow> snd (ts' ! i) = Return v \<Longrightarrow> v = client_end (cls ! i)"
    "i < length cls \<Longrightarrow> step R (fst (ts' ! i)) (snd (ts' ! i)) h' \<noteq> None \<or> answer (snd (ts' ! i)) \<noteq> None \<or> snd (ts' ! i) = Out_of_fuel"
    "list_all (\<lambda>t. answer (snd t) \<noteq> None) ts' \<Longrightarrow> \<exists>m'. diagonal m' \<and> sparse_rep ok c cnt K h' m'"
proof -
  obtain start ss where s: "ht_shared R ok c cnt K fuel start ss"
    "locked_objects.ready ok (table_shared c start ss) (bucket_obj c ss K) m h"
    using sparse_shared [OF assms(1-3)] .
  note served = ht_shared.clients_sparse [OF s assms(4-7)]
  show "length ts' = length cls" "i < length cls \<Longrightarrow> snd (ts' ! i) = Return v \<Longrightarrow> v = client_end (cls ! i)"
    "i < length cls \<Longrightarrow> step R (fst (ts' ! i)) (snd (ts' ! i)) h' \<noteq> None \<or> answer (snd (ts' ! i)) \<noteq> None \<or> snd (ts' ! i) = Out_of_fuel"
    "list_all (\<lambda>t. answer (snd t) \<noteq> None) ts' \<Longrightarrow> \<exists>m'. diagonal m' \<and> sparse_rep ok c cnt K h' m'"
    by (rule served; assumption)+
qed

end
