(* ===== verification/Hashtable_Rehash.thy ===== *)
theory Hashtable_Rehash
  imports Hashtable_Correct
begin

text \<open>
  \<^verbatim>\<open>Hashtable::try_rehash\<close>: undisturbed it doubles the array and leaves the map; the old buckets are
  retired.  Half way through, the new array is already the table and still empty.
\<close>

section \<open>The loops over the old buckets\<close>

context ls_pool
begin

lemma wp_list_length:
  assumes "ok h" "ls_rep (null_ptr env) (cells h) s ns st"
    and "\<And>h'. ok h' \<Longrightarrow> cells h' = cells h \<Longrightarrow> allocs h' = allocs h \<Longrightarrow>
      wp R self (k (int (length (chain_pairs ns)))) h' Q"
  shows "wp R self (list_length s k) h Q"
proof -
  note rep = ls_repD [OF assms(2)]
  obtain a x ns' where ns: "ns = (a, x) # ns'" using rep(5) by (cases ns) auto
  have a: "cells h (ls_first s) = Some (HNode x)" "total_length x = int (length (chain_pairs ns))"
    using rep(2,3,6) by (simp_all add: ns holds_Cons chain_total_def)
  have h: "heap_is h (cells h) (allocs h)" using assms(1) by (simp add: heap_is_def)
  show ?thesis
    unfolding list_length_def
  proof (rule wp_fetch_node [OF h a(1)], rule wp_free_copy, assumption, simp)
    fix q h'
    assume q: "cells h q = None" "allocs h q = None"
      and h': "heap_is h' ((cells h)(q \<mapsto> HNode x, q := None)) ((allocs h)(q \<mapsto> [q], q := None))"
    then show "wp R self (k (total_length x)) h' Q"
      unfolding a(2) by (intro assms(3)) (auto simp: heap_is_def)
  qed
qed

lemma wp_sum_lengths:
  assumes "ok h" "ptr_id q = self" "slots_ok (cells h) q bs" "sets_ok (null_ptr env) (cells h) st bs" "i + n \<le> length bs"
    and "\<And>h'. ok h' \<Longrightarrow> cells h' = cells h \<Longrightarrow> allocs h' = allocs h \<Longrightarrow>
      wp R self (k (t + (\<Sum>j \<leftarrow> [i..<i + n]. int (length (chain_pairs (snd (bs ! j))))))) h' Q"
  shows "wp R self (sum_lengths q i n t k) h Q"
  using assms
proof (induction n arbitrary: i t h)
  case (Suc n)
  have i: "i < length bs" using Suc.prems(5) by simp
  have "wp R self (load_set (indexAt q i) (\<lambda>set. list_length set (\<lambda>l. sum_lengths q (Suc i) n (t + l) k))) h Q"
  proof (rule wp_load_set)
    show "ptr_id (indexAt q i) = self" using Suc.prems(2) by (simp add: indexAt_def)
    show "cells h (indexAt q i) = Some (HSet (fst (bs ! i)))" using Suc.prems(3) i by (simp add: slots_ok_def)
    have r: "ls_rep (null_ptr env) (cells h) (fst (bs ! i)) (snd (bs ! i)) (st i)" using Suc.prems(4) i by (simp add: sets_ok_def)
    show "wp R self (list_length (fst (bs ! i)) (\<lambda>l. sum_lengths q (Suc i) n (t + l) k)) h Q"
    proof (rule wp_list_length [OF Suc.prems(1) r])
      fix h1 assume h1: "ok h1" "cells h1 = cells h" "allocs h1 = allocs h"
      show "wp R self (sum_lengths q (Suc i) n (t + int (length (chain_pairs (snd (bs ! i))))) k) h1 Q"
      proof (rule Suc.IH [OF h1(1)])
        fix h2 assume h2: "ok h2" "cells h2 = cells h1" "allocs h2 = allocs h1"
        have "[i..<i + Suc n] = i # [Suc i..<Suc i + n]" by (simp add: upt_conv_Cons del: upt_Suc)
        then show "wp R self (k (t + int (length (chain_pairs (snd (bs ! i)))) +
            (\<Sum>j \<leftarrow> [Suc i..<Suc i + n]. int (length (chain_pairs (snd (bs ! j))))))) h2 Q"
          using Suc.prems(6) [of h2] h1 h2 by (simp add: add.assoc del: upt_Suc)
      qed (use Suc.prems h1 in simp_all)
    qed
  qed
  then show ?case by simp
qed simp

text \<open>One lock changes.\<close>

lemma sets_lock:
  assumes "sets_ok nul m st bs" "i < length bs" "bs ! i = (s, ns)"
  shows "sets_ok nul (m(ls_lock s \<mapsto> HLock v)) (st(i := v)) bs" "ls_lock s \<in> feet bs" "m (ls_lock s) = Some (HLock (st i))"
proof -
  have r: "ls_rep nul m s ns (st i)" by (rule sets_okD [OF assms])
  then have h: "holds m ((ls_lock s, HLock (st i)) # chain_cells ns)" by (simp add: ls_rep_def)
  have "holds (m(ls_lock s \<mapsto> HLock v)) ((ls_lock s, HLock v) # chain_cells ns)"
    using holds_change [of m "[]", simplified, OF h] by simp
  then have "ls_rep nul (m(ls_lock s \<mapsto> HLock v)) s ns v" using r by (simp add: ls_rep_def)
  moreover have "leaves (foot (s, ns)) m (m(ls_lock s \<mapsto> HLock v))" by (auto simp: leaves_def foot_def)
  ultimately have "sets_ok nul (m(ls_lock s \<mapsto> HLock v)) (st(i := v)) (bs[i := (s, ns)])"
    by (rule sets_ok_update [OF assms]) simp
  then show "sets_ok nul (m(ls_lock s \<mapsto> HLock v)) (st(i := v)) bs" using assms(3) list_update_id [of bs i] by simp
  show "m (ls_lock s) = Some (HLock (st i))" using h by (simp add: holds_Cons)
  show "ls_lock s \<in> feet bs" using assms(2,3) nth_mem [OF assms(2)] by (force simp: foot_def)
qed

lemma sets_ok_state: "sets_ok nul m st bs \<Longrightarrow> (\<And>i. i < length bs \<Longrightarrow> st i = st' i) \<Longrightarrow> sets_ok nul m st' bs"
  by (simp add: sets_ok_def)

text \<open>
  A loop that goes over the copies of the sets and gives every lock the value \<open>v\<close>, by a program
  that can when the lock has value \<open>u\<close>.
\<close>

lemma wp_lock_loop:
  assumes "ok h" "ptr_id q = self" "slots_ok (cells h) q bs"
    "sets_ok (null_ptr env) (cells h) (\<lambda>j. if j < i then v else u) bs" "i + n = length bs"
    and step: "\<And>i n k. loop i (Suc n) k = load_set (indexAt q i) (\<lambda>set. prog set (loop (Suc i) n k))" "\<And>i k. loop i 0 k = k"
    and prog: "\<And>h s k. ok h \<Longrightarrow> cells h (ls_lock s) = Some (HLock u) \<Longrightarrow>
      (\<And>h'. ok h' \<Longrightarrow> cells h' = (cells h)(ls_lock s \<mapsto> HLock v) \<Longrightarrow> allocs h' = allocs h \<Longrightarrow> wp R self k h' Q) \<Longrightarrow>
      wp R self (prog s k) h Q"
    and k: "\<And>h'. ok h' \<Longrightarrow> sets_ok (null_ptr env) (cells h') (\<lambda>_. v) bs \<Longrightarrow> leaves (feet bs) (cells h) (cells h') \<Longrightarrow>
      allocs h' = allocs h \<Longrightarrow> wp R self k h' Q"
  shows "wp R self (loop i n k) h Q"
  using assms(1,3-5) k
proof (induction n arbitrary: i h)
  case 0
  have "sets_ok (null_ptr env) (cells h) (\<lambda>_. v) bs" by (rule sets_ok_state [OF 0(3)]) (use 0(4) in simp)
  then show ?case using 0 by (simp add: step)
next
  case (Suc n)
  have i: "i < length bs" using Suc.prems(4) by simp
  obtain s ns where b: "bs ! i = (s, ns)" by fastforce
  note lk = sets_lock [OF Suc.prems(3) i b]
  show ?case
    unfolding step
  proof (rule wp_load_set)
    show "ptr_id (indexAt q i) = self" using assms(2) by (simp add: indexAt_def)
    show "cells h (indexAt q i) = Some (HSet s)" using Suc.prems(2) i b by (simp add: slots_ok_def)
    show "wp R self (prog s (loop (Suc i) n k)) h Q"
    proof (rule prog [OF Suc.prems(1)])
      show "cells h (ls_lock s) = Some (HLock u)" using lk(3) by simp
      fix h1 assume h1: "ok h1" "cells h1 = (cells h)(ls_lock s \<mapsto> HLock v)" "allocs h1 = allocs h"
      have kp: "leaves (feet bs) (cells h) (cells h1)" using lk(2) by (auto simp: leaves_def h1(2))
      have sl: "slots_ok (cells h1) q bs"
        using Suc.prems(2) lk(3) by (auto simp: slots_ok_def h1(2))
      have st: "sets_ok (null_ptr env) (cells h1) (\<lambda>j. if j < Suc i then v else u) bs"
        unfolding h1(2) by (rule sets_ok_state [OF lk(1)]) auto
      show "wp R self (loop (Suc i) n k) h1 Q"
      proof (rule Suc.IH [OF h1(1) sl st])
        show "Suc i + n = length bs" using Suc.prems(4) by simp
        fix h' assume h': "ok h'" "sets_ok (null_ptr env) (cells h') (\<lambda>_. v) bs" "leaves (feet bs) (cells h1) (cells h')"
          "allocs h' = allocs h1"
        show "wp R self k h' Q"
          by (rule Suc.prems(5) [OF h'(1,2) leaves_trans [OF kp h'(3)]]) (use h' h1 in simp_all)
      qed
    qed
  qed
qed

lemma wp_freeze_one:
  assumes "ok h" "cells h (ls_lock s) = Some (HLock UNLOCKED)"
    and "\<And>h'. ok h' \<Longrightarrow> cells h' = (cells h)(ls_lock s \<mapsto> HLock LOCKED) \<Longrightarrow> allocs h' = allocs h \<Longrightarrow> wp R self k h' Q"
  shows "wp R self (freeze (Suc fuel) s k) h Q"
  unfolding freeze.simps by (rule wp_CompareAndSwap [OF assms(1,2)]) (use assms(3) in simp)

end

section \<open>Copying the pairs\<close>

lemma disjoint_live:
  "(\<And>b. b \<in> A \<Longrightarrow> m b \<noteq> None) \<Longrightarrow> (\<And>b. b \<in> B \<Longrightarrow> m b = None) \<Longrightarrow> A \<inter> B = {}"
  by (metis disjoint_iff)

text \<open>
  The new array while it is filled: it is not yet bigger than \<open>t\<close> pairs per bucket, and every
  bucket is packed, because nothing is removed from it.
\<close>

definition growing :: "Hashtable \<Rightarrow> (remote_ptr \<Rightarrow> ht_cell option) \<Rightarrow> remote_ptr \<Rightarrow> bucket list \<Rightarrow> nat \<Rightarrow> bool" where
  "growing c m start bs t \<longleftrightarrow> 0 < length bs \<and> length bs < 2 ^ 31 \<and> slots_ok m start bs \<and>
     sets_ok (null_ptr (ht_env c)) m (\<lambda>_. UNLOCKED) bs \<and> filed c bs \<and>
     (\<forall>b \<in> set bs. packed (snd b) \<and> length (chain_pairs (snd b)) \<le> t)"

lemma growing_keep:
  assumes "growing c m start bs t" "leaves F m m'" "F \<inter> feet bs = {}" "F \<inter> indexAt start ` {..<length bs} = {}"
  shows "growing c m' start bs t"
proof -
  have "sets_ok (null_ptr (ht_env c)) m' (\<lambda>_. UNLOCKED) bs"
    using assms(1) by (intro sets_ok_keep [OF _ assms(2,3)]) (simp add: growing_def)
  moreover have "slots_ok m' start bs"
    unfolding slots_ok_def
  proof (intro allI impI)
    fix i assume i: "i < length bs"
    then have "m (indexAt start i) = Some (HSet (fst (bs ! i)))" using assms(1) by (simp add: growing_def slots_ok_def)
    then show "m' (indexAt start i) = Some (HSet (fst (bs ! i)))"
      using leavesD [OF assms(2), of "indexAt start i"] assms(4) i by auto
  qed
  ultimately show ?thesis using assms(1) by (simp add: growing_def)
qed

lemma packed_length: "packed ns \<Longrightarrow> nodes_ok ns \<Longrightarrow> length ns \<le> Suc (length (chain_pairs ns))"
proof (induction ns rule: packed.induct)
  case (3 a x n ns)
  then show ?case by (cases n) (auto simp: node_pairs_keys NODE_BUNDLE_SIZE_def)
qed auto

lemma map_add_split:
  assumes "fst ` set xs \<inter> fst ` set ys = {}"
  shows "m ++ map_of xs ++ map_of ys = m ++ map_of (xs @ ys)"
proof -
  have "dom (map_of xs) \<inter> dom (map_of ys) = {}" using assms by (simp add: dom_map_of_conv_image_fst)
  then have "map_of xs ++ map_of ys = map_of ys ++ map_of xs" by (rule map_add_comm)
  then show ?thesis by (metis map_add_assoc map_of_append)
qed

text \<open>What the copying of some pairs does to memory: see \<open>wp_readd\<close>.\<close>

definition grown :: "Hashtable \<Rightarrow> remote_ptr \<Rightarrow> (remote_ptr \<Rightarrow> ht_cell option) \<Rightarrow> bucket list \<Rightarrow> (remote_ptr \<Rightarrow> ht_cell option)
    \<Rightarrow> bucket list \<Rightarrow> bool" where
  "grown c start m bs m' bs' \<longleftrightarrow> length bs' = length bs \<and> leaves (feet bs) m m' \<and> (\<forall>b \<in> feet bs'. b \<in> feet bs \<or> m b = None)"

lemma grownD: "grown c start m bs m' bs' \<Longrightarrow> b \<in> feet bs' \<Longrightarrow> b \<in> feet bs \<or> m b = None"
  unfolding grown_def by (elim conjE) (rule bspec)

lemma grown_refl: "grown c start m bs m bs"
  by (simp add: grown_def)

lemma grown_trans:
  assumes "grown c start m bs m1 bs1" "grown c start m1 bs1 m2 bs2"
  shows "grown c start m bs m2 bs2"
proof -
  have a: "leaves (feet bs) m m1" "leaves (feet bs1) m1 m2" "\<forall>b \<in> feet bs1. b \<in> feet bs \<or> m b = None"
    "\<forall>b \<in> feet bs2. b \<in> feet bs1 \<or> m1 b = None" "length bs2 = length bs"
    using assms by (simp_all add: grown_def)
  have "leaves (feet bs) m m2" by (rule leaves_trans [OF a(1,2)]) (rule bspec [OF a(3)])
  moreover have "b \<in> feet bs \<or> m b = None" if "b \<in> feet bs2" for b
  proof (cases "b \<in> feet bs1")
    case False
    then have "m1 b = None" using bspec [OF a(4) that] by argo
    then show ?thesis using leavesD [OF a(1), of b] by metis
  qed (rule bspec [OF a(3)])
  ultimately show ?thesis using a(5) by (simp add: grown_def)
qed

context ls_pool
begin

lemma wp_readd:
  assumes "ok h" "ht_env c = env" "ptr_id start = self" "growing c (cells h) start bs t" "Suc t < 2 ^ 31" "t < fuel"
    "ht_map_of c bs key = None"
    and k: "\<And>h' bs'. ok h' \<Longrightarrow> growing c (cells h') start bs' (Suc t) \<Longrightarrow> ht_map_of c bs' = (ht_map_of c bs)(key \<mapsto> w) \<Longrightarrow>
      grown c start (cells h) bs (cells h') bs' \<Longrightarrow> (\<And>b. allocs h b \<noteq> None \<Longrightarrow> allocs h' b = allocs h b) \<Longrightarrow> wp R self k h' Q"
  shows "wp R self (readd c fuel \<lparr>array_count = length bs, bucket_start = start\<rparr> key w k) h Q"
proof -
  let ?i = "keyhash c key (length bs)"
  have g: "0 < length bs" "length bs < 2 ^ 31" "slots_ok (cells h) start bs" "sets_ok (null_ptr env) (cells h) (\<lambda>_. UNLOCKED) bs"
    "filed c bs" "\<forall>b \<in> set bs. packed (snd b) \<and> length (chain_pairs (snd b)) \<le> t"
    using assms(2,4) by (simp_all add: growing_def)
  have i: "?i < length bs" by (rule keyhash_less [OF g(1,2)])
  obtain s ns where b: "bs ! ?i = (s, ns)" by fastforce
  have ns: "packed ns" "length (chain_pairs ns) \<le> t" using bspec [OF g(6) nth_mem [OF i]] by (simp_all add: b)
  have rep: "ls_rep (null_ptr env) (cells h) s ns UNLOCKED" using sets_okD [OF g(4) i b] by simp
  have len: "length ns \<le> fuel" using packed_length [OF ns(1) ls_repD(4) [OF rep]] ns(2) assms(6) by linarith
  have bnd: "length (chain_pairs ns) < 2 ^ 31 - 1" using ns(2) assms(5) by linarith
  have sub: "foot (s, ns) \<subseteq> feet bs" using nth_mem [OF i] unfolding b by blast
  have absent: "key \<notin> fst ` set (chain_pairs ns)" using assms(7) b by (simp add: ht_map_of_def map_of_eq_None_iff)
  show ?thesis
    unfolding readd_def assms(2)
  proof (rule wp_bucket_at [OF _ g(1,2)], simp, simp only: HashArray.simps, rule wp_load_set)
    show "ptr_id (indexAt start ?i) = self" using assms(3) by (simp add: indexAt_def)
    show "cells h (indexAt start ?i) = Some (HSet s)" using g(3) i b by (simp add: slots_ok_def)
    show "wp R self (ls_insert env fuel s key w (\<lambda>_. k)) h Q"
    proof (rule op_insert [OF len ns(1) bnd assms(1) rep])
      fix h' ns'
      assume h': "ok h'" "ls_rep (null_ptr env) (cells h') s ns' UNLOCKED" "inserted_into key w ns ns'"
        "leaves (foot (s, ns)) (cells h) (cells h')" "\<forall>b \<in> fst ` set ns'. b \<in> fst ` set ns \<or> cells h b = None"
        "\<And>b. allocs h b \<noteq> None \<Longrightarrow> allocs h' b = allocs h b"
      let ?bs = "bs[?i := (s, ns')]"
      have prs: "chain_pairs ns' = chain_pairs ns @ [(key, w)]" "packed ns'"
        "map_of (chain_pairs ns') = snd (spec_insert (map_of (chain_pairs ns)) key w)"
        using h'(3) absent unfolding inserted_into_def by metis+
      have fresh: "b \<in> foot (s, ns) \<or> cells h b = None" if "b \<in> foot (s, ns')" for b
        using that h'(5) by (auto simp: foot_def)
      have "sets_ok (null_ptr env) (cells h') ((\<lambda>_. UNLOCKED)(?i := UNLOCKED)) ?bs"
        by (rule sets_ok_update [OF g(4) i b h'(2,4) fresh])
      then have s: "sets_ok (null_ptr env) (cells h') (\<lambda>_. UNLOCKED) ?bs" by (simp add: fun_upd_idem)
      have fl: "filed c ?bs"
      proof (rule filed_update [OF g(5) i])
        have d: "distinct (map fst (chain_pairs ns))" "\<forall>k \<in> fst ` set (chain_pairs ns). keyhash c k (length bs) = ?i"
          using g(5) i unfolding filed_def by (metis b snd_conv)+
        show "distinct (map fst (chain_pairs ns'))" using d(1) absent by (simp add: prs(1))
        show "keyhash c k (length bs) = ?i" if "k \<in> fst ` set (chain_pairs ns')" for k using that d(2) by (auto simp: prs(1))
      qed
      have sl: "slots_ok (cells h') start ?bs"
        unfolding slots_ok_def
      proof (intro allI impI)
        fix j assume j: "j < length ?bs"
        have sj: "cells h (indexAt start j) = Some (HSet (fst (bs ! j)))" using g(3) j by (simp add: slots_ok_def)
        then have "indexAt start j \<notin> foot (s, ns)" using ls_rep_cell [OF rep, of "indexAt start j"] by auto
        then have "cells h' (indexAt start j) = Some (HSet (fst (bs ! j)))" using leavesD [OF h'(4), of "indexAt start j"] sj by simp
        then show "cells h' (indexAt start j) = Some (HSet (fst (?bs ! j)))" using b by (cases "j = ?i") (simp_all add: i)
      qed
      have all: "packed (snd b) \<and> length (chain_pairs (snd b)) \<le> Suc t" if "b \<in> set ?bs" for b
        using subsetD [OF set_update_subset_insert that] bspec [OF g(6), of b] prs(1,2) ns(2) by fastforce
      have "growing c (cells h') start ?bs (Suc t)" unfolding growing_def using g(1,2) s fl sl all assms(2) by simp
      moreover have "ht_map_of c ?bs = (ht_map_of c bs)(key \<mapsto> w)"
        using map_insert_local [OF g(5) i refl b prs(3)] assms(7) by (simp add: spec_insert_def)
      moreover have "grown c start (cells h) bs (cells h') ?bs"
      proof -
        have "b \<in> feet bs \<or> cells h b = None" if bb: "b \<in> feet ?bs" for b
        proof -
          obtain z where z: "z \<in> set ?bs" "b \<in> foot z" using bb by blast
          then consider "z \<in> set bs" | "z = (s, ns')" using set_update_subset_insert by fastforce
          then show ?thesis
          proof cases
            case 1
            then show ?thesis using z(2) by auto
          next
            case 2
            then have "b \<in> foot (s, ns) \<or> cells h b = None" using z(2) fresh by simp
            then show ?thesis using subsetD [OF sub, of b] by argo
          qed
        qed
        then show ?thesis using leaves_mono [OF h'(4) sub] by (simp add: grown_def)
      qed
      ultimately show "wp R self k h' Q" using k [OF h'(1)] h'(6) by blast
    qed
  qed
qed

lemma map_add_upd_new: "k \<notin> fst ` set ps \<Longrightarrow> m(k \<mapsto> w) ++ map_of ps = m ++ map_of ((k, w) # ps)"
  by (auto simp: fun_eq_iff map_add_def map_of_eq_None_iff [symmetric] split: option.splits)

lemma wp_readd_pairs:
  assumes "ok h" "ht_env c = env" "ptr_id start = self" "growing c (cells h) start bs t" "t + length ps < 2 ^ 31"
    "t + length ps \<le> fuel" "distinct (map fst ps)" "\<forall>k \<in> fst ` set ps. ht_map_of c bs k = None"
    and "\<And>h' bs'. ok h' \<Longrightarrow> growing c (cells h') start bs' (t + length ps) \<Longrightarrow>
      ht_map_of c bs' = ht_map_of c bs ++ map_of ps \<Longrightarrow> grown c start (cells h) bs (cells h') bs' \<Longrightarrow>
      (\<And>b. allocs h b \<noteq> None \<Longrightarrow> allocs h' b = allocs h b) \<Longrightarrow> wp R self k h' Q"
  shows "wp R self (call_each (readd c fuel \<lparr>array_count = length bs, bucket_start = start\<rparr>) ps k) h Q"
  using assms
proof (induction ps arbitrary: h bs t)
  case Nil
  then show ?case by (simp add: grown_refl)
next
  case (Cons p ps)
  obtain key w where p: "p = (key, w)" by fastforce
  have d: "key \<notin> fst ` set ps" using Cons.prems(7) by (simp add: p)
  have "wp R self (readd c fuel \<lparr>array_count = length bs, bucket_start = start\<rparr> key w
      (call_each (readd c fuel \<lparr>array_count = length bs, bucket_start = start\<rparr>) ps k)) h Q"
  proof (rule wp_readd [OF Cons.prems(1-4)])
    fix h1 bs1
    assume h1: "ok h1" "growing c (cells h1) start bs1 (Suc t)" "ht_map_of c bs1 = (ht_map_of c bs)(key \<mapsto> w)"
      "grown c start (cells h) bs (cells h1) bs1" "\<And>b. allocs h b \<noteq> None \<Longrightarrow> allocs h1 b = allocs h b"
    have len: "length bs1 = length bs" using h1(4) by (simp add: grown_def)
    have "wp R self (call_each (readd c fuel \<lparr>array_count = length bs1, bucket_start = start\<rparr>) ps k) h1 Q"
    proof (rule Cons.IH [OF h1(1) Cons.prems(2,3) h1(2)])
      show "\<forall>k \<in> fst ` set ps. ht_map_of c bs1 k = None" using Cons.prems(8) d by (auto simp: h1(3))
      fix h2 bs2
      assume h2: "ok h2" "growing c (cells h2) start bs2 (Suc t + length ps)" "ht_map_of c bs2 = ht_map_of c bs1 ++ map_of ps"
        "grown c start (cells h1) bs1 (cells h2) bs2" "\<And>b. allocs h1 b \<noteq> None \<Longrightarrow> allocs h2 b = allocs h1 b"
      show "wp R self k h2 Q"
      proof (rule Cons.prems(9) [OF h2(1)])
        show "growing c (cells h2) start bs2 (t + length (p # ps))" using h2(2) by simp
        show "ht_map_of c bs2 = ht_map_of c bs ++ map_of (p # ps)"
          unfolding h2(3) h1(3) p by (rule map_add_upd_new [OF d])
        show "grown c start (cells h) bs (cells h2) bs2" by (rule grown_trans [OF h1(4) h2(4)])
        show "allocs h2 b = allocs h b" if "allocs h b \<noteq> None" for b using h1(5) [OF that] h2(5) [of b] that by simp
      qed
    qed (use Cons.prems(5-7) in simp_all)
    then show "wp R self (call_each (readd c fuel \<lparr>array_count = length bs, bucket_start = start\<rparr>) ps k) h1 Q" by (simp add: len)
  qed (use Cons.prems(5-8) p in simp_all)
  then show ?case by (simp add: p)
qed

text \<open>The pairs of one old bucket; its chain is outside the new array and stays as it is.\<close>

lemma wp_readd_chain:
  assumes "ok h" "ht_env c = env" "ptr_id start = self" "growing c (cells h) start bs t"
    "holds (cells h) (chain_cells ns)" "linked (null_ptr env) p ns" "nodes_ok ns" "length ns < n" "fst ` set ns \<inter> feet bs = {}"
    "t + length (chain_pairs ns) < 2 ^ 31" "t + length (chain_pairs ns) \<le> fuel" "distinct (map fst (chain_pairs ns))"
    "\<forall>k \<in> fst ` set (chain_pairs ns). ht_map_of c bs k = None"
    and k: "\<And>h' bs'. ok h' \<Longrightarrow> growing c (cells h') start bs' (t + length (chain_pairs ns)) \<Longrightarrow>
      ht_map_of c bs' = ht_map_of c bs ++ map_of (chain_pairs ns) \<Longrightarrow> grown c start (cells h) bs (cells h') bs' \<Longrightarrow>
      (\<And>b. allocs h b \<noteq> None \<Longrightarrow> allocs h' b = allocs h b) \<Longrightarrow> wp R self k h' Q"
  shows "wp R self (foreach_loop env n p (readd c fuel \<lparr>array_count = length bs, bucket_start = start\<rparr>) k) h Q"
  using assms(1,4-13) k
proof (induction ns arbitrary: h bs t p n)
  case Nil
  obtain n' where "n = Suc n'" using Nil(6) by (cases n) auto
  then show ?case using Nil by (simp add: grown_refl)
next
  case (Cons y ns)
  obtain a x where y: "y = (a, x)" by fastforce
  obtain n' where n: "n = Suc n'" using Cons.prems(6) by (cases n) auto
  let ?f = "\<lambda>bs. readd c fuel \<lparr>array_count = length (bs :: bucket list), bucket_start = start\<rparr>"
  have ax: "cells h a = Some (HNode x)" "p = a" "a \<noteq> null_ptr env" "node_ok x" "linked (null_ptr env) (next_node x) ns"
    "holds (cells h) (chain_cells ns)" "nodes_ok ns"
    using Cons.prems(3-5) by (auto simp: y holds_Cons)
  have h: "heap_is h (cells h) (allocs h)" using Cons.prems(1) by (simp add: heap_is_def)
  have keys: "fst ` set (node_pairs x) \<inter> fst ` set (chain_pairs ns) = {}" "distinct (map fst (node_pairs x))"
    "distinct (map fst (chain_pairs ns))"
    using Cons.prems(10) by (simp_all add: y)
  have "wp R self (fetch_node a (\<lambda>red_node node_data. if \<not> node_ok node_data then Undefined else
      call_each (?f bs) (node_pairs node_data) (Deallocate Node_t 1 red_node (
      foreach_loop env n' (next_node node_data) (?f bs) k)))) h Q"
  proof (rule wp_fetch_node [OF h ax(1)])
    fix q h1
    assume q: "cells h q = None" "allocs h q = None" and "heap_is h1 ((cells h)(q \<mapsto> HNode x)) ((allocs h)(q \<mapsto> [q]))"
    then have h1: "ok h1" "cells h1 = (cells h)(q \<mapsto> HNode x)" "allocs h1 = (allocs h)(q \<mapsto> [q])" by (simp_all add: heap_is_def)
    have kp1: "leaves {} (cells h) (cells h1)" using q(1) by (auto simp: leaves_def h1(2))
    have g1: "growing c (cells h1) start bs t" by (rule growing_keep [OF Cons.prems(2) kp1]) simp_all
    have live: "cells h b \<noteq> None" if "b \<in> feet bs" for b
      using sets_ok_live [of "null_ptr (ht_env c)" "cells h" "\<lambda>_. UNLOCKED" bs b] Cons.prems(2) that by (auto simp: growing_def)
    have "wp R self (call_each (?f bs) (node_pairs x) (Deallocate Node_t 1 q (foreach_loop env n' (next_node x) (?f bs) k))) h1 Q"
    proof (rule wp_readd_pairs [OF h1(1) assms(2,3) g1])
      fix h2 bs2
      assume h2: "ok h2" "growing c (cells h2) start bs2 (t + length (node_pairs x))"
        "ht_map_of c bs2 = ht_map_of c bs ++ map_of (node_pairs x)" "grown c start (cells h1) bs (cells h2) bs2"
        "\<And>b. allocs h1 b \<noteq> None \<Longrightarrow> allocs h2 b = allocs h1 b"
      have gr: "length bs2 = length bs" "leaves (feet bs) (cells h1) (cells h2)" "\<forall>b \<in> feet bs2. b \<in> feet bs \<or> cells h1 b = None"
        using h2(4) by (simp_all add: grown_def)
      have q2: "q \<notin> feet bs2" "q \<notin> feet bs" using bspec [OF gr(3), of q] live [of q] q(1) by (auto simp: h1(2))
      have slot2: "q \<notin> indexAt start ` {..<length bs2}"
      proof
        assume "q \<in> indexAt start ` {..<length bs2}"
        then obtain j where "q = indexAt start j" "j < length bs" using gr(1) by auto
        then show False using Cons.prems(2) q(1) by (simp add: growing_def slots_ok_def)
      qed
      have al: "allocs h2 q = Some [q]" using h2(5) [of q] by (simp add: h1(3))
      have h2': "heap_is h2 (cells h2) (allocs h2)" using h2(1) by (simp add: heap_is_def)
      show "wp R self (Deallocate Node_t 1 q (foreach_loop env n' (next_node x) (?f bs) k)) h2 Q"
      proof (rule wp_free_copy [OF h2' al])
        fix h3 assume "heap_is h3 ((cells h2)(q := None)) ((allocs h2)(q := None))"
        then have h3: "ok h3" "cells h3 = (cells h2)(q := None)" "allocs h3 = (allocs h2)(q := None)" by (simp_all add: heap_is_def)
        have kp3: "leaves {q} (cells h2) (cells h3)" by (auto simp: leaves_def h3(2))
        have g3: "growing c (cells h3) start bs2 (t + length (node_pairs x))"
          by (rule growing_keep [OF h2(2) kp3]) (use q2 slot2 in simp_all)
        have same: "cells h3 b = cells h b" if "cells h b \<noteq> None" "b \<notin> feet bs" for b
          using leavesD [OF gr(2), of b] that q(1) by (auto simp: h1(2) h3(2))
        have g13: "grown c start (cells h) bs (cells h3) bs2"
        proof -
          have "cells h b = None" if "cells h1 b = None" for b using that by (simp add: h1(2) split: if_splits)
          then have "\<forall>b \<in> feet bs2. b \<in> feet bs \<or> cells h b = None" using gr(3) by meson
          then show ?thesis using same gr(1) by (simp add: grown_def leaves_def)
        qed
        have chain: "b \<notin> feet bs \<and> cells h b \<noteq> None" if "b \<in> fst ` set ns" for b
        proof
          show "b \<notin> feet bs" using Cons.prems(7) that by (auto simp: y)
          have "b \<in> fst ` set (chain_cells ns)" using that by (force simp: chain_cells_def)
          then show "cells h b \<noteq> None" by (rule holds_dom [OF ax(6)])
        qed
        have cells3: "holds (cells h3) (chain_cells ns)"
        proof (rule holds_cong [OF ax(6)])
          fix b assume "b \<in> fst ` set (chain_cells ns)"
          then have "b \<in> fst ` set ns" by (force simp: chain_cells_def)
          then show "cells h3 b = cells h b" using chain [of b] same [of b] by blast
        qed
        have "wp R self (foreach_loop env n' (next_node x) (?f bs2) k) h3 Q"
        proof (rule Cons.IH [OF h3(1) g3 cells3 ax(5,7)])
          show "length ns < n'" using Cons.prems(6) n by simp
          show "fst ` set ns \<inter> feet bs2 = {}"
          proof (rule ccontr)
            assume "fst ` set ns \<inter> feet bs2 \<noteq> {}"
            then obtain b where b: "b \<in> fst ` set ns" "b \<in> feet bs2" by blast
            have "b \<in> feet bs \<or> cells h b = None" by (rule grownD [OF g13 b(2)])
            then show False using chain [OF b(1)] by argo
          qed
          show "\<forall>k \<in> fst ` set (chain_pairs ns). ht_map_of c bs2 k = None"
          proof
            fix k assume k: "k \<in> fst ` set (chain_pairs ns)"
            then have "map_of (node_pairs x) k = None" using keys(1) by (auto simp: map_of_eq_None_iff)
            moreover have "ht_map_of c bs k = None" using bspec [OF Cons.prems(11), of k] k by (simp add: y image_Un)
            ultimately show "ht_map_of c bs2 k = None" by (simp add: h2(3) map_add_def)
          qed
          fix h4 bs4
          assume h4: "ok h4" "growing c (cells h4) start bs4 (t + length (node_pairs x) + length (chain_pairs ns))"
            "ht_map_of c bs4 = ht_map_of c bs2 ++ map_of (chain_pairs ns)" "grown c start (cells h3) bs2 (cells h4) bs4"
            "\<And>b. allocs h3 b \<noteq> None \<Longrightarrow> allocs h4 b = allocs h3 b"
          show "wp R self k h4 Q"
          proof (rule Cons.prems(12) [OF h4(1)])
            show "growing c (cells h4) start bs4 (t + length (chain_pairs (y # ns)))" using h4(2) by (simp add: y add.assoc)
            show "ht_map_of c bs4 = ht_map_of c bs ++ map_of (chain_pairs (y # ns))"
              unfolding h4(3) h2(3) y chain_simps by (rule map_add_split [OF keys(1)])
            show "grown c start (cells h) bs (cells h4) bs4" by (rule grown_trans [OF g13 h4(4)])
            show "allocs h4 b = allocs h b" if "allocs h b \<noteq> None" for b
            proof -
              have "b \<noteq> q" using that q(2) by auto
              then show ?thesis using that h2(5) [of b] h4(5) [of b] by (simp add: h1(3) h3(3))
            qed
          qed
        qed (use Cons.prems(8,9) keys(3) in \<open>simp_all add: y\<close>)
        then show "wp R self (foreach_loop env n' (next_node x) (?f bs) k) h3 Q" by (simp add: gr(1))
      qed
    qed (use Cons.prems(8,9,11) keys(2) in \<open>simp_all add: y\<close>)
    then show "wp R self (if \<not> node_ok x then Undefined else call_each (?f bs) (node_pairs x)
        (Deallocate Node_t 1 q (foreach_loop env n' (next_node x) (?f bs) k))) h1 Q"
      using ax(4) by simp
  qed
  then show ?case using ax(2,3) by (simp add: n)
qed

end

text \<open>The pairs of buckets \<open>i\<close> to \<open>i + n\<close>.\<close>

definition pairs_from :: "bucket list \<Rightarrow> nat \<Rightarrow> nat \<Rightarrow> (key \<times> val) list" where
  "pairs_from bs i n = concat (map (\<lambda>j. chain_pairs (snd (bs ! j))) [i..<i + n])"

lemma pairs_from_simps [simp]:
  "pairs_from bs i 0 = []" "pairs_from bs i (Suc n) = chain_pairs (snd (bs ! i)) @ pairs_from bs (Suc i) n"
  by (simp_all add: pairs_from_def upt_conv_Cons del: upt_Suc)

context ls_pool
begin

lemma wp_readd_all:
  assumes "ok h" "ht_env c = env" "ptr_id start = self" "ptr_id q = self" "growing c (cells h) start nbs t"
    "slots_ok (cells h) q bs" "sets_ok (null_ptr env) (cells h) (\<lambda>_. LOCKED) bs" "feet bs \<inter> feet nbs = {}" "i + n \<le> length bs"
    "\<forall>b \<in> set bs. length (snd b) < fuel" "t + length (pairs_from bs i n) < 2 ^ 31" "t + length (pairs_from bs i n) \<le> fuel"
    "distinct (map fst (pairs_from bs i n))" "\<forall>k \<in> fst ` set (pairs_from bs i n). ht_map_of c nbs k = None"
    and k: "\<And>h' nbs'. ok h' \<Longrightarrow> growing c (cells h') start nbs' (t + length (pairs_from bs i n)) \<Longrightarrow>
      ht_map_of c nbs' = ht_map_of c nbs ++ map_of (pairs_from bs i n) \<Longrightarrow> grown c start (cells h) nbs (cells h') nbs' \<Longrightarrow>
      (\<And>b. allocs h b \<noteq> None \<Longrightarrow> allocs h' b = allocs h b) \<Longrightarrow> wp R self k h' Q"
  shows "wp R self (readd_all c fuel \<lparr>array_count = length nbs, bucket_start = start\<rparr> q i n k) h Q"
  using assms(1,5-9,11-14) k
proof (induction n arbitrary: h nbs t i)
  case 0
  then show ?case by (simp add: grown_refl)
next
  case (Suc n)
  let ?f = "\<lambda>nbs. \<lparr>array_count = length (nbs :: bucket list), bucket_start = start\<rparr>"
  let ?ns = "snd (bs ! i)" and ?s = "fst (bs ! i)" and ?ps = "pairs_from bs (Suc i) n"
  have i: "i < length bs" using Suc.prems(6) by simp
  have rep: "ls_rep (null_ptr env) (cells h) ?s ?ns LOCKED" using Suc.prems(4) i by (simp add: sets_ok_def)
  note chain = ls_repD [OF rep]
  have sub: "fst ` set ?ns \<subseteq> feet bs" using nth_mem [OF i] by (force simp: foot_def)
  have keys: "fst ` set (chain_pairs ?ns) \<inter> fst ` set ?ps = {}" "distinct (map fst (chain_pairs ?ns))" "distinct (map fst ?ps)"
    using Suc.prems(9) by simp_all
  have "wp R self (load_set (indexAt q i) (\<lambda>set. ls_foreach env fuel set (readd c fuel (?f nbs)) (
      readd_all c fuel (?f nbs) q (Suc i) n k))) h Q"
    unfolding ls_foreach_def
  proof (rule wp_load_set)
    show "ptr_id (indexAt q i) = self" using assms(4) by (simp add: indexAt_def)
    show "cells h (indexAt q i) = Some (HSet ?s)" using Suc.prems(3) i by (simp add: slots_ok_def)
    show "wp R self (foreach_loop env fuel (ls_first ?s) (readd c fuel (?f nbs)) (readd_all c fuel (?f nbs) q (Suc i) n k)) h Q"
    proof (rule wp_readd_chain [OF Suc.prems(1) assms(2,3) Suc.prems(2) chain(2-4)])
      show "length ?ns < fuel" using assms(10) nth_mem [OF i] by blast
      show "fst ` set ?ns \<inter> feet nbs = {}" using Suc.prems(5) sub by blast
      show "t + length (chain_pairs ?ns) < 2 ^ 31" "t + length (chain_pairs ?ns) \<le> fuel" using Suc.prems(7,8) by simp_all
      show "distinct (map fst (chain_pairs ?ns))" by (fact keys)
      show "\<forall>k \<in> fst ` set (chain_pairs ?ns). ht_map_of c nbs k = None" using Suc.prems(10) by (simp add: image_Un ball_Un)
      fix h1 nbs1
      assume h1: "ok h1" "growing c (cells h1) start nbs1 (t + length (chain_pairs ?ns))"
        "ht_map_of c nbs1 = ht_map_of c nbs ++ map_of (chain_pairs ?ns)" "grown c start (cells h) nbs (cells h1) nbs1"
        "\<And>b. allocs h b \<noteq> None \<Longrightarrow> allocs h1 b = allocs h b"
      have len: "length nbs1 = length nbs" and kp: "leaves (feet nbs) (cells h) (cells h1)" using h1(4) by (simp_all add: grown_def)
      have live: "\<exists>v. cells h b = Some (HLock v) \<or> (\<exists>x. cells h b = Some (HNode x))" if "b \<in> feet nbs" for b
        using sets_ok_live [of "null_ptr (ht_env c)" "cells h" "\<lambda>_. UNLOCKED" nbs b] Suc.prems(2) that by (auto simp: growing_def)
      have sl: "slots_ok (cells h1) q bs"
        unfolding slots_ok_def
      proof (intro allI impI)
        fix j assume "j < length bs"
        then have sj: "cells h (indexAt q j) = Some (HSet (fst (bs ! j)))" using Suc.prems(3) by (simp add: slots_ok_def)
        then have "indexAt q j \<notin> feet nbs" using live [of "indexAt q j"] by auto
        then show "cells h1 (indexAt q j) = Some (HSet (fst (bs ! j)))" using leavesD [OF kp, of "indexAt q j"] sj by simp
      qed
      have st: "sets_ok (null_ptr env) (cells h1) (\<lambda>_. LOCKED) bs"
        by (rule sets_ok_keep [OF Suc.prems(4) kp]) (use Suc.prems(5) in \<open>simp add: Int_commute\<close>)
      have dis: "feet bs \<inter> feet nbs1 = {}"
      proof (rule ccontr)
        assume "feet bs \<inter> feet nbs1 \<noteq> {}"
        then obtain b where b: "b \<in> feet bs" "b \<in> feet nbs1" by blast
        have "cells h b \<noteq> None" using sets_ok_live [OF Suc.prems(4) b(1)] by auto
        then have "b \<in> feet nbs" using grownD [OF h1(4) b(2)] by argo
        then show False using b(1) Suc.prems(5) by blast
      qed
      have "wp R self (readd_all c fuel (?f nbs1) q (Suc i) n k) h1 Q"
      proof (rule Suc.IH [OF h1(1,2) sl st dis])
        show "\<forall>k \<in> fst ` set ?ps. ht_map_of c nbs1 k = None"
        proof
          fix k assume k: "k \<in> fst ` set ?ps"
          have "k \<notin> fst ` set (chain_pairs ?ns)" using keys(1) k by blast
          then have "map_of (chain_pairs ?ns) k = None" by (rule map_of_eq_None_iff [THEN iffD2])
          moreover have "ht_map_of c nbs k = None" using bspec [OF Suc.prems(10), of k] k by (simp add: image_Un)
          ultimately show "ht_map_of c nbs1 k = None" by (simp add: h1(3) map_add_def)
        qed
        fix h2 nbs2
        assume h2: "ok h2" "growing c (cells h2) start nbs2 (t + length (chain_pairs ?ns) + length ?ps)"
          "ht_map_of c nbs2 = ht_map_of c nbs1 ++ map_of ?ps" "grown c start (cells h1) nbs1 (cells h2) nbs2"
          "\<And>b. allocs h1 b \<noteq> None \<Longrightarrow> allocs h2 b = allocs h1 b"
        show "wp R self k h2 Q"
        proof (rule Suc.prems(11) [OF h2(1)])
          show "growing c (cells h2) start nbs2 (t + length (pairs_from bs i (Suc n)))" using h2(2) by (simp add: add.assoc)
          show "ht_map_of c nbs2 = ht_map_of c nbs ++ map_of (pairs_from bs i (Suc n))"
            unfolding h2(3) h1(3) pairs_from_simps by (rule map_add_split [OF keys(1)])
          show "grown c start (cells h) nbs (cells h2) nbs2" by (rule grown_trans [OF h1(4) h2(4)])
          show "allocs h2 b = allocs h b" if "allocs h b \<noteq> None" for b using h1(5) [OF that] h2(5) [of b] that by simp
        qed
      qed (use Suc.prems(6-8) keys(3) in simp_all)
      then show "wp R self (readd_all c fuel (?f nbs) q (Suc i) n k) h1 Q" by (simp add: len)
    qed
  qed
  then show ?case by (simp add: assms(2))
qed

end

section \<open>The whole table\<close>

lemma pairs_from_filed:
  assumes "filed c bs" "i + n \<le> length bs"
  shows "distinct (map fst (pairs_from bs i n))"
    "k \<in> fst ` set (pairs_from bs i n) \<Longrightarrow> i \<le> keyhash c k (length bs) \<and> keyhash c k (length bs) < i + n"
    "map_of (pairs_from bs i n) k = (if i \<le> keyhash c k (length bs) \<and> keyhash c k (length bs) < i + n then ht_map_of c bs k else None)"
proof -
  have "distinct (map fst (pairs_from bs i n)) \<and>
      (\<forall>k \<in> fst ` set (pairs_from bs i n). i \<le> keyhash c k (length bs) \<and> keyhash c k (length bs) < i + n) \<and>
      (\<forall>k. i \<le> keyhash c k (length bs) \<and> keyhash c k (length bs) < i + n \<longrightarrow> map_of (pairs_from bs i n) k = ht_map_of c bs k)"
    using assms(2)
  proof (induction n arbitrary: i)
    case (Suc n)
    let ?x = "chain_pairs (snd (bs ! i))"
    have b: "distinct (map fst ?x)" "\<forall>k \<in> fst ` set ?x. keyhash c k (length bs) = i"
      using assms(1) Suc.prems by (simp_all add: filed_def)
    have ih: "distinct (map fst (pairs_from bs (Suc i) n))"
      "\<forall>k \<in> fst ` set (pairs_from bs (Suc i) n). Suc i \<le> keyhash c k (length bs) \<and> keyhash c k (length bs) < Suc i + n"
      "\<forall>k. Suc i \<le> keyhash c k (length bs) \<and> keyhash c k (length bs) < Suc i + n \<longrightarrow>
        map_of (pairs_from bs (Suc i) n) k = ht_map_of c bs k"
      using Suc.IH [of "Suc i"] Suc.prems by simp_all
    have dis: "fst ` set ?x \<inter> fst ` set (pairs_from bs (Suc i) n) = {}" using b(2) ih(2) by fastforce
    have "map_of (?x @ pairs_from bs (Suc i) n) k = ht_map_of c bs k"
      if k: "i \<le> keyhash c k (length bs)" "keyhash c k (length bs) < i + Suc n" for k
    proof (cases "keyhash c k (length bs) = i")
      case True
      then have "k \<notin> fst ` set (pairs_from bs (Suc i) n)" using ih(2) by fastforce
      then have "map_of (pairs_from bs (Suc i) n) k = None" by (rule map_of_eq_None_iff [THEN iffD2])
      then show ?thesis using True by (simp add: ht_map_of_def map_add_def split: option.splits)
    next
      case False
      then have "k \<notin> fst ` set ?x" using b(2) by blast
      then have "map_of ?x k = None" by (rule map_of_eq_None_iff [THEN iffD2])
      moreover have "map_of (pairs_from bs (Suc i) n) k = ht_map_of c bs k" using ih(3) k False by simp
      ultimately show ?thesis by (simp add: map_add_def)
    qed
    then show ?case using b ih dis by (auto simp: image_Un ball_Un)
  qed auto
  note P = this
  show "distinct (map fst (pairs_from bs i n))" using P by blast
  show "k \<in> fst ` set (pairs_from bs i n) \<Longrightarrow> i \<le> keyhash c k (length bs) \<and> keyhash c k (length bs) < i + n" using P by blast
  then have "map_of (pairs_from bs i n) k = None" if "\<not> (i \<le> keyhash c k (length bs) \<and> keyhash c k (length bs) < i + n)"
    using that by (auto simp: map_of_eq_None_iff)
  then show "map_of (pairs_from bs i n) k = (if i \<le> keyhash c k (length bs) \<and> keyhash c k (length bs) < i + n then ht_map_of c bs k else None)"
    using P by simp
qed

lemma table_pairs:
  assumes "table c m start bs" "filed c bs"
  shows "map_of (pairs_from bs 0 (length bs)) = ht_map_of c bs"
proof
  fix k
  have "keyhash c k (length bs) < length bs" using assms(1) keyhash_less by (simp add: table_def)
  then show "map_of (pairs_from bs 0 (length bs)) k = ht_map_of c bs k"
    using pairs_from_filed(3) [OF assms(2), of 0 "length bs" k] by simp
qed

lemma pairs_from_length:
  "(\<Sum>j \<leftarrow> [i..<i + n]. int (length (chain_pairs (snd (bs ! j))))) = int (length (pairs_from bs i n))"
proof (induction n arbitrary: i)
  case (Suc n)
  have "[i..<i + Suc n] = i # [Suc i..<Suc i + n]" by (simp add: upt_conv_Cons del: upt_Suc)
  then show ?case using Suc.IH [of "Suc i"] by (simp del: upt_Suc)
qed simp

text \<open>What \<open>try_rehash\<close> leaves behind, for a table with \<open>t\<close> pairs.\<close>

definition rehashed :: "Hashtable \<Rightarrow> bucket list \<Rightarrow> nat \<Rightarrow> ('p, ht_cell) heap \<Rightarrow> ('p, ht_cell) heap \<Rightarrow> bool" where
  "rehashed c bs t h h' \<longleftrightarrow> (\<exists>start' bs'. table c (cells h') start' bs' \<and> filed c bs' \<and> ht_map_of c bs' = ht_map_of c bs \<and>
     leaves (insert (ht_root c) (feet bs)) (cells h) (cells h') \<and>
     (if t < length bs * 10 then bs' = bs
      else length bs' = length bs * 2 \<and> (\<forall>b \<in> set bs'. packed (snd b)) \<and>
        (\<forall>b \<in> set bs. cells h' (ls_lock (fst b)) = Some (HLock DELETED))))"

context ls_pool
begin

lemma wp_read_sets:
  assumes "ok h" "slots_ok (cells h) start bs"
    and k: "\<And>q h'. ok h' \<Longrightarrow> ptr_id q = self \<Longrightarrow> slots_ok (cells h') q bs \<Longrightarrow> leaves {} (cells h) (cells h') \<Longrightarrow>
      (\<And>b. b \<in> indexAt q ` {..<length bs} \<Longrightarrow> cells h b = None) \<Longrightarrow> allocs h q = None \<Longrightarrow>
      allocs h' = (allocs h)(q \<mapsto> map (indexAt q) [0..<length bs]) \<Longrightarrow> wp R self (k q) h' Q"
  shows "wp R self (Read LinkedKV_t (length bs) start k) h Q"
proof -
  have blk: "block LinkedKV_t n p = map (indexAt p) [0..<n]" for n p by (simp add: block_def indexAt_def fun_eq_iff)
  let ?cs = "map (\<lambda>b. HSet (fst b)) bs"
  have cs: "map (cells h) (block LinkedKV_t (length bs) start) = map Some ?cs"
    by (rule nth_equalityI) (use assms(2) in \<open>simp_all add: blk slots_ok_def\<close>)
  show ?thesis
  proof (rule wp_Read [OF assms(1) _ cs], simp)
    fix q h'
    assume h': "ok h'" "ptr_id q = self" "allocated h h' q (block LinkedKV_t (length bs) q) ?cs"
    let ?as = "block LinkedKV_t (length bs) q"
    have free: "\<And>b. b \<in> set ?as \<Longrightarrow> cells h b = None" and cells: "cells h' = (cells h)(?as [\<mapsto>] ?cs)"
      and al: "allocs h q = None" "allocs h' = (allocs h)(q \<mapsto> ?as)"
      using h'(3) by (auto simp: allocated_def)
    have d: "distinct ?as" by (rule distinct_block) simp
    have "slots_ok (cells h') q bs"
      unfolding slots_ok_def
    proof (intro allI impI)
      fix i assume i: "i < length bs"
      show "cells h' (indexAt q i) = Some (HSet (fst (bs ! i)))"
        using map_upds_nth [OF d, of ?cs i "cells h"] i by (simp add: cells blk)
    qed
    moreover have "leaves {} (cells h) (cells h')"
      using free unfolding cells leaves_def by (metis map_upds_apply_nontin)
    ultimately show "wp R self (k q) h' Q"
      using k [OF h'(1,2)] free al by (simp add: blk atLeast0LessThan [symmetric])
  qed
qed

text \<open>The first half: the old buckets are locked, and the table is a new, empty one.\<close>

lemma wp_rehash_publish:
  assumes "ok h" "ht_env c = env" "ptr_id (ht_root c) = self" "ptr_id q = self" "table c (cells h) start0 bs"
    "slots_ok (cells h) q bs" "length bs * 2 < 2 ^ 31"
    and k: "\<And>h' start nbs. ok h' \<Longrightarrow> table c (cells h') start nbs \<Longrightarrow> length nbs = length bs * 2 \<Longrightarrow> all_new nbs \<Longrightarrow>
      sets_ok (null_ptr env) (cells h') (\<lambda>_. LOCKED) bs \<Longrightarrow> ptr_id start = self \<Longrightarrow>
      leaves (insert (ht_root c) (feet bs)) (cells h) (cells h') \<Longrightarrow>
      (\<And>b. b \<in> feet nbs \<or> b \<in> indexAt start ` {..<length nbs} \<Longrightarrow> cells h b = None) \<Longrightarrow>
      (\<And>b. allocs h b \<noteq> None \<Longrightarrow> allocs h' b = allocs h b) \<Longrightarrow>
      wp R self (k \<lparr>array_count = length nbs, bucket_start = start\<rparr>) h' Q"
  shows "wp R self (rehash_publish c (Suc fuel) \<lparr>array_count = length bs, bucket_start = start0\<rparr> q k) h Q"
proof -
  let ?n = "length bs * 2"
  let ?rest = "if 2 ^ 31 \<le> ?n then Undefined else Allocate LinkedKV_t ?n (\<lambda>start. init_sets c start 0 ?n (
     Store (ht_root c) (HArray \<lparr>array_count = ?n, bucket_start = start\<rparr>) (k \<lparr>array_count = ?n, bucket_start = start\<rparr>)))"
  have t: "0 < length bs" "sets_ok (null_ptr env) (cells h) (\<lambda>_. UNLOCKED) bs"
    "cells h (ht_root c) = Some (HArray \<lparr>array_count = length bs, bucket_start = start0\<rparr>)"
    using assms(2,5) by (simp_all add: table_def)
  have "wp R self (freeze_all (Suc fuel) q 0 (length bs) ?rest) h Q"
  proof (rule wp_lock_loop [OF assms(1,4,6), where u = UNLOCKED and v = LOCKED and prog = "freeze (Suc fuel)"
      and loop = "freeze_all (Suc fuel) q"], goal_cases)
    case (5 h s k)
    then show ?case by (intro wp_freeze_one)
  next
    case (6 h1)
    have root1: "cells h1 (ht_root c) \<noteq> None"
      using leavesD [OF 6(3), of "ht_root c"] t(3) sets_ok_live [OF t(2), of "ht_root c"] by auto
    have "wp R self (Allocate LinkedKV_t ?n (\<lambda>start. init_sets c start 0 ?n (
        Store (ht_root c) (HArray \<lparr>array_count = ?n, bucket_start = start\<rparr>) (k \<lparr>array_count = ?n, bucket_start = start\<rparr>)))) h1 Q"
    proof (rule wp_new_array [OF 6(1) assms(2)])
      fix h2 start nbs
      assume h2: "ok h2" "length nbs = ?n" "slots_ok (cells h2) start nbs" "sets_ok (null_ptr env) (cells h2) (\<lambda>_. UNLOCKED) nbs"
        "all_new nbs" "leaves {} (cells h1) (cells h2)" "ptr_id start = self"
        "\<And>b. b \<in> feet nbs \<or> b \<in> indexAt start ` {..<?n} \<Longrightarrow> cells h1 b = None"
        "\<And>b. allocs h1 b \<noteq> None \<Longrightarrow> allocs h2 b = allocs h1 b"
      let ?A = "\<lparr>array_count = ?n, bucket_start = start\<rparr>"
      have root2: "cells h2 (ht_root c) \<noteq> None" using leavesD [OF h2(6), of "ht_root c"] root1 by simp
      show "wp R self (Store (ht_root c) (HArray ?A) (k ?A)) h2 Q"
      proof (rule wp_Store_ok [OF h2(1) assms(3) root2])
        fix h3 assume h3: "ok h3" "cells h3 = (cells h2)(ht_root c \<mapsto> HArray ?A)" "allocs h3 = allocs h2"
        have kp: "leaves {ht_root c} (cells h2) (cells h3)" by (auto simp: leaves_def h3(2))
        have out: "ht_root c \<notin> feet nbs" "ht_root c \<notin> indexAt start ` {..<?n}"
          using h2(8) [of "ht_root c"] root1 by blast+
        have new: "sets_ok (null_ptr env) (cells h3) (\<lambda>_. UNLOCKED) nbs"
          by (rule sets_ok_keep [OF h2(4) kp]) (use out(1) in simp)
        have slots: "slots_ok (cells h3) start nbs" using h2(2,3) out(2) by (force simp: slots_ok_def h3(2))
        have tab: "table c (cells h3) start nbs"
          using t(1) assms(2,7) h2(2) new slots by (simp add: table_def h3(2))
        have ro: "ht_root c \<notin> feet bs" using sets_ok_live [OF t(2), of "ht_root c"] t(3) by auto
        have kp13: "leaves {ht_root c} (cells h1) (cells h3)" by (rule leaves_trans [OF leaves_mono [OF h2(6)] kp]) simp_all
        have old: "sets_ok (null_ptr env) (cells h3) (\<lambda>_. LOCKED) bs"
          by (rule sets_ok_keep [OF 6(2) kp13]) (use ro in simp)
        have kpall: "leaves (insert (ht_root c) (feet bs)) (cells h) (cells h3)"
          by (rule leaves_trans [OF leaves_mono [OF 6(3) subset_insertI] kp13]) simp
        have fresh: "cells h b = None" if "b \<in> feet nbs \<or> b \<in> indexAt start ` {..<length nbs}" for b
        proof -
          have "cells h1 b = None" using h2(8) [of b] that h2(2) by simp
          then show ?thesis using leavesD [OF 6(3), of b] sets_ok_live [OF 6(2), of b] by fastforce
        qed
        have "wp R self (k \<lparr>array_count = length nbs, bucket_start = start\<rparr>) h3 Q"
          by (rule k [OF h3(1) tab h2(2,5) old h2(7) kpall fresh]) (use 6(4) h2(9) h3(3) in auto)
        then show "wp R self (k ?A) h3 Q" by (simp add: h2(2))
      qed
    qed
    then show ?case using assms(7) by simp
  qed (use t(2) in simp_all)
  then show ?thesis by (simp only: rehash_publish_def HashArray.simps)
qed

text \<open>The second half: the pairs move to the new table, the old buckets are retired, the copies freed.\<close>

lemma wp_rehash_copy:
  assumes "ok h" "ht_env c = env" "ptr_id q = self" "ptr_id start = self" "table c (cells h) start nbs" "all_new nbs"
    "sets_ok (null_ptr env) (cells h) (\<lambda>_. LOCKED) bs" "feet bs \<inter> feet nbs = {}" "slots_ok (cells h) q bs" "filed c bs"
    "\<forall>b \<in> set bs. length (snd b) < fuel" "length (pairs_from bs 0 (length bs)) < 2 ^ 31" "length (pairs_from bs 0 (length bs)) \<le> fuel"
    and al: "allocs h ds = Some [ds]" "allocs h q = Some (map (indexAt q) [0..<length bs])" "ds \<noteq> q" "cells h ds \<noteq> None"
    and apart: "insert ds (indexAt q ` {..<length bs}) \<inter> (insert (ht_root c) (feet nbs \<union> feet bs \<union> indexAt start ` {..<length nbs})) = {}"
    and k: "\<And>h' nbs'. ok h' \<Longrightarrow> table c (cells h') start nbs' \<Longrightarrow> filed c nbs' \<Longrightarrow> length nbs' = length nbs \<Longrightarrow>
      (\<forall>b \<in> set nbs'. packed (snd b)) \<Longrightarrow> ht_map_of c nbs' = map_of (pairs_from bs 0 (length bs)) \<Longrightarrow>
      sets_ok (null_ptr env) (cells h') (\<lambda>_. DELETED) bs \<Longrightarrow>
      leaves (feet nbs \<union> feet bs \<union> insert ds (indexAt q ` {..<length bs})) (cells h) (cells h') \<Longrightarrow> wp R self k h' Q"
  shows "wp R self (rehash_copy c fuel \<lparr>array_count = length bs, bucket_start = s0\<rparr> ds q
    \<lparr>array_count = length nbs, bucket_start = start\<rparr> k) h Q"
proof -
  let ?ps = "pairs_from bs 0 (length bs)" and ?D = "insert ds (indexAt q ` {..<length bs})"
  let ?A = "\<lparr>array_count = length nbs, bucket_start = start\<rparr>"
  have t: "0 < length nbs" "length nbs < 2 ^ 31" "cells h (ht_root c) = Some (HArray ?A)" "slots_ok (cells h) start nbs"
    "sets_ok (null_ptr env) (cells h) (\<lambda>_. UNLOCKED) nbs"
    using assms(2,5) by (simp_all add: table_def)
  have grow: "growing c (cells h) start nbs 0"
  proof -
    have "packed (snd b)" if "b \<in> set nbs" for b
      using assms(6) that by (cases "snd b" rule: packed.cases) (auto simp: all_new_def)
    then show ?thesis using t assms(2,6) all_new_filed [OF assms(6)] by (simp add: growing_def all_new_def)
  qed
  have Dlive: "cells h b \<noteq> None" if "b \<in> ?D" for b using that al(4) assms(9) by (auto simp: slots_ok_def)
  have dist: "distinct (map fst ?ps)" by (rule pairs_from_filed(1) [OF assms(10)]) simp
  have empty: "ht_map_of c nbs = Map.empty" by (rule all_new_map [OF assms(6) t(1,2)])
  have "wp R self (readd_all c fuel ?A q 0 (length bs) (melt_all q 0 (length bs) (
      Deallocate HashArray_t 1 ds (Deallocate LinkedKV_t (length bs) q k)))) h Q"
  proof (rule wp_readd_all [OF assms(1,2,4,3) grow assms(9,7,8)], goal_cases)
    case (7 h1 nbs1)
    have g1: "length nbs1 = length nbs" "leaves (feet nbs) (cells h) (cells h1)" using 7(4) by (simp_all add: grown_def)
    have fd: "feet bs \<inter> feet nbs1 = {}" "?D \<inter> feet nbs1 = {}"
    proof -
      have "cells h b \<noteq> None" if "b \<in> feet bs" for b using sets_ok_live [OF assms(7) that] by auto
      then show "feet bs \<inter> feet nbs1 = {}" using grownD [OF 7(4)] assms(8) by blast
      show "?D \<inter> feet nbs1 = {}" using grownD [OF 7(4)] Dlive apart by blast
    qed
    have old1: "sets_ok (null_ptr env) (cells h1) (\<lambda>_. LOCKED) bs"
      by (rule sets_ok_keep [OF assms(7) g1(2)]) (use assms(8) in \<open>simp add: Int_commute\<close>)
    have fixed1: "cells h1 b = cells h b" if "cells h b = Some (HSet y) \<or> cells h b = Some (HArray z)" for b y z
      using leavesD [OF g1(2), of b] sets_ok_live [OF t(5), of b] that by fastforce
    have cp1: "slots_ok (cells h1) q bs" using assms(9) fixed1 by (auto simp: slots_ok_def)
    show ?case
    proof (rule wp_lock_loop [OF 7(1) assms(3) cp1, where u = LOCKED and v = DELETED and prog = melt and loop = "melt_all q"], goal_cases)
      case (5 h s k)
      then show ?case by (intro wp_melt) simp_all
    next
      case (6 h2)
      have fixed2: "cells h2 b = cells h1 b" if "cells h1 b = Some (HSet y) \<or> cells h1 b = Some (HArray z)" for b y z
        using leavesD [OF 6(3), of b] sets_ok_live [OF old1, of b] that by fastforce
      have sl1: "cells h1 (indexAt start j) = Some (HSet (fst (nbs1 ! j)))" if "j < length nbs" for j
        using 7(2) that g1(1) by (simp add: growing_def slots_ok_def)
      have "feet bs \<inter> indexAt start ` {..<length nbs1} = {}"
        using sets_ok_live [OF old1] sl1 g1(1) by fastforce
      then have g2: "growing c (cells h2) start nbs1 (length ?ps)"
        using growing_keep [OF 7(2) 6(3)] fd(1) by simp
      have a2: "allocs h2 ds = Some [ds]" "allocs h2 q = Some (map (indexAt q) [0..<length bs])"
        using 7(5) [of ds] 7(5) [of q] al 6(4) by simp_all
      show ?case
      proof (rule wp_free_one [OF 6(1) a2(1)], rule wp_Deallocate)
        fix h3 assume h3: "ok h3" "cells h3 = (cells h2)(ds := None)" "allocs h3 = (allocs h2)(ds := None)"
        show "ok h3" by (fact h3)
        show "allocs h3 q = Some (map (indexAt q) [0..<length bs])" using a2(2) al(3) by (simp add: h3(3))
        fix h4 assume h4: "ok h4" "cells h4 = cells h3 |` (- set (map (indexAt q) [0..<length bs]))"
        have c4: "cells h4 b = (if b \<in> ?D then None else cells h2 b)" for b
          by (auto simp: h4(2) h3(2) restrict_map_def)
        have kp4: "leaves ?D (cells h2) (cells h4)" by (simp add: leaves_def c4)
        have g4: "growing c (cells h4) start nbs1 (length ?ps)"
          by (rule growing_keep [OF g2 kp4 fd(2)]) (use apart g1(1) in auto)
        have root: "cells h4 (ht_root c) = Some (HArray ?A)"
          using apart fixed1 [of "ht_root c"] fixed2 [of "ht_root c"] t(3) by (simp add: c4)
        have old4: "sets_ok (null_ptr env) (cells h4) (\<lambda>_. DELETED) bs"
          by (rule sets_ok_keep [OF 6(2) kp4]) (use apart in blast)
        show "wp R self k h4 Q"
        proof (rule k [OF h4(1) _ _ g1(1)])
          show "table c (cells h4) start nbs1" using g4 root assms(2) g1(1) by (simp add: table_def growing_def)
          show "filed c nbs1" "\<forall>b \<in> set nbs1. packed (snd b)" using g4 by (simp_all add: growing_def)
          show "ht_map_of c nbs1 = map_of ?ps" using 7(3) empty by simp
          show "sets_ok (null_ptr env) (cells h4) (\<lambda>_. DELETED) bs" by (fact old4)
          show "leaves (feet nbs \<union> feet bs \<union> ?D) (cells h) (cells h4)"
          proof (rule leavesI)
            fix b assume b: "cells h b \<noteq> None" "b \<notin> feet nbs \<union> feet bs \<union> ?D"
            have "cells h1 b = cells h b" by (rule leavesD [OF g1(2) b(1)]) (use b(2) in blast)
            moreover have "cells h2 b = cells h1 b" by (rule leavesD [OF 6(3)]) (use b calculation in auto)
            ultimately show "cells h4 b = cells h b" using b(2) by (simp add: c4)
          qed
        qed
      qed
    qed (use old1 in simp_all)
  qed (use assms(11-13) dist empty in simp_all)
  then show ?thesis by (simp add: rehash_copy_def)
qed

lemma try_rehash_rep:
  assumes "ok h" "ht_env c = env" "ptr_id (ht_root c) = self" "ht_self c = self" "table c (cells h) start bs" "filed c bs"
    "length bs * 2 < 2 ^ 31" "\<forall>b \<in> set bs. length (snd b) < Suc fuel" "length (pairs_from bs 0 (length bs)) < 2 ^ 31"
    "length (pairs_from bs 0 (length bs)) \<le> Suc fuel"
  shows "wp R self (try_rehash c (Suc fuel) (Return ())) h
    (\<lambda>r h'. ok h' \<and> rehashed c bs (length (pairs_from bs 0 (length bs))) h h')"
  (is "wp R self _ h ?Q")
proof -
  let ?n = "length bs" let ?A = "\<lparr>array_count = ?n, bucket_start = start\<rparr>" and ?t = "length (pairs_from bs 0 (length bs))"
  have t: "0 < ?n" "?n < 2 ^ 31" "cells h (ht_root c) = Some (HArray ?A)" "slots_ok (cells h) start bs"
    "sets_ok (null_ptr env) (cells h) (\<lambda>_. UNLOCKED) bs"
    using assms(2,5) by (simp_all add: table_def)
  let ?body = "\<lambda>ds buckets. \<lambda>total. if total < int (?n * 10) then Deallocate HashArray_t 1 ds (Deallocate LinkedKV_t ?n buckets (Return ()))
    else rehash_publish c (Suc fuel) ?A buckets (\<lambda>a. rehash_copy c (Suc fuel) ?A ds buckets a (Return ()))"
  have "wp R self (Read HashArray_t 1 (ht_root c) (\<lambda>ds. load_array ds (\<lambda>hashtable.
      if 2 ^ 31 \<le> array_count hashtable then Undefined else
      Read LinkedKV_t (array_count hashtable) (bucket_start hashtable) (\<lambda>buckets.
      sum_lengths buckets 0 (array_count hashtable) 0 (\<lambda>total_elements.
      if total_elements < int (array_count hashtable * 10) then
        Deallocate HashArray_t 1 ds (Deallocate LinkedKV_t (array_count hashtable) buckets (Return ()))
      else rehash_publish c (Suc fuel) hashtable buckets (\<lambda>a. rehash_copy c (Suc fuel) hashtable ds buckets a (Return ()))))))) h ?Q"
  proof (rule wp_read_one [OF assms(1) t(3)], simp, simp)
    fix ds h1
    assume h1: "ok h1" "ptr_id ds = self" "cells h ds = None" "allocs h ds = None" "cells h1 = (cells h)(ds \<mapsto> HArray ?A)"
      "allocs h1 = (allocs h)(ds \<mapsto> [ds])"
    have kp1: "leaves {} (cells h) (cells h1)" using h1(3) by (auto simp: leaves_def h1(5))
    have sl1: "slots_ok (cells h1) start bs" using t(4) h1(3) by (auto simp: slots_ok_def h1(5))
    have rd: "wp R self (Read LinkedKV_t ?n start (\<lambda>buckets. sum_lengths buckets 0 ?n 0 (?body ds buckets))) h1 ?Q"
    proof (rule wp_read_sets [OF h1(1) sl1])
      fix q h2
      assume h2: "ok h2" "ptr_id q = self" "slots_ok (cells h2) q bs" "leaves {} (cells h1) (cells h2)"
        "\<And>b. b \<in> indexAt q ` {..<?n} \<Longrightarrow> cells h1 b = None" "allocs h1 q = None"
        "allocs h2 = (allocs h1)(q \<mapsto> map (indexAt q) [0..<?n])"
      let ?D = "insert ds (indexAt q ` {..<?n})"
      have kp2: "leaves {} (cells h) (cells h2)" by (rule leaves_trans [OF kp1 h2(4)]) simp
      have Dfree: "cells h b = None" if "b \<in> ?D" for b
        using that h1(3) h2(5) [of b] by (auto simp: h1(5) split: if_splits)
      have ds2: "cells h2 ds = Some (HArray ?A)" using leavesD [OF h2(4), of ds] by (simp add: h1(5))
      have al: "allocs h2 ds = Some [ds]" "allocs h2 q = Some (map (indexAt q) [0..<?n])" "ds \<noteq> q"
        using h2(6) by (auto simp: h2(7) h1(6))
      have s2: "sets_ok (null_ptr env) (cells h2) (\<lambda>_. UNLOCKED) bs" by (rule sets_ok_keep [OF t(5) kp2]) simp
      have tab2: "table c (cells h2) start bs"
      proof -
        have "slots_ok (cells h2) start bs" using t(4) leavesD [OF kp2] by (simp add: slots_ok_def)
        then show ?thesis using assms(2) t(1-3) s2 leavesD [OF kp2, of "ht_root c"] by (simp add: table_def)
      qed
      show "wp R self (sum_lengths q 0 ?n 0 (?body ds q)) h2 ?Q"
      proof (rule wp_sum_lengths [OF h2(1,2,3) s2], simp)
        fix h3 assume h3: "ok h3" "cells h3 = cells h2" "allocs h3 = allocs h2"
        have "wp R self (?body ds q (int ?t)) h3 ?Q"
        proof (cases "?t < ?n * 10")
          case True
          have "wp R self (Deallocate HashArray_t 1 ds (Deallocate LinkedKV_t ?n q (Return ()))) h3 ?Q"
          proof (rule wp_free_one [OF h3(1)], simp add: h3(3) al(1), rule wp_Deallocate)
            fix h4 assume h4: "ok h4" "cells h4 = (cells h3)(ds := None)" "allocs h4 = (allocs h3)(ds := None)"
            show "ok h4" by (fact h4)
            show "allocs h4 q = Some (map (indexAt q) [0..<?n])" using al(2,3) by (simp add: h4(3) h3(3))
            fix h5 assume h5: "ok h5" "cells h5 = cells h4 |` (- set (map (indexAt q) [0..<?n]))"
            have c5: "cells h5 b = (if b \<in> ?D then None else cells h2 b)" for b
              by (auto simp: h5(2) h4(2) h3(2) restrict_map_def)
            have kp5: "leaves {} (cells h) (cells h5)"
            proof (rule leavesI)
              fix b assume b: "cells h b \<noteq> None"
              then have "b \<notin> ?D" using Dfree [of b] by argo
              then show "cells h5 b = cells h b" using leavesD [OF kp2 b] by (simp add: c5)
            qed
            have "sets_ok (null_ptr env) (cells h5) (\<lambda>_. UNLOCKED) bs" by (rule sets_ok_keep [OF t(5) kp5]) simp
            then have "table c (cells h5) start bs"
              using assms(2) t(1-4) leavesD [OF kp5] by (simp add: table_def slots_ok_def)
            then have "rehashed c bs ?t h h5"
              unfolding rehashed_def using True assms(6) leaves_mono [OF kp5] by (intro exI [of _ start] exI [of _ bs]) simp
            then show "wp R self (Return ()) h5 ?Q" using h5(1) by (intro wp_Return) simp
          qed
          then show ?thesis using True by simp
        next
          case False
          have tab3: "table c (cells h3) start bs" "slots_ok (cells h3) q bs" using tab2 h2(3) by (simp_all add: h3(2))
          have "wp R self (rehash_publish c (Suc fuel) ?A q (\<lambda>a. rehash_copy c (Suc fuel) ?A ds q a (Return ()))) h3 ?Q"
          proof (rule wp_rehash_publish [OF h3(1) assms(2,3) h2(2) tab3 assms(7)])
            fix h4 start' nbs
            assume h4: "ok h4" "table c (cells h4) start' nbs" "length nbs = ?n * 2" "all_new nbs"
              "sets_ok (null_ptr env) (cells h4) (\<lambda>_. LOCKED) bs" "ptr_id start' = self"
              "leaves (insert (ht_root c) (feet bs)) (cells h3) (cells h4)"
              "\<And>b. b \<in> feet nbs \<or> b \<in> indexAt start' ` {..<length nbs} \<Longrightarrow> cells h3 b = None"
              "\<And>b. allocs h3 b \<noteq> None \<Longrightarrow> allocs h4 b = allocs h3 b"
            have Dlive: "cells h3 b \<noteq> None" if "b \<in> ?D" for b using that ds2 h2(3) by (auto simp: h3(2) slots_ok_def)
            have Dout: "b \<notin> insert (ht_root c) (feet bs)" if "b \<in> ?D" for b
              using Dfree [OF that] t(3) sets_ok_live [OF t(5), of b] by auto
            have D4: "cells h4 b = cells h3 b" if "b \<in> ?D" for b
              by (rule leavesD [OF h4(7) Dlive [OF that] Dout [OF that]])
            have bs3: "cells h3 b \<noteq> None" if "b \<in> feet bs" for b using sets_ok_live [OF s2 that] by (auto simp: h3(2))
            have fd: "feet bs \<inter> feet nbs = {}" by (rule disjoint_live [where m = "cells h3"]) (erule bs3, rule h4(8), simp)
            have apart: "?D \<inter> insert (ht_root c) (feet nbs \<union> feet bs \<union> indexAt start' ` {..<length nbs}) = {}"
            proof -
              have "?D \<inter> (feet nbs \<union> indexAt start' ` {..<length nbs}) = {}"
                by (rule disjoint_live [where m = "cells h3"]) (erule Dlive, rule h4(8), simp)
              moreover have "?D \<inter> insert (ht_root c) (feet bs) = {}" by (rule equals0I) (use Dout in blast)
              ultimately show ?thesis by blast
            qed
            show "wp R self (rehash_copy c (Suc fuel) ?A ds q \<lparr>array_count = length nbs, bucket_start = start'\<rparr> (Return ())) h4 ?Q"
            proof (rule wp_rehash_copy [OF h4(1) assms(2) h2(2) h4(6,2,4,5) fd _ assms(6,8,9,10) _ _ al(3) _ apart])
              show "slots_ok (cells h4) q bs" using tab3(2) D4 by (auto simp: slots_ok_def)
              show "allocs h4 ds = Some [ds]" "allocs h4 q = Some (map (indexAt q) [0..<?n])"
                using h4(9) [of ds] h4(9) [of q] al by (simp_all add: h3(3))
              show "cells h4 ds \<noteq> None" using D4 [of ds] Dlive [of ds] by simp
              fix h5 nbs5
              assume h5: "ok h5" "table c (cells h5) start' nbs5" "filed c nbs5" "length nbs5 = length nbs"
                "\<forall>b \<in> set nbs5. packed (snd b)" "ht_map_of c nbs5 = map_of (pairs_from bs 0 ?n)"
                "sets_ok (null_ptr env) (cells h5) (\<lambda>_. DELETED) bs" "leaves (feet nbs \<union> feet bs \<union> ?D) (cells h4) (cells h5)"
              have "leaves (insert (ht_root c) (feet bs)) (cells h) (cells h5)"
              proof (rule leavesI)
                fix b assume b: "cells h b \<noteq> None" "b \<notin> insert (ht_root c) (feet bs)"
                have b3: "cells h3 b = cells h b" using leavesD [OF kp2 b(1)] by (simp add: h3(2))
                have b4: "cells h4 b = cells h3 b" by (rule leavesD [OF h4(7) _ b(2)]) (use b(1) b3 in simp)
                have "b \<notin> ?D" "b \<notin> feet nbs" using b(1) b3 Dfree [of b] h4(8) [of b] by argo+
                then have "cells h5 b = cells h4 b" using b b3 b4 by (intro leavesD [OF h5(8)]) auto
                then show "cells h5 b = cells h b" using b3 b4 by simp
              qed
              moreover have "cells h5 (ls_lock (fst b)) = Some (HLock DELETED)" if "b \<in> set bs" for b
              proof -
                obtain i where i: "i < ?n" "b = bs ! i" using \<open>b \<in> set bs\<close> by (auto simp: in_set_conv_nth)
                then show ?thesis using h5(7) by (simp add: sets_ok_def ls_rep_def holds_Cons)
              qed
              ultimately have "rehashed c bs ?t h h5"
                unfolding rehashed_def
                using False h5(2-6) h4(3) table_pairs [OF assms(5,6)] by (intro exI [of _ start'] exI [of _ nbs5]) simp
              then show "wp R self (Return ()) h5 ?Q" using h5(1) by (intro wp_Return) simp
            qed
          qed
          then show ?thesis using False by simp
        qed
        then show "wp R self (?body ds q (0 + (\<Sum>j \<leftarrow> [0..<0 + ?n]. int (length (chain_pairs (snd (bs ! j))))))) h3 ?Q"
          by (simp only: pairs_from_length) simp
      qed
    qed
    have nl: "(2 ^ 31 \<le> ?n) = False" using t(2) by simp
    show "wp R self (load_array ds (\<lambda>hashtable.
      if 2 ^ 31 \<le> array_count hashtable then Undefined else
      Read LinkedKV_t (array_count hashtable) (bucket_start hashtable) (\<lambda>buckets.
      sum_lengths buckets 0 (array_count hashtable) 0 (\<lambda>total_elements.
      if total_elements < int (array_count hashtable * 10) then
        Deallocate HashArray_t 1 ds (Deallocate LinkedKV_t (array_count hashtable) buckets (Return ()))
      else rehash_publish c (Suc fuel) hashtable buckets (\<lambda>a. rehash_copy c (Suc fuel) hashtable ds buckets a (Return ())))))) h1 ?Q"
      by (rule wp_load_array [OF h1(2), where s = ?A], simp add: h1(5)) (simp only: HashArray.simps nl if_False rd)
  qed
  then show ?thesis by (simp only: try_rehash_def assms(3,4) if_False not_not simp_thms)
qed

end

section \<open>Correctness\<close>

text \<open>C15: \<open>try_rehash\<close>, run undisturbed by the node that holds the root, returns and leaves the map.  Below ten pairs per bucket
  it changes nothing; otherwise the table has twice the buckets, all of them packed again, and
  every old bucket is marked as deleted.\<close>

theorem try_rehash_keeps_map:
  assumes "ls_pool R ok (ht_env c)" "ok h" "table c (cells h) start bs" "filed c bs" "ptr_id (ht_root c) = ht_self c"
    "length bs * 2 < 2 ^ 31" "\<forall>b \<in> set bs. length (snd b) < fuel" "length (pairs_from bs 0 (length bs)) < 2 ^ 31"
    "length (pairs_from bs 0 (length bs)) \<le> fuel"
  shows "\<exists>h'. run R (ht_self c) (try_rehash c fuel (Return ())) h = Finished () h' \<and> ok h' \<and>
    rehashed c bs (length (pairs_from bs 0 (length bs))) h h'"
proof -
  have "bs \<noteq> []" using assms(3) by (simp add: table_def)
  then have "length (snd (hd bs)) < fuel" using assms(7) hd_in_set by blast
  then obtain f where f: "fuel = Suc f" by (cases fuel) auto
  show ?thesis
    using ls_pool.try_rehash_rep [OF assms(1,2) refl assms(5) refl assms(3,4,6), of f] assms(7-9)
    by (auto simp: wp_def f)
qed

text \<open>One bucket with ten pairs in two nodes.\<close>

definition full_node :: Node where
  "full_node = \<lparr>next_node = Remote 1 320, node_length = 7, total_length = 10,
     node_key = [0, 1, 2, 3, 4, 5, 6], node_value = [0, 1, 2, 3, 4, 5, 6]\<rparr>"

definition last_node :: Node where
  "last_node = \<lparr>next_node = Remote 0 0, node_length = 3, total_length = 0,
     node_key = [7, 8, 9, 0, 0, 0, 0], node_value = [7, 8, 9, 0, 0, 0, 0]\<rparr>"

definition full_bucket :: bucket where
  "full_bucket = (\<lparr>ls_lock = Remote 1 128, ls_first = Remote 1 192\<rparr>, [(Remote 1 192, full_node), (Remote 1 320, last_node)])"

definition full_heap :: "(nat, ht_cell) heap" where
  "full_heap = \<lparr>cells = [Remote 1 8 \<mapsto> HArray \<lparr>array_count = 1, bucket_start = Remote 1 64\<rparr>, Remote 1 64 \<mapsto> HSet (fst full_bucket),
      Remote 1 128 \<mapsto> HLock UNLOCKED, Remote 1 192 \<mapsto> HNode full_node, Remote 1 320 \<mapsto> HNode last_node],
    allocs = Map.empty, pool_state = 1024\<rparr>"

lemma sample_pairs:
  "node_pairs full_node = [(0, 0), (1, 1), (2, 2), (3, 3), (4, 4), (5, 5), (6, 6)]"
  "node_pairs last_node = [(7, 7), (8, 8), (9, 9)]" "node_ok full_node" "node_ok last_node"
  by (simp_all add: node_pairs_def full_node_def last_node_def node_ok_def NODE_BUNDLE_SIZE_def)

lemma full_table:
  "bump_ok full_heap" "table (sample_ht (Remote 1 8)) (cells full_heap) (Remote 1 64) [full_bucket]"
  "filed (sample_ht (Remote 1 8)) [full_bucket]" "length (pairs_from [full_bucket] 0 1) = 10"
  "ptr_id (ht_root (sample_ht (Remote 1 8))) = ht_self (sample_ht (Remote 1 8))"
proof -
  have z: "keyhash c k 1 = 0" for c k by (simp add: keyhash_def)
  show "bump_ok full_heap" by (auto simp: bump_ok_def full_heap_def split: if_splits)
  have "ls_rep (Remote 0 0) (cells full_heap) (fst full_bucket) (snd full_bucket) UNLOCKED"
    unfolding ls_rep_def
    by (simp add: full_bucket_def full_heap_def holds_Cons sample_pairs chain_total_def)
      (simp add: full_node_def last_node_def)
  then show "table (sample_ht (Remote 1 8)) (cells full_heap) (Remote 1 64) [full_bucket]"
    by (simp add: table_def slots_ok_def sets_ok_def sample_ht_def bump_env_def indexAt_def full_heap_def)
  show "filed (sample_ht (Remote 1 8)) [full_bucket]" using z by (simp add: filed_def full_bucket_def sample_pairs)
  show "length (pairs_from [full_bucket] 0 1) = 10" by (simp add: full_bucket_def sample_pairs)
  show "ptr_id (ht_root (sample_ht (Remote 1 8))) = ht_self (sample_ht (Remote 1 8))" by (simp add: sample_ht_def)
qed

theorem try_rehash_keeps_map_witness:
  "\<exists>h'. run bump_rome 1 (try_rehash (sample_ht (Remote 1 8)) 10 (Return ())) full_heap = Finished () h' \<and>
    rehashed (sample_ht (Remote 1 8)) [full_bucket] 10 full_heap h'"
proof -
  have self: "ht_self (sample_ht r) = Suc 0" for r by (simp add: sample_ht_def)
  have "length (pairs_from [full_bucket] 0 (length [full_bucket])) = 10" using full_table(4) by simp
  then show ?thesis
    using try_rehash_keeps_map [OF spread.pool full_table(1,2,3,5), of 10] by (auto simp: self full_bucket_def)
qed

text \<open>C20: \<open>try_rehash\<close> is not atomic: when it has published the new array and not yet copied the pairs, \<open>contains\<close> by any node
  answers that the key is absent, for every key, whatever the table held before.\<close>

theorem rehash_publishes_empty:
  assumes "ls_pool R ok (ht_env c)" "ok h" "table c (cells h) start bs" "ptr_id (ht_root c) = ht_self c"
    "ptr_id q = ht_self c" "slots_ok (cells h) q bs" "length bs * 2 < 2 ^ 31" "0 < fuel"
  shows "\<exists>a h'. run R (ht_self c) (rehash_publish c fuel \<lparr>array_count = length bs, bucket_start = start\<rparr> q Return) h = Finished a h' \<and>
    (\<forall>n key. \<exists>h''. run R n (ht_contains c 2 key) h' = Finished (ht_res FALSE_STATE 0) h'')"
proof -
  obtain f where f: "fuel = Suc f" using assms(8) by (cases fuel) auto
  let ?Q = "\<lambda>a h'. ok h' \<and> (\<exists>start' nbs. table c (cells h') start' nbs \<and> all_new nbs)"
  have "wp R (ht_self c) (rehash_publish c (Suc f) \<lparr>array_count = length bs, bucket_start = start\<rparr> q Return) h ?Q"
    by (rule ls_pool.wp_rehash_publish [OF assms(1,2) refl assms(4,5,3,6,7)], rule wp_Return) blast
  then obtain a h' start' nbs where r: "run R (ht_self c) (rehash_publish c fuel \<lparr>array_count = length bs, bucket_start = start\<rparr> q Return) h = Finished a h'"
    "ok h'" "table c (cells h') start' nbs" "all_new nbs"
    unfolding wp_def f by blast
  have len: "0 < length nbs" "length nbs < 2 ^ 31" using r(3) by (simp_all add: table_def)
  have "\<exists>h''. run R n (ht_contains c 2 key) h' = Finished (ht_res FALSE_STATE 0) h''" for n key
  proof -
    obtain s ns where b: "nbs ! keyhash c key (length nbs) = (s, ns)" by fastforce
    have "length ns < 2" using r(4) nth_mem [OF keyhash_less [OF len, of c key]] b by (auto simp: all_new_def)
    from ls_pool.ht_contains_rep [OF assms(1) r(2,3) refl refl b this, of n] show ?thesis
      by (auto simp: wp_def all_new_map [OF r(4) len] spec_contains_def)
  qed
  then show ?thesis using r(1) by blast
qed

theorem rehash_publishes_empty_witness:
  "ht_map_of (sample_ht (Remote 1 8)) [full_bucket] 5 = Some 5 \<and>
    (\<exists>a h' h''. run bump_rome 1 (rehash_publish (sample_ht (Remote 1 8)) 1 \<lparr>array_count = 1, bucket_start = Remote 1 64\<rparr>
      (Remote 1 64) Return) full_heap = Finished a h' \<and>
    run bump_rome 2 (ht_contains (sample_ht (Remote 1 8)) 2 5) h' = Finished (ht_res FALSE_STATE 0) h'')"
proof
  let ?c = "sample_ht (Remote 1 8)"
  show "ht_map_of ?c [full_bucket] 5 = Some 5"
    by (simp add: ht_map_of_def keyhash_def full_bucket_def sample_pairs)
  have self: "ht_self (sample_ht r) = Suc 0" for r by (simp add: sample_ht_def)
  have q: "ptr_id (Remote 1 64) = ht_self ?c" "slots_ok (cells full_heap) (Remote 1 64) [full_bucket]" "length [full_bucket] * 2 < 2 ^ 31"
    "(0 :: nat) < 1"
    using full_table(2) by (simp_all add: self table_def)
  show "\<exists>a h' h''. run bump_rome 1 (rehash_publish ?c 1 \<lparr>array_count = 1, bucket_start = Remote 1 64\<rparr> (Remote 1 64) Return) full_heap =
      Finished a h' \<and> run bump_rome 2 (ht_contains ?c 2 5) h' = Finished (ht_res FALSE_STATE 0) h''"
    using rehash_publishes_empty [OF spread.pool full_table(1,2,5) q] by (simp add: self) blast
qed

end
