(* ===== verification/Hashtable_Print.thy ===== *)
theory Hashtable_Print
  imports Hashtable_Rehash
begin

text \<open>
  \<^verbatim>\<open>Hashtable::print\<close> (\<^verbatim>\<open>structures/hashtable.h\<close>): it logs the number of each bucket and the keys in
  it.  The result of the program is the list of the logged lines.
\<close>

section \<open>The program\<close>

text \<open>What \<^verbatim>\<open>ROME_INFO\<close> is called with.\<close>

datatype log_line = Log_bucket nat | Log_key key

definition ht_info :: "log_line \<Rightarrow> log_line list ht_prog \<Rightarrow> log_line list ht_prog" where
  "ht_info x k = map_prog ((#) x) k"

fun print_sets :: "ls_env \<Rightarrow> nat \<Rightarrow> remote_ptr \<Rightarrow> nat \<Rightarrow> nat \<Rightarrow> log_line list ht_prog \<Rightarrow> log_line list ht_prog" where
  "print_sets env fuel buckets i 0 k = k"
| "print_sets env fuel buckets i (Suc n) k =
     load_set (indexAt buckets i) (\<lambda>set.
     ht_info (Log_bucket i) (
     ls_foreach env fuel set (\<lambda>key value. ht_info (Log_key key)) (
     print_sets env fuel buckets (Suc i) n k)))"

definition ht_print :: "Hashtable \<Rightarrow> nat \<Rightarrow> log_line list ht_prog" where
  "ht_print c fuel =
     Read HashArray_t 1 (ht_root c) (\<lambda>ds.
     load_array ds (\<lambda>hashtable.
     if 2 ^ 31 \<le> array_count hashtable then Undefined else
     Read LinkedKV_t (array_count hashtable) (bucket_start hashtable) (\<lambda>buckets.
     print_sets (ht_env c) fuel buckets 0 (array_count hashtable) (
     Deallocate HashArray_t 1 ds (
     Deallocate LinkedKV_t (array_count hashtable) buckets (
     Return []))))))"

section \<open>What it prints\<close>

lemma wp_ht_info: "wp R self k h (\<lambda>r. Q (x # r)) \<Longrightarrow> wp R self (ht_info x k) h Q"
  by (auto simp: wp_def ht_info_def run_map_prog)

definition key_lines :: "(key \<times> val) list \<Rightarrow> log_line list" where
  "key_lines ps = map (\<lambda>p. Log_key (fst p)) ps"

lemma wp_info_each:
  "wp R self k h (\<lambda>r. Q (key_lines ps @ r)) \<Longrightarrow> wp R self (call_each (\<lambda>key value. ht_info (Log_key key)) ps k) h Q"
  by (induction ps arbitrary: Q) (simp_all add: key_lines_def wp_ht_info)

definition set_lines :: "bucket list \<Rightarrow> nat \<Rightarrow> nat \<Rightarrow> log_line list" where
  "set_lines bs i n = concat (map (\<lambda>j. Log_bucket j # key_lines (chain_pairs (snd (bs ! j)))) [i..<i + n])"

lemma set_lines_Suc: "set_lines bs i (Suc n) = Log_bucket i # key_lines (chain_pairs (snd (bs ! i))) @ set_lines bs (Suc i) n"
  by (simp add: set_lines_def upt_conv_Cons del: upt_Suc)

context ls_pool
begin

lemma wp_info_chain:
  assumes "ok h" "holds (cells h) (chain_cells ns)" "linked (null_ptr env) p ns" "nodes_ok ns" "length ns < n"
    and "\<And>h'. ok h' \<Longrightarrow> cells h' = cells h \<Longrightarrow> allocs h' = allocs h \<Longrightarrow> wp R self k h' (\<lambda>r. Q (key_lines (chain_pairs ns) @ r))"
  shows "wp R self (foreach_loop env n p (\<lambda>key value. ht_info (Log_key key)) k) h Q"
  using assms
proof (induction ns arbitrary: h p n Q)
  case Nil
  then obtain n' where "n = Suc n'" by (cases n) auto
  then show ?case using Nil by (simp add: key_lines_def)
next
  case (Cons y ns)
  obtain a x where y: "y = (a, x)" by fastforce
  obtain n' where n: "n = Suc n'" using Cons.prems(5) by (cases n) auto
  have ax: "cells h a = Some (HNode x)" "p = a" "a \<noteq> null_ptr env" "node_ok x" "linked (null_ptr env) (next_node x) ns"
    "holds (cells h) (chain_cells ns)" "nodes_ok ns"
    using Cons.prems(2-4) by (auto simp: y holds_Cons)
  let ?f = "\<lambda>key value :: val. ht_info (Log_key key)"
  have h: "heap_is h (cells h) (allocs h)" using Cons.prems(1) by (simp add: heap_is_def)
  have "wp R self (fetch_node a (\<lambda>red_node node_data. if \<not> node_ok node_data then Undefined else
      call_each ?f (node_pairs node_data) (Deallocate Node_t 1 red_node (
      foreach_loop env n' (next_node node_data) ?f k)))) h Q"
  proof (rule wp_fetch_node [OF h ax(1)], unfold not_not if_P [OF ax(4)] if_not_P [of "\<not> node_ok x", unfolded not_not, OF ax(4)],
      rule wp_info_each, rule wp_free_copy, assumption, simp)
    fix q h' assume q: "cells h q = None" "allocs h q = None"
      and h': "heap_is h' ((cells h)(q \<mapsto> HNode x, q := None)) ((allocs h)(q \<mapsto> [q], q := None))"
    then have e: "ok h'" "cells h' = cells h" "allocs h' = allocs h" by (auto simp: heap_is_def)
    show "wp R self (foreach_loop env n' (next_node x) ?f k) h' (\<lambda>r. Q (key_lines (node_pairs x) @ r))"
      by (rule Cons.IH [OF e(1)])
        (use e ax Cons.prems(5,6) in \<open>auto simp: n y key_lines_def\<close>)
  qed
  then show ?case using ax(2,3) by (simp add: n)
qed

lemma wp_print_sets:
  assumes "ok h" "ptr_id q = self" "slots_ok (cells h) q bs" "sets_ok (null_ptr env) (cells h) st bs" "i + n \<le> length bs"
    and "\<forall>b \<in> set bs. length (snd b) < fuel"
    and "\<And>h'. ok h' \<Longrightarrow> cells h' = cells h \<Longrightarrow> allocs h' = allocs h \<Longrightarrow> wp R self k h' (\<lambda>r. Q (set_lines bs i n @ r))"
  shows "wp R self (print_sets env fuel q i n k) h Q"
  using assms(1-5,7)
proof (induction n arbitrary: i h Q)
  case 0
  then show ?case by (simp add: set_lines_def)
next
  case (Suc n)
  have i: "i < length bs" using Suc.prems(5) by simp
  have rep: "ls_rep (null_ptr env) (cells h) (fst (bs ! i)) (snd (bs ! i)) (st i)" using Suc.prems(4) i by (simp add: sets_ok_def)
  note chain = ls_repD [OF rep]
  have slot: "ptr_id (indexAt q i) = self" "cells h (indexAt q i) = Some (HSet (fst (bs ! i)))"
    using Suc.prems(2,3) i by (simp_all add: indexAt_def slots_ok_def)
  show ?case
    unfolding print_sets.simps ls_foreach_def
  proof (rule wp_load_set [OF slot], rule wp_ht_info, rule wp_info_chain [OF Suc.prems(1) chain(2-4)])
    show "length (snd (bs ! i)) < fuel" using assms(6) nth_mem [OF i] by blast
    fix h' assume h': "ok h'" "cells h' = cells h" "allocs h' = allocs h"
    show "wp R self (print_sets env fuel q (Suc i) n k) h'
        (\<lambda>r. Q (Log_bucket i # key_lines (chain_pairs (snd (bs ! i))) @ r))"
      by (rule Suc.IH [OF h'(1)]) (use h' Suc.prems in \<open>auto simp: set_lines_Suc\<close>)
  qed
qed

lemma wp_ht_print:
  assumes "ok h" "ht_env c = env" "table c (cells h) start bs" "\<forall>b \<in> set bs. length (snd b) < fuel"
    and "\<And>h'. ok h' \<Longrightarrow> leaves {} (cells h) (cells h') \<Longrightarrow> allocs h' = allocs h \<Longrightarrow> Q (set_lines bs 0 (length bs)) h'"
  shows "wp R self (ht_print c fuel) h Q"
proof -
  let ?n = "length bs" and ?A = "\<lparr>array_count = length bs, bucket_start = start\<rparr>"
  have t: "?n < 2 ^ 31" "cells h (ht_root c) = Some (HArray ?A)" "slots_ok (cells h) start bs"
    "sets_ok (null_ptr env) (cells h) (\<lambda>_. UNLOCKED) bs"
    using assms(2,3) by (simp_all add: table_def)
  show ?thesis
    unfolding ht_print_def
  proof (rule wp_read_one [OF assms(1) t(2)], simp, simp)
    fix ds h1
    assume h1: "ok h1" "ptr_id ds = self" "cells h ds = None" "allocs h ds = None" "cells h1 = (cells h)(ds \<mapsto> HArray ?A)"
      "allocs h1 = (allocs h)(ds \<mapsto> [ds])"
    have kp1: "leaves {} (cells h) (cells h1)" using h1(3) by (auto simp: leaves_def h1(5))
    have sl1: "slots_ok (cells h1) start bs" using t(3) h1(3) by (auto simp: slots_ok_def h1(5))
    have "wp R self (Read LinkedKV_t ?n start (\<lambda>buckets. print_sets env fuel buckets 0 ?n (
        Deallocate HashArray_t 1 ds (Deallocate LinkedKV_t ?n buckets (Return []))))) h1 Q"
    proof (rule wp_read_sets [OF h1(1) sl1])
      fix q h2
      assume h2: "ok h2" "ptr_id q = self" "slots_ok (cells h2) q bs" "leaves {} (cells h1) (cells h2)"
        "\<And>b. b \<in> indexAt q ` {..<?n} \<Longrightarrow> cells h1 b = None" "allocs h1 q = None"
        "allocs h2 = (allocs h1)(q \<mapsto> map (indexAt q) [0..<?n])"
      have s2: "sets_ok (null_ptr env) (cells h2) (\<lambda>_. UNLOCKED) bs"
        by (rule sets_ok_keep [OF sets_ok_keep [OF t(4) kp1] h2(4)]) simp_all
      have al: "allocs h2 ds = Some [ds]" "allocs h2 q = Some (map (indexAt q) [0..<?n])" "ds \<noteq> q"
        using h2(6) by (auto simp: h2(7) h1(6))
      show "wp R self (print_sets env fuel q 0 ?n (Deallocate HashArray_t 1 ds (Deallocate LinkedKV_t ?n q (Return [])))) h2 Q"
      proof (rule wp_print_sets [OF h2(1-3) s2], simp, rule assms(4))
        fix h3 assume h3: "ok h3" "cells h3 = cells h2" "allocs h3 = allocs h2"
        show "wp R self (Deallocate HashArray_t 1 ds (Deallocate LinkedKV_t ?n q (Return []))) h3 (\<lambda>r. Q (set_lines bs 0 ?n @ r))"
        proof (rule wp_free_one [OF h3(1)], simp add: h3(3) al(1), rule wp_Deallocate)
          fix h4 assume h4: "ok h4" "cells h4 = (cells h3)(ds := None)" "allocs h4 = (allocs h3)(ds := None)"
          show "ok h4" by (fact h4)
          show "allocs h4 q = Some (map (indexAt q) [0..<?n])" using al(2,3) by (simp add: h4(3) h3(3))
          fix h5 assume h5: "ok h5" "cells h5 = cells h4 |` (- set (map (indexAt q) [0..<?n]))" "allocs h5 = (allocs h4)(q := None)"
          have "allocs h5 = allocs h" using al(3) h2(6) h1(4) by (auto simp: h5(3) h4(3) h3(3) h2(7) h1(6))
          moreover have "leaves {} (cells h) (cells h5)"
          proof (rule leavesI)
            fix b assume b: "cells h b \<noteq> None"
            then have b1: "cells h1 b = cells h b" "b \<noteq> ds" using h1(3) by (auto simp: h1(5))
            then have "b \<notin> indexAt q ` {..<?n}" using h2(5) [of b] b by auto
            then show "cells h5 b = cells h b"
              using leavesD [OF h2(4), of b] b b1 by (auto simp: h5(2) h4(2) h3(2) restrict_map_def)
          qed
          ultimately show "wp R self (Return []) h5 (\<lambda>r. Q (set_lines bs 0 ?n @ r))"
            using assms(5) [OF h5(1)] by (intro wp_Return) simp
        qed
      qed
    qed
    then show "wp R self (load_array ds (\<lambda>hashtable. if 2 ^ 31 \<le> array_count hashtable then Undefined else
        Read LinkedKV_t (array_count hashtable) (bucket_start hashtable) (\<lambda>buckets.
        print_sets (ht_env c) fuel buckets 0 (array_count hashtable) (
        Deallocate HashArray_t 1 ds (Deallocate LinkedKV_t (array_count hashtable) buckets (Return [])))))) h1 Q"
      using t(1) by (intro wp_load_array [OF h1(2), of _ ?A]) (simp_all add: h1(5) assms(2))
  qed
qed

end

text \<open>\<^verbatim>\<open>print\<close> returns, and what it logs is each bucket's number followed by the keys of the pairs in the
  bucket, in order; no memory in use changes and every copy it makes is freed.\<close>

theorem ht_print_lines:
  assumes "ls_pool R ok (ht_env c)" "ok h" "table c (cells h) start bs" "\<forall>b \<in> set bs. length (snd b) < fuel"
  shows "\<exists>h'. run R self (ht_print c fuel) h =
      Finished (concat (map (\<lambda>j. Log_bucket j # map (\<lambda>p. Log_key (fst p)) (chain_pairs (snd (bs ! j)))) [0..<length bs])) h' \<and>
    leaves {} (cells h) (cells h') \<and> allocs h' = allocs h"
proof -
  have "wp R self (ht_print c fuel) h (\<lambda>r h'. r = set_lines bs 0 (length bs) \<and> leaves {} (cells h) (cells h') \<and> allocs h' = allocs h)"
    by (rule ls_pool.wp_ht_print [OF assms(1,2) refl assms(3,4)]) simp
  then show ?thesis by (auto simp: wp_def set_lines_def key_lines_def)
qed

theorem ht_print_lines_witness:
  "\<exists>h'. run bump_rome 2 (ht_print (sample_ht (Remote 1 8)) 3) full_heap =
     Finished [Log_bucket 0, Log_key 0, Log_key 1, Log_key 2, Log_key 3, Log_key 4, Log_key 5, Log_key 6, Log_key 7, Log_key 8, Log_key 9] h'"
  using ht_print_lines [OF spread.pool full_table(1,2), of 3 2] by (auto simp: full_bucket_def sample_pairs)

end
