(* ===== verification/Test_Map.thy ===== *)
theory Test_Map
  imports Hashtable
begin

text \<open>
  \<^verbatim>\<open>structures/test_map.h\<close>: the stand-in for the tables that measures remote reads.  It has the map
  interface, but keeps one constant array; \<^verbatim>\<open>contains\<close> reads it into a buffer of its own, logs what
  it finds wrong with it and answers \<open>TRUE\<close>; the other two operations do nothing.
\<close>

section \<open>The data\<close>

definition LEN :: nat where "LEN = 8"

text \<open>A cell is one \<^verbatim>\<open>struct List\<close>, its field \<^verbatim>\<open>vals\<close>.\<close>

type_synonym tm_cell = "uint64 list"
type_synonym 'r tm_prog = "(tm_cell, 'r) prog"

definition List_t :: "tm_cell ctype" where
  "List_t = \<lparr>ct_stride = 64, ct_cells = 1, ct_fresh = (\<lambda>l. length l = LEN), ct_default = replicate LEN 0\<rparr>"

record TestMap =
  tm_self :: nat
  tm_root :: remote_ptr

text \<open>The loop of \<^verbatim>\<open>InitList\<close>, from index \<open>i\<close>, \<open>n\<close> turns left; an index outside the array is undefined.\<close>

fun InitList_loop :: "remote_ptr \<Rightarrow> nat \<Rightarrow> nat \<Rightarrow> 'r tm_prog \<Rightarrow> 'r tm_prog" where
  "InitList_loop p i 0 k = k"
| "InitList_loop p i (Suc n) k =
     Load p (\<lambda>l. if length l \<le> i then Undefined else
     Store p (l[i := of_nat i]) (
     InitList_loop p (Suc i) n k))"

definition InitList :: "remote_ptr \<Rightarrow> 'r tm_prog \<Rightarrow> 'r tm_prog" where
  "InitList p k = InitList_loop p 0 LEN k"

text \<open>\<^verbatim>\<open>Init\<close>, the branch of the host and the branch of the others, with the channels as in the chained table.\<close>

definition tm_Init_host :: "TestMap \<Rightarrow> (nat \<Rightarrow> 'e option) \<Rightarrow> (nat \<Rightarrow> RemoteObjectProto \<Rightarrow> 'e option) \<Rightarrow> nat list
    \<Rightarrow> (TestMap \<times> (nat \<times> RemoteObjectProto) list \<times> 'e option) tm_prog" where
  "tm_Init_host c conn send peers =
     (let proto = RemoteObjectProto_new in
      Allocate List_t 1 (\<lambda>iht_root.
      InitList iht_root (
      Return (c\<lparr>tm_root := iht_root\<rparr>,
        send_root conn send (tm_self c) (set_raddr (address iht_root) proto) peers))))"

definition tm_Init_peer :: "TestMap \<Rightarrow> nat \<Rightarrow> nat \<Rightarrow> 'e option \<Rightarrow> (nat \<Rightarrow> 'e delivery) \<Rightarrow> ('e + TestMap) option" where
  "tm_Init_peer c fuel host_id conn got =
     (case conn of
        Some e \<Rightarrow> Some (Inl e)
      | None \<Rightarrow> map_option (map_sum id (\<lambda>proto. c\<lparr>tm_root := Remote host_id (unat (raddr proto))\<rparr>)) (try_deliver fuel got 0))"

section \<open>Operations\<close>

datatype tm_line = Prealloc_failed | Illegal_inequality uint64 nat

definition tm_info :: "tm_line \<Rightarrow> (HT_Res \<times> tm_line list) tm_prog \<Rightarrow> (HT_Res \<times> tm_line list) tm_prog" where
  "tm_info x k = map_prog (map_prod id ((#) x)) k"

text \<open>\<^verbatim>\<open>contains\<close> up to the remote read: the buffer, marked.\<close>

definition tm_buffer :: "remote_ptr tm_prog" where
  "tm_buffer =
     Allocate List_t 1 (\<lambda>prealloc.
     Load prealloc (\<lambda>temp. if temp = [] then Undefined else
     Store prealloc (temp[0 := 100]) (
     Return prealloc)))"

text \<open>The loop over the array read; after a wrong entry it is read from the buffer once more.\<close>

fun check_vals :: "remote_ptr \<Rightarrow> nat \<Rightarrow> nat \<Rightarrow> uint64 list \<Rightarrow> (HT_Res \<times> tm_line list) tm_prog \<Rightarrow> (HT_Res \<times> tm_line list) tm_prog" where
  "check_vals list i 0 l k = k"
| "check_vals list i (Suc n) l k =
     (if length l \<le> i then Undefined
      else if l ! i \<noteq> of_nat i then
        tm_info (Illegal_inequality (l ! i) i) (Load list (\<lambda>l. check_vals list (Suc i) n l k))
      else check_vals list (Suc i) n l k)"

definition tm_check :: "remote_ptr \<Rightarrow> remote_ptr \<Rightarrow> key \<Rightarrow> (HT_Res \<times> tm_line list) tm_prog" where
  "tm_check prealloc list key =
     (if address list \<noteq> address prealloc then tm_info Prealloc_failed else (\<lambda>k. k)) (
     Load list (\<lambda>l.
     check_vals list 0 LEN l (
     Deallocate List_t 1 list (
     Return (ht_res TRUE_STATE key, [])))))"

text \<open>
  A remote read into a given buffer is a verb of the library the tables do not use; \<open>read_into\<close>
  takes the node, the source and the buffer.
\<close>

definition tm_contains :: "('p, tm_cell) rome \<Rightarrow> (nat \<Rightarrow> remote_ptr \<Rightarrow> remote_ptr \<Rightarrow> ('p, tm_cell) heap \<Rightarrow> remote_ptr \<times> ('p, tm_cell) heap)
    \<Rightarrow> TestMap \<Rightarrow> nat \<Rightarrow> key \<Rightarrow> ('p, tm_cell) heap \<Rightarrow> (HT_Res \<times> tm_line list, ('p, tm_cell) heap) outcome" where
  "tm_contains R read_into c self key h =
     (case run R self tm_buffer h of
        Finished prealloc h1 \<Rightarrow>
          (case read_into self (tm_root c) prealloc h1 of (list, h2) \<Rightarrow> run R self (tm_check prealloc list key) h2)
      | Fault \<Rightarrow> Fault
      | Exhausted \<Rightarrow> Exhausted)"

definition tm_insert :: "key \<Rightarrow> val \<Rightarrow> HT_Res" where
  "tm_insert key value = ht_res TRUE_STATE 0"

definition tm_remove :: "key \<Rightarrow> HT_Res" where
  "tm_remove key = ht_res FALSE_STATE 0"

text \<open>\<^verbatim>\<open>try_rehash\<close> is empty.  \<^verbatim>\<open>populate\<close> is the same code as in the tables.\<close>

definition tm_try_rehash :: "'r tm_prog \<Rightarrow> 'r tm_prog" where
  "tm_try_rehash k = k"

fun tm_exec :: "('p, tm_cell) rome \<Rightarrow> (nat \<Rightarrow> remote_ptr \<Rightarrow> remote_ptr \<Rightarrow> ('p, tm_cell) heap \<Rightarrow> remote_ptr \<times> ('p, tm_cell) heap)
    \<Rightarrow> TestMap \<Rightarrow> nat \<Rightarrow> call \<Rightarrow> ('p, tm_cell) heap \<Rightarrow> (HT_Res \<times> ('p, tm_cell) heap) option" where
  "tm_exec R read_into c self (Contains key) h =
     (case tm_contains R read_into c self key h of Finished r h' \<Rightarrow> Some (fst r, h') | _ \<Rightarrow> None)"
| "tm_exec R read_into c self (Insert key value) h = Some (tm_insert key value, h)"
| "tm_exec R read_into c self (Remove key) h = Some (tm_remove key, h)"

definition tm_populate :: "('p, tm_cell) rome \<Rightarrow> (nat \<Rightarrow> remote_ptr \<Rightarrow> remote_ptr \<Rightarrow> ('p, tm_cell) heap \<Rightarrow> remote_ptr \<times> ('p, tm_cell) heap)
    \<Rightarrow> TestMap \<Rightarrow> nat \<Rightarrow> (real \<Rightarrow> real) \<Rightarrow> int \<Rightarrow> int \<Rightarrow> int \<Rightarrow> (key \<Rightarrow> val) \<Rightarrow> real list \<Rightarrow> ('p, tm_cell) heap
    \<Rightarrow> ('p, tm_cell) heap option" where
  "tm_populate R read_into c self = populate (tm_exec R read_into c) self"

section \<open>What it answers\<close>

lemma List_t_ok [simp]: "ctype_ok List_t" "ct_cells List_t = 1" "block List_t (Suc 0) p = [p]" "ct_fresh List_t = (\<lambda>l. length l = LEN)"
  by (simp_all add: List_t_def ctype_ok_def block_def)

definition counting :: "uint64 list" where "counting = map of_nat [0..<LEN]"

text \<open>The lines for the array \<open>l\<close>, from index \<open>i\<close>.\<close>

definition wrong_lines :: "uint64 list \<Rightarrow> nat \<Rightarrow> nat \<Rightarrow> tm_line list" where
  "wrong_lines l i n = map (\<lambda>j. Illegal_inequality (l ! j) j) (filter (\<lambda>j. l ! j \<noteq> of_nat j) [i..<i + n])"

lemma wp_tm_info: "wp R self k h (\<lambda>r. Q (fst r, x # snd r)) \<Longrightarrow> wp R self (tm_info x k) h Q"
  by (auto simp: wp_def tm_info_def run_map_prog map_prod_def split_beta)

lemma wp_check_vals:
  assumes "ptr_id list = self" "cells h list = Some l" "i + n \<le> length l"
    and "wp R self k h (\<lambda>r. Q (fst r, wrong_lines l i n @ snd r))"
  shows "wp R self (check_vals list i n l k) h Q"
  using assms(3,4)
proof (induction n arbitrary: i Q)
  case 0
  then show ?case by (simp add: wrong_lines_def)
next
  case (Suc n)
  have e: "wrong_lines l i (Suc n) = (if l ! i \<noteq> of_nat i then [Illegal_inequality (l ! i) i] else []) @ wrong_lines l (Suc i) n"
    by (simp add: wrong_lines_def upt_conv_Cons del: upt_Suc)
  have i: "\<not> length l \<le> i" using Suc.prems(1) by simp
  show ?case
  proof (cases "l ! i = of_nat i")
    case True
    then show ?thesis using Suc.IH [of "Suc i" Q] Suc.prems e i by simp
  next
    case False
    have "wp R self (Load list (\<lambda>l. check_vals list (Suc i) n l k)) h (\<lambda>r. Q (fst r, Illegal_inequality (l ! i) i # snd r))"
      by (rule wp_Load [OF assms(1,2)], rule Suc.IH) (use Suc.prems e False in simp_all)
    then show ?thesis using False i by (simp add: wp_tm_info)
  qed
qed

text \<open>What the remote read into a buffer is relied on for.\<close>

locale buffered_read = memory_pool R ok for R :: "('p, tm_cell) rome" and ok +
  fixes read_into :: "nat \<Rightarrow> remote_ptr \<Rightarrow> remote_ptr \<Rightarrow> ('p, tm_cell) heap \<Rightarrow> remote_ptr \<times> ('p, tm_cell) heap"
  assumes read_into: "ok h \<Longrightarrow> cells h q = Some l \<Longrightarrow> cells h p \<noteq> None \<Longrightarrow> ptr_id p = self \<Longrightarrow>
    \<exists>h'. read_into self q p h = (p, h') \<and> ok h' \<and> cells h' = (cells h)(p \<mapsto> l) \<and> allocs h' = allocs h"
begin

lemma wp_InitList:
  assumes "ok h" "ptr_id p = self" "cells h p = Some l" "length l = LEN"
    and "\<And>h'. ok h' \<Longrightarrow> cells h' = (cells h)(p \<mapsto> counting) \<Longrightarrow> allocs h' = allocs h \<Longrightarrow> wp R self k h' Q"
  shows "wp R self (InitList p k) h Q"
proof -
  have "wp R self (InitList_loop p i n k) h1 Q"
    if "ok h1" "cells h1 = (cells h)(p \<mapsto> l1)" "allocs h1 = allocs h" "i + n = LEN" "length l1 = LEN" "\<forall>j<i. l1 ! j = of_nat j" for i n h1 l1
    using that
  proof (induction n arbitrary: i h1 l1)
    case 0
    then have "l1 = counting" by (intro nth_equalityI) (simp_all add: counting_def)
    then show ?case using 0(2) assms(5) [OF 0(1) _ 0(3)] unfolding InitList_loop.simps by metis
  next
    case (Suc n)
    have "wp R self (Store p (l1[i := of_nat i]) (InitList_loop p (Suc i) n k)) h1 Q"
    proof (rule wp_Store_ok [OF Suc.prems(1) assms(2)])
      fix h2 assume "ok h2" "cells h2 = (cells h1)(p \<mapsto> l1[i := of_nat i])" "allocs h2 = allocs h1"
      then show "wp R self (InitList_loop p (Suc i) n k) h2 Q"
        using Suc.prems by (intro Suc.IH [of h2 "l1[i := of_nat i]"]) (auto simp: nth_list_update less_Suc_eq)
    qed (simp add: Suc.prems(2))
    then show ?case using Suc.prems(2,4,5) by (simp add: wp_Load [OF assms(2)])
  qed
  from this [OF assms(1) _ refl _ assms(4), of 0 LEN] show ?thesis using assms(3) by (simp add: InitList_def fun_upd_idem)
qed

lemma contains_lines:
  assumes "ok h" "cells h (tm_root c) = Some l" "length l = LEN"
  shows "\<exists>h'. tm_contains R read_into c self key h = Finished (ht_res TRUE_STATE key, wrong_lines l 0 LEN) h' \<and> ok h' \<and>
    cells h' = cells h \<and> allocs h' = allocs h"
proof -
  have "wp R self tm_buffer h (\<lambda>p h1. ok h1 \<and> ptr_id p = self \<and> cells h p = None \<and> allocs h p = None \<and>
      (\<exists>l1. cells h1 = (cells h)(p \<mapsto> l1)) \<and> allocs h1 = (allocs h)(p \<mapsto> [p]))"
    unfolding tm_buffer_def
  proof (rule wp_Allocate [OF assms(1)], simp)
    fix p h1 cs
    assume h1: "ok h1" "ptr_id p = self" "length cs = 1 * ct_cells List_t" "list_all (ct_fresh List_t) cs"
      "allocated h h1 p (block List_t 1 p) cs"
    then obtain l1 where l1: "cs = [l1]" "l1 \<noteq> []" by (cases cs) (fastforce simp: LEN_def)+
    then have p: "cells h p = None" "allocs h p = None" "cells h1 = (cells h)(p \<mapsto> l1)" "allocs h1 = (allocs h)(p \<mapsto> [p])"
      using h1(5) by (simp_all add: allocated_single)
    have "wp R self (Store p (l1[0 := 100]) (Return p)) h1 (\<lambda>p h1. ok h1 \<and> ptr_id p = self \<and> cells h p = None \<and> allocs h p = None \<and>
      (\<exists>l1. cells h1 = (cells h)(p \<mapsto> l1)) \<and> allocs h1 = (allocs h)(p \<mapsto> [p]))"
      by (rule wp_Store_ok [OF h1(1,2)], simp add: p(3), rule wp_Return) (use h1(2) p in auto)
    then show "wp R self (Load p (\<lambda>temp. if temp = [] then Undefined else Store p (temp[0 := 100]) (Return p))) h1
        (\<lambda>p h1. ok h1 \<and> ptr_id p = self \<and> cells h p = None \<and> allocs h p = None \<and>
          (\<exists>l1. cells h1 = (cells h)(p \<mapsto> l1)) \<and> allocs h1 = (allocs h)(p \<mapsto> [p]))"
      by (intro wp_Load [OF h1(2), of _ l1]) (simp_all add: p(3) l1(2))
  qed
  then obtain p h1 l1 where b: "run R self tm_buffer h = Finished p h1" "ok h1" "ptr_id p = self" "cells h p = None" "allocs h p = None"
    "cells h1 = (cells h)(p \<mapsto> l1)" "allocs h1 = (allocs h)(p \<mapsto> [p])"
    unfolding wp_def by blast
  have "cells h1 (tm_root c) = Some l" "cells h1 p \<noteq> None" using assms(2) b(4) by (auto simp: b(6))
  from read_into [OF b(2) this b(3)] obtain h2 where r: "read_into self (tm_root c) p h1 = (p, h2)" "ok h2"
    "cells h2 = (cells h)(p \<mapsto> l)" "allocs h2 = (allocs h)(p \<mapsto> [p])"
    by (auto simp: b(6,7))
  have "wp R self (tm_check p p key) h2 (\<lambda>r h'. r = (ht_res TRUE_STATE key, wrong_lines l 0 LEN) \<and> ok h' \<and> cells h' = cells h \<and> allocs h' = allocs h)"
    unfolding tm_check_def
  proof (simp only: simp_thms if_False, rule wp_Load [OF b(3), of _ l], simp add: r(3), rule wp_check_vals [OF b(3)], simp add: r(3), simp add: assms(3), rule wp_Deallocate [OF r(2)])
    show "allocs h2 p = Some [p]" by (simp add: r(4))
    fix h3 assume h3: "ok h3" "cells h3 = cells h2 |` (- set [p])" "allocs h3 = (allocs h2)(p := None)"
    have "cells h3 = cells h" using b(4) by (auto simp: h3(2) r(3) restrict_map_def fun_eq_iff)
    moreover have "allocs h3 = allocs h" using b(5) by (simp add: h3(3) r(4) fun_upd_idem)
    ultimately show "wp R self (Return (ht_res TRUE_STATE key, [])) h3 (\<lambda>r h'. (fst r, wrong_lines l 0 LEN @ snd r) = (ht_res TRUE_STATE key, wrong_lines l 0 LEN) \<and>
        ok h' \<and> cells h' = cells h \<and> allocs h' = allocs h)"
      using h3(1) by (intro wp_Return) simp
  qed
  then show ?thesis by (auto simp: tm_contains_def b(1) r(1) wp_def)
qed

lemma host_starts:
  assumes "ok h"
  shows "wp R (tm_self c) (tm_Init_host c conn send peers) h (\<lambda>r h'. \<exists>p. ok h' \<and> cells h p = None \<and> cells h' = (cells h)(p \<mapsto> counting) \<and>
    r = (c\<lparr>tm_root := p\<rparr>, send_root conn send (tm_self c) (set_raddr (address p) RemoteObjectProto_new) peers))"
  unfolding tm_Init_host_def Let_def
proof (rule wp_Allocate [OF assms], simp)
  fix p h1 cs
  assume h1: "ok h1" "ptr_id p = tm_self c" "length cs = 1 * ct_cells List_t" "list_all (ct_fresh List_t) cs"
    "allocated h h1 p (block List_t 1 p) cs"
  then obtain l1 where l1: "cs = [l1]" "length l1 = LEN" by (cases cs) auto
  then have p: "cells h p = None" "cells h1 = (cells h)(p \<mapsto> l1)" using h1(5) by (simp_all add: allocated_single)
  show "wp R (tm_self c) (InitList p (Return (c\<lparr>tm_root := p\<rparr>, send_root conn send (tm_self c) (set_raddr (address p) RemoteObjectProto_new) peers))) h1
      (\<lambda>r h'. \<exists>p. ok h' \<and> cells h p = None \<and> cells h' = (cells h)(p \<mapsto> counting) \<and>
        r = (c\<lparr>tm_root := p\<rparr>, send_root conn send (tm_self c) (set_raddr (address p) RemoteObjectProto_new) peers))"
    by (rule wp_InitList [OF h1(1,2) _ l1(2)]) (use p in \<open>auto intro!: wp_Return\<close>)
qed

end

lemma wrong_lines_counting: "wrong_lines counting 0 LEN = []"
  by (simp add: wrong_lines_def counting_def filter_empty_conv)

text \<open>The library that hands out every address once, with this verb.\<close>

definition bump_read_into :: "nat \<Rightarrow> remote_ptr \<Rightarrow> remote_ptr \<Rightarrow> (nat, tm_cell) heap \<Rightarrow> remote_ptr \<times> (nat, tm_cell) heap" where
  "bump_read_into self q p h = (p, h\<lparr>cells := (cells h)(p := cells h q)\<rparr>)"

interpretation bump_buffer: buffered_read bump_rome bump_ok bump_read_into
proof
  fix h :: "(nat, tm_cell) heap" and q p l self
  assume "bump_ok h" "cells h q = Some l" "cells h p \<noteq> None"
  then show "\<exists>h'. bump_read_into self q p h = (p, h') \<and> bump_ok h' \<and> cells h' = (cells h)(p \<mapsto> l) \<and> allocs h' = allocs h"
    by (auto simp: bump_read_into_def bump_ok_def)
qed

text \<open>The stand-in is not a map: once the host has made it, \<^verbatim>\<open>contains\<close> by any node answers \<open>TRUE\<close> with the key as the
  value, for every key, whether it was inserted or removed or neither; it logs nothing, and memory is afterwards as before.\<close>

theorem test_map_answers:
  assumes "buffered_read R ok read_into" "ok h"
  shows "\<exists>p h1. run R (tm_self c) (tm_Init_host c conn send peers) h =
      Finished (c\<lparr>tm_root := p\<rparr>, send_root conn send (tm_self c) (set_raddr (address p) RemoteObjectProto_new) peers) h1 \<and>
    (\<forall>d self key. tm_root d = p \<longrightarrow> (\<exists>h2. tm_contains R read_into d self key h1 = Finished (ht_res TRUE_STATE key, []) h2 \<and>
       cells h2 = cells h1 \<and> allocs h2 = allocs h1))"
proof -
  obtain p h1 where i: "run R (tm_self c) (tm_Init_host c conn send peers) h =
      Finished (c\<lparr>tm_root := p\<rparr>, send_root conn send (tm_self c) (set_raddr (address p) RemoteObjectProto_new) peers) h1" "ok h1" "cells h1 p = Some counting"
    using buffered_read.host_starts [OF assms, of c conn send peers] unfolding wp_def by auto
  have "length counting = LEN" by (simp add: counting_def)
  then have "\<exists>h2. tm_contains R read_into d self key h1 = Finished (ht_res TRUE_STATE key, []) h2 \<and> cells h2 = cells h1 \<and> allocs h2 = allocs h1"
    if "tm_root d = p" for d self key
    using buffered_read.contains_lines [OF assms(1) i(2), of d counting self key] i(3) that by (auto simp: wrong_lines_counting)
  then show ?thesis using i(1) by blast
qed

theorem test_map_answers_witness:
  "\<exists>p h1 h2. run bump_rome 1 (tm_Init_host \<lparr>tm_self = 1, tm_root = Remote 0 0\<rparr> (\<lambda>_. None :: unit option) (\<lambda>_ _. None) [0, 1, 2]) bump_empty =
      Finished (\<lparr>tm_self = 1, tm_root = p\<rparr>, [(0, \<lparr>raddr = of_nat (address p)\<rparr>), (2, \<lparr>raddr = of_nat (address p)\<rparr>)], None) h1 \<and>
     tm_contains bump_rome bump_read_into \<lparr>tm_self = 2, tm_root = p\<rparr> 2 77 h1 = Finished (ht_res TRUE_STATE 77, []) h2"
proof -
  let ?c = "\<lparr>tm_self = 1, tm_root = Remote 0 0\<rparr>"
  obtain p h1 where t: "run bump_rome (tm_self ?c) (tm_Init_host ?c (\<lambda>_. None :: unit option) (\<lambda>_ _. None) [0, 1, 2]) bump_empty =
      Finished (?c\<lparr>tm_root := p\<rparr>, send_root (\<lambda>_. None) (\<lambda>_ _. None) (tm_self ?c) (set_raddr (address p) RemoteObjectProto_new) [0, 1, 2]) h1"
    "\<forall>d self key. tm_root d = p \<longrightarrow> (\<exists>h2. tm_contains bump_rome bump_read_into d self key h1 = Finished (ht_res TRUE_STATE key, []) h2 \<and>
       cells h2 = cells h1 \<and> allocs h2 = allocs h1)"
    using test_map_answers [OF bump_buffer.buffered_read_axioms bump_ok_empty, of ?c "\<lambda>_. None :: unit option" "\<lambda>_ _. None" "[0, 1, 2]"] by blast
  obtain h2 where "tm_contains bump_rome bump_read_into \<lparr>tm_self = 2, tm_root = p\<rparr> 2 77 h1 = Finished (ht_res TRUE_STATE 77, []) h2"
    using t(2) [rule_format, of "\<lparr>tm_self = 2, tm_root = p\<rparr>" 2 77] by auto
  then show ?thesis using t(1) by (auto simp: set_raddr_def RemoteObjectProto_new_def)
qed

end
