(* ===== verification/Client_Tests.thy ===== *)
theory Client_Tests
  imports Client_Correct
begin

text \<open>
  The built-in tests of \<^verbatim>\<open>role_client.h\<close> on a table that honours the contract: what they log,
  and what they cannot see.
\<close>

section \<open>Runs of test items\<close>

fun infos :: "test_item list \<Rightarrow> string list" where
  "infos [] = []"
| "infos (Info msg # ts) = msg # infos ts"
| "infos (Test x r msg # ts) = infos ts"

lemma infos_append [simp]: "infos (xs @ ys) = infos xs @ infos ys"
  by (induction xs rule: infos.induct) auto

lemma infos_concat: "(\<And>i. infos (f i) = []) \<Longrightarrow> infos (concat (map f is)) = []"
  by (induction "is") auto

text \<open>The calls a list of tests makes, the answers it expects, and what it logs when they answer \<open>rs\<close>.\<close>

fun test_calls :: "test_item list \<Rightarrow> call list" where
  "test_calls [] = []"
| "test_calls (Info msg # ts) = test_calls ts"
| "test_calls (Test x r msg # ts) = x # test_calls ts"

fun test_results :: "test_item list \<Rightarrow> HT_Res list" where
  "test_results [] = []"
| "test_results (Info msg # ts) = test_results ts"
| "test_results (Test x e msg # ts) = e # test_results ts"

lemma exec_calls_append:
  "exec_calls exec xs s = Some (rs, s1) \<Longrightarrow> exec_calls exec ys s1 = Some (rs', s2) \<Longrightarrow>
    exec_calls exec (xs @ ys) s = Some (rs @ rs', s2)"
proof (induction xs arbitrary: s rs)
  case (Cons x xs)
  then show ?case by (cases x) (auto split: option.splits)
qed simp

lemma test_calls_append [simp]:
  "test_calls (xs @ ys) = test_calls xs @ test_calls ys" "test_results (xs @ ys) = test_results xs @ test_results ys"
  by (induction xs rule: infos.induct) auto

fun test_log :: "bool \<Rightarrow> test_item list \<Rightarrow> HT_Res list \<Rightarrow> string list" where
  "test_log b (Info msg # ts) rs = msg # test_log b ts rs"
| "test_log b (Test x e msg # ts) (r # rs) = test_output b r e msg @ test_log b ts rs"
| "test_log b _ _ = []"

lemma run_tests_calls:
  "exec_calls exec (map (Pair self) (test_calls ts)) s = Some (rs, s') \<Longrightarrow>
    run_tests exec self b ts s = Some (test_log b ts rs, s')"
  by (induction ts arbitrary: s rs rule: test_calls.induct) (auto split: option.splits prod.splits)

lemma test_log_expected: "test_log False ts (test_results ts) = infos ts"
  by (induction ts rule: test_calls.induct) (auto simp: test_output_def)

text \<open>The keys from \<open>i\<close> up to \<open>n\<close>, each with itself as value.\<close>

definition segment :: "nat \<Rightarrow> nat \<Rightarrow> key \<Rightarrow> val option" where
  "segment i n k = (if i \<le> unat k \<and> unat k < n then Some k else None)"

lemma segment_empty [simp]: "segment n n = Map.empty"
  by (auto simp: segment_def)

lemma unat_key: "i < 2 ^ 32 \<Longrightarrow> unat (of_nat i :: key) = i"
  by (simp add: unsigned_of_nat take_bit_nat_eq_self)

lemma key_eq_iff: "i < 2 ^ 32 \<Longrightarrow> k = (of_nat i :: key) \<longleftrightarrow> unat k = i"
  by (metis unat_key word_unat_eq_iff)

lemma segment_steps:
  assumes "i < 2 ^ 32"
  shows "segment a i (of_nat i) = None" "a \<le> i \<Longrightarrow> (segment a i)(of_nat i \<mapsto> of_nat i) = segment a (Suc i)"
    "i < n \<Longrightarrow> a \<le> i \<Longrightarrow> segment a n (of_nat i) = Some (of_nat i)" "(segment i n)(of_nat i := None) = segment (Suc i) n"
    "i < a \<Longrightarrow> segment a n (of_nat i) = None"
  using assms by (auto simp: segment_def fun_eq_iff unat_key key_eq_iff)

context ht_map
begin

text \<open>A list of tests takes a table from \<open>m\<close> to \<open>m'\<close>, and every call is answered just as expected.\<close>

definition silent :: "test_item list \<Rightarrow> (key \<Rightarrow> val option) \<Rightarrow> (key \<Rightarrow> val option) \<Rightarrow> bool" where
  "silent ts m m' \<longleftrightarrow> (\<forall>s self. rep s m \<longrightarrow>
     (\<exists>s'. exec_calls exec (map (Pair self) (test_calls ts)) s = Some (test_results ts, s') \<and> rep s' m'))"

lemma silent_Nil: "silent [] m m"
  by (simp add: silent_def)

lemma silent_append:
  assumes "silent xs m m1" "silent ys m1 m2"
  shows "silent (xs @ ys) m m2"
  unfolding silent_def
proof (intro allI impI)
  fix s self
  assume "rep s m"
  then obtain s1 where s1: "exec_calls exec (map (Pair self) (test_calls xs)) s = Some (test_results xs, s1)" "rep s1 m1"
    using assms(1) unfolding silent_def by blast
  then obtain s2 where "exec_calls exec (map (Pair self) (test_calls ys)) s1 = Some (test_results ys, s2)" "rep s2 m2"
    using assms(2) unfolding silent_def by blast
  then show "\<exists>s'. exec_calls exec (map (Pair self) (test_calls (xs @ ys))) s = Some (test_results (xs @ ys), s') \<and> rep s' m2"
    using s1(1) by (simp add: exec_calls_append [OF s1(1)])
qed

lemma silent_Info: "silent ts m m' \<Longrightarrow> silent (Info msg # ts) m m'"
  by (simp add: silent_def)

lemma silent_Test:
  assumes "call_key x \<in> keys" "r = fst (spec_call x m)" "silent ts (snd (spec_call x m)) m'"
  shows "silent (Test x r msg # ts) m m'"
  unfolding silent_def
proof (intro allI impI)
  fix s self
  assume "rep s m"
  then obtain s1 where s1: "exec self x s = Some (r, s1)" "rep s1 (snd (spec_call x m))"
    using exec_ok [of s m x self] assms(1,2) by auto
  then obtain s2 where "exec_calls exec (map (Pair self) (test_calls ts)) s1 = Some (test_results ts, s2)" "rep s2 m'"
    using assms(3) unfolding silent_def by blast
  then show "\<exists>s'. exec_calls exec (map (Pair self) (test_calls (Test x r msg # ts))) s = Some (test_results (Test x r msg # ts), s') \<and> rep s' m'"
    using s1(1) by simp
qed

lemma silent_loop:
  assumes "\<And>i. i < n \<Longrightarrow> silent (f i) (M i) (M (Suc i))"
  shows "silent (concat (map f [0..<n])) (M 0) (M n)"
  using assms
proof (induction n)
  case (Suc n)
  then show ?case using silent_append [of "concat (map f [0..<n])" "M 0" "M n" "f n" "M (Suc n)"] by simp
qed (simp add: silent_Nil)

lemma scale_tests_silent:
  assumes n: "n \<le> 2 ^ 31" and keys: "\<And>i. i < n \<Longrightarrow> of_nat i \<in> keys"
  shows "silent (scale_tests n) Map.empty Map.empty"
proof -
  have small: "i < 2 ^ 32" if "i < n" for i using that n by simp
  note steps = segment_steps [OF small]
  have "silent (concat (map scale_insert [0..<n])) (segment 0 0) (segment 0 n)"
    by (rule silent_loop) (auto simp: scale_insert_def spec_contains_def spec_insert_def steps keys small
        intro!: silent_Test silent_Nil)
  moreover have "silent (concat (map scale_still [0..<n])) (segment 0 n) (segment 0 n)"
    by (rule silent_loop) (auto simp: scale_still_def spec_contains_def steps keys intro!: silent_Test silent_Nil)
  moreover have "silent (concat (map scale_remove [0..<n])) (segment 0 n) (segment n n)"
    by (rule silent_loop) (auto simp: scale_remove_def spec_contains_def spec_remove_def steps keys intro!: silent_Test silent_Nil)
  moreover have "silent (concat (map scale_gone [0..<n])) Map.empty Map.empty"
    by (rule silent_loop) (auto simp: scale_gone_def spec_contains_def keys intro!: silent_Test silent_Nil)
  ultimately show ?thesis
    unfolding scale_tests_def append_Cons append_Nil segment_empty
    by (blast intro: silent_append silent_Info silent_Nil)
qed

end

text \<open>The calls of the test at scale: seven for each key.\<close>

lemma scale_calls:
  "length (test_calls (scale_tests n)) = 7 * n" "call_key ` set (test_calls (scale_tests n)) = key_of ` {..<n}"
proof -
  have l: "length (test_calls (concat (map f [0..<n]))) = c * n" if "\<And>i. length (test_calls (f i)) = c" for f c
    using that by (induction n) simp_all
  show "length (test_calls (scale_tests n)) = 7 * n"
    unfolding scale_tests_def test_calls_append length_append
    by (simp add: l [of scale_insert 3] l [of scale_still 1] l [of scale_remove 2] l [of scale_gone 1]
        scale_insert_def scale_still_def scale_remove_def scale_gone_def)
  have k: "call_key ` set (test_calls (concat (map f [0..<n]))) = key_of ` {..<n}"
    if "\<And>i. call_key ` set (test_calls (f i)) = {key_of i}" for f
    by (induction n) (simp_all add: that image_Un lessThan_Suc)
  show "call_key ` set (test_calls (scale_tests n)) = key_of ` {..<n}"
    unfolding scale_tests_def test_calls_append set_append image_Un
    by (simp add: k [of scale_insert] k [of scale_still] k [of scale_remove] k [of scale_gone]
        scale_insert_def scale_still_def scale_remove_def scale_gone_def)
qed

text \<open>C36: \<open>Operations(true)\<close> on an empty table that honours the contract makes 50176 calls, seven for each of the keys below 7168.
  Every one of them is answered with exactly the status and the value that the test expects of it, although \<open>test_output\<close>
  would report only answers wrong in both; so the four progress lines are all that is logged, and the table is empty again.\<close>

theorem operations_at_scale:
  assumes "ht_map exec rep keys" "rep s Map.empty" "key_of ` {..<7168} \<subseteq> keys"
  shows "\<exists>s'. Operations exec self True s = Some ([
      '' = 25% Finished = '', '' = 50% Finished = '', '' = 75% Finished = '', ''All test cases finished''], s') \<and>
    rep s' Map.empty \<and>
    exec_calls exec (map (Pair self) (test_calls (scale_tests scale_size))) s = Some (test_results (scale_tests scale_size), s') \<and>
    length (test_calls (scale_tests scale_size)) = 50176 \<and>
    call_key ` set (test_calls (scale_tests scale_size)) = key_of ` {..<7168}"
proof -
  have n: "scale_size = 7168" by (simp add: scale_size_def CNF_PLIST_SIZE_def CNF_ELIST_SIZE_def)
  have "of_nat i \<in> keys" if "i < scale_size" for i
    using assms(3) that unfolding n by blast
  then have "ht_map.silent exec rep (scale_tests scale_size) Map.empty Map.empty"
    by (intro ht_map.scale_tests_silent [OF assms(1)]) (simp add: n)
  then obtain s' where s': "exec_calls exec (map (Pair self) (test_calls (scale_tests scale_size))) s =
      Some (test_results (scale_tests scale_size), s')" "rep s' Map.empty"
    using assms(2) unfolding ht_map.silent_def [OF assms(1)] by blast
  have i: "infos (scale_tests scale_size) =
      ['' = 25% Finished = '', '' = 50% Finished = '', '' = 75% Finished = '', ''All test cases finished'']"
    by (simp add: scale_tests_def infos_concat scale_insert_def scale_still_def scale_remove_def scale_gone_def)
  have "Operations exec self True s = Some (infos (scale_tests scale_size), s')"
    using run_tests_calls [OF s'(1), of False] by (simp add: Operations_def test_log_expected)
  then show ?thesis using s' scale_calls [of scale_size] unfolding i by (simp add: n)
qed

text \<open>\<open>test_output\<close> reports a failure exactly when both the status and the value differ from what was expected: an
  answer that is wrong in one of them passes.\<close>

theorem test_output_masks:
  "test_output True actual expected message = [''[+] Test Case '' @ message @ '' Passed!''] \<longleftrightarrow>
    status actual = status expected \<or> result actual = result expected"
  by (auto simp: test_output_def)

text \<open>\<open>Operations(false)\<close> on an empty table logs ten passed tests, among them \<open>Insert 5\<close>, which expects the status
  \<open>FALSE_STATE\<close> where the table, as its contract says, answers \<open>TRUE_STATE\<close>.\<close>

theorem operations_small:
  assumes "ht_map exec rep keys" "rep s Map.empty" "{4, 5} \<subseteq> keys"
  shows "\<exists>s'. Operations exec self False s = Some (''Starting test cases.'' #
      map (\<lambda>t. ''[+] Test Case '' @ t @ '' Passed!'') [''Contains 5'', ''Contains 4'', ''Insert 5'',
        ''Insert 5 again should fail'', ''Contains 5'', ''Contains 4'', ''Remove 5'', ''Remove 4'', ''Contains 5'',
        ''Contains 4''] @ [''All cases finished''], s') \<and>
    rep s' Map.empty \<and> small_tests ! 3 = Test (Insert 5 10) (ht_res FALSE_STATE 0) ''Insert 5'' \<and>
    fst (spec_call (Insert 5 10) Map.empty) = ht_res TRUE_STATE 0"
proof -
  let ?xs = "map (Pair self) (test_calls small_tests)"
  have "call_key ` snd ` set ?xs \<subseteq> keys" using assms(3) by (auto simp: small_tests_def)
  from ht_map.exec_calls_ok [OF assms(1,2) this]
  obtain s' where s': "exec_calls exec ?xs s = Some (fst (spec_calls (map snd ?xs) Map.empty), s')"
    "rep s' (snd (spec_calls (map snd ?xs) Map.empty))" by blast
  have calls: "spec_calls (map snd ?xs) Map.empty = ([ht_res FALSE_STATE 0, ht_res FALSE_STATE 0, ht_res TRUE_STATE 0,
      ht_res FALSE_STATE 10, ht_res TRUE_STATE 10, ht_res FALSE_STATE 0, ht_res TRUE_STATE 10, ht_res FALSE_STATE 0,
      ht_res FALSE_STATE 0, ht_res FALSE_STATE 0], Map.empty)"
    by (simp add: small_tests_def spec_contains_def spec_insert_def spec_remove_def)
  show ?thesis
    using run_tests_calls [OF s'(1)] s'(2) unfolding calls
    by (simp add: Operations_def test_output_def small_tests_def spec_insert_def)
qed

lemma fresh_table_map: "\<exists>r. fst fresh_table = deployed (Remote 0 0) 1 r \<and> bump_ok (snd fresh_table) \<and>
    iht_state (deployed (Remote 0 0) 1 r) 24 key_range (snd fresh_table) Map.empty"
  using fresh_table by (metis fst_conv snd_conv)

theorem operations_at_scale_witness:
  "\<exists>h'. Operations (iht_exec bump_rome (fst fresh_table) 48) 1 True (snd fresh_table) = Some ([
      '' = 25% Finished = '', '' = 50% Finished = '', '' = 75% Finished = '', ''All test cases finished''], h') \<and>
    iht_state (fst fresh_table) 24 key_range h' Map.empty \<and>
    exec_calls (iht_exec bump_rome (fst fresh_table) 48) (map (Pair 1) (test_calls (scale_tests scale_size))) (snd fresh_table) =
      Some (test_results (scale_tests scale_size), h')"
proof -
  obtain r where r: "fst fresh_table = deployed (Remote 0 0) 1 r" "bump_ok (snd fresh_table)"
    "iht_state (deployed (Remote 0 0) 1 r) 24 key_range (snd fresh_table) Map.empty"
    using fresh_table_map by blast
  have "key_of ` {..<7168} \<subseteq> key_range" by (auto simp: key_range_def unat_key)
  then show ?thesis
    using operations_at_scale [OF deployed.shared.ht_map_axioms [of 1 r], of "snd fresh_table" 1] r(2,3)
    unfolding r(1) by blast
qed

theorem operations_small_witness:
  "\<exists>out h'. Operations (iht_exec bump_rome (fst fresh_table) 48) 1 False (snd fresh_table) = Some (out, h') \<and>
    out ! 3 = ''[+] Test Case Insert 5 Passed!''"
proof -
  obtain r where r: "fst fresh_table = deployed (Remote 0 0) 1 r" "bump_ok (snd fresh_table)"
    "iht_state (deployed (Remote 0 0) 1 r) 24 key_range (snd fresh_table) Map.empty"
    using fresh_table_map by blast
  have "{4, 5} \<subseteq> key_range" by (simp add: key_range_def)
  then show ?thesis
    using operations_small [OF deployed.shared.ht_map_axioms [of 1 r], of "snd fresh_table" 1] r(2,3)
    unfolding r(1) by auto
qed

end
