(* ===== verification/Server.thy ===== *)
theory Server
  imports Client
begin

text \<open>
  \<^verbatim>\<open>role_server.h\<close>, class \<^verbatim>\<open>Server\<close>, and how its \<^verbatim>\<open>Launch\<close> and the clients' \<^verbatim>\<open>Stop\<close> wait for each
  other.  The pauses of 100 ms between two looks at \<^verbatim>\<open>done\<close> are left out.
\<close>

section \<open>The server\<close>

fun cleanup_times :: "nat \<Rightarrow> ('r client_io \<Rightarrow> 'r client_io) \<Rightarrow> 'r client_io \<Rightarrow> 'r client_io" where
  "cleanup_times 0 cleanup k = k"
| "cleanup_times (Suc n) cleanup k = cleanup (cleanup_times n cleanup k)"

fun wait_done :: "nat \<Rightarrow> ('r client_io \<Rightarrow> 'r client_io) \<Rightarrow> 'r client_io \<Rightarrow> 'r client_io" where
  "wait_done 0 cleanup k = Starved"
| "wait_done (Suc n) cleanup k = Get (\<lambda>m. if done_flag m then k else cleanup (wait_done n cleanup k))"

text \<open>
  \<^verbatim>\<open>runtime_s * 10\<close> is a product of \<^verbatim>\<open>int\<close>s.  The array \<^verbatim>\<open>recv_buffer\<close> consists of default
  messages.
\<close>

definition Launch :: "nat \<Rightarrow> int \<Rightarrow> ('r client_io \<Rightarrow> 'r client_io) \<Rightarrow> 'r client_io \<Rightarrow> 'r client_io" where
  "Launch fuel runtime_s cleanup k =
     (if 2 ^ 31 \<le> runtime_s * 10 then Crash else
      (if runtime_s > 0 then cleanup_times (nat (runtime_s * 10)) cleanup else (\<lambda>k'. k')) (
      wait_done fuel cleanup (
      sm_getInstance False (\<lambda>socket_handle. case socket_handle of
        None \<Rightarrow> Crash
      | Some this \<Rightarrow>
          num_clients this (\<lambda>n.
          recv_from_all fuel this (replicate n (mk_message 0 0 0 0)) (\<lambda>recv_buffer.
          send_to_all fuel this (mk_message 0 0 0 0) k))))))"

section \<open>Waiting for the clients\<close>

text \<open>A cleanup that changes the memory, but not what the server looks at.\<close>

definition harmless :: "(pmem \<Rightarrow> pmem) \<Rightarrow> bool" where
  "harmless f \<longleftrightarrow> (\<forall>m. done_flag (f m) = done_flag m \<and> sm_self (f m) = sm_self m \<and> sm_objs (f m) = sm_objs m)"

lemma cleanup_times_run:
  "io_run os p (cleanup_times n (upd f) k) s = io_run os p k (set_mem p ((f ^^ n) (mems s p)) s)"
  by (induction n arbitrary: s) (simp_all add: funpow_swap1)

lemma harmless_power:
  "harmless f \<Longrightarrow> done_flag ((f ^^ n) m) = done_flag m \<and> sm_self ((f ^^ n) m) = sm_self m \<and> sm_objs ((f ^^ n) m) = sm_objs m"
  by (induction n) (simp_all add: harmless_def)

lemma wait_done_spins:
  assumes "harmless f" "\<not> done_flag (mems s p)"
  shows "io_run os p (wait_done n (upd f) k) s = Starving"
  using assms(2)
proof (induction n arbitrary: s)
  case (Suc n)
  then show ?case using assms(1) by (simp add: harmless_def)
qed simp

text \<open>The state of the server's process when \<open>Launch\<close> has waited out its runtime.\<close>

lemma launch_prefix:
  fixes s :: "(pmem, 'w) sys"
  assumes "harmless f" "0 \<le> rt" "rt * 10 < 2 ^ 31" "done_flag (mems s p)" "sm_self (mems s p) = Some this"
    "obj_at (sm_objs (mems s p)) this = Some x"
  shows "io_run os p (Launch (Suc n) rt (upd f) k) s = io_run os p (
      recv_from_all (Suc n) this (replicate (length (client_sockets x)) (mk_message 0 0 0 0)) (\<lambda>_.
      send_to_all (Suc n) this (mk_message 0 0 0 0) k)) (set_mem p ((f ^^ nat (rt * 10)) (mems s p)) s)"
  using assms harmless_power [OF assms(1), of "nat (rt * 10)" "mems s p"]
  by (cases "rt = 0") (simp_all add: Launch_def cleanup_times_run sm_getInstance_bound num_clients_def)

text \<open>C34: once \<open>done\<close> is set and every client has sent its message, \<open>Server::Launch\<close> returns: it has run the cleanup ten
  times per second of its runtime, taken one message from every client, and sent one to every
  client.\<close>

theorem launch_answers:
  fixes s :: "(pmem, 'w) sys"
  assumes "stream_os os good peer inbox" "good (world s)" "harmless f" "0 \<le> rt" "rt * 10 < 2 ^ 31"
    "done_flag (mems s p)" "sm_self (mems s p) = Some this" "obj_at (sm_objs (mems s p)) this = Some x"
    "sockets_ok (peer (world s)) p (client_sockets x)" "length (client_sockets x) < fuel"
    "\<forall>c \<in> set (client_sockets x). \<exists>m rest. message_ok m \<and> inbox (world s) (p, c) = message_bytes m @ rest"
  shows "\<exists>w. io_run os p (Launch fuel rt (upd f) (Ret ())) s =
      Returned () (set_mem p ((f ^^ nat (rt * 10)) (mems s p)) (s\<lparr>world := w\<rparr>)) \<and>
    good w \<and> peer w = peer (world s) \<and>
    inbox w = delivered (peer (world s)) p (client_sockets x) (message_bytes (mk_message 0 0 0 0))
      (received p (client_sockets x) (inbox (world s)))"
proof -
  let ?cs = "client_sockets x" let ?z = "mk_message 0 0 0 0"
  let ?s = "set_mem p ((f ^^ nat (rt * 10)) (mems s p)) s"
  obtain n where n: "fuel = Suc n" using assms(10) by (cases fuel) auto
  obtain M where M: "\<And>c. c \<in> set ?cs \<Longrightarrow> message_ok (M c) \<and> (\<exists>rest. inbox (world s) (p, c) = message_bytes (M c) @ rest)"
    using assms(11) by metis
  have obj: "obj_at (sm_objs (mems ?s p)) this = Some x"
    using harmless_power [OF assms(3)] assms(8) by simp
  obtain w1 where w1: "io_run os p (recv_loop fuel this (replicate (length ?cs) ?z) 0 (\<lambda>_. send_to_all fuel this ?z (Ret ()))) ?s =
      io_run os p (send_to_all fuel this ?z (Ret ())) (?s\<lparr>world := w1\<rparr>)"
    "good w1" "peer w1 = peer (world s)" "inbox w1 = received p ?cs (inbox (world s))"
    using stream_os.recv_loop_ok [OF assms(1) obj, of 0 fuel "replicate (length ?cs) ?z" "map M ?cs" "\<lambda>_. send_to_all fuel this ?z (Ret ())"]
      assms(2,9,10) M by auto
  obtain w where w: "io_run os p (send_loop fuel this ?z 0 (Ret ())) (?s\<lparr>world := w1\<rparr>) = Returned () (?s\<lparr>world := w\<rparr>)"
    "good w" "peer w = peer (world s)" "inbox w = delivered (peer (world s)) p ?cs (message_bytes ?z) (inbox w1)"
    using stream_os.send_loop_ok [OF assms(1), of "?s\<lparr>world := w1\<rparr>" p this x 0 fuel ?z "Ret ()"] obj w1(2,3) assms(9,10) by auto
  have "io_run os p (Launch fuel rt (upd f) (Ret ())) s = Returned () (?s\<lparr>world := w\<rparr>)"
    using launch_prefix [OF assms(3-8), of os n "Ret ()"] w1(1) w(1) by (simp add: n recv_from_all_def send_to_all_def)
  then show ?thesis using w(2-4) w1(4) by (intro exI [of _ w]) simp
qed

text \<open>\<open>Server::Launch\<close> does not answer early: while \<open>done\<close> is not set it keeps polling, however long it runs, and
  while one client has sent nothing it waits in \<open>recv_from_all\<close>.\<close>

theorem launch_waits:
  fixes s :: "(pmem, 'w) sys"
  assumes "stream_os os good peer inbox" "good (world s)" "harmless f" "0 \<le> rt" "rt * 10 < 2 ^ 31"
    "sm_self (mems s p) = Some this" "obj_at (sm_objs (mems s p)) this = Some x"
    "sockets_ok (peer (world s)) p (client_sockets x)" "length (client_sockets x) < fuel"
  shows "(\<not> done_flag (mems s p) \<longrightarrow> io_run os p (Launch fuel rt (upd f) (Ret ())) s = Starving) \<and>
    (done_flag (mems s p) \<and> (\<exists>c \<in> set (client_sockets x). inbox (world s) (p, c) = []) \<longrightarrow>
      (\<exists>s'. io_run os p (Launch fuel rt (upd f) (Ret ())) s = Blocked s'))"
proof (intro conjI impI)
  assume d: "\<not> done_flag (mems s p)"
  let ?s = "set_mem p ((f ^^ nat (rt * 10)) (mems s p)) s"
  have "\<not> done_flag (mems ?s p)" using harmless_power [OF assms(3)] d by simp
  then show "io_run os p (Launch fuel rt (upd f) (Ret ())) s = Starving"
    using assms(4,5) wait_done_spins [OF assms(3), of ?s p] wait_done_spins [OF assms(3) d]
    by (cases "rt = 0") (simp_all add: Launch_def cleanup_times_run)
next
  let ?s = "set_mem p ((f ^^ nat (rt * 10)) (mems s p)) s"
  assume d: "done_flag (mems s p) \<and> (\<exists>c \<in> set (client_sockets x). inbox (world s) (p, c) = [])"
  then obtain j where j: "j < length (client_sockets x)" "inbox (world s) (p, client_sockets x ! j) = []"
    by (auto simp: in_set_conv_nth)
  obtain n where n: "fuel = Suc n" using assms(9) by (cases fuel) auto
  have obj: "obj_at (sm_objs (mems ?s p)) this = Some x"
    using harmless_power [OF assms(3)] assms(7) by simp
  show "\<exists>s'. io_run os p (Launch fuel rt (upd f) (Ret ())) s = Blocked s'"
    using stream_os.recv_loop_blocks [OF assms(1) obj, of 0 fuel "replicate (length (client_sockets x)) (mk_message 0 0 0 0)" j]
      launch_prefix [OF assms(3-5) conjunct1 [OF d] assms(6,7), of os n "Ret ()"] assms(2,8,9) j
    by (simp add: n recv_from_all_def)
qed

section \<open>Stopping a client\<close>

context stream_os
begin

lemma stop_run:
  fixes s :: "(pmem, 'w) sys"
  assumes "good (world s)" "endpoint_fd (mems s p) (endpoint_ctx c) f" "peer (world s) (p, f) = Some e"
    "e \<noteq> (p, f)" "master_client c \<or> \<not> has_barrier c"
  shows "inbox (world s) (p, f) = [] \<Longrightarrow> \<exists>s'. io_run os p (Stop tid c k) s = Blocked s'"
    and "inbox (world s) (p, f) = message_bytes m @ rest \<Longrightarrow> message_ok m \<Longrightarrow>
      \<exists>w. io_run os p (Stop tid c k) s = io_run os p k (s\<lparr>world := w\<rparr>) \<and> good w \<and> peer w = peer (world s) \<and>
        inbox w = (inbox (world s))(e := inbox (world s) e @ message_bytes (mk_message 0 0 0 0), (p, f) := rest)"
proof -
  let ?z = "mk_message 0 0 0 0"
  obtain q where q: "map_of (em_self (mems s p)) (ep_id (endpoint_ctx c)) = Some q"
    "obj_at (em_objs (mems s p)) q = Some \<lparr>em_sockfd = f\<rparr>" "\<not> held (mems s p) EM_syncer" "ep_id (endpoint_ctx c) \<noteq> 0xFFFF"
    using assms(2) by (auto simp: endpoint_fd_def)
  obtain w1 where w1: "io_run os p (send_server q ?z (recv_server q ?z (\<lambda>_. k))) s =
      io_run os p (recv_server q ?z (\<lambda>_. k)) (s\<lparr>world := w1\<rparr>)"
    "good w1" "peer w1 = peer (world s)" "inbox w1 = (inbox (world s))(e := inbox (world s) e @ message_bytes ?z)"
    using send_server_ok [OF assms(1,3) q(2)] by blast
  have stop: "io_run os p (Stop tid c k) s = io_run os p (recv_server q ?z (\<lambda>_. k)) (s\<lparr>world := w1\<rparr>)"
    using assms(5) w1(1) by (auto simp: Stop_def em_getInstance_bound [OF q(3,4,1)])
  have pr: "good (world (s\<lparr>world := w1\<rparr>))" "peer (world (s\<lparr>world := w1\<rparr>)) (p, f) \<noteq> None"
    "obj_at (em_objs (mems (s\<lparr>world := w1\<rparr>) p)) q = Some \<lparr>em_sockfd = f\<rparr>"
    using w1(2,3) assms(3) q(2) by simp_all
  { assume "inbox (world s) (p, f) = []"
    then have "inbox (world (s\<lparr>world := w1\<rparr>)) (p, f) = []" using w1(4) assms(4) by auto
    from recv_server_blocks [OF pr(1,2) this pr(3), of ?z "\<lambda>_. k"] stop
    show "\<exists>s'. io_run os p (Stop tid c k) s = Blocked s'" by simp }
  assume i: "inbox (world s) (p, f) = message_bytes m @ rest" and m: "message_ok m"
  then have "inbox (world (s\<lparr>world := w1\<rparr>)) (p, f) = message_bytes m @ rest" using w1(4) assms(4) by auto
  from recv_server_ok [OF pr(1,2) this pr(3) m, of ?z] stop w1(3,4)
  show "\<exists>w. io_run os p (Stop tid c k) s = io_run os p k (s\<lparr>world := w\<rparr>) \<and> good w \<and> peer w = peer (world s) \<and>
        inbox w = (inbox (world s))(e := inbox (world s) e @ message_bytes ?z, (p, f) := rest)"
    by auto
qed

end

text \<open>A client that has passed the barrier sends one message to the server and then waits: \<open>Stop\<close> blocks while nothing
  has arrived at its endpoint and returns when a message has, which it takes off the stream.\<close>

theorem stop_waits:
  fixes s :: "(pmem, 'w) sys"
  assumes "stream_os os good peer inbox" "good (world s)" "endpoint_fd (mems s p) (endpoint_ctx c) f"
    "peer (world s) (p, f) = Some e" "e \<noteq> (p, f)" "master_client c \<or> \<not> has_barrier c"
  shows "(inbox (world s) (p, f) = [] \<longrightarrow> (\<exists>s'. io_run os p (Stop tid c (Ret ())) s = Blocked s')) \<and>
    (\<forall>m rest. inbox (world s) (p, f) = message_bytes m @ rest \<and> message_ok m \<longrightarrow>
      (\<exists>w. io_run os p (Stop tid c (Ret ())) s = Returned () (s\<lparr>world := w\<rparr>) \<and>
        inbox w (p, f) = rest \<and> inbox w e = inbox (world s) e @ message_bytes (mk_message 0 0 0 0)))"
proof (intro conjI allI impI)
  show "inbox (world s) (p, f) = [] \<Longrightarrow> \<exists>s'. io_run os p (Stop tid c (Ret ())) s = Blocked s'"
    by (rule stream_os.stop_run(1) [OF assms])
next
  fix m rest
  assume "inbox (world s) (p, f) = message_bytes m @ rest \<and> message_ok m"
  then obtain w where "io_run os p (Stop tid c (Ret ())) s = io_run os p (Ret ()) (s\<lparr>world := w\<rparr>)"
    "inbox w = (inbox (world s))(e := inbox (world s) e @ message_bytes (mk_message 0 0 0 0), (p, f) := rest)"
    using stream_os.stop_run(2) [OF assms] by blast
  then show "\<exists>w. io_run os p (Stop tid c (Ret ())) s = Returned () (s\<lparr>world := w\<rparr>) \<and>
        inbox w (p, f) = rest \<and> inbox w e = inbox (world s) e @ message_bytes (mk_message 0 0 0 0)"
    using assms(5) by (intro exI [of _ w]) simp
qed

text \<open>C35: the host's client does not wait for the server: the pointer it sent to all connections also went to its own
  endpoint, where nobody read it, and its \<open>Stop\<close> takes that message for the server's answer and
  returns before the server has sent anything.\<close>

theorem host_stop_returns_early:
  fixes s :: "(pmem, 'w) sys"
  assumes "stream_os os good peer inbox" "good (world s)" "sm_self (mems s h) = Some this"
    "obj_at (sm_objs (mems s h)) this = Some x" "sockets_ok (peer (world s)) h (client_sockets x)"
    "length (client_sockets x) < fuel" "peer_id self = peer_id host"
    "d \<in> set (client_sockets x)" "peer (world s) (h, d) = Some (h, f)" "d \<noteq> f" "inbox (world s) (h, f) = []"
    "endpoint_fd (mems s h) (endpoint_ctx c) f" "master_client c"
  shows "\<exists>w. io_run os h (ExchangePointer fuel (endpoint_ctx c) self host rp (\<lambda>r. Stop tid c (Ret r))) s =
    Returned rp (s\<lparr>world := w\<rparr>)"
proof -
  let ?m = "mk_message (of_nat (address rp)) 0 0 0"
  obtain w where w: "io_run os h (ExchangePointer fuel (endpoint_ctx c) self host rp (\<lambda>r. Stop tid c (Ret r))) s =
      io_run os h (Stop tid c (Ret rp)) (s\<lparr>world := w\<rparr>)" "good w" "peer w = peer (world s)"
    "inbox w = delivered (peer (world s)) h (client_sockets x) (message_bytes ?m) (inbox (world s))"
    using stream_os.exchange_host [OF assms(1-7), of "endpoint_ctx c" rp "\<lambda>r. Stop tid c (Ret r)"] by blast
  have "inbox w (h, f) = message_bytes ?m @ []" using assms(8,9,11) by (auto simp: w(4) delivered_def)
  moreover have "peer w (h, f) = Some (h, d)" using stream_os.peer_sym [OF assms(1,2,9)] w(3) by simp
  ultimately show ?thesis
    using stream_os.stop_run(2) [OF assms(1), of "s\<lparr>world := w\<rparr>" h c f "(h, d)" ?m "[]" tid "Ret rp"] w(1,2) assms(10,12,13)
    by auto
qed

section \<open>Two nodes\<close>

definition stopping :: "bool \<Rightarrow> (nat \<times> fd \<Rightarrow> byte list) \<Rightarrow> (pmem, net) sys" where
  "stopping d ib = \<lparr>mems = (\<lambda>p. \<lparr>sm_self = (if p = 0 then Some 0 else None),
       sm_objs = (if p = 0 then [Some \<lparr>sm_sockfd = 3, client_sockets = [5, 7]\<rparr>] else []),
       em_self = [(0, 0)], em_objs = [Some \<lparr>em_sockfd = (if p = 0 then 4 else 6)\<rparr>], held = (\<lambda>_. False),
       done_flag = d, barrier_size = 1, arrivals = 0, tokens = (\<lambda>_. 0)\<rparr>),
     world = (world (two_nodes [5, 7]))\<lparr>net_inbox := ib\<rparr>\<rparr>"

definition stopping_client :: Client where
  "stopping_client = \<lparr>host_peer = node_peer 0, endpoint_ctx = EndpointContext_new 0, params = undefined, has_barrier = True,
     master_client = True, count = 0, progression = 1\<rparr>"

lemma stopping_facts:
  "net_good (world (stopping d ib))" "sm_self (mems (stopping d ib) 0) = Some 0"
  "obj_at (sm_objs (mems (stopping d ib) 0)) 0 = Some \<lparr>sm_sockfd = 3, client_sockets = [5, 7]\<rparr>"
  "sockets_ok (net_peer (world (stopping d ib))) 0 [5, 7]" "net_inbox (world (stopping d ib)) = ib"
  "net_peer (world (stopping d ib)) (0, 5) = Some (0, 4)" "net_peer (world (stopping d ib)) (0, 4) = Some (0, 5)"
  "endpoint_fd (mems (stopping d ib) 0) (endpoint_ctx stopping_client) 4" "done_flag (mems (stopping d ib) 0) = d"
  "master_client stopping_client"
  using two_nodes_facts(1,4,6,8) [of "[5, 7]"]
  by (auto simp: stopping_def obj_at_def endpoint_fd_def stopping_client_def EndpointContext_new_def)

lemma harmless_id: "harmless (\<lambda>m. m)"
  by (simp add: harmless_def)

lemma idle: "((\<lambda>m. m) ^^ n) x = x" "s\<lparr>world := w, mems := mems s\<rparr> = s\<lparr>world := w\<rparr>"
  by (induction n) simp_all

theorem launch_answers_witness:
  "\<exists>w. io_run loop_os 0 (Launch 3 2 (upd (\<lambda>m. m)) (Ret ())) (stopping True (\<lambda>_. message_bytes (mk_message 0 0 0 0))) =
      Returned () (stopping True (\<lambda>_. message_bytes (mk_message 0 0 0 0))\<lparr>world := w\<rparr>) \<and> net_good w"
proof -
  let ?s = "stopping True (\<lambda>_. message_bytes (mk_message 0 0 0 0))"
  have "\<forall>c \<in> set [5, 7]. \<exists>m rest. message_ok m \<and> net_inbox (world ?s) (0, c) = message_bytes m @ rest"
    using stopping_facts(5) message_ok_mk by (metis append_Nil2)
  then show ?thesis
    using launch_answers [OF loop.stream_os_axioms stopping_facts(1) harmless_id _ _ _ stopping_facts(2,3), of 2 True
        "\<lambda>_. message_bytes (mk_message 0 0 0 0)" 3] stopping_facts(4,9) by (auto simp: idle)
qed

theorem launch_waits_witness:
  "io_run loop_os 0 (Launch 3 2 (upd (\<lambda>m. m)) (Ret ())) (stopping False (\<lambda>_. [])) = Starving \<and>
    (\<exists>s'. io_run loop_os 0 (Launch 3 2 (upd (\<lambda>m. m)) (Ret ())) (stopping True (\<lambda>_. [])) = Blocked s')"
  using launch_waits [OF loop.stream_os_axioms stopping_facts(1) harmless_id _ _ stopping_facts(2,3), of 2 False "\<lambda>_. []" 3]
    launch_waits [OF loop.stream_os_axioms stopping_facts(1) harmless_id _ _ stopping_facts(2,3), of 2 True "\<lambda>_. []" 3]
    stopping_facts(4,5,9) by auto

theorem stop_waits_witness:
  "\<exists>s'. io_run loop_os 0 (Stop 0 stopping_client (Ret ())) (stopping True (\<lambda>_. [])) = Blocked s'"
  using stop_waits [OF loop.stream_os_axioms stopping_facts(1,8,7), of True "\<lambda>_. []"] stopping_facts(5,10) by auto

theorem host_stop_returns_early_witness:
  "\<exists>w. io_run loop_os 0 (ExchangePointer 3 (endpoint_ctx stopping_client) (node_peer 0) (node_peer 0) (Remote 0 4096)
      (\<lambda>r. Stop 0 stopping_client (Ret r))) (stopping False (\<lambda>_. [])) =
    Returned (Remote 0 4096) (stopping False (\<lambda>_. [])\<lparr>world := w\<rparr>)"
  using host_stop_returns_early [OF loop.stream_os_axioms stopping_facts(1-3), of False "\<lambda>_. []" 3 "node_peer 0" "node_peer 0" 5 4
      stopping_client "Remote 0 4096" 0] stopping_facts(4-8,10) by auto

end
