(* ===== verification/Shutdown.thy ===== *)
theory Shutdown
  imports Server
begin

text \<open>
  The threads of an experiment from the start of \<^verbatim>\<open>Client::Run\<close> to the end of \<^verbatim>\<open>Client::Stop\<close>
  and \<^verbatim>\<open>Server::Launch\<close>, under every interleaving: who waits for whom.

  A thread is the list of the synchronising events it still has to go through, in the order of
  the source.  There are \<open>K\<close> nodes with \<open>T\<close> client threads each; a thread is named by its node
  and its number there, thread 0 of a node is its master client.  Every node has a barrier and a
  flag \<^verbatim>\<open>done\<close> of its own; the server runs on node 0.
\<close>

section \<open>Events\<close>

datatype event = Arrive | Await nat | SetDone | SendAck | RecvAck

type_synonym thread_id = "nat \<times> nat"

text \<open>\<^verbatim>\<open>arrive_and_wait\<close> is \<open>Arrive\<close>, which turns into the wait for the phase it arrived in.\<close>

definition start_events :: "event list" where "start_events = [Arrive]"

definition stop_events :: "bool \<Rightarrow> event list" where
  "stop_events master = (if master then [] else [Arrive]) @ [SendAck, RecvAck]"

definition run_events :: "bool \<Rightarrow> event list" where
  "run_events master =
     [Arrive] @ start_events @ (if master then [Arrive, SetDone] else []) @ stop_events master"

text \<open>
  That these are the events of \<^verbatim>\<open>Run\<close>, \<^verbatim>\<open>Start\<close> and \<^verbatim>\<open>Stop\<close>, in their order: what each stands for in the programs
  of \<open>Client\<close>, where \<open>ep\<close> is the endpoint after \<^verbatim>\<open>getInstance\<close>.
\<close>

primrec events_io :: "nat \<Rightarrow> Client \<Rightarrow> nat option \<Rightarrow> event list \<Rightarrow> 'r client_io \<Rightarrow> 'r client_io" where
  "events_io tid c ep [] k = k"
| "events_io tid c ep (e # es) k = (case e of
     Arrive \<Rightarrow> arrive_and_wait tid (events_io tid c ep es k)
   | Await ph \<Rightarrow> Wait (\<lambda>m. ph < phase m) (\<lambda>m. m) (events_io tid c ep es k)
   | SetDone \<Rightarrow> upd (\<lambda>m. m\<lparr>done_flag := True\<rparr>) (events_io tid c ep es k)
   | SendAck \<Rightarrow> em_getInstance (endpoint_ctx c) (Some (peer_address (host_peer c))) (\<lambda>endpoint. case endpoint of
         None \<Rightarrow> Crash
       | Some this \<Rightarrow> send_server this (mk_message 0 0 0 0) (events_io tid c (Some this) es k))
   | RecvAck \<Rightarrow> (case ep of None \<Rightarrow> Crash | Some this \<Rightarrow>
       recv_server this (mk_message 0 0 0 0) (\<lambda>_. events_io tid c ep es k)))"

lemma Run_sync_events:
  "has_barrier c \<Longrightarrow> Run_sync tid c k = events_io tid c None (run_events (master_client c)) k"
  by (simp add: Run_sync_def Start_def Stop_def run_events_def start_events_def stop_events_def cong: option.case_cong)

datatype server_event = PollDone | CollectAck thread_id | Answer thread_id

definition threads_of :: "nat \<Rightarrow> nat \<Rightarrow> thread_id list" where
  "threads_of K T = List.product [0..<K] [0..<T]"

definition launch_events :: "nat \<Rightarrow> nat \<Rightarrow> server_event list" where
  "launch_events K T = PollDone # map CollectAck (threads_of K T) @ map Answer (threads_of K T)"

text \<open>
  Remaining events of all threads and of the server, arrivals at the barriers, flags, and the
  messages under way to the server and to the clients.
\<close>

record sync =
  todo :: "thread_id \<Rightarrow> event list"
  srv :: "server_event list"
  arrived :: "nat \<Rightarrow> nat"
  flag :: "nat \<Rightarrow> bool"
  to_srv :: "thread_id \<Rightarrow> nat"
  to_cli :: "thread_id \<Rightarrow> nat"

text \<open>\<open>stale\<close> counts the messages that are at an endpoint before the shutdown begins.\<close>

definition sync_start :: "nat \<Rightarrow> nat \<Rightarrow> (thread_id \<Rightarrow> nat) \<Rightarrow> sync" where
  "sync_start K T stale = \<lparr>todo = (\<lambda>c. run_events (snd c = 0)), srv = launch_events K T, arrived = (\<lambda>_. 0),
     flag = (\<lambda>_. False), to_srv = (\<lambda>_. 0), to_cli = stale\<rparr>"

inductive sync_step :: "nat \<Rightarrow> nat \<Rightarrow> sync \<Rightarrow> sync \<Rightarrow> bool" for K T where
  arrive: "c \<in> set (threads_of K T) \<Longrightarrow> todo s c = Arrive # es \<Longrightarrow>
    sync_step K T s (s\<lparr>todo := (todo s)(c := Await (arrived s (fst c) div T) # es),
      arrived := (arrived s)(fst c := arrived s (fst c) + 1)\<rparr>)"
| await: "c \<in> set (threads_of K T) \<Longrightarrow> todo s c = Await ph # es \<Longrightarrow> ph < arrived s (fst c) div T \<Longrightarrow>
    sync_step K T s (s\<lparr>todo := (todo s)(c := es)\<rparr>)"
| set_done: "c \<in> set (threads_of K T) \<Longrightarrow> todo s c = SetDone # es \<Longrightarrow>
    sync_step K T s (s\<lparr>todo := (todo s)(c := es), flag := (flag s)(fst c := True)\<rparr>)"
| send_ack: "c \<in> set (threads_of K T) \<Longrightarrow> todo s c = SendAck # es \<Longrightarrow>
    sync_step K T s (s\<lparr>todo := (todo s)(c := es), to_srv := (to_srv s)(c := to_srv s c + 1)\<rparr>)"
| recv_ack: "c \<in> set (threads_of K T) \<Longrightarrow> todo s c = RecvAck # es \<Longrightarrow> 0 < to_cli s c \<Longrightarrow>
    sync_step K T s (s\<lparr>todo := (todo s)(c := es), to_cli := (to_cli s)(c := to_cli s c - 1)\<rparr>)"
| poll_done: "srv s = PollDone # es \<Longrightarrow> flag s 0 \<Longrightarrow> sync_step K T s (s\<lparr>srv := es\<rparr>)"
| collect: "srv s = CollectAck c # es \<Longrightarrow> 0 < to_srv s c \<Longrightarrow>
    sync_step K T s (s\<lparr>srv := es, to_srv := (to_srv s)(c := to_srv s c - 1)\<rparr>)"
| answer: "srv s = Answer c # es \<Longrightarrow>
    sync_step K T s (s\<lparr>srv := es, to_cli := (to_cli s)(c := to_cli s c + 1)\<rparr>)"

inductive reachable :: "nat \<Rightarrow> nat \<Rightarrow> (thread_id \<Rightarrow> nat) \<Rightarrow> sync \<Rightarrow> bool" for K T stale where
  start: "reachable K T stale (sync_start K T stale)"
| step: "reachable K T stale s \<Longrightarrow> sync_step K T s s' \<Longrightarrow> reachable K T stale s'"

section \<open>Invariants\<close>

text \<open>The forms the rest of a thread can have; a thread that waits waits for its latest arrival.\<close>

definition tail_events :: "bool \<Rightarrow> event list" where
  "tail_events master = (if master then [SetDone] else []) @ [SendAck, RecvAck]"

definition forms :: "bool \<Rightarrow> event list set" where
  "forms master =
     {Arrive # Arrive # Arrive # tail_events master, Await 0 # Arrive # Arrive # tail_events master,
      Arrive # Arrive # tail_events master, Await 1 # Arrive # tail_events master,
      Arrive # tail_events master, Await 2 # tail_events master,
      tail_events master, [SendAck, RecvAck], [RecvAck], []}"

fun waiting :: "event list \<Rightarrow> bool" where
  "waiting (Await ph # es) = True"
| "waiting es = False"

abbreviation arrivals_of :: "event list \<Rightarrow> nat" where
  "arrivals_of es \<equiv> 3 - length (filter (\<lambda>e. e = Arrive) es)"

abbreviation barrier_phase :: "nat \<Rightarrow> sync \<Rightarrow> nat \<Rightarrow> nat" where
  "barrier_phase T s k \<equiv> arrived s k div T"

definition inv_forms :: "nat \<Rightarrow> nat \<Rightarrow> sync \<Rightarrow> bool" where
  "inv_forms K T s \<longleftrightarrow> (\<forall>k < K. \<forall>t < T. todo s (k, t) \<in> forms (t = 0))"

text \<open>The barrier counts the arrivals; a thread that waits may be one arrival ahead of the phase.\<close>

definition inv_barrier :: "nat \<Rightarrow> nat \<Rightarrow> sync \<Rightarrow> bool" where
  "inv_barrier K T s \<longleftrightarrow> (\<forall>k < K. arrived s k = (\<Sum>t < T. arrivals_of (todo s (k, t))) \<and>
     (\<forall>t < T. barrier_phase T s k \<le> arrivals_of (todo s (k, t)) \<and>
        arrivals_of (todo s (k, t)) \<le> barrier_phase T s k + of_bool (waiting (todo s (k, t)))))"

definition inv_flag :: "nat \<Rightarrow> sync \<Rightarrow> bool" where
  "inv_flag K s \<longleftrightarrow> (\<forall>k < K. flag s k \<longleftrightarrow> SetDone \<notin> set (todo s (k, 0)))"

definition inv_server :: "nat \<Rightarrow> nat \<Rightarrow> sync \<Rightarrow> bool" where
  "inv_server K T s \<longleftrightarrow> (\<exists>pre. launch_events K T = pre @ srv s) \<and> (PollDone \<notin> set (srv s) \<longrightarrow> flag s 0)"

text \<open>Every message is accounted for: what was sent and what was taken.\<close>

definition inv_messages :: "nat \<Rightarrow> nat \<Rightarrow> (thread_id \<Rightarrow> nat) \<Rightarrow> sync \<Rightarrow> bool" where
  "inv_messages K T stale s \<longleftrightarrow> (\<forall>c \<in> set (threads_of K T).
     to_srv s c + of_bool (CollectAck c \<notin> set (srv s)) = (of_bool (SendAck \<notin> set (todo s c)) :: nat) \<and>
     to_cli s c + of_bool (RecvAck \<notin> set (todo s c)) = stale c + (of_bool (Answer c \<notin> set (srv s)) :: nat))"

lemma in_threads [simp]: "(k, t) \<in> set (threads_of K T) \<longleftrightarrow> k < K \<and> t < T"
  by (auto simp: threads_of_def)

lemma thread_cases:
  assumes "c \<in> set (threads_of K T)"
  obtains k t where "c = (k, t)" "k < K" "t < T"
  using assms by (metis in_threads surj_pair)

lemma inv_formsD: "inv_forms K T s \<Longrightarrow> k < K \<Longrightarrow> t < T \<Longrightarrow> todo s (k, t) = es \<Longrightarrow> es \<in> forms (t = 0)"
  by (auto simp: inv_forms_def)

lemma inv_barrierD:
  assumes "inv_barrier K T s" "k < K"
  shows "arrived s k = (\<Sum>t < T. arrivals_of (todo s (k, t)))"
    and "t < T \<Longrightarrow> barrier_phase T s k \<le> arrivals_of (todo s (k, t))"
    and "t < T \<Longrightarrow> arrivals_of (todo s (k, t)) \<le> barrier_phase T s k + of_bool (waiting (todo s (k, t)))"
  using assms unfolding inv_barrier_def by blast+

lemma forms_run: "run_events m \<in> forms m"
  by (simp add: forms_def run_events_def start_events_def stop_events_def tail_events_def)

lemmas forms_defs = forms_def tail_events_def

lemma forms_arrive:
  "Arrive # es \<in> forms m \<Longrightarrow> Await (arrivals_of (Arrive # es)) # es \<in> forms m \<and>
    arrivals_of es = Suc (arrivals_of (Arrive # es)) \<and> SendAck \<in> set es \<and> RecvAck \<in> set es"
  by (cases m) (auto simp: forms_defs)

lemma forms_await:
  "Await ph # es \<in> forms m \<Longrightarrow> es \<in> forms m \<and> arrivals_of es = Suc ph \<and> \<not> waiting es \<and>
    SendAck \<in> set es \<and> RecvAck \<in> set es"
  by (cases m) (auto simp: forms_defs)

lemma forms_set_done:
  "SetDone # es \<in> forms m \<Longrightarrow> es = [SendAck, RecvAck] \<and> m"
  by (cases m) (auto simp: forms_defs)

lemma forms_send: "SendAck # es \<in> forms m \<Longrightarrow> es = [RecvAck]"
  by (cases m) (auto simp: forms_defs)

lemma forms_recv: "RecvAck # es \<in> forms m \<Longrightarrow> es = []"
  by (cases m) (auto simp: forms_defs)

lemma forms_short: "[SendAck, RecvAck] \<in> forms m" "[RecvAck] \<in> forms m" "[] \<in> forms m"
  by (auto simp: forms_def)

text \<open>One more arrival at a barrier at which all threads are in phase \<open>p\<close> or one ahead.\<close>

lemma barrier_arrival:
  fixes f :: "nat \<Rightarrow> nat"
  assumes "u < T" "n = (\<Sum>t < T. f t)" "f u = n div T" "\<forall>t < T. n div T \<le> f t \<and> f t \<le> Suc (n div T)"
    and g: "g = f(u := Suc (f u))"
  shows "Suc n = (\<Sum>t < T. g t)" "t < T \<Longrightarrow> Suc n div T \<le> g t" "t < T \<Longrightarrow> g t \<le> Suc (n div T)" "n div T \<le> Suc n div T"
proof -
  let ?p = "n div T"
  show sum: "Suc n = (\<Sum>t < T. g t)"
    using assms(1,2) by (simp add: g sum.remove [of "{..<T}" u])
  have le: "g t \<le> Suc ?p" if "t < T" for t using assms(3,4) that by (auto simp: g)
  then show "t < T \<Longrightarrow> g t \<le> Suc ?p" .
  show "?p \<le> Suc n div T" by (simp add: div_le_mono)
  assume t: "t < T"
  show "Suc n div T \<le> g t"
  proof (rule ccontr)
    assume lt: "\<not> Suc n div T \<le> g t"
    have "?p \<le> g t" using assms(3,4) t by (auto simp: g)
    then have "Suc ?p \<le> Suc n div T" using lt by simp
    then have big: "T * Suc ?p \<le> Suc n"
      using mult_le_mono2 [of "Suc ?p" "Suc n div T" T] times_div_less_eq_dividend [of T "Suc n"] by linarith
    have "Suc n div T \<le> Suc ?p"
      using div_le_mono [of "Suc n" "n + T" T] assms(1) by simp
    then have "g t < Suc ?p" using lt by simp
    then have "(\<Sum>t < T. g t) < (\<Sum>t < T. Suc ?p)" using t le by (intro sum_strict_mono_ex1) auto
    then show False using big sum by simp
  qed
qed

lemma thread_change:
  assumes "inv_forms K T s" "inv_barrier K T s" "k < K" "u < T" "es \<in> forms (u = 0)"
    "arrivals_of es = arrivals_of (todo s (k, u))" "arrivals_of es \<le> barrier_phase T s k"
    "todo s' = (todo s)((k, u) := es)" "arrived s' = arrived s"
  shows "inv_forms K T s' \<and> inv_barrier K T s'"
proof
  show "inv_forms K T s'" using assms(1,5,8) by (auto simp: inv_forms_def)
  have "arrivals_of (todo s' c) = arrivals_of (todo s c)" for c using assms(6,8) by auto
  note e = this
  show "inv_barrier K T s'"
    unfolding inv_barrier_def
  proof (intro allI impI)
    fix j
    assume j: "j < K"
    have "arrivals_of (todo s (j, t)) \<le> barrier_phase T s j + of_bool (waiting (todo s' (j, t)))" if "t < T" for t
      using inv_barrierD(3) [OF assms(2) j that] assms(6-8) by (cases "(j, t) = (k, u)") auto
    then show "arrived s' j = (\<Sum>t < T. arrivals_of (todo s' (j, t))) \<and> (\<forall>t < T. barrier_phase T s' j \<le> arrivals_of (todo s' (j, t)) \<and>
        arrivals_of (todo s' (j, t)) \<le> barrier_phase T s' j + of_bool (waiting (todo s' (j, t))))"
      using inv_barrierD(1,2) [OF assms(2) j] by (simp only: e assms(9)) simp
  qed
qed

lemma inv_threads_cong:
  "todo s' = todo s \<Longrightarrow> arrived s' = arrived s \<Longrightarrow>
    inv_forms K T s' = inv_forms K T s \<and> inv_barrier K T s' = inv_barrier K T s"
  by (simp only: inv_forms_def inv_barrier_def)

lemma step_threads:
  assumes "sync_step K T s s'" "inv_forms K T s" "inv_barrier K T s"
  shows "inv_forms K T s' \<and> inv_barrier K T s'"
  using assms(1)
proof cases
  case (arrive c es)
  obtain k u where c: "c = (k, u)" "k < K" "u < T" using arrive(2) by (rule thread_cases)
  let ?f = "\<lambda>t. arrivals_of (todo s (k, t))" let ?p = "barrier_phase T s k"
  have f: "Arrive # es \<in> forms (u = 0)" using inv_formsD [OF assms(2) c(2,3)] arrive(3) c(1) by simp
  note fa = forms_arrive [OF f]
  have b: "arrived s k = (\<Sum>t < T. ?f t)" "\<And>t. t < T \<Longrightarrow> ?p \<le> ?f t \<and> ?f t \<le> ?p + of_bool (waiting (todo s (k, t)))"
    using inv_barrierD [OF assms(3) c(2)] by blast+
  have fu: "?f u = ?p" using b(2) [OF c(3)] arrive(3) c(1) by auto
  have fb: "\<forall>t < T. ?p \<le> ?f t \<and> ?f t \<le> Suc ?p" using b(2) by (fastforce split: if_splits simp: of_bool_def)
  let ?g = "\<lambda>t. arrivals_of (todo s' (k, t))"
  have g: "?g = ?f(u := Suc (?f u))" using arrive(1,3) fa c(1) by (auto simp: fun_eq_iff)
  note arr = barrier_arrival [OF c(3) b(1) fu fb g]
  have "inv_forms K T s'"
    using assms(2) arrive(1,3) fa fu c by (auto simp: inv_forms_def)
  moreover have "inv_barrier K T s'"
    unfolding inv_barrier_def
  proof (intro allI impI)
    fix j
    assume j: "j < K"
    show "arrived s' j = (\<Sum>t < T. arrivals_of (todo s' (j, t))) \<and> (\<forall>t < T. barrier_phase T s' j \<le> arrivals_of (todo s' (j, t)) \<and>
        arrivals_of (todo s' (j, t)) \<le> barrier_phase T s' j + of_bool (waiting (todo s' (j, t))))"
    proof (cases "j = k")
      case True
      have a: "arrived s' k = Suc (arrived s k)" using arrive(1) c(1) by simp
      have "?g t \<le> Suc (arrived s k) div T + of_bool (waiting (todo s' (k, t)))" if t: "t < T" for t
      proof (cases "t = u")
        case True
        have "Suc ?p \<le> Suc (Suc (arrived s k) div T)" using arr(4) by (simp only: Suc_le_mono)
        from order_trans [OF arr(3) [OF t] this] show ?thesis using True arrive(1) c(1) by simp
      next
        case False
        have "?f t \<le> Suc (arrived s k) div T + of_bool (waiting (todo s (k, t)))"
          by (rule order_trans [OF conjunct2 [OF b(2) [OF t]] add_right_mono [OF arr(4)]])
        then show ?thesis using False arrive(1) c(1) by simp
      qed
      then show ?thesis using True a arr(1,2) by simp
    next
      case False
      then have e: "todo s' (j, t) = todo s (j, t)" "arrived s' j = arrived s j" for t using arrive(1) c(1) by simp_all
      show ?thesis unfolding e using inv_barrierD [OF assms(3) j] by blast
    qed
  qed
  ultimately show ?thesis ..
next
  case (await c ph es)
  obtain k u where c: "c = (k, u)" "k < K" "u < T" using await(2) by (rule thread_cases)
  have "Await ph # es \<in> forms (u = 0)" using inv_formsD [OF assms(2) c(2,3)] await(3) c(1) by simp
  then show ?thesis
    using thread_change [OF assms(2,3) c(2,3), of es s'] forms_await [of ph es "u = 0"] await c(1) by simp
next
  case (set_done c es)
  obtain k u where c: "c = (k, u)" "k < K" "u < T" using set_done(2) by (rule thread_cases)
  have "SetDone # es \<in> forms (u = 0)" "arrivals_of (todo s (k, u)) \<le> barrier_phase T s k"
    using inv_formsD [OF assms(2) c(2,3)] inv_barrierD(3) [OF assms(3) c(2,3)] set_done(3) c(1) by simp_all
  then show ?thesis
    using thread_change [OF assms(2,3) c(2,3), of es s'] forms_set_done [of es "u = 0"] forms_short set_done c(1) by simp
next
  case (send_ack c es)
  obtain k u where c: "c = (k, u)" "k < K" "u < T" using send_ack(2) by (rule thread_cases)
  have "SendAck # es \<in> forms (u = 0)" "arrivals_of (todo s (k, u)) \<le> barrier_phase T s k"
    using inv_formsD [OF assms(2) c(2,3)] inv_barrierD(3) [OF assms(3) c(2,3)] send_ack(3) c(1) by simp_all
  then show ?thesis
    using thread_change [OF assms(2,3) c(2,3), of es s'] forms_send [of es "u = 0"] forms_short send_ack c(1) by simp
next
  case (recv_ack c es)
  obtain k u where c: "c = (k, u)" "k < K" "u < T" using recv_ack(2) by (rule thread_cases)
  have "RecvAck # es \<in> forms (u = 0)" "arrivals_of (todo s (k, u)) \<le> barrier_phase T s k"
    using inv_formsD [OF assms(2) c(2,3)] inv_barrierD(3) [OF assms(3) c(2,3)] recv_ack(3) c(1) by simp_all
  then show ?thesis
    using thread_change [OF assms(2,3) c(2,3), of es s'] forms_recv [of es "u = 0"] forms_short recv_ack c(1) by simp
qed (use assms(2,3) inv_threads_cong [of s' s K T] in simp_all)

lemma step_flag:
  assumes "sync_step K T s s'" "inv_forms K T s" "inv_flag K s" "0 < T"
  shows "inv_flag K s'"
  using assms(1)
proof cases
  case (arrive c es)
  obtain k u where c: "c = (k, u)" "k < K" "u < T" using arrive(2) by (rule thread_cases)
  then show ?thesis using assms(3) arrive(1,3) by (auto simp: inv_flag_def)
next
  case (await c ph es)
  then show ?thesis using assms(3) by (auto simp: inv_flag_def)
next
  case (set_done c es)
  obtain k u where c: "c = (k, u)" "k < K" "u < T" using set_done(2) by (rule thread_cases)
  then show ?thesis
    using assms(3) set_done forms_set_done [of es "u = 0"] inv_formsD [OF assms(2) c(2,3)] by (auto simp: inv_flag_def)
next
  case (send_ack c es)
  then show ?thesis using assms(3) by (auto simp: inv_flag_def)
next
  case (recv_ack c es)
  then show ?thesis using assms(3) by (auto simp: inv_flag_def)
qed (use assms(3) in \<open>simp_all add: inv_flag_def\<close>)

lemma launch_distinct: "distinct (launch_events K T)"
  by (auto simp: launch_events_def threads_of_def distinct_map distinct_product inj_on_def)

lemma server_next:
  assumes "inv_server K T s" "srv s = e # es"
  shows "\<exists>pre. launch_events K T = pre @ es" "e \<notin> set es"
proof -
  obtain pre where pre: "launch_events K T = pre @ e # es" using assms by (auto simp: inv_server_def)
  then show "\<exists>pre. launch_events K T = pre @ es" by (intro exI [of _ "pre @ [e]"]) simp
  show "e \<notin> set es" using launch_distinct [of K T] pre by simp
qed

lemma step_server:
  assumes "sync_step K T s s'" "inv_server K T s"
  shows "inv_server K T s'"
  using assms(1)
proof cases
  case (poll_done es)
  then show ?thesis using server_next(1) [OF assms(2)] by (simp add: inv_server_def)
next
  case (collect c es)
  then show ?thesis using server_next(1) [OF assms(2)] assms(2) by (simp add: inv_server_def)
next
  case (answer c es)
  then show ?thesis using server_next(1) [OF assms(2)] assms(2) by (simp add: inv_server_def)
qed (use assms(2) in \<open>auto simp: inv_server_def\<close>)

lemma inv_messagesD:
  assumes "inv_messages K T stale s" "c \<in> set (threads_of K T)"
  shows "to_srv s c + of_bool (CollectAck c \<notin> set (srv s)) = (of_bool (SendAck \<notin> set (todo s c)) :: nat)"
    and "to_cli s c + of_bool (RecvAck \<notin> set (todo s c)) = stale c + (of_bool (Answer c \<notin> set (srv s)) :: nat)"
  using assms unfolding inv_messages_def by blast+

lemma step_messages:
  assumes "sync_step K T s s'" "inv_messages K T stale s" "inv_forms K T s" "inv_server K T s"
  shows "inv_messages K T stale s'"
  unfolding inv_messages_def
proof (intro ballI)
  fix d
  assume d: "d \<in> set (threads_of K T)"
  note old = inv_messagesD [OF assms(2) d]
  have f: "es \<in> forms (snd d = 0)" if "todo s d = es" for es
    using inv_formsD [OF assms(3)] d that by (cases d) auto
  from assms(1)
  show "to_srv s' d + of_bool (CollectAck d \<notin> set (srv s')) = (of_bool (SendAck \<notin> set (todo s' d)) :: nat) \<and>
     to_cli s' d + of_bool (RecvAck \<notin> set (todo s' d)) = stale d + (of_bool (Answer d \<notin> set (srv s')) :: nat)"
  proof cases
    case (arrive c es)
    then show ?thesis using old by (cases "c = d") auto
  next
    case (await c ph es)
    then show ?thesis using old by (cases "c = d") auto
  next
    case (set_done c es)
    then show ?thesis using old by (cases "c = d") auto
  next
    case (send_ack c es)
    then show ?thesis using old forms_send [of es "snd d = 0"] f by (cases "c = d") auto
  next
    case (recv_ack c es)
    then show ?thesis using old forms_recv [of es "snd d = 0"] f by (cases "c = d") auto
  next
    case (poll_done es)
    then show ?thesis using old by auto
  next
    case (collect c es)
    then show ?thesis using old server_next(2) [OF assms(4) collect(2)] by (cases "c = d") auto
  next
    case (answer c es)
    then show ?thesis using old server_next(2) [OF assms(4) answer(2)] by (cases "c = d") auto
  qed
qed

lemma sync_inv:
  assumes "reachable K T stale s" "0 < T"
  shows "inv_forms K T s \<and> inv_barrier K T s \<and> inv_flag K s \<and> inv_server K T s \<and> inv_messages K T stale s"
  using assms(1)
proof induction
  case start
  have l: "length (filter (\<lambda>e. e = Arrive) (run_events m)) = 3" for m
    by (simp add: run_events_def start_events_def stop_events_def)
  have m: "SendAck \<in> set (run_events m)" "RecvAck \<in> set (run_events m)" "SetDone \<in> set (run_events True)" for m
    by (simp_all add: run_events_def stop_events_def)
  have sv: "PollDone \<in> set (launch_events K T)"
    "c \<in> set (threads_of K T) \<Longrightarrow> CollectAck c \<in> set (launch_events K T) \<and> Answer c \<in> set (launch_events K T)" for c
    by (auto simp: launch_events_def)
  show ?case
    using m sv by (simp add: inv_forms_def inv_barrier_def inv_flag_def inv_server_def inv_messages_def sync_start_def forms_run l)
next
  case (step s s')
  then show ?case
    using step_threads [OF step(2)] step_flag [OF step(2) _ _ assms(2)] step_server [OF step(2)] step_messages [OF step(2)] by blast
qed

text \<open>C30: in every interleaving the threads keep to the order of the source, a barrier counts exactly the arrivals of its
  node and no thread is more than one arrival ahead of its phase, the flag of a node is set exactly
  when its master client has passed its last barrier, and every message is accounted for.\<close>

theorem sync_invariant:
  assumes "reachable K T stale s" "0 < T"
  shows "inv_forms K T s \<and> inv_barrier K T s \<and> inv_flag K s \<and> inv_server K T s \<and> inv_messages K T stale s"
  by (rule sync_inv [OF assms])

theorem sync_invariant_witness:
  "inv_barrier 2 3 (sync_start 2 3 (\<lambda>_. 0)) \<and> inv_messages 2 3 (\<lambda>_. 0) (sync_start 2 3 (\<lambda>_. 0))"
  using sync_invariant [OF reachable.start [of 2 3 "\<lambda>_. 0"]] by simp

section \<open>Order\<close>

lemma forms_sent: "es \<in> forms m \<Longrightarrow> SendAck \<notin> set es \<Longrightarrow> es = [RecvAck] \<or> es = []"
  by (cases m) (auto simp: forms_defs)

lemma forms_no_set_done:
  "es \<in> forms True \<Longrightarrow> SetDone \<notin> set es \<Longrightarrow> arrivals_of es = 3 \<and> \<not> waiting es"
  by (auto simp: forms_defs)

lemma forms_arrives: "es \<in> forms m \<Longrightarrow> arrivals_of es = 3 \<Longrightarrow> Arrive \<notin> set es"
  by (cases m) (auto simp: forms_defs)

text \<open>The server answers only after it has collected from everybody.\<close>

lemma answered_after_collecting:
  assumes "inv_server K T s" "c \<in> set (threads_of K T)" "d \<in> set (threads_of K T)" "Answer c \<notin> set (srv s)"
  shows "CollectAck d \<notin> set (srv s)"
proof
  assume d: "CollectAck d \<in> set (srv s)"
  let ?cs = "threads_of K T"
  obtain pre where pre: "(PollDone # map CollectAck ?cs) @ map Answer ?cs = pre @ srv s"
    using assms(1) by (auto simp: inv_server_def launch_events_def)
  then consider us where "PollDone # map CollectAck ?cs = pre @ us" "us @ map Answer ?cs = srv s"
    | us where "(PollDone # map CollectAck ?cs) @ us = pre" "map Answer ?cs = us @ srv s"
    unfolding append_eq_append_conv2 by blast
  then show False
  proof cases
    case 1
    then have "Answer c \<in> set (srv s)" using assms(2) by (metis Un_iff imageI set_append set_map)
    then show ?thesis using assms(4) by simp
  next
    case 2
    then have "CollectAck d \<in> set (map Answer ?cs)" using d by simp
    then show ?thesis by auto
  qed
qed

text \<open>C33: a client that found no message at its endpoint when the shutdown began ends only after every client of every
  node has sent its message, so nobody's table is torn down while a client is still at work.\<close>

theorem finished_after_all_acks:
  assumes "reachable K T stale s" "0 < T" "c \<in> set (threads_of K T)" "stale c = 0" "todo s c = []"
    "d \<in> set (threads_of K T)"
  shows "todo s d = [RecvAck] \<or> todo s d = []"
proof -
  note inv = sync_inv [OF assms(1,2)]
  have "Answer c \<notin> set (srv s)" using inv inv_messagesD(2) [of K T stale s c] assms(3-5) by auto
  then have "CollectAck d \<notin> set (srv s)" using answered_after_collecting inv assms(3,6) by blast
  then have "SendAck \<notin> set (todo s d)" using inv inv_messagesD(1) [of K T stale s d] assms(6) by (auto split: if_splits)
  moreover have "todo s d \<in> forms (snd d = 0)" using inv inv_formsD [of K T s] assms(6) by (cases d) auto
  ultimately show ?thesis using forms_sent by blast
qed

text \<open>When the flag of a node is set, all its clients have arrived at the last barrier: their workloads are over.\<close>

theorem done_after_workloads:
  assumes "reachable K T stale s" "0 < T" "k < K" "flag s k" "t < T"
  shows "Arrive \<notin> set (todo s (k, t))"
proof -
  note inv = sync_inv [OF assms(1,2)]
  have m: "todo s (k, 0) \<in> forms True" "SetDone \<notin> set (todo s (k, 0))"
    using inv inv_formsD [of K T s k 0] assms by (auto simp: inv_flag_def)
  from forms_no_set_done [OF this] have "barrier_phase T s k = 3"
    using inv_barrierD(2,3) [of K T s k 0] inv assms(2,3) by force
  then have "arrivals_of (todo s (k, t)) = 3" using inv_barrierD(2) [of K T s k t] inv assms(3,5) by force
  moreover have "todo s (k, t) \<in> forms (t = 0)" using inv inv_formsD [of K T s k t] assms(3,5) by simp
  ultimately show ?thesis by (rule forms_arrives [rotated])
qed

section \<open>Progress\<close>

lemma forms_head:
  assumes "es \<in> forms m"
  shows "es = [] \<or> es = [RecvAck] \<or> (\<exists>es'. es = Arrive # es' \<or> es = SetDone # es' \<or> es = SendAck # es') \<or>
    (\<exists>ph es'. es = Await ph # es')"
  using assms by (cases m) (auto simp: forms_defs)

lemma forms_early: "es \<in> forms m \<Longrightarrow> arrivals_of es \<le> 2 \<Longrightarrow> (\<exists>es'. es = Arrive # es') \<or> (\<exists>es'. es = Await (arrivals_of es - 1) # es' \<and> 0 < arrivals_of es)"
  by (cases m) (auto simp: forms_defs)

lemma some_thread_behind:
  assumes "inv_barrier K T s" "k < K" "u < T" "arrivals_of (todo s (k, u)) = Suc (barrier_phase T s k)"
  shows "\<exists>t < T. arrivals_of (todo s (k, t)) = barrier_phase T s k"
proof (rule ccontr)
  let ?p = "barrier_phase T s k"
  assume "\<not> ?thesis"
  then have "Suc ?p \<le> arrivals_of (todo s (k, t))" if "t < T" for t
    using inv_barrierD(2) [OF assms(1,2) that] that by (metis le_neq_implies_less Suc_leI)
  then have "(\<Sum>t < T. Suc ?p) \<le> (\<Sum>t < T. arrivals_of (todo s (k, t)))" by (intro sum_mono) auto
  then have "T * Suc ?p \<le> arrived s k" using inv_barrierD(1) [OF assms(1,2)] by simp
  then have "T * Suc ?p div T \<le> ?p" by (rule div_le_mono)
  then show False using assms(3) by simp
qed

text \<open>A waiting thread is never the last: somebody of its node can move.\<close>

lemma await_not_stuck:
  assumes "inv_forms K T s" "inv_barrier K T s" "k < K" "u < T" "todo s (k, u) = Await ph # es"
  shows "\<exists>s'. sync_step K T s s'"
proof (cases "ph < barrier_phase T s k")
  case True
  then show ?thesis using sync_step.await [of "(k, u)" K T s ph es] assms(3-5) by auto
next
  case False
  let ?a = "\<lambda>t. arrivals_of (todo s (k, t))"
  have u: "?a u = Suc ph" using forms_await [of ph es "u = 0"] inv_formsD [OF assms(1,3,4)] assms(5) by simp
  then have "?a u = Suc (barrier_phase T s k)" using inv_barrierD(3) [OF assms(2,3,4)] False assms(5) by simp
  from some_thread_behind [OF assms(2-4) this] obtain t where t: "t < T" "?a t = barrier_phase T s k" by blast
  have "?a t \<le> 2" using t(2) u False by simp
  from forms_early [OF inv_formsD [OF assms(1,3) t(1) refl] this]
  show ?thesis
    using sync_step.arrive [of "(k, t)" K T s] sync_step.await [of "(k, t)" K T s] assms(3) t by auto
qed

lemma not_stuck:
  assumes "reachable K T stale s" "0 < T" "0 < K" "srv s \<noteq> [] \<or> (\<exists>c \<in> set (threads_of K T). todo s c \<noteq> [])"
  shows "\<exists>s'. sync_step K T s s'"
proof (rule ccontr)
  assume stuck: "\<not> ?thesis"
  note inv = sync_inv [OF assms(1,2)]
  have rest: "todo s c = [] \<or> todo s c = [RecvAck]" if c: "c \<in> set (threads_of K T)" for c
  proof -
    obtain k t where kt: "c = (k, t)" "k < K" "t < T" using c by (rule thread_cases)
    have f: "todo s c \<in> forms (t = 0)" using inv inv_formsD [of K T s k t] kt by simp
    show ?thesis
      using forms_head [OF f] await_not_stuck [of K T s k t] inv kt stuck sync_step.arrive [OF c, of s] sync_step.set_done [OF c, of s]
        sync_step.send_ack [OF c, of s] by blast
  qed
  have "flag s 0"
    using rest [of "(0, 0)"] inv assms(2,3) by (auto simp: inv_flag_def)
  have "srv s = []"
  proof (rule ccontr)
    assume "srv s \<noteq> []"
    then obtain e es where e: "srv s = e # es" by (cases "srv s") auto
    have "e \<in> set (launch_events K T)" using inv e by (auto simp: inv_server_def)
    then consider "e = PollDone" | c where "c \<in> set (threads_of K T)" "e = CollectAck c" | c where "e = Answer c"
      by (auto simp: launch_events_def)
    then show False
    proof cases
      case 1
      then show ?thesis using sync_step.poll_done [of s es K T] e \<open>flag s 0\<close> stuck by blast
    next
      case (2 c)
      then have "0 < to_srv s c" using inv_messagesD(1) [of K T stale s c] inv e rest [of c] by auto
      then show ?thesis using sync_step.collect [of s c es K T] e 2 stuck by blast
    next
      case (3 c)
      then show ?thesis using sync_step.answer [of s c es K T] e stuck by blast
    qed
  qed
  then obtain c where c: "c \<in> set (threads_of K T)" "todo s c = [RecvAck]" using assms(4) rest by blast
  then have "0 < to_cli s c" using inv_messagesD(2) [of K T stale s c] inv \<open>srv s = []\<close> by auto
  then show False using sync_step.recv_ack [of c K T s] c stuck by blast
qed

text \<open>What is left to do.\<close>

fun weight :: "event list \<Rightarrow> nat" where
  "weight [] = 0"
| "weight (e # es) = (if e = Arrive then 2 else 1) + weight es"

definition remaining :: "nat \<Rightarrow> nat \<Rightarrow> sync \<Rightarrow> nat" where
  "remaining K T s = (\<Sum>c \<in> set (threads_of K T). weight (todo s c)) + length (srv s)"

lemma remaining_thread:
  assumes "c \<in> set (threads_of K T)" "weight (todo s c) = Suc (weight es)" "todo s' = (todo s)(c := es)" "srv s' = srv s"
  shows "remaining K T s = Suc (remaining K T s')"
  using assms unfolding remaining_def by (simp add: sum.remove [of "set (threads_of K T)" c])

lemma remaining_step:
  assumes "sync_step K T s s'"
  shows "remaining K T s = Suc (remaining K T s')"
  using assms
proof cases
  case (arrive c es)
  then show ?thesis by (intro remaining_thread [OF arrive(2), of _ "Await (arrived s (fst c) div T) # es"]) auto
next
  case (await c ph es)
  then show ?thesis by (intro remaining_thread [OF await(2), of _ es]) auto
next
  case (set_done c es)
  then show ?thesis by (intro remaining_thread [OF set_done(2), of _ es]) auto
next
  case (send_ack c es)
  then show ?thesis by (intro remaining_thread [OF send_ack(2), of _ es]) auto
next
  case (recv_ack c es)
  then show ?thesis by (intro remaining_thread [OF recv_ack(2), of _ es]) auto
qed (simp_all add: remaining_def)

lemma remaining_decreases: "sync_step K T s s' \<Longrightarrow> remaining K T s' < remaining K T s"
  using remaining_step by fastforce

lemma remaining_start:
  assumes "0 < T"
  shows "remaining K T (sync_start K T stale) = 10 * K * T + K + 1"
proof -
  have w: "weight (run_events m) = 8 + of_bool m" for m
    by (simp add: run_events_def start_events_def stop_events_def)
  have "(\<Sum>t < T. 8 + of_bool (t = 0)) = 8 * T + (1 :: nat)"
    using assms by (induction T) (auto simp: of_bool_def)
  moreover have "(\<Sum>c \<in> {..<K} \<times> {..<T}. weight (run_events (snd c = 0))) = (\<Sum>k < K. \<Sum>t < T. 8 + of_bool (t = 0))"
    unfolding sum.cartesian_product by (rule sum.cong) (auto simp: w)
  moreover have "set (threads_of K T) = {..<K} \<times> {..<T}" by (auto simp: threads_of_def)
  ultimately have "(\<Sum>c \<in> set (threads_of K T). weight (run_events (snd c = 0))) = K * (8 * T + 1)"
    by (simp only: sum_constant card_lessThan mult_ac of_nat_id)
  moreover have "length (launch_events K T) = 1 + 2 * (K * T)" by (simp add: launch_events_def threads_of_def length_product)
  ultimately show ?thesis by (simp add: remaining_def sync_start_def algebra_simps)
qed

text \<open>
  Runs without end.  \<open>PollDone\<close> is a loop in the source: a look at the flag while it is not set is a turn of it that changes nothing.
  Once all are finished nothing happens any more.  A run is fair when the looks of the server do not keep the others from moving for ever.
\<close>

definition finished :: "nat \<Rightarrow> nat \<Rightarrow> sync \<Rightarrow> bool" where
  "finished K T s \<longleftrightarrow> srv s = [] \<and> (\<forall>c \<in> set (threads_of K T). todo s c = [])"

definition looks :: "sync \<Rightarrow> bool" where
  "looks s \<longleftrightarrow> (\<exists>es. srv s = PollDone # es) \<and> \<not> flag s 0"

definition polling_run :: "nat \<Rightarrow> nat \<Rightarrow> (thread_id \<Rightarrow> nat) \<Rightarrow> (nat \<Rightarrow> sync) \<Rightarrow> bool" where
  "polling_run K T stale f \<longleftrightarrow> f 0 = sync_start K T stale \<and>
     (\<forall>i. sync_step K T (f i) (f (Suc i)) \<or> f (Suc i) = f i \<and> (looks (f i) \<or> finished K T (f i)))"

definition fair :: "nat \<Rightarrow> nat \<Rightarrow> (nat \<Rightarrow> sync) \<Rightarrow> bool" where
  "fair K T f \<longleftrightarrow> (\<forall>i. finished K T (f i) \<or> (\<exists>j \<ge> i. sync_step K T (f j) (f (Suc j))))"

lemma finished_stops: "finished K T s \<Longrightarrow> \<not> sync_step K T s s'"
  by (auto simp: finished_def elim: sync_step.cases)

lemma polling_reachable: "polling_run K T stale f \<Longrightarrow> reachable K T stale (f i)"
proof (induction i)
  case (Suc i)
  then show ?case using reachable.step unfolding polling_run_def by metis
qed (simp add: polling_run_def reachable.start)

lemma polling_finishes:
  assumes "polling_run K T stale f" "fair K T f"
  shows "\<exists>j \<ge> i. finished K T (f j)"
proof (induction "remaining K T (f i)" arbitrary: i rule: less_induct)
  case less
  have later: "remaining K T (f j) \<le> remaining K T (f i)" if "i \<le> j" for j
    using that
  proof (induction rule: dec_induct)
    case (step n)
    then show ?case using assms(1) remaining_decreases unfolding polling_run_def by (metis le_trans less_imp_le)
  qed simp
  show ?case
  proof (cases "finished K T (f i)")
    case False
    then obtain j where j: "i \<le> j" "sync_step K T (f j) (f (Suc j))" using assms(2) by (auto simp: fair_def)
    have "remaining K T (f (Suc j)) < remaining K T (f i)" using remaining_decreases [OF j(2)] later [OF j(1)] by simp
    from less.hyps [OF this] j(1) show ?thesis by (meson Suc_leD le_trans)
  qed blast
qed

lemma polling_moves:
  assumes "polling_run K T stale f"
  shows "card {j. j < n \<and> sync_step K T (f j) (f (Suc j))} + remaining K T (f n) = remaining K T (f 0)"
proof (induction n)
  case (Suc n)
  let ?S = "\<lambda>n. {j. j < n \<and> sync_step K T (f j) (f (Suc j))}"
  show ?case
  proof (cases "sync_step K T (f n) (f (Suc n))")
    case True
    then have "?S (Suc n) = insert n (?S n)" by (auto simp: less_Suc_eq)
    then show ?thesis using Suc.IH remaining_step [OF True] by simp
  next
    case False
    then have "?S (Suc n) = ?S n" by (auto simp: less_Suc_eq)
    moreover have "f (Suc n) = f n" using False assms unfolding polling_run_def by metis
    ultimately show ?thesis using Suc.IH by simp
  qed
qed simp

text \<open>C31: the shutdown has no deadlock: in every reachable state in which a client or the server is not finished, some
  thread can move.\<close>

theorem shutdown_no_deadlock:
  assumes "reachable K T stale s" "0 < T" "0 < K" "srv s \<noteq> [] \<or> (\<exists>c \<in> set (threads_of K T). todo s c \<noteq> [])"
  shows "\<exists>s'. sync_step K T s s'"
  by (rule not_stuck [OF assms])

theorem shutdown_no_deadlock_witness: "\<exists>s'. sync_step 2 3 (sync_start 2 3 (\<lambda>_. 0)) s'"
  using shutdown_no_deadlock [OF reachable.start [of 2 3 "\<lambda>_. 0"]] by (simp add: sync_start_def launch_events_def)

text \<open>C32: the shutdown ends. Take any interleaving of the clients and the server, with any number of looks of the server at the
  flag while it is not set; let it be fair in the sense that these looks do not keep everybody else from moving for ever. Then
  it makes exactly \<open>10 K T + K + 1\<close> moves other than such looks, and from some
  point on all clients of all nodes and the server are finished, the flag of every node is set, every thread has been through its
  three barriers, every message to the server has been taken, and at the endpoints of the clients there are as many messages as before.\<close>

theorem shutdown_terminates:
  assumes "0 < T" "0 < K" "polling_run K T stale f" "fair K T f"
  shows "card {j. sync_step K T (f j) (f (Suc j))} = 10 * K * T + K + 1 \<and>
    (\<exists>i. \<forall>j \<ge> i. srv (f j) = [] \<and> (\<forall>k < K. flag (f j) k \<and> arrived (f j) k = 3 * T) \<and>
       (\<forall>c \<in> set (threads_of K T). todo (f j) c = [] \<and> to_srv (f j) c = 0 \<and> to_cli (f j) c = stale c))"
proof -
  obtain i where i: "finished K T (f i)" using polling_finishes [OF assms(3,4)] by blast
  have same: "f j = f i" if "i \<le> j" for j
    using that
  proof (induction rule: dec_induct)
    case (step n)
    then show ?case using i finished_stops assms(3) unfolding polling_run_def by metis
  qed simp
  have "{j. sync_step K T (f j) (f (Suc j))} = {j. j < i \<and> sync_step K T (f j) (f (Suc j))}"
    using same finished_stops [OF i] by (metis (lifting) not_le)
  moreover have "remaining K T (f i) = 0" using i by (simp add: finished_def remaining_def)
  ultimately have moves: "card {j. sync_step K T (f j) (f (Suc j))} = 10 * K * T + K + 1"
    using polling_moves [OF assms(3), of i] remaining_start [OF assms(1), of K stale] assms(3) by (simp add: polling_run_def)
  note inv = sync_inv [OF polling_reachable [OF assms(3), of i] assms(1)]
  have e: "srv (f i) = []" "\<And>k t. k < K \<Longrightarrow> t < T \<Longrightarrow> todo (f i) (k, t) = []" using i by (auto simp: finished_def)
  have "flag (f i) k \<and> arrived (f i) k = 3 * T" if "k < K" for k
    using inv inv_barrierD(1) [of K T "f i" k] that e(2) assms(1) by (auto simp: inv_flag_def)
  moreover have "todo (f i) c = [] \<and> to_srv (f i) c = 0 \<and> to_cli (f i) c = stale c" if c: "c \<in> set (threads_of K T)" for c
  proof -
    have "todo (f i) c = []" using e(2) c by (cases c) simp
    then show ?thesis using inv inv_messagesD(1,2) [of K T stale "f i" c] c e(1) by auto
  qed
  ultimately have "\<forall>j \<ge> i. srv (f j) = [] \<and> (\<forall>k < K. flag (f j) k \<and> arrived (f j) k = 3 * T) \<and>
       (\<forall>c \<in> set (threads_of K T). todo (f j) c = [] \<and> to_srv (f j) c = 0 \<and> to_cli (f j) c = stale c)"
    using same e(1) by metis
  then show ?thesis using moves by blast
qed

lemma reachable_end:
  assumes "reachable K T stale s" "0 < T" "0 < K"
  shows "\<exists>s'. reachable K T stale s' \<and> srv s' = [] \<and> (\<forall>c \<in> set (threads_of K T). todo s' c = [])"
  using assms(1)
proof (induction "remaining K T s" arbitrary: s rule: less_induct)
  case less
  show ?case
  proof (cases "srv s \<noteq> [] \<or> (\<exists>c \<in> set (threads_of K T). todo s c \<noteq> [])")
    case True
    then obtain s' where "sync_step K T s s'" using not_stuck [OF less.prems assms(2,3)] by blast
    then show ?thesis
      using less.hyps [OF remaining_decreases] less.prems reachable.step by blast
  next
    case False
    then show ?thesis using less.prems by blast
  qed
qed

text \<open>A complete shutdown of two nodes with three clients each.\<close>

lemma demo_end:
  obtains s where "reachable 2 3 (\<lambda>_. 0) s" "todo s (0, 0) = []" "flag s 0"
proof -
  obtain s where s: "reachable 2 3 (\<lambda>_. 0) s" "\<forall>c \<in> set (threads_of 2 3). todo s c = []"
    using reachable_end [OF reachable.start [of 2 3 "\<lambda>_. 0"]] by auto
  moreover have "flag s 0" using sync_inv [OF s(1)] s(2) by (auto simp: inv_flag_def)
  ultimately show ?thesis using that by auto
qed

theorem finished_after_all_acks_witness:
  "\<exists>s. reachable 2 3 (\<lambda>_. 0) s \<and> todo s (0, 0) = [] \<and> (todo s (1, 2) = [RecvAck] \<or> todo s (1, 2) = [])"
proof -
  obtain s where s: "reachable 2 3 (\<lambda>_. 0) s" "todo s (0, 0) = []" by (rule demo_end)
  then show ?thesis using finished_after_all_acks [OF s(1), of "(0, 0)" "(1, 2)"] by auto
qed

theorem done_after_workloads_witness:
  "\<exists>s. reachable 2 3 (\<lambda>_. 0) s \<and> flag s 0 \<and> Arrive \<notin> set (todo s (0, 2))"
proof -
  obtain s where s: "reachable 2 3 (\<lambda>_. 0) s" "flag s 0" by (rule demo_end)
  then show ?thesis using done_after_workloads [OF s(1), of 0 2] by auto
qed

text \<open>A run of two nodes with three clients each, in which the server looks at the flag five times before anybody moves.\<close>

lemma demo_run:
  assumes "0 < T" "0 < K"
  obtains f where "polling_run K T stale f" "fair K T f" "\<And>i. i < 5 \<Longrightarrow> f (Suc i) = f i"
proof -
  let ?next = "\<lambda>s. if finished K T s then s else SOME s'. sync_step K T s s'"
  let ?g = "\<lambda>i. (?next ^^ i) (sync_start K T stale)" let ?f = "\<lambda>i. ?g (i - 5)"
  have r: "reachable K T stale (?g i) \<and> (sync_step K T (?g i) (?g (Suc i)) \<or> ?g (Suc i) = ?g i \<and> finished K T (?g i))" for i
  proof -
    have n: "finished K T s \<or> sync_step K T s (?next s)" if "reachable K T stale s" for s
    proof (cases "finished K T s")
      case False
      then have "\<exists>s'. sync_step K T s s'" using not_stuck [OF that assms] unfolding finished_def by blast
      then show ?thesis using False by (simp add: someI_ex)
    qed simp
    have "reachable K T stale (?g i)"
    proof (induction i)
      case (Suc i)
      then show ?case using n [OF Suc.IH] reachable.step [OF Suc.IH] by (cases "finished K T (?g i)") auto
    qed (simp add: reachable.start)
    then show ?thesis using n [of "?g i"] by auto
  qed
  have early: "looks (sync_start K T stale)" by (simp add: looks_def sync_start_def launch_events_def)
  have "polling_run K T stale ?f"
    unfolding polling_run_def
  proof (intro conjI allI)
    fix i
    show "sync_step K T (?f i) (?f (Suc i)) \<or> ?f (Suc i) = ?f i \<and> (looks (?f i) \<or> finished K T (?f i))"
    proof (cases "i < 5")
      case False
      then have "Suc i - 5 = Suc (i - 5)" by simp
      then show ?thesis using r [of "i - 5"] by (simp only:) blast
    qed (use early in simp)
  qed simp
  moreover have "fair K T ?f"
    unfolding fair_def
  proof
    fix i :: nat
    let ?j = "max i 5"
    have "?j - 5 = i - 5" "Suc ?j - 5 = Suc (i - 5)" by simp_all
    then have "sync_step K T (?f ?j) (?f (Suc ?j)) \<or> finished K T (?f i)" using r [of "i - 5"] by (simp only:) blast
    then show "finished K T (?f i) \<or> (\<exists>j \<ge> i. sync_step K T (?f j) (?f (Suc j)))" by (meson max.cobounded1)
  qed
  ultimately show ?thesis using that [of ?f] by simp
qed

theorem shutdown_terminates_witness:
  "\<exists>f. polling_run 2 3 (\<lambda>_. 0) f \<and> (\<forall>i < 5. f (Suc i) = f i) \<and> card {j. sync_step 2 3 (f j) (f (Suc j))} = 63 \<and>
    (\<exists>i. srv (f i) = [] \<and> todo (f i) (1, 2) = [])"
proof -
  obtain f where f: "polling_run 2 3 (\<lambda>_. 0) f" "fair 2 3 f" "\<And>i. i < 5 \<Longrightarrow> f (Suc i) = f i"
    using demo_run [of 3 2 "\<lambda>_. 0"] by auto
  have "0 < (3 :: nat)" "0 < (2 :: nat)" by simp_all
  note t = shutdown_terminates [OF this f(1,2)]
  then obtain i where "srv (f i) = []" "\<forall>c \<in> set (threads_of 2 3). todo (f i) c = []" by blast
  moreover have "(1, 2) \<in> set (threads_of 2 3)" by simp
  moreover have "card {j. sync_step 2 3 (f j) (f (Suc j))} = 63" using conjunct1 [OF t] by simp
  ultimately show ?thesis using f(1,3) by blast
qed

section \<open>A message left over from the start-up\<close>

text \<open>The state in which only client 0 of node 0 has moved.\<close>

definition alone :: "event list \<Rightarrow> nat \<Rightarrow> bool \<Rightarrow> nat \<Rightarrow> nat \<Rightarrow> sync" where
  "alone es a f x y = \<lparr>todo = (\<lambda>c. run_events (snd c = 0))((0, 0) := es), srv = launch_events 2 1,
     arrived = (\<lambda>_. 0)(0 := a), flag = (\<lambda>_. False)(0 := f), to_srv = (\<lambda>_. 0)((0, 0) := x),
     to_cli = (\<lambda>_. 0)((0, 0) := y)\<rparr>"

lemma alone_steps:
  "sync_step 2 1 (alone (Arrive # es) a f x y) (alone (Await a # es) (a + 1) f x y)"
  "sync_step 2 1 (alone (Await a # es) (a + 1) f x y) (alone es (a + 1) f x y)"
  "sync_step 2 1 (alone (SetDone # es) a f x y) (alone es a True x y)"
  "sync_step 2 1 (alone (SendAck # es) a f x y) (alone es a f (x + 1) y)"
  "sync_step 2 1 (alone (RecvAck # es) a f x (y + 1)) (alone es a f x y)"
  using sync_step.arrive [of "(0, 0)" 2 1 "alone (Arrive # es) a f x y" es]
    sync_step.await [of "(0, 0)" 2 1 "alone (Await a # es) (a + 1) f x y" a es]
    sync_step.set_done [of "(0, 0)" 2 1 "alone (SetDone # es) a f x y" es]
    sync_step.send_ack [of "(0, 0)" 2 1 "alone (SendAck # es) a f x y" es]
    sync_step.recv_ack [of "(0, 0)" 2 1 "alone (RecvAck # es) a f x (y + 1)" es]
  by (simp_all add: alone_def)

lemmas alone_chain = reachable.step [OF _ alone_steps(1)] reachable.step [OF _ alone_steps(2)]
  reachable.step [OF _ alone_steps(3)] reachable.step [OF _ alone_steps(4)] reachable.step [OF _ alone_steps(5)]

text \<open>A message that was at the endpoint of the host's client before the shutdown, as the pointer exchange leaves one,
  defeats the order: the client can end while another node's client is still before its first
  barrier and the server has not moved.\<close>

theorem stale_message_ends_early:
  "\<exists>s. reachable 2 1 (\<lambda>c. if c = (0, 0) then 1 else 0) s \<and> todo s (0, 0) = [] \<and>
    todo s (1, 0) = run_events True \<and> srv s = launch_events 2 1"
proof -
  let ?R = "reachable 2 1 (\<lambda>c. if c = (0, 0) then 1 else 0)"
  have "sync_start 2 1 (\<lambda>c. if c = (0, 0) then 1 else 0) = alone (run_events True) 0 False 0 1"
    by (auto simp: sync_start_def alone_def fun_eq_iff)
  then have "?R (alone (Arrive # Arrive # Arrive # SetDone # SendAck # [RecvAck]) 0 False 0 1)"
    using reachable.start [of 2 1 "\<lambda>c. if c = (0, 0) then 1 else 0"]
    by (simp add: run_events_def start_events_def stop_events_def)
  from alone_chain(4) [OF alone_chain(3) [OF alone_chain(2) [OF alone_chain(1) [OF alone_chain(2) [OF alone_chain(1)
      [OF alone_chain(2) [OF alone_chain(1) [OF this]]]]]]]]
  have "?R (alone [RecvAck] 3 True 1 (0 + 1))" by (simp add: numeral_3_eq_3)
  then have "?R (alone [] 3 True 1 0)" by (rule alone_chain(5))
  then show ?thesis by (intro exI [of _ "alone [] 3 True 1 0"]) (simp add: alone_def sync_start_def)
qed

end
