(* ===== verification/Main_Program.thy ===== *)
theory Main_Program
  imports Server
begin

text \<open>
  \<^verbatim>\<open>main.cc\<close> and \<^verbatim>\<open>context_manager.h\<close>: how an experiment is laid out on the nodes.  The number
  of memory pools and the list of peers, which pool and which peer a thread uses, which threads
  create a table and which obtain it, the connections of the server and of the clients, and the
  release of the connections at exit.

  Parsing of flags and of the protocol buffer, the pools themselves and the files written at
  the end belong to the libraries.
\<close>

section \<open>Layout of an experiment\<close>

datatype main_result = Exits int | Throws | Aborts | Continues

text \<open>The flags and the checks before anything is started.\<close>

definition check_start :: "bool \<Rightarrow> bool \<Rightarrow> bool \<Rightarrow> ExperimentParams \<Rightarrow> main_result" where
  "check_start bulk_operations test_operations do_exp ps =
     (if \<not> (\<not> bulk_operations \<and> \<not> test_operations \<and> do_exp) then Aborts
      else if node_count ps \<le> 0 \<or> thread_count ps \<le> 0 then Exits 1
      else if node_id ps \<ge> node_count ps then Exits 0
      else Continues)"

text \<open>
  \<^verbatim>\<open>std::min(thread_count, (int) std::floor(qp_max / node_count))\<close>: the division is one of
  \<^verbatim>\<open>int\<close>s, which cuts towards zero.
\<close>

definition int_div :: "int \<Rightarrow> int \<Rightarrow> int" where
  "int_div a b = sgn a * sgn b * (\<bar>a\<bar> div \<bar>b\<bar>)"

definition memory_pools :: "ExperimentParams \<Rightarrow> int" where
  "memory_pools ps =
     (let mp = min (thread_count ps) (int_div (qp_max ps) (node_count ps)) in
      if mp = 0 then 1 else mp)"

definition portNum :: nat where "portNum = 18000"

definition mk_peer :: "int \<Rightarrow> 16 word \<Rightarrow> Peer" where
  "mk_peer mp n = \<lparr>peer_id = unat n, peer_address = ''node'' @ to_string (uint n div mp),
     peer_port = unat (of_nat portNum + n)\<rparr>"

text \<open>The loop \<^verbatim>\<open>for (uint16_t n = 0; n < mp * node_count; n++)\<close>; \<open>None\<close> is a loop still running.\<close>

fun peers_loop :: "nat \<Rightarrow> int \<Rightarrow> int \<Rightarrow> 16 word \<Rightarrow> Peer list \<Rightarrow> Peer list option" where
  "peers_loop 0 mp bound n acc = None"
| "peers_loop (Suc fuel) mp bound n acc =
     (if uint n < bound then peers_loop fuel mp bound (n + 1) (acc @ [mk_peer mp n]) else Some acc)"

definition make_peers :: "nat \<Rightarrow> ExperimentParams \<Rightarrow> Peer list option" where
  "make_peers fuel ps = peers_loop fuel (memory_pools ps) (memory_pools ps * node_count ps) 0 []"

text \<open>\<^verbatim>\<open>peers.at(i)\<close>, which throws out of range.\<close>

definition peers_at :: "Peer list \<Rightarrow> int \<Rightarrow> Peer option" where
  "peers_at peers i = (if 0 \<le> i \<and> i < int (length peers) then Some (peers ! nat i) else None)"

text \<open>What client thread \<open>thread_index\<close> is given: its pool, its peer and whether it is the master.\<close>

definition mempool_index :: "ExperimentParams \<Rightarrow> int \<Rightarrow> int" where
  "mempool_index ps thread_index = thread_index mod memory_pools ps"

definition thread_self :: "ExperimentParams \<Rightarrow> Peer list \<Rightarrow> int \<Rightarrow> Peer option" where
  "thread_self ps peers thread_index =
     peers_at peers (node_id ps * memory_pools ps + mempool_index ps thread_index)"

text \<open>A thread whose peer is the host creates a table and sends its address; the others obtain it.\<close>

datatype role = Creates | Obtains

definition thread_role :: "ExperimentParams \<Rightarrow> Peer list \<Rightarrow> int \<Rightarrow> role option" where
  "thread_role ps peers thread_index =
     (case (peers_at peers 0, thread_self ps peers thread_index) of
        (Some host, Some self) \<Rightarrow> Some (if peer_id self = peer_id host then Creates else Obtains)
      | _ \<Rightarrow> None)"

definition thread_client :: "(real \<Rightarrow> real) \<Rightarrow> ExperimentParams \<Rightarrow> Peer list \<Rightarrow> int \<Rightarrow> Client option" where
  "thread_client rnd ps peers thread_index =
     map_option (\<lambda>host. Client_new rnd host (EndpointContext_new (of_int thread_index)) ps True (thread_index = 0))
       (peers_at peers 0)"

text \<open>The fraction of the keys a client inserts before the experiment.\<close>

definition populate_fraction :: "(real \<Rightarrow> real) \<Rightarrow> ExperimentParams \<Rightarrow> real" where
  "populate_fraction rnd ps = rnd (0.5 / of_int (node_count ps * thread_count ps))"

section \<open>Connections\<close>

text \<open>The server thread accepts one connection per thread of every node; a failed accept is not repeated.\<close>

fun accept_all :: "nat \<Rightarrow> nat \<Rightarrow> ('a, 'r) tcp_io \<Rightarrow> ('a, 'r) tcp_io" where
  "accept_all 0 this k = k"
| "accept_all (Suc n) this k = accept_conn this (\<lambda>ok. accept_all n this k)"

definition server_thread :: "nat \<Rightarrow> ExperimentParams \<Rightarrow> 'r client_io \<Rightarrow> 'r client_io" where
  "server_thread fuel ps k =
     sm_getInstance False (\<lambda>manager. case manager of
       None \<Rightarrow> Crash
     | Some this \<Rightarrow>
         accept_all (nat (thread_count ps * node_count ps)) this (
         Launch fuel (runtime ps) (\<lambda>k'. k') k))"

text \<open>The endpoints of a node, one for each of its client threads; \<^verbatim>\<open>i\<close> is a \<^verbatim>\<open>uint16_t\<close>.\<close>

fun endpoints_loop :: "nat \<Rightarrow> int \<Rightarrow> string \<Rightarrow> 16 word \<Rightarrow> ('a, 'r) tcp_io \<Rightarrow> ('a, 'r) tcp_io" where
  "endpoints_loop 0 bound ip i k = Starved"
| "endpoints_loop (Suc fuel) bound ip i k =
     (if uint i < bound then
        em_getInstance (EndpointContext_new i) (Some ip) (\<lambda>manager. case manager of
          None \<Rightarrow> Crash
        | Some this \<Rightarrow>
            is_init (EndpointContext_new i) (\<lambda>ok.
            if ok then endpoints_loop fuel bound ip (i + 1) k else Exit ''Assertion failed''))
      else k)"

text \<open>The handler \<^verbatim>\<open>exiting\<close>.\<close>

definition exiting :: "('a, 'r) tcp_io \<Rightarrow> ('a, 'r) tcp_io" where
  "exiting k =
     sm_getInstance True (\<lambda>socket_handle. case socket_handle of
       None \<Rightarrow> em_releaseResources k
     | Some this \<Rightarrow> sm_releaseResources (em_releaseResources k))"

text \<open>\<^verbatim>\<open>ContextManger\<close> runs its cleanup when the scope it guards is left.\<close>

definition ContextManger :: "(('a, 'r) tcp_io \<Rightarrow> ('a, 'r) tcp_io) \<Rightarrow> (('a, 'r) tcp_io \<Rightarrow> ('a, 'r) tcp_io)
    \<Rightarrow> ('a, 'r) tcp_io \<Rightarrow> ('a, 'r) tcp_io" where
  "ContextManger clean scope k = scope (clean k)"

section \<open>Pools and peers\<close>

lemma pools_bounds:
  assumes "check_start False False True ps = Continues" "0 \<le> qp_max ps"
  shows "1 \<le> memory_pools ps \<and> memory_pools ps \<le> thread_count ps \<and>
    (node_count ps \<le> qp_max ps \<longrightarrow> memory_pools ps * node_count ps \<le> qp_max ps)"
proof -
  have p: "0 < node_count ps" "0 < thread_count ps" using assms(1) by (auto simp: check_start_def split: if_splits)
  have d: "int_div (qp_max ps) (node_count ps) = qp_max ps div node_count ps"
    using p assms(2) by (simp add: int_div_def sgn_if)
  have nn: "0 \<le> qp_max ps div node_count ps" using p assms(2) by (simp add: pos_imp_zdiv_nonneg_iff)
  have "memory_pools ps * node_count ps \<le> qp_max ps" if "node_count ps \<le> qp_max ps"
  proof -
    have "0 < qp_max ps div node_count ps" using that p by (simp add: pos_imp_zdiv_pos_iff)
    then have "memory_pools ps \<le> qp_max ps div node_count ps" using p by (simp add: memory_pools_def d Let_def)
    then have "memory_pools ps * node_count ps \<le> qp_max ps div node_count ps * node_count ps"
      using p by (intro mult_right_mono) auto
    also have "\<dots> \<le> qp_max ps"
      using div_mult_mod_eq [of "qp_max ps" "node_count ps"] pos_mod_sign [OF p(1), of "qp_max ps"] by linarith
    finally show ?thesis .
  qed
  then show ?thesis using p nn by (auto simp: memory_pools_def d Let_def)
qed

lemma pools_maximal:
  assumes "check_start False False True ps = Continues" "0 \<le> qp_max ps" "memory_pools ps < thread_count ps"
  shows "qp_max ps < (memory_pools ps + 1) * node_count ps"
proof -
  let ?n = "node_count ps" and ?d = "qp_max ps div node_count ps"
  have p: "0 < ?n" "0 < thread_count ps" using assms(1) by (auto simp: check_start_def split: if_splits)
  have d: "int_div (qp_max ps) ?n = ?d" using p assms(2) by (simp add: int_div_def sgn_if)
  have "?d \<le> memory_pools ps" using assms(3) by (auto simp: memory_pools_def d Let_def min_def split: if_splits)
  then have "(?d + 1) * ?n \<le> (memory_pools ps + 1) * ?n" using p by (intro mult_right_mono) auto
  moreover have "(?d + 1) * ?n = ?d * ?n + ?n" by (simp add: distrib_right)
  then have "qp_max ps < (?d + 1) * ?n"
    using pos_mod_bound [OF p(1), of "qp_max ps"] div_mult_mod_eq [of "qp_max ps" ?n] by linarith
  ultimately show ?thesis by linarith
qed

text \<open>C40: with a non-negative number of queue pairs an experiment uses at least one memory pool and at most one per
  thread. If there are no more nodes than queue pairs, the pools of all nodes together are no more than
  the queue pairs; and the number is not lower than it has to be: unless there is one pool per thread already, one more pool on
  every node would be more than the queue pairs.\<close>

theorem memory_pools_bounds:
  assumes "check_start False False True ps = Continues" "0 \<le> qp_max ps"
  shows "1 \<le> memory_pools ps \<and> memory_pools ps \<le> thread_count ps \<and>
    (node_count ps \<le> qp_max ps \<longrightarrow> memory_pools ps * node_count ps \<le> qp_max ps) \<and>
    (memory_pools ps < thread_count ps \<longrightarrow> qp_max ps < (memory_pools ps + 1) * node_count ps)"
  using pools_bounds [OF assms] pools_maximal [OF assms] by blast

definition sample_params :: "int \<Rightarrow> int \<Rightarrow> int \<Rightarrow> int \<Rightarrow> ExperimentParams" where
  "sample_params threads nodes qps node = \<lparr>unlimited_stream = True, op_count = 10000, p_contains = 80, p_insert = 10,
     key_lb = 0, key_ub = 100000, thread_count = threads, node_count = nodes, qp_max = qps, node_id = node, runtime = 5\<rparr>"

theorem memory_pools_bounds_witness:
  "memory_pools (sample_params 10 4 30 0) = 7"
proof -
  have "check_start False False True (sample_params 10 4 30 0) = Continues" "0 \<le> qp_max (sample_params 10 4 30 0)"
    by (simp_all add: sample_params_def check_start_def)
  from memory_pools_bounds [OF this] show ?thesis unfolding sample_params_def ExperimentParams.simps by presburger
qed

lemma uint_small: "j < 2 ^ 16 \<Longrightarrow> uint (of_nat j :: 16 word) = int j"
  by (simp add: unsigned_of_nat take_bit_nat_eq_self)

lemma peers_loop_runs:
  assumes "j \<le> b" "b < 2 ^ 16" "b - j < fuel"
  shows "peers_loop fuel mp (int b) (of_nat j) acc = Some (acc @ map (\<lambda>i. mk_peer mp (of_nat i)) [j..<b])"
  using assms
proof (induction fuel arbitrary: j acc)
  case (Suc fuel)
  show ?case
  proof (cases "j < b")
    case True
    have "peers_loop fuel mp (int b) (of_nat (Suc j)) (acc @ [mk_peer mp (of_nat j)]) =
        Some ((acc @ [mk_peer mp (of_nat j)]) @ map (\<lambda>i. mk_peer mp (of_nat i)) [Suc j..<b])"
      using Suc.IH [of "Suc j"] Suc.prems True by simp
    then show ?thesis using True Suc.prems(2) uint_small [of j] by (simp add: add.commute upt_conv_Cons)
  next
    case False
    then show ?thesis using Suc.prems uint_small [of j] by simp
  qed
qed simp

lemma peers_loop_endless: "2 ^ 16 \<le> bound \<Longrightarrow> peers_loop fuel mp bound n acc = None"
proof (induction fuel arbitrary: n acc)
  case (Suc fuel)
  have "uint n < 2 ^ 16" using unsigned_less [of n] by simp
  then show ?case using Suc by simp
qed simp

text \<open>C38: the loop that makes the peers ends, with enough fuel, exactly when their number fits into the 16-bit loop counter;
  peer \<open>i\<close> then has identifier \<open>i\<close> and lives on node \<open>i / mp\<close>, so that identifiers are different.  With
  65536 or more peers the counter wraps around and the loop never ends.\<close>

theorem make_peers_ok:
  assumes "0 \<le> memory_pools ps * node_count ps"
  shows "(memory_pools ps * node_count ps < 2 ^ 16 \<longrightarrow>
      (\<exists>peers. make_peers (Suc (nat (memory_pools ps * node_count ps))) ps = Some peers \<and>
        int (length peers) = memory_pools ps * node_count ps \<and> map peer_id peers = [0..<length peers] \<and>
        (\<forall>i < length peers. peer_address (peers ! i) = ''node'' @ to_string (int i div memory_pools ps)))) \<and>
    (2 ^ 16 \<le> memory_pools ps * node_count ps \<longrightarrow> (\<forall>fuel. make_peers fuel ps = None))"
proof (intro conjI impI allI)
  let ?mp = "memory_pools ps" let ?n = "nat (?mp * node_count ps)"
  assume small: "?mp * node_count ps < 2 ^ 16"
  have n: "?mp * node_count ps = int ?n" "?n < 2 ^ 16" using assms small by (auto simp: nat_less_iff)
  let ?peers = "map (\<lambda>i. mk_peer ?mp (of_nat i)) [0..<?n]"
  have id: "peer_id (mk_peer ?mp (of_nat i)) = i" "peer_address (mk_peer ?mp (of_nat i)) = ''node'' @ to_string (int i div ?mp)"
    if "i < ?n" for i
    using that n(2) uint_small [of i] by (simp_all add: mk_peer_def unsigned_of_nat take_bit_nat_eq_self)
  have "make_peers (Suc ?n) ps = Some ?peers"
    using peers_loop_runs [of 0 ?n "Suc ?n" ?mp "[]"] n by (simp add: make_peers_def)
  moreover have "map peer_id ?peers = [0..<?n]" by (rule nth_equalityI) (simp_all add: id)
  ultimately show "\<exists>peers. make_peers (Suc ?n) ps = Some peers \<and> int (length peers) = ?mp * node_count ps \<and>
      map peer_id peers = [0..<length peers] \<and>
      (\<forall>i < length peers. peer_address (peers ! i) = ''node'' @ to_string (int i div ?mp))"
    using n(1) id by (intro exI [of _ ?peers]) simp
next
  fix fuel
  assume "2 ^ 16 \<le> memory_pools ps * node_count ps"
  then show "make_peers fuel ps = None" unfolding make_peers_def by (rule peers_loop_endless)
qed

text \<open>The peers of an experiment that was laid out.\<close>

definition laid_out :: "ExperimentParams \<Rightarrow> Peer list \<Rightarrow> bool" where
  "laid_out ps peers \<longleftrightarrow> check_start False False True ps = Continues \<and> 0 \<le> qp_max ps \<and> 0 \<le> node_id ps \<and>
     int (length peers) = memory_pools ps * node_count ps \<and> map peer_id peers = [0..<length peers]"

lemma peers_at_id:
  assumes "map peer_id peers = [0..<length peers]" "0 \<le> i" "i < int (length peers)"
  shows "\<exists>x. peers_at peers i = Some x \<and> int (peer_id x) = i"
proof -
  have i: "nat i < length peers" using assms(2,3) by linarith
  have "peer_id (peers ! nat i) = nat i"
    using arg_cong [OF assms(1), of "\<lambda>xs. xs ! nat i"] i by simp
  then show ?thesis using assms(2,3) by (simp add: peers_at_def)
qed

lemma thread_slot:
  assumes "1 \<le> mp" "0 \<le> m" "m + 1 \<le> (c :: int)"
  shows "0 \<le> m * mp + i mod mp" "m * mp + i mod mp < mp * c" "(m * mp + i mod mp) div mp = m"
    "m * mp + i mod mp = 0 \<longleftrightarrow> m = 0 \<and> mp dvd i"
proof -
  have r: "0 \<le> i mod mp" "i mod mp < mp" using assms(1) by (simp_all only: pos_mod_sign pos_mod_bound)
  have m: "0 \<le> m * mp" using assms(1,2) by (intro mult_nonneg_nonneg) linarith+
  show "0 \<le> m * mp + i mod mp" using r m by linarith
  have "mp * (m + 1) \<le> mp * c" using assms by (intro mult_left_mono) linarith+
  then show "m * mp + i mod mp < mp * c" using r by (simp only: distrib_left mult.commute [of m mp] mult_1_right)
  show "(m * mp + i mod mp) div mp = m" using r assms(1) by (simp add: div_pos_pos_trivial)
  have "m * mp + i mod mp = 0 \<longleftrightarrow> m * mp = 0 \<and> i mod mp = 0" using r m by linarith
  then show "m * mp + i mod mp = 0 \<longleftrightarrow> m = 0 \<and> mp dvd i" using assms(1) by (simp add: dvd_eq_mod_eq_0)
qed

lemma multiples_single:
  assumes "1 \<le> (mp :: int)" "mp \<le> t"
  shows "is_singleton {i \<in> {0..<t}. mp dvd i} \<longleftrightarrow> mp = t"
proof
  assume "is_singleton {i \<in> {0..<t}. mp dvd i}"
  then obtain x where x: "{i \<in> {0..<t}. mp dvd i} = {x}" by (rule is_singletonE)
  have "0 \<in> {i \<in> {0..<t}. mp dvd i}" using assms by simp
  then have "mp \<notin> {i \<in> {0..<t}. mp dvd i}" unfolding x using assms(1) by (simp only: singleton_iff)
  then show "mp = t" using assms by simp
next
  assume t: "mp = t"
  have "i = 0" if "0 \<le> i" "i < t" "mp dvd i" for i using zdvd_not_zless [of i mp] that t by (cases "i = 0") auto
  then have "{i \<in> {0..<t}. mp dvd i} = {0}" using assms by (intro set_eqI) auto
  then show "is_singleton {i \<in> {0..<t}. mp dvd i}" by (simp only: is_singletonI)
qed

text \<open>C37: every client thread finds a peer, on its own node, and the threads that create a table are exactly those of node 0
  whose number is a multiple of the number of pools: there is one of them exactly when there are
  as many pools as threads, otherwise several tables are created.\<close>

theorem table_creators:
  assumes "laid_out ps peers"
  shows "(\<forall>i \<in> {0..<thread_count ps}. \<exists>self. thread_self ps peers i = Some self \<and>
      int (peer_id self) div memory_pools ps = node_id ps) \<and>
    {i \<in> {0..<thread_count ps}. thread_role ps peers i = Some Creates} =
      (if node_id ps = 0 then {i \<in> {0..<thread_count ps}. memory_pools ps dvd i} else {}) \<and>
    (node_id ps = 0 \<longrightarrow> (is_singleton {i \<in> {0..<thread_count ps}. thread_role ps peers i = Some Creates} \<longleftrightarrow>
      memory_pools ps = thread_count ps))"
proof -
  let ?mp = "memory_pools ps" and ?T = "thread_count ps"
  have lay: "check_start False False True ps = Continues" "0 \<le> qp_max ps" "0 \<le> node_id ps"
    "int (length peers) = ?mp * node_count ps" "map peer_id peers = [0..<length peers]"
    using assms by (simp_all add: laid_out_def)
  have mp: "1 \<le> ?mp" "?mp \<le> ?T" using pools_bounds [OF lay(1,2)] by blast+
  have nid: "node_id ps + 1 \<le> node_count ps" using lay(1) by (simp add: check_start_def split: if_splits)
  note slot = thread_slot [OF mp(1) lay(3) nid]
  have self: "\<exists>self. thread_self ps peers i = Some self \<and> int (peer_id self) = node_id ps * ?mp + i mod ?mp" for i
    unfolding thread_self_def mempool_index_def using lay(4,5) slot(1,2) by (intro peers_at_id) simp_all
  have "0 < int (length peers)" using slot(1,2) [of 0] lay(4) by linarith
  then obtain host where host: "peers_at peers 0 = Some host" "peer_id host = 0"
    using peers_at_id [OF lay(5), of 0] by auto
  have role: "thread_role ps peers i = Some Creates \<longleftrightarrow> node_id ps = 0 \<and> ?mp dvd i" for i
  proof -
    obtain x where x: "thread_self ps peers i = Some x" "int (peer_id x) = node_id ps * ?mp + i mod ?mp" using self by blast
    have "peer_id x = 0 \<longleftrightarrow> node_id ps = 0 \<and> ?mp dvd i" using x(2) slot(4) [of i] by linarith
    then show ?thesis using x(1) host by (simp add: thread_role_def)
  qed
  have sets: "{i \<in> {0..<?T}. thread_role ps peers i = Some Creates} =
      (if node_id ps = 0 then {i \<in> {0..<?T}. ?mp dvd i} else {})"
    unfolding role by (cases "node_id ps = 0") simp_all
  have "\<exists>self. thread_self ps peers i = Some self \<and> int (peer_id self) div ?mp = node_id ps" for i
    using self [of i] slot(3) [of i] by auto
  then show ?thesis unfolding sets using multiples_single [OF mp] by simp
qed

text \<open>Ten threads on each of four nodes with sixteen queue pairs: four pools, and three creators on node 0.\<close>

definition sample_peers :: "Peer list" where
  "sample_peers = map (\<lambda>i. mk_peer 4 (of_nat i)) [0..<16]"

lemma sample_laid_out: "laid_out (sample_params 10 4 16 0) sample_peers"
  by (simp add: laid_out_def sample_params_def sample_peers_def check_start_def memory_pools_def int_div_def mk_peer_def upt_rec)

theorem table_creators_witness:
  "{i \<in> {0..<10}. thread_role (sample_params 10 4 16 0) sample_peers i = Some Creates} = {0, 4, 8}"
proof -
  have "{i \<in> {0..<10}. (4 :: int) dvd i} = {0, 4, 8}" by (auto; presburger)
  then show ?thesis
    using table_creators [OF sample_laid_out] by (simp add: sample_params_def memory_pools_def int_div_def)
qed

theorem make_peers_ok_witness:
  "\<exists>peers. make_peers 17 (sample_params 10 4 16 0) = Some peers \<and> length peers = 16 \<and>
    peer_address (peers ! 7) = ''node'' @ to_string 1"
  using make_peers_ok [of "sample_params 10 4 16 0"] by (auto simp: sample_params_def memory_pools_def int_div_def)

section \<open>Connections\<close>

text \<open>The server's accept loop asks for exactly as many connections as it is told; it records those answers that are
  connections, in the order in which they were given, and a failed accept is not made up for.\<close>

theorem accept_all_records:
  assumes "obj_at (sm_objs (mems s p)) this = Some x"
    and "\<And>w. os p (Accept (sm_sockfd x)) w = Some (R_int (answer w), after w)"
  shows "\<exists>s'. io_run os p (accept_all n this (Ret ())) s = Returned () s' \<and>
    obj_at (sm_objs (mems s' p)) this = Some (x\<lparr>client_sockets := client_sockets x @
      filter (\<lambda>c. c \<noteq> -1) (map (\<lambda>i. answer ((after ^^ i) (world s))) [0..<n])\<rparr>)"
  using assms
proof (induction n arbitrary: s x)
  case 0
  then show ?case by simp
next
  case (Suc n)
  let ?w = "after (world s)" and ?c = "answer (world s)"
  let ?x = "x\<lparr>client_sockets := client_sockets x @ filter (\<lambda>c. c \<noteq> -1) [?c]\<rparr>"
  let ?s = "if ?c = -1 then s\<lparr>world := ?w\<rparr>
    else set_mem p ((mems s p)\<lparr>sm_objs := (sm_objs (mems s p))[this := Some ?x]\<rparr>) (s\<lparr>world := ?w\<rparr>)"
  have "this < length (sm_objs (mems s p))" using Suc.prems(1) by (simp add: obj_at_def split: if_splits)
  then have x: "obj_at (sm_objs (mems ?s p)) this = Some ?x" using Suc.prems(1) by (simp add: obj_at_def)
  have run: "io_run os p (accept_all (Suc n) this (Ret ())) s = io_run os p (accept_all n this (Ret ())) ?s"
    using Suc.prems by (simp add: accept_conn_def)
  have w: "world ?s = ?w" by simp
  have "map (\<lambda>i. answer ((after ^^ i) (world s))) [0..<Suc n] = ?c # map (\<lambda>i. answer ((after ^^ i) ?w)) [0..<n]"
    by (simp add: upt_conv_Cons map_Suc_upt [symmetric] funpow_swap1 o_def del: upt_Suc)
  then show ?case
    using Suc.IH [OF x] Suc.prems(2) unfolding run w by (cases "?c = -1") (simp_all del: upt_Suc)
qed

theorem accept_all_records_witness:
  "\<exists>s'. io_run (\<lambda>p c w. Some (R_int 8, w)) 0 (accept_all 3 0 (Ret ())) two_clients = Returned () s' \<and>
    obj_at (sm_objs (mems s' 0)) 0 = Some \<lparr>sm_sockfd = 3, client_sockets = [5, 7, 8, 8, 8]\<rparr>"
  using accept_all_records [OF two_clients_facts(2), of "\<lambda>p c w. Some (R_int 8, w)" "\<lambda>w. 8" "\<lambda>w. w" 3]
  by (simp add: upt_rec)

text \<open>Releasing the endpoints, one after the other.\<close>

lemma release_endpoints_run:
  assumes "\<forall>f w. \<exists>i w'. os p (Close f) w = Some (R_int i, w')" "distinct (map snd es)"
    "\<forall>(i, q) \<in> set es. obj_at (em_objs (mems s p)) q \<noteq> None"
  shows "\<exists>w objs. io_run os p (release_endpoints es k) s =
      io_run os p k (set_mem p ((mems s p)\<lparr>em_objs := objs\<rparr>) (s\<lparr>world := w\<rparr>)) \<and>
    (\<forall>(i, q) \<in> set es. obj_at objs q = None) \<and> (\<forall>q. obj_at (em_objs (mems s p)) q = None \<longrightarrow> obj_at objs q = None)"
  using assms(2,3)
proof (induction es arbitrary: s)
  case Nil
  then show ?case by (intro exI [of _ "world s"] exI [of _ "em_objs (mems s p)"]) simp
next
  case (Cons e es)
  obtain i q where e: "e = (i, q)" by fastforce
  obtain x where x: "obj_at (em_objs (mems s p)) q = Some x" using Cons.prems(2) by (auto simp: e)
  have len: "q < length (em_objs (mems s p))" using x by (simp add: obj_at_def split: if_splits)
  obtain j w1 where w1: "os p (Close (em_sockfd x)) (world s) = Some (R_int j, w1)" using assms(1) by blast
  define w2 where "w2 = (if em_sockfd x \<noteq> -1 then w1 else world s)"
  let ?s = "set_mem p ((mems s p)\<lparr>em_objs := (em_objs (mems s p))[q := None]\<rparr>) (s\<lparr>world := w2\<rparr>)"
  have run: "io_run os p (release_endpoints (e # es) k) s = io_run os p (release_endpoints es k) ?s"
    using x w1 by (auto simp: e w2_def)
  have upd: "obj_at ((em_objs (mems s p))[q := None]) r = (if r = q then None else obj_at (em_objs (mems s p)) r)" for r
    using len by (auto simp: obj_at_def)
  have "\<forall>(i, r) \<in> set es. obj_at (em_objs (mems ?s p)) r \<noteq> None"
    using Cons.prems by (force simp: e upd)
  moreover have "distinct (map snd es)" using Cons.prems(1) by simp
  ultimately obtain w objs where ih: "io_run os p (release_endpoints es k) ?s =
      io_run os p k (set_mem p ((mems ?s p)\<lparr>em_objs := objs\<rparr>) (?s\<lparr>world := w\<rparr>))"
    "\<forall>(i, q) \<in> set es. obj_at objs q = None" "\<forall>r. obj_at (em_objs (mems ?s p)) r = None \<longrightarrow> obj_at objs r = None"
    using Cons.IH by blast
  have same: "set_mem p ((mems ?s p)\<lparr>em_objs := objs\<rparr>) (?s\<lparr>world := w\<rparr>) =
      set_mem p ((mems s p)\<lparr>em_objs := objs\<rparr>) (s\<lparr>world := w\<rparr>)"
    by simp
  have gone: "obj_at objs r = None" if "r = q \<or> obj_at (em_objs (mems s p)) r = None" for r
    using spec [OF ih(3), of r] that by (auto simp: upd split: if_splits)
  show ?case
    unfolding run ih(1) same using ih(2) gone by (intro exI [of _ w] exI [of _ objs] conjI refl) (simp_all add: e)
qed

text \<open>The exit handler does not fault, with or without a server instance, because it asks for the instance without
  creating one; it deletes the instance and every endpoint of the table.\<close>

theorem exiting_releases:
  assumes "\<And>f w. \<exists>i w'. os p (Close f) w = Some (R_int i, w')" "endpoints_ok (mems s p)" "\<not> held (mems s p) EM_syncer"
    "\<And>this. sm_self (mems s p) = Some this \<Longrightarrow> obj_at (sm_objs (mems s p)) this \<noteq> None"
  shows "\<exists>s'. io_run os p (exiting (Ret ())) s = Returned () s' \<and>
    (\<forall>(i, q) \<in> set (em_self (mems s p)). obj_at (em_objs (mems s' p)) q = None) \<and>
    (\<forall>this. sm_self (mems s p) = Some this \<longrightarrow> obj_at (sm_objs (mems s' p)) this = None)"
proof -
  have closes: "\<forall>f w. \<exists>i w'. os p (Close f) w = Some (R_int i, w')" using assms(1) by blast
  have em: "\<exists>s'. io_run os p (em_releaseResources (Ret ())) t = Returned () s' \<and> sm_objs (mems s' p) = sm_objs (mems t p) \<and>
      (\<forall>(i, q) \<in> set (em_self (mems t p)). obj_at (em_objs (mems s' p)) q = None)"
    if t: "em_self (mems t p) = em_self (mems s p)" "em_objs (mems t p) = em_objs (mems s p)" "\<not> held (mems t p) EM_syncer" for t
  proof -
    let ?t = "set_mem p ((mems t p)\<lparr>held := (held (mems t p))(EM_syncer := True)\<rparr>) t"
    have d: "distinct (map snd (em_self (mems t p)))"
      and live: "\<forall>(i, q) \<in> set (em_self (mems t p)). obj_at (em_objs (mems ?t p)) q \<noteq> None"
      using assms(2) t(1,2) by (simp_all add: endpoints_ok_def)
    obtain w objs where "io_run os p (release_endpoints (em_self (mems t p)) (mutex_unlock EM_syncer (Ret ()))) ?t =
        io_run os p (mutex_unlock EM_syncer (Ret ())) (set_mem p ((mems ?t p)\<lparr>em_objs := objs\<rparr>) (?t\<lparr>world := w\<rparr>))"
      "\<forall>(i, q) \<in> set (em_self (mems t p)). obj_at objs q = None"
      using release_endpoints_run [where os = os and p = p and es = "em_self (mems t p)" and s = ?t
          and k = "mutex_unlock EM_syncer (Ret ())", OF closes d live] by blast
    then show ?thesis using t(3) by (auto simp: em_releaseResources_def)
  qed
  show ?thesis
  proof (cases "sm_self (mems s p)")
    case None
    then show ?thesis using em [of s] assms(3) by (auto simp: exiting_def sm_getInstance_def)
  next
    case (Some this)
    obtain x where x: "obj_at (sm_objs (mems s p)) this = Some x" using assms(4) Some by auto
    let ?k = "upd (\<lambda>m. m\<lparr>sm_objs := (sm_objs m)[this := None]\<rparr>) (em_releaseResources (Ret ()))"
    obtain w where w: "io_run os p (close_all (client_sockets x @ (if sm_sockfd x \<noteq> -1 then [sm_sockfd x] else [])) ?k) s =
        io_run os p ?k (s\<lparr>world := w\<rparr>)"
      using close_all_run [where os = os and p = p] assms(1) by blast
    let ?t = "set_mem p ((mems s p)\<lparr>sm_objs := (sm_objs (mems s p))[this := None]\<rparr>) (s\<lparr>world := w\<rparr>)"
    have "io_run os p (exiting (Ret ())) s = io_run os p (em_releaseResources (Ret ())) ?t"
      using w Some x by (auto simp: exiting_def sm_getInstance_def sm_releaseResources_def close_all_append)
    moreover have "obj_at ((sm_objs (mems s p))[this := None]) this = None" by (simp add: obj_at_def)
    ultimately show ?thesis using em [of ?t] assms(3) Some by auto
  qed
qed

theorem exiting_releases_witness:
  "\<exists>s'. io_run loop_os 0 (exiting (Ret ())) two_clients = Returned () s' \<and> obj_at (sm_objs (mems s' 0)) 0 = None \<and>
    obj_at (em_objs (mems s' 0)) 0 = None"
  using exiting_releases [of loop_os 0 two_clients]
  by (auto simp: two_clients_def mem_start_def endpoints_ok_def obj_at_def)

end
