(* ===== verification/Main_Pools.thy ===== *)
theory Main_Pools
  imports Main_Program
begin

text \<open>
  The part of \<^verbatim>\<open>main.cc\<close> that starts things: the memory pools of a node, the threads, and the total
  of the operations at the end.  What the constructor and \<^verbatim>\<open>Init\<close> of a pool do is library code; here
  is what they are called with, and which pool a thread is given.
\<close>

section \<open>Memory pools\<close>

text \<open>\<^verbatim>\<open>uint32_t block_size = 1 << region_size\<close>: a shift of an \<^verbatim>\<open>int\<close> by less than its width, else undefined.\<close>

definition block_size :: "int \<Rightarrow> 32 word option" where
  "block_size region_size =
     (if 0 \<le> region_size \<and> region_size < 32 then Some (push_bit (nat region_size) 1) else None)"

text \<open>The arguments of a pool's constructor: its peer, the identifier of its connection manager, whether threads share it.\<close>

record Pool =
  pool_self :: Peer
  pool_connections :: nat
  pool_shared :: bool

text \<open>
  One of the threads that make the pools.  \<open>init\<close> is the status of \<^verbatim>\<open>Init\<close>, an error unless it is
  \<open>None\<close>; an error aborts the program, and so does a peer out of range.
\<close>

definition make_pool :: "(Pool \<Rightarrow> 32 word \<Rightarrow> Peer list \<Rightarrow> 'e option) \<Rightarrow> 32 word \<Rightarrow> ExperimentParams \<Rightarrow> Peer list \<Rightarrow> int
    \<Rightarrow> main_result + Pool" where
  "make_pool init bs ps peers self_index =
     (case peers_at peers self_index of
        None \<Rightarrow> Inl Throws
      | Some self \<Rightarrow>
          (let pool = \<lparr>pool_self = self, pool_connections = peer_id self, pool_shared = memory_pools ps \<noteq> thread_count ps\<rparr> in
           case init pool bs peers of Some e \<Rightarrow> Inl Aborts | None \<Rightarrow> Inr pool))"

text \<open>
  The threads write different entries of \<^verbatim>\<open>pools\<close> and all are joined, so their order does not matter;
  a failure of any of them ends the program.
\<close>

fun make_pools_loop :: "(int \<Rightarrow> main_result + Pool) \<Rightarrow> nat \<Rightarrow> nat \<Rightarrow> main_result + Pool list" where
  "make_pools_loop f i 0 = Inr []"
| "make_pools_loop f i (Suc n) =
     (case f (int i) of
        Inl e \<Rightarrow> Inl e
      | Inr pool \<Rightarrow> (case make_pools_loop f (Suc i) n of Inl e \<Rightarrow> Inl e | Inr pools \<Rightarrow> Inr (pool # pools)))"

definition make_pools :: "(Pool \<Rightarrow> 32 word \<Rightarrow> Peer list \<Rightarrow> 'e option) \<Rightarrow> int \<Rightarrow> ExperimentParams \<Rightarrow> Peer list
    \<Rightarrow> (main_result + Pool list) option" where
  "make_pools init region_size ps peers =
     (case block_size region_size of
        None \<Rightarrow> None
      | Some bs \<Rightarrow>
          Some (make_pools_loop (\<lambda>i. make_pool init bs ps peers (node_id ps * memory_pools ps + i)) 0 (nat (memory_pools ps))))"

text \<open>\<^verbatim>\<open>pools[mempool_index]\<close>.\<close>

definition thread_pool :: "ExperimentParams \<Rightarrow> Pool list \<Rightarrow> int \<Rightarrow> Pool option" where
  "thread_pool ps pools thread_index =
     (let i = mempool_index ps thread_index in
      if 0 \<le> i \<and> i < int (length pools) then Some (pools ! nat i) else None)"

section \<open>Threads\<close>

text \<open>\<^verbatim>\<open>hostname[4] == '0'\<close> in the buffer that \<^verbatim>\<open>gethostname\<close> has filled.\<close>

definition starts_server :: "string \<Rightarrow> bool" where
  "starts_server hostname = (hostname ! 4 = CHR ''0'')"

datatype started = Server_thread | Client_thread int

text \<open>The vector \<^verbatim>\<open>threads\<close>, in the order the threads are started and joined.\<close>

definition started_threads :: "string \<Rightarrow> ExperimentParams \<Rightarrow> started list" where
  "started_threads hostname ps =
     (if starts_server hostname then [Server_thread] else []) @ map Client_thread [0..thread_count ps - 1]"

text \<open>\<^verbatim>\<open>auto total_ops = 0\<close> is an \<^verbatim>\<open>int\<close>; the counters added to it are \<^verbatim>\<open>uint64_t\<close>.\<close>

fun total_loop :: "cint \<Rightarrow> uint64 list \<Rightarrow> cint" where
  "total_loop total_ops [] = total_ops"
| "total_loop total_ops (ops # results) = total_loop (ucast (scast total_ops + ops :: uint64)) results"

definition total_ops :: "uint64 list \<Rightarrow> cint" where
  "total_ops results = total_loop 0 results"

section \<open>Every thread has its pool\<close>

lemma make_pools_loop_ok:
  "(\<And>j. i \<le> j \<Longrightarrow> j < i + n \<Longrightarrow> \<exists>x. f (int j) = Inr x) \<Longrightarrow>
   \<exists>xs. make_pools_loop f i n = Inr xs \<and> length xs = n \<and> (\<forall>j < n. f (int (i + j)) = Inr (xs ! j))"
proof (induction n arbitrary: i)
  case (Suc n)
  obtain x where x: "f (int i) = Inr x" using Suc.prems [of i] by auto
  obtain xs where xs: "make_pools_loop f (Suc i) n = Inr xs" "length xs = n" "\<forall>j < n. f (int (Suc i + j)) = Inr (xs ! j)"
    using Suc.IH [of "Suc i"] Suc.prems by force
  have "f (int (i + j)) = Inr ((x # xs) ! j)" if "j < Suc n" for j
    using x xs(3) that by (cases j) simp_all
  then show ?case using x xs(1,2) by (intro exI [of _ "x # xs"]) simp
qed simp

text \<open>C39: on a node of an experiment that was laid out, all pools are made, each for its own peer of the node; every client
  thread then finds a pool that belongs to the peer the thread speaks as; and two threads have the same
  pool only if the pools were made to be shared.\<close>

theorem pools_match_threads:
  fixes init :: "Pool \<Rightarrow> 32 word \<Rightarrow> Peer list \<Rightarrow> 'e option"
  assumes "laid_out ps peers" "0 \<le> region_size" "region_size < 32" "\<And>pool bs. init pool bs peers = None"
  shows "\<exists>pools. make_pools init region_size ps peers = Some (Inr pools) \<and> int (length pools) = memory_pools ps \<and>
    distinct (map (\<lambda>pool. peer_id (pool_self pool)) pools) \<and>
    (\<forall>i \<in> {0..<thread_count ps}. \<exists>pool. thread_pool ps pools i = Some pool \<and> thread_self ps peers i = Some (pool_self pool) \<and>
       (\<forall>j \<in> {0..<thread_count ps}. thread_pool ps pools j = Some pool \<and> i \<noteq> j \<longrightarrow> pool_shared pool))"
proof -
  let ?mp = "memory_pools ps" and ?T = "thread_count ps"
  let ?pool = "\<lambda>self. \<lparr>pool_self = self, pool_connections = peer_id self, pool_shared = ?mp \<noteq> ?T\<rparr>"
  let ?f = "\<lambda>i. make_pool init (push_bit (nat region_size) 1) ps peers (node_id ps * ?mp + i)"
  have lay: "check_start False False True ps = Continues" "0 \<le> qp_max ps" "0 \<le> node_id ps"
    "int (length peers) = ?mp * node_count ps" "map peer_id peers = [0..<length peers]"
    using assms(1) by (simp_all add: laid_out_def)
  have mp: "1 \<le> ?mp" "?mp \<le> ?T" using pools_bounds [OF lay(1,2)] by blast+
  have nid: "node_id ps + 1 \<le> node_count ps" using lay(1) by (simp add: check_start_def split: if_splits)
  note slot = thread_slot [OF mp(1) lay(3) nid]
  have peer: "\<exists>x. peers_at peers (node_id ps * ?mp + i) = Some x \<and> int (peer_id x) = node_id ps * ?mp + i \<and> ?f i = Inr (?pool x)"
    if "0 \<le> i" "i < ?mp" for i
  proof -
    have m: "i mod ?mp = i" using that by simp
    have "\<exists>x. peers_at peers (node_id ps * ?mp + i) = Some x \<and> int (peer_id x) = node_id ps * ?mp + i"
      using slot(1,2) [of i] lay(4) unfolding m by (intro peers_at_id [OF lay(5)]) simp_all
    then show ?thesis using assms(4) by (auto simp: make_pool_def)
  qed
  have "\<exists>x. ?f (int j) = Inr x" if "0 \<le> j" "j < 0 + nat ?mp" for j using peer [of "int j"] that by (auto simp: zless_nat_eq_int_zless)
  from make_pools_loop_ok [of 0 "nat ?mp" ?f, OF this] obtain pools where p: "make_pools_loop ?f 0 (nat ?mp) = Inr pools" "length pools = nat ?mp"
    "\<forall>j < nat ?mp. ?f (int j) = Inr (pools ! j)" by auto
  have at: "\<exists>x. pools ! j = ?pool x \<and> peers_at peers (node_id ps * ?mp + int j) = Some x \<and> int (peer_id x) = node_id ps * ?mp + int j"
    if "j < nat ?mp" for j
    using peer [of "int j"] p(3) that by (auto simp: zless_nat_eq_int_zless)
  have ids: "peer_id (pool_self (pools ! j)) = nat (node_id ps * ?mp) + j" if "j < nat ?mp" for j
    using at [OF that] lay(3) mp(1) by (auto simp: nat_plus_as_int)
  have "distinct (map (\<lambda>pool. peer_id (pool_self pool)) pools)"
    by (auto simp: distinct_conv_nth p(2) ids)
  moreover have "make_pools init region_size ps peers = Some (Inr pools)"
    using assms(2,3) p(1) by (simp add: make_pools_def block_size_def)
  moreover have "int (length pools) = ?mp" using p(2) mp(1) by simp
  moreover have "\<exists>pool. thread_pool ps pools i = Some pool \<and> thread_self ps peers i = Some (pool_self pool) \<and>
       (\<forall>j \<in> {0..<?T}. thread_pool ps pools j = Some pool \<and> i \<noteq> j \<longrightarrow> pool_shared pool)" if i: "i \<in> {0..<?T}" for i
  proof -
    have m: "0 \<le> mempool_index ps k" "mempool_index ps k < ?mp" for k
      using mp(1) by (simp_all add: mempool_index_def)
    have tp: "thread_pool ps pools k = Some (pools ! nat (mempool_index ps k))" for k
      using m [of k] \<open>int (length pools) = ?mp\<close> by (simp add: thread_pool_def)
    obtain x where x: "pools ! nat (mempool_index ps i) = ?pool x" "thread_self ps peers i = Some x"
      using at [of "nat (mempool_index ps i)"] m [of i] by (auto simp: thread_self_def)
    have "?mp \<noteq> ?T" if j: "j \<in> {0..<?T}" "thread_pool ps pools j = Some (?pool x)" "i \<noteq> j" for j
    proof
      assume e: "?mp = ?T"
      have m': "mempool_index ps i = i" "mempool_index ps j = j" and lt: "nat i < nat ?mp" "nat j < nat ?mp"
        using i j(1) e by (simp_all add: mempool_index_def)
      have "Some (pools ! nat j) = Some (?pool x)" using tp [of j] j(2) unfolding m' by (rule trans [OF sym])
      then have "pools ! nat i = pools ! nat j" using x(1) unfolding m' option.inject by (rule trans [OF _ sym, rotated])
      then have "peer_id (pool_self (pools ! nat i)) = peer_id (pool_self (pools ! nat j))" by (rule arg_cong)
      then have "nat i = nat j" unfolding ids [OF lt(1)] ids [OF lt(2)] by (rule add_left_imp_eq)
      then show False using i j by (simp add: eq_nat_nat_iff)
    qed
    then have "\<forall>j \<in> {0..<?T}. thread_pool ps pools j = Some (?pool x) \<and> i \<noteq> j \<longrightarrow> pool_shared (?pool x)"
      unfolding Pool.simps by blast
    moreover have "thread_pool ps pools i = Some (?pool x)" using x(1) tp [of i] by (simp only:)
    ultimately show ?thesis using x(2) by (intro exI [of _ "?pool x"]) simp
  qed
  ultimately show ?thesis by blast
qed

theorem pools_match_threads_witness:
  "\<exists>pools. make_pools (\<lambda>_ _ _. None :: unit option) 22 (sample_params 10 4 16 0) sample_peers = Some (Inr pools) \<and>
     int (length pools) = memory_pools (sample_params 10 4 16 0)"
  using pools_match_threads [OF sample_laid_out, of 22 "\<lambda>_ _ _. None :: unit option"] by auto

section \<open>The server runs where the clients look for it\<close>

lemma digit_not_0: "0 < d \<Longrightarrow> d < 10 \<Longrightarrow> char_of (48 + d :: nat) \<noteq> CHR ''0''"
proof
  assume d: "0 < d" "d < 10" and "char_of (48 + d) = CHR ''0''"
  from this(3) have "(of_char (char_of (48 + d :: nat)) :: nat) = of_char (CHR ''0'')" by (rule arg_cong)
  then show False using d by simp
qed

lemma digits_Cons: "0 < x \<Longrightarrow> x < 10 ^ n \<Longrightarrow> \<exists>d ds. digits n x = d # ds \<and> d \<noteq> CHR ''0''"
proof (induction n arbitrary: x)
  case (Suc n)
  show ?case
  proof (cases "x < 10")
    case True
    then show ?thesis using digit_not_0 [of x] Suc.prems(1) by simp
  next
    case False
    then have "0 < x div 10" "x div 10 < 10 ^ n" using Suc.prems(2) by (simp_all add: div_less_iff_less_mult mult.commute)
    from Suc.IH [OF this] show ?thesis using False by auto
  qed
qed simp

text \<open>Clients connect to the address of peer 0, the node \<^verbatim>\<open>node0\<close>; of the nodes named like peers it alone starts a server.\<close>

lemma server_on_node0:
  assumes "0 \<le> n" "n < 10 ^ 20"
  shows "starts_server (''node'' @ to_string n) \<longleftrightarrow> n = 0"
proof (cases "n = 0")
  case True
  have "digits 20 0 = ''0''" using digits.simps(2) [of 19 0] by (simp add: char_of_def bit_0)
  then show ?thesis using True by (simp add: starts_server_def to_string_def)
next
  case False
  then have "0 < nat n" "nat n < 10 ^ 20" using assms by (simp_all add: nat_less_iff)
  from digits_Cons [OF this] show ?thesis using False assms(1) by (auto simp: starts_server_def to_string_def)
qed

text \<open>The total is right as long as it fits into an \<^verbatim>\<open>int\<close>; beyond that it wraps around.\<close>

lemma total_loop_sum: "total_loop t results = t + word_of_int (\<Sum>x \<leftarrow> results. uint x)"
proof (induction results arbitrary: t)
  case (Cons x results)
  have "(ucast (scast t + x :: uint64) :: cint) = t + word_of_int (uint x)"
  proof transfer
    fix t x :: int
    have "take_bit 32 (signed_take_bit 31 t + x) = take_bit 32 (take_bit 32 (signed_take_bit 31 t) + take_bit 32 x)"
      by (simp only: take_bit_add)
    also have "\<dots> = take_bit 32 (take_bit 32 t + take_bit 32 (take_bit 64 x))"
      by (simp add: take_bit_signed_take_bit)
    also have "\<dots> = take_bit 32 (t + take_bit 64 x)" by (simp only: take_bit_add)
    finally show "take_bit LENGTH(32) (take_bit LENGTH(64) (signed_take_bit (LENGTH(32) - Suc 0) t + x)) =
        take_bit LENGTH(32) (t + take_bit LENGTH(64) x)" by simp
  qed
  then show ?case using Cons by (simp add: add.assoc)
qed simp

lemma total_ops_wraps:
  "uint (total_ops results) = (\<Sum>x \<leftarrow> results. uint x) mod 2 ^ 32"
  by (simp add: total_ops_def total_loop_sum uint_word_of_int)

end
