(* ===== verification/Main_Tables.thy ===== *)
theory Main_Tables
  imports Main_Program Iht_Correct
begin

text \<open>
  How the threads of an experiment come to share one interlocked table (\<^verbatim>\<open>main.cc\<close>): the thread that speaks as the host
  makes it in the memory of the pools and sends its address, every other thread takes the address from
  its connection.
\<close>

section \<open>The table of a thread\<close>

text \<open>\<^verbatim>\<open>IHT iht = IHT(self, pool)\<close>; \<^verbatim>\<open>root\<close> is not initialised.  The warnings about sizes are log lines.\<close>

definition IHT_new :: "remote_ptr \<Rightarrow> Peer \<Rightarrow> remote_ptr \<Rightarrow> RdmaIHT" where
  "IHT_new nul self uninitialised_root = deployed nul (peer_id self) uninitialised_root"

text \<open>
  What a client thread of process \<open>p\<close> does before it makes its client.  It works on the connections
  (\<open>s\<close>) and on the memory of the pools (\<open>h\<close>); \<open>None\<close> is a thread that waits for a message or goes wrong.
\<close>

definition thread_table :: "('p, iht_cell) rome \<Rightarrow> 'w os \<Rightarrow> nat \<Rightarrow> nat \<Rightarrow> EndpointContext \<Rightarrow> Peer \<Rightarrow> Peer \<Rightarrow> remote_ptr
    \<Rightarrow> ('a mem_scheme, 'w) sys \<times> ('p, iht_cell) heap
    \<Rightarrow> (RdmaIHT \<times> ('a mem_scheme, 'w) sys \<times> ('p, iht_cell) heap) option" where
  "thread_table R os fuel p ctx self host uninitialised_root = (\<lambda>(s, h).
     let iht = IHT_new (remote_nullptr R) self uninitialised_root in
     if peer_id self = peer_id host then
       (case run R (peer_id self) (InitAsFirst iht) h of
          Finished iht' h' \<Rightarrow>
            (case io_run os p (ExchangePointer fuel ctx self host (RdmaIHT.root iht') Ret) s of
               Returned root_ptr s' \<Rightarrow> Some (iht', s', h')
             | _ \<Rightarrow> None)
        | _ \<Rightarrow> None)
     else
       (case io_run os p (ExchangePointer fuel ctx self host (remote_nullptr R) Ret) s of
          Returned root_ptr s' \<Rightarrow> Some (InitFromPointer iht root_ptr, s', h)
        | _ \<Rightarrow> None))"

section \<open>All threads have one table\<close>

lemma deployed_fuelled: "memory_pool R ok \<Longrightarrow> iht_fuelled R ok (deployed (remote_nullptr R) n r) 24 key_range 48"
  using deployed_sizes deployed_separates
  by (intro iht_fuelled.intro iht_table.intro iht_pool.intro iht_pool_axioms.intro iht_table_axioms.intro iht_fuelled_axioms.intro)
    (simp_all add: deployed_def)

lemma deployed_simps [simp]: "self_id (deployed nul n r) = n" "RdmaIHT.root (deployed nul n r) = r"
  "(deployed nul n r)\<lparr>RdmaIHT.root := r'\<rparr> = deployed nul n r'" "nullptr (deployed nul n r) = nul"
  by (simp_all add: deployed_def)

text \<open>C22: once the thread that speaks as the host has made its table and sent the address, every thread with another peer id whose
  connection was accepted, with nothing unread on it, comes to the same table with its own identity, provided the address fits into 64 bits: the objects differ in
  \<^verbatim>\<open>self_\<close> only. Any calls then made through such objects, one after the other (not overlapping) and with keys below
  \<^verbatim>\<open>2^29\<close>, are answered as by one map that was empty.\<close>

theorem threads_share_table:
  assumes "memory_pool R ok" "ok h" "stream_os os good peer inbox" "good (world s)" "sm_self (mems s hp) = Some this"
    "obj_at (sm_objs (mems s hp)) this = Some x" "sockets_ok (peer (world s)) hp (client_sockets x)"
    "length (client_sockets x) < fuel" "peer_id self = peer_id host"
  shows "\<exists>r w h'. thread_table R os fuel hp ctx self host junk (s, h) =
      Some (deployed (remote_nullptr R) (peer_id host) r, s\<lparr>world := w\<rparr>, h') \<and>
    (address r < 2 ^ 64 \<longrightarrow>
      (\<forall>c \<in> set (client_sockets x). \<forall>p f ctx' self' junk'. peer (world s) (hp, c) = Some (p, f) \<and>
         inbox (world s) (p, f) = [] \<and> endpoint_fd (mems s p) ctx' f \<and> peer_id self' \<noteq> peer_id host \<longrightarrow>
         (\<exists>s'. thread_table R os fuel p ctx' self' host junk' (s\<lparr>world := w\<rparr>, h') =
            Some (deployed (remote_nullptr R) (peer_id self') r, s', h')))) \<and>
    (\<forall>xs. call_key ` snd ` set xs \<subseteq> key_range \<longrightarrow>
       (\<exists>h2. exec_calls (iht_exec R (deployed (remote_nullptr R) (peer_id host) r) 48) xs h' =
          Some (fst (spec_calls (map snd xs) Map.empty), h2)))"
proof -
  let ?new = "deployed (remote_nullptr R) (peer_id host) junk"
  have fuelled: "iht_fuelled R ok (deployed (remote_nullptr R) n r) 24 key_range 48" for n r
    by (rule deployed_fuelled [OF assms(1)])
  then have "iht_pool R ok ?new 24" by (simp add: iht_fuelled_def iht_table_def)
  from iht_pool.init_state [OF this assms(2), of key_range]
  obtain r h' where t: "run R (peer_id host) (InitAsFirst ?new) h = Finished (deployed (remote_nullptr R) (peer_id host) r) h'"
    "ok h'" "ptr_id r = peer_id host" "iht_state (deployed (remote_nullptr R) (peer_id host) r) 24 key_range h' Map.empty"
    by (auto simp: wp_def is_local_def)
  let ?r = "deployed (remote_nullptr R) (peer_id host) r"
  have r: "Remote (peer_id host) (address r) = r" using t(3) by (cases r) simp
  have host: "thread_table R os fuel hp ctx self host junk (s, h) = Some (?r, s\<lparr>world := w\<rparr>, h')"
    if "io_run os hp (ExchangePointer fuel ctx self host r Ret) s = Returned r (s\<lparr>world := w\<rparr>)" for w
    using that t(1) by (simp add: thread_table_def IHT_new_def assms(9))
  have other: "thread_table R os fuel p ctx' self' host junk' (s', h') = Some (deployed (remote_nullptr R) (peer_id self') r, s'', h')"
    if "io_run os p (ExchangePointer fuel ctx' self' host (remote_nullptr R) Ret) s' = Returned r s''" "peer_id self' \<noteq> peer_id host"
    for p ctx' self' junk' s' s''
    using that by (simp add: thread_table_def IHT_new_def InitFromPointer_def)
  have calls: "\<exists>h2. exec_calls (iht_exec R ?r 48) xs h' = Some (fst (spec_calls (map snd xs) Map.empty), h2)"
    if "call_key ` snd ` set xs \<subseteq> key_range" for xs
    using iht_fuelled.calls_state [OF fuelled t(2,4) that] by blast
  show ?thesis
  proof (cases "address r < 2 ^ 64")
    case True
    from exchange_agrees [OF assms(3-9) True, of ctx "remote_nullptr R", unfolded r]
    obtain w where w: "io_run os hp (ExchangePointer fuel ctx self host r Ret) s = Returned r (s\<lparr>world := w\<rparr>)"
      "\<And>c p f ctx' self'. c \<in> set (client_sockets x) \<Longrightarrow> peer (world s) (hp, c) = Some (p, f) \<Longrightarrow> inbox (world s) (p, f) = [] \<Longrightarrow>
         endpoint_fd (mems s p) ctx' f \<Longrightarrow> peer_id self' \<noteq> peer_id host \<Longrightarrow>
         \<exists>s'. io_run os p (ExchangePointer fuel ctx' self' host (remote_nullptr R) Ret) (s\<lparr>world := w\<rparr>) = Returned r s'" by blast
    have "\<exists>s'. thread_table R os fuel p ctx' self' host junk' (s\<lparr>world := w\<rparr>, h') = Some (deployed (remote_nullptr R) (peer_id self') r, s', h')"
      if "c \<in> set (client_sockets x)" "peer (world s) (hp, c) = Some (p, f) \<and> inbox (world s) (p, f) = [] \<and>
        endpoint_fd (mems s p) ctx' f \<and> peer_id self' \<noteq> peer_id host" for c p f ctx' self' junk'
      using w(2) that other by blast
    then show ?thesis using host [OF w(1)] calls by (intro exI [of _ r] exI [of _ w] exI [of _ h'] conjI) blast+
  next
    case False
    from stream_os.exchange_host [OF assms(3-9), of ctx r Ret]
    obtain w where "io_run os hp (ExchangePointer fuel ctx self host r Ret) s = Returned r (s\<lparr>world := w\<rparr>)" by auto
    from host [OF this] False calls show ?thesis by (intro exI [of _ r] exI [of _ w] exI [of _ h'] conjI) blast+
  qed
qed

text \<open>In the executable library the first table is at address 1 of its node.\<close>

lemma init_buckets_ends: "run R n (init_buckets c p i j k) h = Finished v h' \<Longrightarrow> \<exists>h1. run R n k h1 = Finished v h'"
proof (induction c p i j k arbitrary: h rule: init_buckets.induct)
  case (2 c p i j k)
  then show ?case
    by (auto simp: load_ptr_def split: prod.splits if_splits option.splits iht_cell.splits)
qed auto

lemma first_table:
  assumes "run bump_rome n (InitAsFirst c) bump_empty = Finished c' h'"
  shows "RdmaIHT.root c' = Remote n 1"
proof -
  obtain p h where p: "rome_allocate bump_rome n (PList_t c) 1 bump_empty = (p, h)" by fastforce
  then have "p = Remote n 1" by (simp add: bump_rome_def bump_place_def bump_empty_def Let_def)
  moreover have "RdmaIHT.root c' = p"
    using assms p by (auto simp: InitAsFirst_def InitPList_def split: if_splits dest!: init_buckets_ends)
  ultimately show ?thesis by simp
qed

theorem threads_share_table_witness:
  "\<exists>w h' s'. thread_table bump_rome loop_os 3 0 (EndpointContext_new 0) (node_peer 0) (node_peer 0) (Remote 5 5) (two_nodes [5, 7], bump_empty) =
      Some (deployed (Remote 0 0) 0 (Remote 0 1), two_nodes [5, 7]\<lparr>world := w\<rparr>, h') \<and>
    thread_table bump_rome loop_os 3 1 (EndpointContext_new 0) (node_peer 1) (node_peer 0) (Remote 5 5)
        (two_nodes [5, 7]\<lparr>world := w\<rparr>, h') = Some (deployed (Remote 0 0) 1 (Remote 0 1), s', h') \<and>
    (\<exists>h2. exec_calls (iht_exec bump_rome (deployed (Remote 0 0) 0 (Remote 0 1)) 48)
        [(0, Insert 5 10), (1, Contains 5), (1, Remove 5), (0, Contains 5)] h' =
       Some ([ht_res TRUE_STATE 0, ht_res TRUE_STATE 10, ht_res TRUE_STATE 10, ht_res FALSE_STATE 0], h2))"
proof -
  let ?s = "two_nodes [5, 7]" and ?calls = "[(0, Insert 5 10), (1, Contains 5), (1, Remove 5), (0, Contains 5)] :: (nat \<times> call) list"
  have nul: "remote_nullptr (bump_rome :: (nat, iht_cell) rome) = Remote 0 0" by (simp add: bump_rome_def)
  have socks: "sockets_ok (net_peer (world ?s)) 0 [5, 7]" by (rule two_nodes_facts(4)) simp_all
  note t = threads_share_table [OF bump.memory_pool_axioms bump_ok_empty loop.stream_os_axioms two_nodes_facts(1-3), of "[5, 7]" 3
      "node_peer 0" "node_peer 0" "EndpointContext_new 0" "Remote 5 5", unfolded nul peer_id_node_peer]
  from t [OF _ _ refl] socks obtain r w h' where
    h: "thread_table bump_rome loop_os 3 0 (EndpointContext_new 0) (node_peer 0) (node_peer 0) (Remote 5 5) (?s, bump_empty) =
      Some (deployed (Remote 0 0) 0 r, ?s\<lparr>world := w\<rparr>, h')"
    and o: "address r < 2 ^ 64 \<Longrightarrow> \<forall>c \<in> set [5, 7]. \<forall>p f ctx' self' junk'. net_peer (world ?s) (0, c) = Some (p, f) \<and>
         net_inbox (world ?s) (p, f) = [] \<and> endpoint_fd (mems ?s p) ctx' f \<and> peer_id self' \<noteq> 0 \<longrightarrow>
         (\<exists>s'. thread_table bump_rome loop_os 3 p ctx' self' (node_peer 0) junk' (?s\<lparr>world := w\<rparr>, h') =
            Some (deployed (Remote 0 0) (peer_id self') r, s', h'))"
    and c: "\<And>xs. call_key ` snd ` set xs \<subseteq> key_range \<Longrightarrow>
       \<exists>h2. exec_calls (iht_exec bump_rome (deployed (Remote 0 0) 0 r) 48) xs h' = Some (fst (spec_calls (map snd xs) Map.empty), h2)"
    by auto
  have r: "r = Remote 0 1"
    using h first_table [of 0 "IHT_new (Remote 0 0) (node_peer 0) (Remote 5 5)"]
    by (auto simp: thread_table_def nul Let_def split: outcome.splits io_outcome.splits)
  have "\<exists>s'. thread_table bump_rome loop_os 3 1 (EndpointContext_new 0) (node_peer 1) (node_peer 0) (Remote 5 5)
        (?s\<lparr>world := w\<rparr>, h') = Some (deployed (Remote 0 0) 1 r, s', h')"
    using o [rule_format, of 7 1 6 "EndpointContext_new 0" "node_peer 1" "Remote 5 5"] two_nodes_facts(5,9,10) [of "[5, 7]"]
    by (auto simp: r)
  moreover have "call_key ` snd ` set ?calls \<subseteq> key_range" by (simp add: key_range_def)
  from c [OF this] have "\<exists>h2. exec_calls (iht_exec bump_rome (deployed (Remote 0 0) 0 r) 48) ?calls h' =
       Some ([ht_res TRUE_STATE 0, ht_res TRUE_STATE 10, ht_res TRUE_STATE 10, ht_res FALSE_STATE 0], h2)"
    by (simp add: spec_insert_def spec_contains_def spec_remove_def)
  ultimately show ?thesis using h unfolding r by blast
qed

end
