(* ===== verification/Spec2Isabelle.thy ===== *)
theory Spec2Isabelle
  imports Client_Overlap Structures_Agree Hashtable_Clients Hashtable_Print Test_Map Client_Tests Shutdown Main_Pools Main_Tables
begin

text \<open>
  \<^bold>\<open>A verification of the RDMA interlocked hash table (rdma_iht).\<close>

  \<^bold>\<open>The program.\<close>  Several nodes share a map in memory that each can read and write on the others by
  RDMA verbs.  \<^verbatim>\<open>structures/iht_ds.h\<close> is the map: a tree of pointer lists with a lock per bucket,
  whose leaves are element lists of seven pairs.  \<^verbatim>\<open>structures/hashtable.h\<close> is a chained alternative
  over \<^verbatim>\<open>structures/linked_set.h\<close>, \<^verbatim>\<open>structures/test_map.h\<close> a stand-in that measures reads.  \<^verbatim>\<open>main.cc\<close> lays an experiment out: peers, memory pools, one TCP
  endpoint per thread (\<^verbatim>\<open>tcp.h\<close>); thread 0 of the host makes the map and sends its address to the
  others (\<^verbatim>\<open>exchange_ptr.h\<close>); every thread runs a client (\<^verbatim>\<open>role_client.h\<close>) that fills the map, applies
  a random workload and checks the answers; the server thread (\<^verbatim>\<open>role_server.h\<close>) waits for all
  clients and lets them go.

  \<^bold>\<open>The theories.\<close>

  \<^item> \<open>Prelude\<close>: machine types, memory contents (\<open>holds\<close>), the collections of proof rules.
  \<^item> \<open>Common\<close>: \<^verbatim>\<open>common.h\<close>, and the abstract map in the vocabulary of \<open>HT_Res\<close> (\<open>spec_contains\<close>,
    \<open>spec_insert\<close>, \<open>spec_remove\<close>).
  \<^item> \<open>Rome\<close>: the interface to the RDMA library, which the sources only call.  Operations are trees of
    verbs (\<open>prog\<close>) with a sequential meaning (\<open>run\<close>), an interleaved one (\<open>step\<close>, \<open>schedule\<close>) and a
    total-correctness predicate \<open>wp\<close>.  The library is a parameter; the locale \<open>memory_pool\<close> says what
    the sources rely on, \<open>bump_rome\<close> is an executable library that satisfies it.  \<open>Bump_Eval\<close> has the
    rewrite rules that evaluate programs and schedules on it.
  \<^item> \<open>Map_Contract\<close>: the locale \<open>ht_map\<close>, what a table promises to its callers; the facts of the callers
    are proved from it.
  \<^item> \<open>Iht\<close>: \<^verbatim>\<open>iht_ds.h\<close>, every method.  A C++ loop that may spin takes fuel; the correctness theorems give
    the fuel that is enough (the depth of the tree plus the rehashes a call can cause), so that they
    state that the call returns.  \<open>Iht_Tree\<close> describes the tree in memory, \<open>Iht_Proc\<close> the private
    methods, \<open>Iht_Levels\<close> the descent, \<open>Iht_Correct\<close> the public methods: each acts as the operation of
    the abstract map, on every branch, and so do all sequences of calls by all nodes.  \<open>Iht_Race\<close> shows
    what overlapping calls can do: an insertion is lost, because the base pointer of a bucket is
    read before its lock is taken.
  \<^item> \<open>Iht_Paths\<close>, \<open>Iht_Walk\<close>, \<open>Iht_Concurrent\<close>, \<open>Iht_Linear\<close>: what overlapping calls of the tree cannot do.  As long as
    the table has room for all keys inserted (\<open>roomy\<close>: the path of each ends at an element list that could hold them), the pointer lists stay as they are, so a call may work on old copies of
    them; the calls keep to the protocol of \<open>Lock_Protocol\<close>, with the bucket at the end of a path as
    the object, and are linearizable, never stuck, and leave the memory well typed at every moment.  \<open>Iht_Paths\<close> has the ends of the
    paths and splits the memory of the tree by them, \<open>Iht_Walk\<close> the descent beside moving calls.
  \<^item> \<open>Linked_Set\<close>, \<open>Linked_Set_Correct\<close>: \<^verbatim>\<open>linked_set.h\<close>.  The methods act as map operations on chains whose
    nodes but the last are full; after a removal \<open>insert\<close> can store a key twice.
  \<^item> \<open>Hashtable\<close>, \<open>Hashtable_Correct\<close>, \<open>Hashtable_Rehash\<close>: \<^verbatim>\<open>hashtable.h\<close>.  The table refines a map while
    its buckets stay in their first node; \<open>Init\<close> sends the address of the root in a message that the peers decode; \<open>try_rehash\<close> keeps the map when nothing runs beside it, and
    shows an empty table to others half way through.
    \<open>Hashtable_Print\<close> gives what \<^verbatim>\<open>print\<close> logs.
  \<^item> \<open>Lock_Protocol\<close>, \<open>Hashtable_Concurrent\<close>: calls of the chained table that overlap in time.  \<open>Lock_Protocol\<close>
    is about any objects behind locks: if each call reads only what does not change and makes and frees copies of it until it has its
    lock (\<open>spinning\<close>), then works on its object and memory of its own (\<open>locked\<close>), and after giving the
    lock back only frees (\<open>leaving\<close>), then in the locale \<open>locked_objects\<close> every interleaving of the
    verbs is linearizable (\<open>linearization\<close>: one order of the calls, of which every cut of the schedule has a prefix)
    and the calls never block each other for good.  \<open>Hashtable_Concurrent\<close> shows that the
    methods of \<^verbatim>\<open>linked_set.h\<close> behind \<^verbatim>\<open>hashtable.h\<close> keep to this.
  \<^item> \<open>Lock_Clients\<close>: whole clients that overlap, each a tree (\<open>user\<close>) of calls and what it does with their answers.
    By a simulation over the invariant of \<open>Lock_Protocol\<close> they cannot tell an interleaving of verbs from one of whole
    calls (\<open>atomically\<close>), and all of them come to their ends.  \<open>Client_Calls\<close> has the client of \<^verbatim>\<open>role_client.h\<close> in this form,
    proved to be the one of \<open>Client\<close> when it is alone; \<open>Client_Overlap\<close> and \<open>Hashtable_Clients\<close> put it on the two
    tables: as long as the buckets have room from the start, no assertion fails however the clients interleave.
  \<^item> \<open>Structures_Agree\<close>: the two tables answer alike.
  \<^item> \<open>Test_Map\<close>: \<^verbatim>\<open>test_map.h\<close>, whose answers do not depend on what was inserted.
  \<^item> \<open>Posix\<close>: system calls as a tree (\<open>io\<close>) over shared memory of a process, sequential and interleaved;
    the locale \<open>stream_os\<close> is what is used of TCP, \<open>loop_os\<close> an executable instance.
  \<^item> \<open>Tcp\<close>, \<open>Tcp_Correct\<close>, \<open>Exchange_Ptr\<close>: \<^verbatim>\<open>tcp.h\<close> and \<^verbatim>\<open>exchange_ptr.h\<close>.  Messages survive transfer, broadcast
    and collection reach every accepted client in order, the endpoint table stays well formed, and
    what happens with late connections and concurrent first calls.
  \<^item> \<open>Workload\<close>: rounding of doubles as the locale \<open>doubles\<close>, the draws of keys, \<^verbatim>\<open>populate\<close>.
  \<^item> \<open>Client\<close>, \<open>Client_Correct\<close>, \<open>Client_Tests\<close>: \<^verbatim>\<open>role_client.h\<close> over any table that meets \<open>ht_map\<close>: no
    assertion fails and no call is lost, of as many operations as the driver hands over before it is stopped; what the built-in tests call and report.
  \<^item> \<open>Server\<close>: \<^verbatim>\<open>role_server.h\<close> and \<^verbatim>\<open>Client::Stop\<close>, who waits for whom.
  \<^item> \<open>Shutdown\<close>: all threads and the server as a step relation over the events of \<^verbatim>\<open>Client::Run\<close>,
    \<^verbatim>\<open>Client::Stop\<close> and \<^verbatim>\<open>Server::Launch\<close>; an inductive invariant, no deadlock, the exact number of moves to the end under a fair
    scheduler, and that no client leaves before all are done.
  \<^item> \<open>Main_Program\<close>: \<^verbatim>\<open>main.cc\<close> and \<^verbatim>\<open>context_manager.h\<close>: pools, peers, which threads create a table, the
    accept loop and the exit handler.  \<open>Main_Pools\<close>: the pools and threads that are started, and
    the total at the end.  \<open>Main_Tables\<close> composes the table, the exchange of its address and the roles of the threads:
    all of them come to one table.

  \<^bold>\<open>Correspondence.\<close>  Structures are records with the fields of the source, unions of cell contents are
  datatypes, integers keep their width where they can wrap (\<open>uint64\<close>, 16-bit counters) and an overflow
  of \<^verbatim>\<open>int\<close>, a dereference of memory that is not there and an index out of range are explicit faults.
  Continuations follow the order of the statements.  Uninitialised locals are parameters.

  \<^bold>\<open>Bounds.\<close>  A table of pointer lists doubles with each level, and the sizes are \<^verbatim>\<open>int\<close>s: the theorems
  about the tree are for depths at which they do not overflow.  The chained table is used as a map
  only for keys that hash to at most seven per bucket.  Fuel bounds the spinning on a lock as well;
  in a sequence of calls a lock is free when a call begins, so one attempt is enough; among
  overlapping calls a call that has used up its fuel is one that is still spinning, and the
  theorems say what the others may rely on.

  \<^bold>\<open>Not modelled.\<close>  The RDMA library, the operating system, the workload driver with its rate controller
  and statistics, flags, protocol buffers and the result file are code the repository only calls.
  Log lines, pauses and clocks are left out unless they are a result, as in the built-in test.
  \<^verbatim>\<open>test_map2.h\<close> uses members of classes that do not have them and is not modelled; the scripts are
  left out.  The theorems on overlapping calls of the tree leave out
  insertions that make an element list or rehash one, since those can lose updates; those on overlapping calls of the chained table leave out
  \<^verbatim>\<open>try_rehash\<close>, which shows an empty table to a call that overlaps it.
\<close>

end
